(* ===== verification/Prelude.thy ===== *)
theory Prelude
  imports Main "HOL-Library.Monad_Syntax" "HOL-Library.Word"
begin

text \<open>
  Shared vocabulary of the development: the byte and string types, the first-match table scan that
  the C sources write as \<open>for (i = 0; i < N; i++) if (...)\<close>, and the list facts that the
  components use.  Nothing here models a line of the repository; everything is generic.

  \<^item> \<open>bytes\<close>: a C buffer of \<open>char\<close>/\<open>unsigned char\<close>; Isabelle's \<^typ>\<open>char\<close> is exactly an octet.
  \<^item> \<open>find_idx P xs\<close>: the index of the first table entry satisfying \<open>P\<close>, as the table scans of
    the sources compute it.
\<close>

type_synonym bytes = "char list"

named_theorems scan_simps \<open>facts on first-match table scans\<close>
named_theorems world_simps \<open>what each library call leaves unchanged\<close>

section \<open>First-match scans\<close>

fun find_idx :: "('a \<Rightarrow> bool) \<Rightarrow> 'a list \<Rightarrow> nat option" where
  "find_idx P [] = None"
| "find_idx P (x # xs) = (if P x then Some 0 else map_option Suc (find_idx P xs))"

lemma find_idx_None_iff [scan_simps]: "find_idx P xs = None \<longleftrightarrow> (\<forall>x\<in>set xs. \<not> P x)"
  by (induction xs) auto

lemma find_idx_SomeD:
  "find_idx P xs = Some i \<Longrightarrow> i < length xs \<and> P (xs ! i) \<and> (\<forall>j<i. \<not> P (xs ! j))"
proof (induction xs arbitrary: i)
  case Nil
  then show ?case by simp
next
  case (Cons x xs)
  show ?case
  proof (cases "P x")
    case True
    with Cons.prems show ?thesis by simp
  next
    case False
    with Cons.prems obtain k where "find_idx P xs = Some k" "i = Suc k" by auto
    with Cons.IH False show ?thesis by (auto simp: less_Suc_eq_0_disj)
  qed
qed

lemma find_idx_less: "find_idx P xs = Some i \<Longrightarrow> i < length xs"
  by (simp add: find_idx_SomeD)

lemma find_idx_holds: "find_idx P xs = Some i \<Longrightarrow> P (xs ! i)"
  by (simp add: find_idx_SomeD)

lemma find_idx_first: "find_idx P xs = Some i \<Longrightarrow> j < i \<Longrightarrow> \<not> P (xs ! j)"
  by (simp add: find_idx_SomeD)

lemma find_idx_SomeI:
  "i < length xs \<Longrightarrow> P (xs ! i) \<Longrightarrow> (\<And>j. j < i \<Longrightarrow> \<not> P (xs ! j)) \<Longrightarrow> find_idx P xs = Some i"
proof (induction xs arbitrary: i)
  case Nil
  then show ?case by simp
next
  case (Cons x xs)
  show ?case
  proof (cases i)
    case 0
    with Cons.prems show ?thesis by simp
  next
    case (Suc k)
    have "\<not> P x" using Cons.prems(3) [of 0] Suc by simp
    moreover have "find_idx P xs = Some k"
    proof (rule Cons.IH)
      show "k < length xs" "P (xs ! k)" using Cons.prems Suc by simp_all
      show "\<And>j. j < k \<Longrightarrow> \<not> P (xs ! j)" using Cons.prems(3) Suc by fastforce
    qed
    ultimately show ?thesis using Suc by simp
  qed
qed

lemma find_idx_Some_iff:
  "find_idx P xs = Some i \<longleftrightarrow> i < length xs \<and> P (xs ! i) \<and> (\<forall>j<i. \<not> P (xs ! j))"
  using find_idx_SomeD find_idx_SomeI by metis

lemma find_idx_unique:
  assumes "i < length xs" and "P (xs ! i)"
    and "\<And>j. j < length xs \<Longrightarrow> P (xs ! j) \<Longrightarrow> j = i"
  shows "find_idx P xs = Some i"
proof (rule find_idx_SomeI)
  show "i < length xs" "P (xs ! i)" by fact+
next
  fix j
  assume "j < i"
  moreover from this assms(1) have "j < length xs" by simp
  ultimately show "\<not> P (xs ! j)" using assms(3) by blast
qed

lemma find_idx_exists: "x \<in> set xs \<Longrightarrow> P x \<Longrightarrow> \<exists>i. find_idx P xs = Some i"
  by (metis find_idx_None_iff option.exhaust)

section \<open>Counting in tables\<close>

definition count_where :: "('a \<Rightarrow> bool) \<Rightarrow> 'a list \<Rightarrow> nat" where
  "count_where P xs = length (filter P xs)"

lemma count_where_simps [simp]:
  "count_where P [] = 0"
  "count_where P (x # xs) = (if P x then Suc (count_where P xs) else count_where P xs)"
  by (simp_all add: count_where_def)

lemma count_where_le: "count_where P xs \<le> length xs"
  by (simp add: count_where_def)

lemma count_where_update:
  "i < length xs \<Longrightarrow>
   count_where P (xs[i := y]) + (if P (xs ! i) then 1 else 0) = count_where P xs + (if P y then 1 else 0)"
proof (induction xs arbitrary: i)
  case Nil
  then show ?case by simp
next
  case (Cons x xs)
  show ?case
  proof (cases i)
    case 0
    then show ?thesis by simp
  next
    case (Suc k)
    with Cons show ?thesis by simp
  qed
qed

lemma count_where_full: "count_where P xs = length xs \<longleftrightarrow> (\<forall>x\<in>set xs. P x)"
  by (simp add: count_where_def) (metis filter_id_conv length_filter_less order_less_irrefl)

lemma count_where_less_find:
  "count_where P xs < length xs \<Longrightarrow> \<exists>i. find_idx (\<lambda>x. \<not> P x) xs = Some i"
  by (metis count_where_full find_idx_exists less_irrefl_nat)

section \<open>Lists\<close>

lemma take_append_drop_length: "take k xs @ drop (length (take k xs)) xs = xs"
  by (cases "k \<le> length xs") auto

lemma length_take_le: "k \<le> n \<Longrightarrow> length (take k xs) \<le> n"
  by simp

lemma take_drop_chunk: "take k xs @ take m (drop k xs) = take (k + m) xs"
  by (simp add: take_add)

section \<open>Outcomes\<close>

text \<open>
  What a fallible computation guarantees of its result.  \<open>outcome True m Q\<close>: if \<open>m\<close> returns, its result
  satisfies \<open>Q\<close>; \<open>outcome False m Q\<close>: \<open>m\<close> returns, and its result satisfies \<open>Q\<close>.  The flag lets
  one proof serve both readings.
\<close>

definition outcome :: "bool \<Rightarrow> 'a option \<Rightarrow> ('a \<Rightarrow> bool) \<Rightarrow> bool" where
  "outcome b m Q = (case m of None \<Rightarrow> b | Some x \<Rightarrow> Q x)"

lemma outcome_Some [simp]: "outcome b (Some x) Q = Q x"
  by (simp add: outcome_def)

lemma outcome_None [simp]: "outcome b None Q = b"
  by (simp add: outcome_def)

lemma outcome_bind: "outcome b (Option.bind m f) Q = outcome b m (\<lambda>x. outcome b (f x) Q)"
  by (cases m) simp_all

lemma outcome_mono: "outcome b m Q \<Longrightarrow> (\<And>x. Q x \<Longrightarrow> Q' x) \<Longrightarrow> outcome b m Q'"
  by (cases m) simp_all

lemma outcome_bindI: "outcome b m P \<Longrightarrow> (\<And>x. P x \<Longrightarrow> outcome b (f x) Q) \<Longrightarrow> outcome b (Option.bind m f) Q"
  by (cases m) simp_all

lemma outcome_weak: "outcome False m Q \<Longrightarrow> outcome b m Q"
  by (cases m) simp_all

lemma outcome_iff: "outcome False m Q \<longleftrightarrow> (\<exists>x. m = Some x \<and> Q x)" "outcome True m Q \<longleftrightarrow> (\<forall>x. m = Some x \<longrightarrow> Q x)"
  by (cases m; simp)+

end
