(* ===== verification/CLib.thy ===== *)
theory CLib
  imports Prelude "HOL-Library.Char_ord" "HOL-Library.List_Lexorder"
begin

text \<open>
  The functions of the C standard library the file server calls on strings and numbers:
  \<open>strcmp\<close>, \<open>strcasecmp\<close>, \<open>strstr\<close>, \<open>strtol\<close> in base 10, \<open>snprintf\<close> of a finished text, and
  the conversions \<open>%zu\<close>, \<open>%lld\<close> and \<open>%o\<close>.  A C string is the list of its bytes up to, and without,
  the terminating NUL; \<open>cstr\<close> reads a buffer as a C string.
\<close>

definition NUL :: char where
  "NUL = CHR 0x00"

definition cstr :: "bytes \<Rightarrow> string" where
  "cstr b = takeWhile (\<lambda>c. c \<noteq> NUL) b"

lemma cstr_id: "NUL \<notin> set s \<Longrightarrow> cstr s = s"
  unfolding cstr_def by (rule takeWhile_eq_all_conv [THEN iffD2]) auto

lemma NUL_notin_cstr [simp]: "NUL \<notin> set (cstr b)"
  by (auto simp: cstr_def dest: set_takeWhileD)

section \<open>Comparison\<close>

fun strcmp :: "string \<Rightarrow> string \<Rightarrow> int" where
  "strcmp [] [] = 0"
| "strcmp [] (d # ds) = -1"
| "strcmp (c # cs) [] = 1"
| "strcmp (c # cs) (d # ds) =
     (if c = d then strcmp cs ds else int (of_char c) - int (of_char d))"

lemma char_of_char_less: "c < d \<longleftrightarrow> (of_char c :: nat) < of_char d"
  by (simp add: less_char_def)

lemma strcmp_0_iff [simp]: "strcmp a b = 0 \<longleftrightarrow> a = b"
  by (induction a b rule: strcmp.induct) auto

lemma strcmp_neg_iff: "strcmp a b < 0 \<longleftrightarrow> a < b"
  by (induction a b rule: strcmp.induct) (auto simp: char_of_char_less)

lemma strcmp_pos_iff: "strcmp a b > 0 \<longleftrightarrow> b < a"
  by (metis linorder_less_linear order_less_asym strcmp_0_iff strcmp_neg_iff)

definition tolower :: "char \<Rightarrow> char" where
  "tolower c = (if CHR ''A'' \<le> c \<and> c \<le> CHR ''Z'' then char_of ((of_char c :: nat) + 32) else c)"

definition strcasecmp :: "string \<Rightarrow> string \<Rightarrow> int" where
  "strcasecmp a b = strcmp (map tolower a) (map tolower b)"

fun starts_with :: "string \<Rightarrow> string \<Rightarrow> bool" where
  "starts_with [] s = True"
| "starts_with (c # cs) [] = False"
| "starts_with (c # cs) (d # ds) = (c = d \<and> starts_with cs ds)"

lemma starts_with_iff: "starts_with p s \<longleftrightarrow> (\<exists>t. s = p @ t)"
  by (induction p s rule: starts_with.induct) auto

text \<open>\<open>strstr\<close> returns the suffix of the haystack where the needle first occurs.\<close>

fun strstr :: "string \<Rightarrow> string \<Rightarrow> string option" where
  "strstr [] p = (if p = [] then Some [] else None)"
| "strstr (c # cs) p = (if starts_with p (c # cs) then Some (c # cs) else strstr cs p)"

lemma strstr_None_iff: "strstr s p = None \<longleftrightarrow> (\<forall>u v. s \<noteq> u @ p @ v)"
proof (induction s)
  case Nil
  then show ?case by auto
next
  case (Cons c cs)
  have "(\<exists>u v. c # cs = u @ p @ v) \<longleftrightarrow> (\<exists>v. c # cs = p @ v) \<or> (\<exists>u v. cs = u @ p @ v)"
    by (metis append_Cons append_Nil list.sel(3) neq_Nil_conv)
  with Cons show ?case by (auto simp: starts_with_iff)
qed

section \<open>Numbers\<close>

definition isspace :: "char \<Rightarrow> bool" where
  "isspace c = (c = CHR '' '' \<or> (9 \<le> (of_char c :: nat) \<and> (of_char c :: nat) \<le> 13))"

definition isdigit :: "char \<Rightarrow> bool" where
  "isdigit c = (48 \<le> (of_char c :: nat) \<and> (of_char c :: nat) \<le> 57)"

definition digit_val :: "char \<Rightarrow> nat" where
  "digit_val c = of_char c - 48"

definition digit_chr :: "nat \<Rightarrow> char" where
  "digit_chr n = char_of (48 + n)"

fun digits_val :: "nat \<Rightarrow> string \<Rightarrow> nat" where
  "digits_val acc [] = acc"
| "digits_val acc (c # cs) = digits_val (10 * acc + digit_val c) cs"

definition LONG_MAX :: int where "LONG_MAX = 2 ^ 63 - 1"
definition LONG_MIN :: int where "LONG_MIN = - (2 ^ 63)"
definition INT_MAX :: int where "INT_MAX = 2 ^ 31 - 1"
definition INT_MIN :: int where "INT_MIN = - (2 ^ 31)"

text \<open>
  \<open>strtol(s, &end, 10)\<close>: white space, an optional sign, a maximal run of digits.  The result is
  the value, the number of bytes between \<open>s\<close> and \<open>end\<close> (0 when no conversion was performed) and
  whether \<open>errno\<close> was set to \<open>ERANGE\<close>, in which case the value is clamped.
\<close>

definition strtol :: "string \<Rightarrow> int \<times> nat \<times> bool" where
  "strtol s =
     (let s1 = dropWhile isspace s;
          neg = (s1 \<noteq> [] \<and> hd s1 = CHR ''-'');
          s2 = (if s1 \<noteq> [] \<and> (hd s1 = CHR ''-'' \<or> hd s1 = CHR ''+'') then tl s1 else s1);
          ds = takeWhile isdigit s2;
          v = (if neg then - int (digits_val 0 ds) else int (digits_val 0 ds))
      in if ds = [] then (0, 0, False)
         else if v < LONG_MIN then (LONG_MIN, length s - length (dropWhile isdigit s2), True)
         else if v > LONG_MAX then (LONG_MAX, length s - length (dropWhile isdigit s2), True)
         else (v, length s - length (dropWhile isdigit s2), False))"

text \<open>\<open>%zu\<close>/\<open>%u\<close>, \<open>%lld\<close> and \<open>%o\<close>.\<close>

fun dec :: "nat \<Rightarrow> string" where
  "dec n = (if n < 10 then [digit_chr n] else dec (n div 10) @ [digit_chr (n mod 10)])"

declare dec.simps [simp del]

definition fmt_lld :: "int \<Rightarrow> string" where
  "fmt_lld v = (if v < 0 then CHR ''-'' # dec (nat (- v)) else dec (nat v))"

fun oct :: "nat \<Rightarrow> string" where
  "oct n = (if n < 8 then [digit_chr n] else oct (n div 8) @ [digit_chr (n mod 8)])"

declare oct.simps [simp del]

text \<open>
  \<open>snprintf(out, sz, ...)\<close>, after the format has been expanded to the text \<open>s\<close>: the return value is
  the length the text needs, the buffer holds as much as fits before the NUL.
\<close>

definition snprintf :: "nat \<Rightarrow> string \<Rightarrow> int \<times> string" where
  "snprintf sz s = (int (length s), take (sz - 1) s)"

lemma digit_chr_props:
  assumes "n < 10"
  shows "isdigit (digit_chr n)" "digit_val (digit_chr n) = n"
    "(of_char (digit_chr n) :: nat) = 48 + n"
proof -
  have "(of_char (char_of (48 + n) :: char) :: nat) = (48 + n) mod 256"
    by (simp only: of_char_of)
  with assms show of: "(of_char (digit_chr n) :: nat) = 48 + n"
    unfolding digit_chr_def by simp
  from of assms show "isdigit (digit_chr n)" "digit_val (digit_chr n) = n"
    by (simp_all add: isdigit_def digit_val_def)
qed

lemma digits_val_snoc: "digits_val acc (xs @ [c]) = 10 * digits_val acc xs + digit_val c"
  by (induction xs arbitrary: acc) auto

lemma dec_nonempty [simp]: "dec n \<noteq> []"
  by (subst dec.simps) simp

lemma dec_digits: "\<forall>c\<in>set (dec n). isdigit c"
proof (induction n rule: dec.induct)
  case (1 n)
  show ?case
  proof (cases "n < 10")
    case True
    then show ?thesis by (subst dec.simps) (simp add: digit_chr_props)
  next
    case False
    with 1 show ?thesis by (subst dec.simps) (auto simp: digit_chr_props)
  qed
qed

lemma dec_val: "digits_val 0 (dec n) = n"
proof (induction n rule: dec.induct)
  case (1 n)
  show ?case
  proof (cases "n < 10")
    case True
    then show ?thesis by (subst dec.simps) (simp add: digit_chr_props)
  next
    case False
    with 1 show ?thesis
      by (subst dec.simps) (simp add: digits_val_snoc digit_chr_props)
  qed
qed

lemma isdigit_not_space: "isdigit c \<Longrightarrow> \<not> isspace c"
  by (auto simp: isdigit_def isspace_def)

lemma isdigit_not_sign: "isdigit c \<Longrightarrow> c \<noteq> CHR ''-'' \<and> c \<noteq> CHR ''+''"
  by (auto simp: isdigit_def)

lemma isdigit_not_ctl: "isdigit c \<Longrightarrow> c \<noteq> NUL \<and> c \<noteq> CHR 0x0D \<and> c \<noteq> CHR 0x0A"
  by (auto simp: isdigit_def NUL_def)

text \<open>Converting a printed number back gives the number, and consumes the whole text.\<close>

lemma strtol_dec:
  assumes "int n \<le> LONG_MAX"
  shows "strtol (dec n) = (int n, length (dec n), False)"
proof -
  obtain c cs where d: "dec n = c # cs" by (cases "dec n") auto
  have dig: "\<forall>c\<in>set (dec n). isdigit c" by (rule dec_digits)
  then have c: "isdigit c" using d by simp
  have ws: "dropWhile isspace (dec n) = dec n"
    using d c by (simp add: isdigit_not_space)
  have tw: "takeWhile isdigit (dec n) = dec n"
    by (rule takeWhile_eq_all_conv [THEN iffD2]) (rule dig)
  have dw: "dropWhile isdigit (dec n) = []"
    using dig by simp
  have sgn: "hd (dec n) \<noteq> CHR ''-''" "hd (dec n) \<noteq> CHR ''+''"
    using d c isdigit_not_sign by auto
  have "\<not> int n < LONG_MIN" by (simp add: LONG_MIN_def)
  with assms show ?thesis
    unfolding strtol_def Let_def ws using sgn by (simp add: tw dw dec_val)
qed

lemma dec_length_le: "n < 10 ^ k \<Longrightarrow> 0 < k \<Longrightarrow> length (dec n) \<le> k"
proof (induction n arbitrary: k rule: dec.induct)
  case (1 n)
  show ?case
  proof (cases "n < 10")
    case True
    with "1.prems" show ?thesis by (subst dec.simps) simp
  next
    case False
    obtain j where k: "k = Suc j" "0 < j"
    proof (cases k)
      case 0
      with "1.prems" show ?thesis by simp
    next
      case (Suc j)
      with "1.prems" False have "0 < j" by (cases j) auto
      with Suc show ?thesis by (rule that)
    qed
    have "n div 10 < 10 ^ j" using "1.prems" k by (simp add: less_mult_imp_div_less mult.commute)
    with "1.IH" False k have "length (dec (n div 10)) \<le> j" by blast
    with False k show ?thesis by (subst dec.simps) simp
  qed
qed

end
