(* ===== verification/Posix.thy ===== *)
theory Posix
  imports CLib
begin

text \<open>
  The operating system as the file server sees it: a \<open>world\<close> record with the client's socket, the
  file tree, \<open>errno\<close>, the file-lock registry and the mutexes, and one function per POSIX or C library
  call the sources make.  Each call follows its manual page; none of them is code of the repository.

  Two schedules make every outcome the manual pages allow a possible run.  A call that moves data
  (\<open>recv\<close>, \<open>send\<close>, \<open>read\<close>, \<open>write\<close>, \<open>fread\<close>) takes the next answer of \<open>xfer\<close>; any other call
  that can fail takes the next answer of \<open>ctl\<close>.  \<open>Short k\<close> moves at most \<open>k + 1\<close> bytes, \<open>Fail e\<close>
  fails with \<open>errno = e\<close>; \<open>Fail EINTR\<close> is an interrupted call.  When a schedule is used up, calls
  succeed in full.  So quantifying over worlds quantifies over every pattern of short transfers,
  interrupts and failures.

  Path resolution ignores empty and \<open>.\<close> components, as POSIX does; a path that does not start with
  a slash is relative to the working directory, the root \<open>[]\<close> of the tree.  Symbolic links and
  \<open>..\<close> are not resolved.
\<close>

datatype errcode = E0 | ENOENT | EINTR | EFBIG | ENOMEM | EINVAL | EEXIST | ENOTDIR | EISDIR
  | ENOTEMPTY | EIO | ENOSPC | EACCES | EDEADLK | ECONNRESET | EPIPE | EOTHER nat

fun strerror :: "errcode \<Rightarrow> string" where
  "strerror E0 = ''Success''"
| "strerror ENOENT = ''No such file or directory''"
| "strerror EINTR = ''Interrupted system call''"
| "strerror EFBIG = ''File too large''"
| "strerror ENOMEM = ''Cannot allocate memory''"
| "strerror EINVAL = ''Invalid argument''"
| "strerror EEXIST = ''File exists''"
| "strerror ENOTDIR = ''Not a directory''"
| "strerror EISDIR = ''Is a directory''"
| "strerror ENOTEMPTY = ''Directory not empty''"
| "strerror EIO = ''Input/output error''"
| "strerror ENOSPC = ''No space left on device''"
| "strerror EACCES = ''Permission denied''"
| "strerror EDEADLK = ''Resource deadlock avoided''"
| "strerror ECONNRESET = ''Connection reset by peer''"
| "strerror EPIPE = ''Broken pipe''"
| "strerror (EOTHER n) = ''Unknown error '' @ dec n"

datatype answer = Ok | Short nat | Fail errcode

type_synonym name = string

datatype node = Dir | File bytes

record attr =
  st_mode :: nat
  st_uid :: nat
  st_gid :: nat
  st_atime :: int
  st_mtime :: int
  st_ctime :: int

record rwlock =
  readers :: nat
  writer :: bool

record world =
  xfer :: "answer list"
  ctl :: "answer list"
  errno :: errcode
  inp :: bytes
  outp :: bytes
  fs :: "name list \<Rightarrow> node option"
  attrs :: "name list \<Rightarrow> attr"
  dirsz :: nat
  nopen :: int
  now :: string
  mutexes :: "string list"
  lockmap :: "(string \<times> rwlock) list"
  g_log_path :: string

record fh =
  fpath :: "name list"
  foff :: nat

text \<open>An idle world: nothing to receive, an empty tree, schedules used up.\<close>

definition attr0 :: attr where
  "attr0 = \<lparr>st_mode = 420, st_uid = 0, st_gid = 0, st_atime = 0, st_mtime = 0, st_ctime = 0\<rparr>"

definition world0 :: world where
  "world0 = \<lparr>xfer = [], ctl = [], errno = E0, inp = [], outp = [], fs = (\<lambda>_. None),
     attrs = (\<lambda>_. attr0), dirsz = 4096, nopen = 0, now = ''2026-01-01 00:00:00'', mutexes = [],
     lockmap = [], g_log_path = ''./operations.log''\<rparr>"

text \<open>No transfer fails other than by an interrupt; no other call fails.\<close>

definition xfer_ok :: "world \<Rightarrow> bool" where
  "xfer_ok w = (\<forall>a\<in>set (xfer w). \<forall>e. a = Fail e \<longrightarrow> e = EINTR)"

definition ctl_ok :: "world \<Rightarrow> bool" where
  "ctl_ok w = (\<forall>a\<in>set (ctl w). \<forall>e. a \<noteq> Fail e)"

definition popx :: "world \<Rightarrow> answer \<times> world" where
  "popx w = (case xfer w of [] \<Rightarrow> (Ok, w) | a # as \<Rightarrow> (a, w\<lparr>xfer := as\<rparr>))"

definition popc :: "world \<Rightarrow> answer \<times> world" where
  "popc w = (case ctl w of [] \<Rightarrow> (Ok, w) | a # as \<Rightarrow> (a, w\<lparr>ctl := as\<rparr>))"

fun limit :: "answer \<Rightarrow> nat \<Rightarrow> nat" where
  "limit (Short k) n = min n (Suc k)"
| "limit a n = n"

lemma limit_le [simp]: "limit a n \<le> n"
  by (cases a) auto

lemma limit_pos: "0 < n \<Longrightarrow> 0 < limit a n"
  by (cases a) auto

section \<open>Sockets\<close>

definition recv :: "nat \<Rightarrow> world \<Rightarrow> (int \<times> bytes) \<times> world" where
  "recv n w =
     (let (a, w) = popx w in
      case a of
        Fail e \<Rightarrow> ((-1, []), w\<lparr>errno := e\<rparr>)
      | _ \<Rightarrow> let d = take (limit a n) (inp w)
             in ((int (length d), d), w\<lparr>inp := drop (length d) (inp w)\<rparr>))"

definition send :: "bytes \<Rightarrow> world \<Rightarrow> int \<times> world" where
  "send d w =
     (let (a, w) = popx w in
      case a of
        Fail e \<Rightarrow> (-1, w\<lparr>errno := e\<rparr>)
      | _ \<Rightarrow> let d' = take (limit a (length d)) d
             in (int (length d'), w\<lparr>outp := outp w @ d'\<rparr>))"

section \<open>Memory and mutexes\<close>

definition malloc :: "world \<Rightarrow> bool \<times> world" where
  "malloc w =
     (let (a, w) = popc w in
      case a of Fail e \<Rightarrow> (False, w\<lparr>errno := ENOMEM\<rparr>) | _ \<Rightarrow> (True, w))"

lemma popc_cases:
  assumes "popc w = (a, w')"
  shows "\<exists>c. w' = w\<lparr>ctl := c\<rparr> \<and> set c \<subseteq> set (ctl w) \<and> (\<forall>e. a = Fail e \<longrightarrow> Fail e \<in> set (ctl w))"
  using assms by (intro exI [of _ "ctl w'"]) (cases "ctl w"; auto simp: popc_def)

lemma malloc_effect:
  assumes "malloc w = (b, w')"
  shows "\<exists>c e. w' = w\<lparr>ctl := c, errno := e\<rparr> \<and> set c \<subseteq> set (ctl w) \<and> (b \<or> \<not> ctl_ok w) \<and>
     (b \<longrightarrow> e = errno w)"
proof -
  obtain a v where p: "popc w = (a, v)" by (cases "popc w")
  from popc_cases [OF p] obtain c where c: "v = w\<lparr>ctl := c\<rparr>" "set c \<subseteq> set (ctl w)"
    "\<forall>e. a = Fail e \<longrightarrow> Fail e \<in> set (ctl w)" by blast
  have "(b, w') = (case a of Fail e \<Rightarrow> (False, v\<lparr>errno := ENOMEM\<rparr>) | _ \<Rightarrow> (True, v))"
    using assms p by (simp add: malloc_def)
  then show ?thesis using c
    by (cases a) (auto simp: ctl_ok_def)
qed

lemma ctl_ok_mono: "ctl_ok w \<Longrightarrow> set c \<subseteq> set (ctl w) \<Longrightarrow> ctl_ok (w\<lparr>ctl := c\<rparr>)"
  by (auto simp: ctl_ok_def)

definition mutex_lock :: "string \<Rightarrow> world \<Rightarrow> world" where
  "mutex_lock m w = w\<lparr>mutexes := m # mutexes w\<rparr>"

definition mutex_unlock :: "string \<Rightarrow> world \<Rightarrow> world" where
  "mutex_unlock m w = w\<lparr>mutexes := remove1 m (mutexes w)\<rparr>"

lemma mutex_unlock_lock [simp]: "mutexes (mutex_unlock m (w\<lparr>mutexes := m # ms\<rparr>)) = ms"
  by (simp add: mutex_unlock_def)

section \<open>The file tree\<close>

fun split_path :: "string \<Rightarrow> name list" where
  "split_path [] = [[]]"
| "split_path (c # cs) =
     (if c = CHR ''/'' then [] # split_path cs
      else case split_path cs of [] \<Rightarrow> [[c]] | p # ps \<Rightarrow> (c # p) # ps)"

definition resolve :: "string \<Rightarrow> name list" where
  "resolve s =
     (if s \<noteq> [] \<and> hd s = CHR ''/'' then [''/''] else [])
     @ filter (\<lambda>c. c \<noteq> [] \<and> c \<noteq> ''.'') (split_path s)"

text \<open>A path that ends in a slash or in \<open>.\<close> can only name a directory.\<close>

definition wants_dir :: "string \<Rightarrow> bool" where
  "wants_dir s = (last (split_path s) = [] \<or> last (split_path s) = ''.'')"

definition node_at :: "(name list \<Rightarrow> node option) \<Rightarrow> name list \<Rightarrow> node option" where
  "node_at f p = (if p = [] \<or> p = [''/''] then Some Dir else f p)"

text \<open>The error of walking to the parent of \<open>p\<close>, if any.\<close>

definition walk_err :: "(name list \<Rightarrow> node option) \<Rightarrow> name list \<Rightarrow> errcode option" where
  "walk_err f p =
     (case find (\<lambda>q. node_at f q \<noteq> Some Dir) (map (\<lambda>k. take k p) [0..<length p]) of
        None \<Rightarrow> None
      | Some q \<Rightarrow> (case node_at f q of None \<Rightarrow> Some ENOENT | Some _ \<Rightarrow> Some ENOTDIR))"

lemma walk_err_None_iff: "walk_err f p = None \<longleftrightarrow> (\<forall>k<length p. node_at f (take k p) = Some Dir)"
proof -
  have "walk_err f p = None \<longleftrightarrow>
    find (\<lambda>q. node_at f q \<noteq> Some Dir) (map (\<lambda>k. take k p) [0..<length p]) = None"
    by (auto simp: walk_err_def split: option.splits)
  also have "\<dots> \<longleftrightarrow> (\<forall>k<length p. node_at f (take k p) = Some Dir)"
    by (auto simp: find_None_iff)
  finally show ?thesis .
qed

definition fails :: "errcode \<Rightarrow> world \<Rightarrow> world" where
  "fails e w = w\<lparr>errno := e\<rparr>"

text \<open>\<open>open(s, O_RDONLY)\<close>; \<open>None\<close> is the return value -1.\<close>

definition open_rdonly :: "string \<Rightarrow> world \<Rightarrow> fh option \<times> world" where
  "open_rdonly s w =
     (let (a, w) = popc w; p = resolve s in
      case a of
        Fail e \<Rightarrow> (None, fails e w)
      | _ \<Rightarrow>
        if s = [] then (None, fails ENOENT w)
        else case walk_err (fs w) p of
          Some e \<Rightarrow> (None, fails e w)
        | None \<Rightarrow>
          (case node_at (fs w) p of
             None \<Rightarrow> (None, fails ENOENT w)
           | Some Dir \<Rightarrow> (Some \<lparr>fpath = p, foff = 0\<rparr>, w\<lparr>nopen := nopen w + 1\<rparr>)
           | Some (File _) \<Rightarrow>
               if wants_dir s then (None, fails ENOTDIR w)
               else (Some \<lparr>fpath = p, foff = 0\<rparr>, w\<lparr>nopen := nopen w + 1\<rparr>)))"

text \<open>\<open>open(s, O_WRONLY | O_CREAT | O_TRUNC, 0644)\<close>.\<close>

definition open_creat_trunc :: "string \<Rightarrow> world \<Rightarrow> fh option \<times> world" where
  "open_creat_trunc s w =
     (let (a, w) = popc w; p = resolve s in
      case a of
        Fail e \<Rightarrow> (None, fails e w)
      | _ \<Rightarrow>
        if s = [] then (None, fails ENOENT w)
        else case walk_err (fs w) p of
          Some e \<Rightarrow> (None, fails e w)
        | None \<Rightarrow>
          (case node_at (fs w) p of
             Some Dir \<Rightarrow> (None, fails EISDIR w)
           | None \<Rightarrow>
               if wants_dir s then (None, fails EISDIR w)
               else (Some \<lparr>fpath = p, foff = 0\<rparr>,
                     w\<lparr>fs := (fs w)(p \<mapsto> File []), nopen := nopen w + 1\<rparr>)
           | Some (File _) \<Rightarrow>
               if wants_dir s then (None, fails ENOTDIR w)
               else (Some \<lparr>fpath = p, foff = 0\<rparr>,
                     w\<lparr>fs := (fs w)(p \<mapsto> File []), nopen := nopen w + 1\<rparr>)))"

definition file_data :: "world \<Rightarrow> name list \<Rightarrow> bytes" where
  "file_data w p = (case fs w p of Some (File c) \<Rightarrow> c | _ \<Rightarrow> [])"

definition read_fd :: "fh \<Rightarrow> nat \<Rightarrow> world \<Rightarrow> (int \<times> bytes \<times> fh) \<times> world" where
  "read_fd h n w =
     (let (a, w) = popx w in
      case a of
        Fail e \<Rightarrow> ((-1, [], h), fails e w)
      | _ \<Rightarrow>
        if node_at (fs w) (fpath h) = Some Dir then ((-1, [], h), fails EISDIR w)
        else let d = take (limit a n) (drop (foff h) (file_data w (fpath h)))
             in ((int (length d), d, h\<lparr>foff := foff h + length d\<rparr>), w))"

definition overwrite :: "bytes \<Rightarrow> nat \<Rightarrow> bytes \<Rightarrow> bytes" where
  "overwrite c off d = take off c @ replicate (off - length c) NUL @ d @ drop (off + length d) c"

definition write_fd :: "fh \<Rightarrow> bytes \<Rightarrow> world \<Rightarrow> (int \<times> fh) \<times> world" where
  "write_fd h d w =
     (let (a, w) = popx w in
      case a of
        Fail e \<Rightarrow> ((-1, h), fails e w)
      | _ \<Rightarrow>
        let d' = take (limit a (length d)) d
        in ((int (length d'), h\<lparr>foff := foff h + length d'\<rparr>),
            w\<lparr>fs := (fs w)(fpath h \<mapsto> File (overwrite (file_data w (fpath h)) (foff h) d'))\<rparr>))"

definition fstat_size :: "fh \<Rightarrow> world \<Rightarrow> int option \<times> world" where
  "fstat_size h w =
     (let (a, w) = popc w in
      case a of
        Fail e \<Rightarrow> (None, fails e w)
      | _ \<Rightarrow> (Some (if node_at (fs w) (fpath h) = Some Dir then int (dirsz w)
                    else int (length (file_data w (fpath h)))), w))"

text \<open>\<open>close\<close> releases the descriptor even when it reports an error.\<close>

definition close_fd :: "fh \<Rightarrow> world \<Rightarrow> int \<times> world" where
  "close_fd h w =
     (let (a, w) = popc w; w = w\<lparr>nopen := nopen w - 1\<rparr> in
      case a of Fail e \<Rightarrow> (-1, fails e w) | _ \<Rightarrow> (0, w))"

definition fsync :: "fh \<Rightarrow> world \<Rightarrow> int \<times> world" where
  "fsync h w = (let (a, w) = popc w in case a of Fail e \<Rightarrow> (-1, fails e w) | _ \<Rightarrow> (0, w))"

definition mkdir :: "string \<Rightarrow> world \<Rightarrow> int \<times> world" where
  "mkdir s w =
     (let (a, w) = popc w; p = resolve s in
      case a of
        Fail e \<Rightarrow> (-1, fails e w)
      | _ \<Rightarrow>
        if s = [] then (-1, fails ENOENT w)
        else case walk_err (fs w) p of
          Some e \<Rightarrow> (-1, fails e w)
        | None \<Rightarrow>
          (case node_at (fs w) p of
             Some _ \<Rightarrow> (-1, fails EEXIST w)
           | None \<Rightarrow> (0, w\<lparr>fs := (fs w)(p \<mapsto> Dir)\<rparr>)))"

definition unlink :: "string \<Rightarrow> world \<Rightarrow> int \<times> world" where
  "unlink s w =
     (let (a, w) = popc w; p = resolve s in
      case a of
        Fail e \<Rightarrow> (-1, fails e w)
      | _ \<Rightarrow>
        if s = [] then (-1, fails ENOENT w)
        else case walk_err (fs w) p of
          Some e \<Rightarrow> (-1, fails e w)
        | None \<Rightarrow>
          (case node_at (fs w) p of
             None \<Rightarrow> (-1, fails ENOENT w)
           | Some Dir \<Rightarrow> (-1, fails EISDIR w)
           | Some (File _) \<Rightarrow>
               if wants_dir s then (-1, fails ENOTDIR w)
               else (0, w\<lparr>fs := (fs w)(p := None)\<rparr>)))"

definition stat :: "string \<Rightarrow> world \<Rightarrow> (int \<times> attr) option \<times> world" where
  "stat s w =
     (let (a, w) = popc w; p = resolve s in
      case a of
        Fail e \<Rightarrow> (None, fails e w)
      | _ \<Rightarrow>
        if s = [] then (None, fails ENOENT w)
        else case walk_err (fs w) p of
          Some e \<Rightarrow> (None, fails e w)
        | None \<Rightarrow>
          (case node_at (fs w) p of
             None \<Rightarrow> (None, fails ENOENT w)
           | Some Dir \<Rightarrow> (Some (int (dirsz w), attrs w p), w)
           | Some (File c) \<Rightarrow>
               if wants_dir s then (None, fails ENOTDIR w)
               else (Some (int (length c), attrs w p), w)))"

text \<open>
  \<open>rename\<close> of a file replaces a file; renaming a directory moves its whole subtree and may replace
  an empty directory only.
\<close>

definition subtree_move ::
  "name list \<Rightarrow> name list \<Rightarrow> (name list \<Rightarrow> node option) \<Rightarrow> name list \<Rightarrow> node option" where
  "subtree_move src dst f q =
     (if take (length dst) q = dst then f (src @ drop (length dst) q)
      else if take (length src) q = src then None
      else f q)"

text \<open>Whether a directory is empty is the one question on the tree that scans it.\<close>

definition has_child :: "(name list \<Rightarrow> node option) \<Rightarrow> name list \<Rightarrow> bool" where
  "has_child f p = (\<exists>n. f (p @ [n]) \<noteq> None)"

definition rename :: "string \<Rightarrow> string \<Rightarrow> world \<Rightarrow> int \<times> world" where
  "rename s t w =
     (let (a, w) = popc w; p = resolve s; q = resolve t in
      case a of
        Fail e \<Rightarrow> (-1, fails e w)
      | _ \<Rightarrow>
        if s = [] \<or> t = [] then (-1, fails ENOENT w)
        else case walk_err (fs w) p of
          Some e \<Rightarrow> (-1, fails e w)
        | None \<Rightarrow>
          (case walk_err (fs w) q of
             Some e \<Rightarrow> (-1, fails e w)
           | None \<Rightarrow>
             (case node_at (fs w) p of
                None \<Rightarrow> (-1, fails ENOENT w)
              | Some (File c) \<Rightarrow>
                  if wants_dir s \<or> wants_dir t then (-1, fails ENOTDIR w)
                  else if node_at (fs w) q = Some Dir then (-1, fails EISDIR w)
                  else if p = q then (0, w)
                  else (0, w\<lparr>fs := (fs w)(p := None, q \<mapsto> File c)\<rparr>)
              | Some Dir \<Rightarrow>
                  if p = q then (0, w)
                  else if take (length p) q = p then (-1, fails EINVAL w)
                  else (case node_at (fs w) q of
                          Some (File _) \<Rightarrow> (-1, fails ENOTDIR w)
                        | Some Dir \<Rightarrow>
                            if has_child (fs w) q then (-1, fails ENOTEMPTY w)
                            else (0, w\<lparr>fs := subtree_move p q (fs w)\<rparr>)
                        | None \<Rightarrow> (0, w\<lparr>fs := subtree_move p q (fs w)\<rparr>)))))"

section \<open>Standard I/O on the log file\<close>

definition fopen_append :: "string \<Rightarrow> world \<Rightarrow> fh option \<times> world" where
  "fopen_append s w =
     (let (a, w) = popc w; p = resolve s in
      case a of
        Fail e \<Rightarrow> (None, fails e w)
      | _ \<Rightarrow>
        if s = [] then (None, fails ENOENT w)
        else case walk_err (fs w) p of
          Some e \<Rightarrow> (None, fails e w)
        | None \<Rightarrow>
          (case node_at (fs w) p of
             Some Dir \<Rightarrow> (None, fails EISDIR w)
           | None \<Rightarrow>
               if wants_dir s then (None, fails EISDIR w)
               else (Some \<lparr>fpath = p, foff = 0\<rparr>,
                     w\<lparr>fs := (fs w)(p \<mapsto> File []), nopen := nopen w + 1\<rparr>)
           | Some (File c) \<Rightarrow>
               if wants_dir s then (None, fails ENOTDIR w)
               else (Some \<lparr>fpath = p, foff = length c\<rparr>, w\<lparr>nopen := nopen w + 1\<rparr>)))"

text \<open>
  \<open>fprintf\<close> buffers the text and \<open>fclose\<close> flushes it with one append, which can fail; the
  descriptor is released either way.
\<close>

definition fprintf_fclose :: "fh \<Rightarrow> string \<Rightarrow> world \<Rightarrow> world" where
  "fprintf_fclose h s w =
     (let (a, w) = popc w; w = w\<lparr>nopen := nopen w - 1\<rparr> in
      case a of
        Fail e \<Rightarrow> fails e w
      | _ \<Rightarrow> w\<lparr>fs := (fs w)(fpath h \<mapsto> File (file_data w (fpath h) @ s))\<rparr>)"

definition fseek_ok :: "world \<Rightarrow> bool \<times> world" where
  "fseek_ok w = (let (a, w) = popc w in case a of Fail e \<Rightarrow> (False, fails e w) | _ \<Rightarrow> (True, w))"

definition fread :: "fh \<Rightarrow> nat \<Rightarrow> world \<Rightarrow> bytes \<times> world" where
  "fread h n w =
     (let (a, w) = popx w in
      case a of
        Fail e \<Rightarrow> ([], fails e w)
      | _ \<Rightarrow> (take (limit a n) (drop (foff h) (file_data w (fpath h))), w))"

section \<open>Read/write locks\<close>

text \<open>
  A registry entry is named by its path.  \<open>None\<close> is a caller that blocks: the lock is taken in a
  conflicting mode and the call does not return in this state.
\<close>

definition rw_get :: "string \<Rightarrow> world \<Rightarrow> rwlock" where
  "rw_get k w = (case map_of (lockmap w) k of Some l \<Rightarrow> l | None \<Rightarrow> \<lparr>readers = 0, writer = False\<rparr>)"

fun upd_assoc :: "'k \<Rightarrow> 'v \<Rightarrow> ('k \<times> 'v) list \<Rightarrow> ('k \<times> 'v) list" where
  "upd_assoc k v [] = []"
| "upd_assoc k v ((k', v') # xs) = (if k = k' then (k, v) # xs else (k', v') # upd_assoc k v xs)"

definition rw_set :: "string \<Rightarrow> rwlock \<Rightarrow> world \<Rightarrow> world" where
  "rw_set k l w = w\<lparr>lockmap := upd_assoc k l (lockmap w)\<rparr>"

definition rwlock_rdlock :: "string \<Rightarrow> world \<Rightarrow> (int \<times> world) option" where
  "rwlock_rdlock k w =
     (let (a, w) = popc w; l = rw_get k w in
      case a of
        Fail e \<Rightarrow> Some (1, w)
      | _ \<Rightarrow> if writer l then None else Some (0, rw_set k (l\<lparr>readers := readers l + 1\<rparr>) w))"

definition rwlock_wrlock :: "string \<Rightarrow> world \<Rightarrow> (int \<times> world) option" where
  "rwlock_wrlock k w =
     (let (a, w) = popc w; l = rw_get k w in
      case a of
        Fail e \<Rightarrow> Some (1, w)
      | _ \<Rightarrow> if writer l \<or> readers l \<noteq> 0 then None else Some (0, rw_set k (l\<lparr>writer := True\<rparr>) w))"

definition rwlock_unlock :: "string \<Rightarrow> world \<Rightarrow> world" where
  "rwlock_unlock k w =
     (let l = rw_get k w in
      if writer l then rw_set k (l\<lparr>writer := False\<rparr>) w
      else rw_set k (l\<lparr>readers := readers l - 1\<rparr>) w)"

end
