(* ===== verification/Rle.thy ===== *)
theory Rle
  imports Posix
begin

text \<open>
  The run-length codec of \<open>src/file_ops.c\<close> (\<open>rle_compress_bytes\<close>, \<open>rle_decompress_bytes\<close>): the
  four-byte header \<open>RLE1\<close> followed by pairs of a run length (1 to 255) and a byte value.  The inner
  loops are the recursive functions \<open>rle_run\<close>, \<open>rle_pairs\<close>, \<open>rle_total\<close> and \<open>rle_expand\<close>; the two C
  functions add the header, the size limit and the allocation failures.

  The lemmas: decompression inverts compression, the output buffer of \<open>2 n + 8\<close> bytes is never
  overrun, the decoder's second pass writes exactly the size its first pass allocated, and the
  decoder accepts exactly the well-formed encodings whose expansion fits the size limit.
\<close>

definition MAX_FILE_SIZE :: nat where
  "MAX_FILE_SIZE = 64 * 1024 * 1024"

definition rle_header :: bytes where
  "rle_header = ''RLE1''"

text \<open>\<open>while (i + run < in_len && in[i + run] == value && run < 255) run++;\<close>\<close>

fun rle_run :: "char \<Rightarrow> bytes \<Rightarrow> nat \<Rightarrow> nat" where
  "rle_run v [] run = run"
| "rle_run v (c # cs) run = (if c = v \<and> run < 255 then rle_run v cs (run + 1) else run)"

lemma rle_run_ge: "run \<le> rle_run v cs run"
  by (induction v cs run rule: rle_run.induct) auto

lemma rle_run_le: "rle_run v cs run \<le> run + length cs"
  by (induction v cs run rule: rle_run.induct) auto

lemma rle_run_255: "run \<le> 255 \<Longrightarrow> rle_run v cs run \<le> 255"
  by (induction v cs run rule: rle_run.induct) auto

lemma rle_run_prefix: "take (rle_run v cs run - run) cs = replicate (rle_run v cs run - run) v"
proof (induction v cs run rule: rle_run.induct)
  case (2 v c cs run)
  show ?case
  proof (cases "c = v \<and> run < 255")
    case True
    have "run + 1 \<le> rle_run v cs (run + 1)" by (rule rle_run_ge)
    then have "rle_run v cs (run + 1) - run = Suc (rle_run v cs (run + 1) - (run + 1))"
      by simp
    with True "2.IH" show ?thesis by simp
  next
    case False
    then have "rle_run v (c # cs) run = run" by auto
    then show ?thesis by simp
  qed
qed simp

function rle_pairs :: "bytes \<Rightarrow> bytes" where
  "rle_pairs [] = []"
| "rle_pairs (v # rest) =
     (let run = rle_run v rest 1
      in char_of run # v # rle_pairs (drop (run - 1) rest))"
  by pat_completeness auto
termination
  by (relation "measure length") auto

definition rle_compress_bytes :: "bytes \<Rightarrow> world \<Rightarrow> bytes option \<times> world" where
  "rle_compress_bytes inb w =
     (let (ok, w) = malloc w in
      if \<not> ok then (None, w\<lparr>errno := ENOMEM\<rparr>)
      else (Some (rle_header @ rle_pairs inb), w))"

text \<open>First decoding pass: the sum of the run lengths, given up when it exceeds the limit.\<close>

fun rle_total :: "bytes \<Rightarrow> nat \<Rightarrow> nat option" where
  "rle_total (run # v # rest) tot =
     (let tot' = tot + of_char run
      in if tot' > MAX_FILE_SIZE then None else rle_total rest tot')"
| "rle_total _ tot = Some tot"

text \<open>Second pass: \<open>memset(buf + w, v, run)\<close> for every pair.\<close>

fun rle_expand :: "bytes \<Rightarrow> bytes" where
  "rle_expand (run # v # rest) = replicate (of_char run) v @ rle_expand rest"
| "rle_expand _ = []"

definition rle_decompress_bytes :: "bytes \<Rightarrow> world \<Rightarrow> bytes option \<times> world" where
  "rle_decompress_bytes inb w =
     (if length inb < 4 \<or> take 4 inb \<noteq> rle_header then (None, w\<lparr>errno := EINVAL\<rparr>)
      else case rle_total (drop 4 inb) 0 of
        None \<Rightarrow> (None, w\<lparr>errno := EFBIG\<rparr>)
      | Some tot \<Rightarrow>
          if (length inb - 4) mod 2 \<noteq> 0 then (None, w\<lparr>errno := EINVAL\<rparr>)
          else let (ok, w) = malloc w in
               if \<not> ok then (None, w\<lparr>errno := ENOMEM\<rparr>)
               else (Some (rle_expand (drop 4 inb)), w))"

section \<open>Lemmas\<close>

lemma of_char_run:
  assumes "1 \<le> n" "n \<le> 255"
  shows "(of_char (char_of n :: char) :: nat) = n"
proof -
  have "(of_char (char_of n :: char) :: nat) = n mod 256" by (simp only: of_char_of)
  with assms show ?thesis by simp
qed

lemma rle_expand_pairs: "rle_expand (rle_pairs xs) = xs"
proof (induction xs rule: rle_pairs.induct)
  case 1
  show ?case by simp
next
  case (2 v rest)
  let ?r = "rle_run v rest 1"
  have r: "1 \<le> ?r" "?r \<le> 255" using rle_run_ge [of 1 v rest] rle_run_255 by simp_all
  have "replicate ?r v = v # replicate (?r - 1) v"
    using r by (cases ?r) auto
  also have "\<dots> = v # take (?r - 1) rest"
    using rle_run_prefix [of v rest 1] by simp
  finally have "replicate ?r v @ drop (?r - 1) rest = v # rest" by simp
  with 2 r show ?case by (simp add: Let_def of_char_run)
qed

lemma even_rle_pairs: "even (length (rle_pairs xs))"
  by (induction xs rule: rle_pairs.induct) (auto simp: Let_def)

lemma length_rle_pairs: "length (rle_pairs xs) \<le> 2 * length xs"
proof (induction xs rule: rle_pairs.induct)
  case (2 v rest)
  have "length (rle_pairs (drop (rle_run v rest 1 - 1) rest)) \<le> 2 * length rest"
    using 2 [OF refl] by simp
  then show ?case by (simp add: Let_def)
qed simp

lemma rle_total_expand:
  "rle_total xs t =
     (if t + length (rle_expand xs) \<le> MAX_FILE_SIZE \<or> length xs < 2 then Some (t + length (rle_expand xs))
      else None)"
proof (induction xs t rule: rle_total.induct)
  case (1 r v rest t)
  show ?case
  proof (cases "t + of_char r > MAX_FILE_SIZE")
    case True
    then show ?thesis by (simp add: Let_def)
  next
    case False
    have "length rest < 2 \<Longrightarrow> rle_expand rest = []"
      by (cases rest rule: rle_expand.cases) auto
    with False 1 show ?thesis by (auto simp: Let_def add.assoc)
  qed
qed auto

lemma rle_expand_short: "length xs < 2 \<Longrightarrow> rle_expand xs = []"
  by (cases xs rule: rle_expand.cases) auto

lemma rle_total_0:
  "rle_total xs 0 =
     (if length (rle_expand xs) \<le> MAX_FILE_SIZE then Some (length (rle_expand xs)) else None)"
  using rle_expand_short [of xs] by (auto simp: rle_total_expand)

lemma malloc_cases:
  obtains w' where "malloc w = (True, w')" | w' where "malloc w = (False, w')"
  by (cases "malloc w") (metis (full_types))

lemma rle_header_prefix:
  "length inb < 4 \<or> take 4 inb \<noteq> rle_header \<longleftrightarrow> (\<forall>ps. inb \<noteq> rle_header @ ps)"
proof -
  have "\<exists>ps. inb = rle_header @ ps" if "take 4 inb = rle_header"
    using append_take_drop_id [of 4 inb] that by (intro exI [of _ "drop 4 inb"]) simp
  moreover have "length (rle_header @ ps) \<ge> 4 \<and> take 4 (rle_header @ ps) = rle_header" for ps
    by (simp add: rle_header_def)
  ultimately show ?thesis by (metis not_less)
qed

lemma rle_decompress_bytes_bad_header:
  "(\<forall>ps. inb \<noteq> rle_header @ ps) \<Longrightarrow> rle_decompress_bytes inb w = (None, w\<lparr>errno := EINVAL\<rparr>)"
  using rle_header_prefix [of inb] by (simp add: rle_decompress_bytes_def)

lemma rle_decompress_bytes_header:
  "rle_decompress_bytes (rle_header @ ps) w =
     (if length (rle_expand ps) > MAX_FILE_SIZE then (None, w\<lparr>errno := EFBIG\<rparr>)
      else if odd (length ps) then (None, w\<lparr>errno := EINVAL\<rparr>)
      else if fst (malloc w) then (Some (rle_expand ps), snd (malloc w))
      else (None, (snd (malloc w))\<lparr>errno := ENOMEM\<rparr>))"
proof -
  have h: "length (rle_header @ ps) = length ps + 4" "take 4 (rle_header @ ps) = rle_header"
    "drop 4 (rle_header @ ps) = ps"
    by (simp_all add: rle_header_def)
  show ?thesis
    unfolding rle_decompress_bytes_def h
    by (cases "malloc w") (simp add: rle_total_0 odd_iff_mod_2_eq_one)
qed

lemmas rle_decompress_cases = rle_decompress_bytes_header rle_decompress_bytes_bad_header

text \<open>(C25) Decompressing what \<open>rle_compress_bytes\<close> produced gives back the original bytes, for every
  input up to the 64 MiB file limit, whenever the two buffers can be allocated.\<close>

theorem rle_roundtrip:
  assumes "length x \<le> MAX_FILE_SIZE"
    and "rle_compress_bytes x w = (Some c, w1)"
    and "fst (malloc w2)"
  shows "fst (rle_decompress_bytes c w2) = Some x"
proof -
  have c: "c = rle_header @ rle_pairs x"
    using assms(2) by (auto simp: rle_compress_bytes_def Let_def split: prod.splits if_splits)
  then show ?thesis
    using assms(1,3) even_rle_pairs [of x]
    by (simp add: rle_decompress_bytes_header rle_expand_pairs)
qed

theorem rle_roundtrip_witness:
  "\<exists>c. rle_compress_bytes ''aab'' world0 = (Some c, world0) \<and> fst (rle_decompress_bytes c world0) = Some ''aab''"
proof -
  obtain c where c: "rle_compress_bytes ''aab'' world0 = (Some c, world0)"
    by (simp add: rle_compress_bytes_def malloc_def popc_def world0_def)
  have "fst (malloc world0)" by (simp add: malloc_def popc_def world0_def)
  moreover have "length ''aab'' \<le> MAX_FILE_SIZE" by (simp add: MAX_FILE_SIZE_def)
  ultimately show ?thesis using rle_roundtrip [OF _ c, of world0] c by simp
qed

end
