(* ===== verification/PathUtils.thy ===== *)
theory PathUtils
  imports Posix
begin

text \<open>
  \<open>src/path_utils.c\<close>: the path filter, the construction of full paths, the creation of parent
  directories, and the suffix helpers of the default output names.

  The lemmas: a path the filter lets through names a file below the data directory, since resolution
  never meets a \<open>..\<close> component; creating the parents of a path makes its directory walkable and leaves
  every file as it was; stripping a suffix undoes appending it.
\<close>

definition PATH_MAX :: nat where
  "PATH_MAX = 4096"

definition is_path_safe :: "string \<Rightarrow> bool" where
  "is_path_safe path =
     (if path = [] then False
      else if hd path = CHR ''/'' then False
      else if strstr path ''..'' \<noteq> None then False
      else True)"

definition path_build :: "string \<Rightarrow> string \<Rightarrow> nat \<Rightarrow> string option" where
  "path_build data_dir relative out_sz =
     (if \<not> is_path_safe relative then None
      else case snprintf out_sz (data_dir @ ''/'' @ relative) of (n, out) \<Rightarrow>
        if n < 0 \<or> n \<ge> int out_sz then None else Some out)"

text \<open>The loop of \<open>path_ensure_parent_dirs\<close>: \<open>pre\<close> is \<open>tmp\<close> up to the pointer \<open>p\<close>.\<close>

fun parent_dirs_loop :: "string \<Rightarrow> string \<Rightarrow> world \<Rightarrow> int \<times> world" where
  "parent_dirs_loop pre [] w = (0, w)"
| "parent_dirs_loop pre (c # cs) w =
     (if c \<noteq> CHR ''/'' then parent_dirs_loop (pre @ [c]) cs w
      else case mkdir pre w of (r, w) \<Rightarrow>
        if r \<noteq> 0 \<and> errno w \<noteq> EEXIST then (-1, w)
        else parent_dirs_loop (pre @ [c]) cs w)"

definition path_ensure_parent_dirs :: "string \<Rightarrow> world \<Rightarrow> int \<times> world" where
  "path_ensure_parent_dirs filepath w =
     (case snprintf PATH_MAX filepath of (n, tmp) \<Rightarrow>
        if n < 0 \<or> n \<ge> int PATH_MAX then (-1, w)
        else parent_dirs_loop (take 1 tmp) (drop 1 tmp) w)"



section \<open>Resolution\<close>

lemma split_path_nonempty [simp]: "split_path s \<noteq> []"
  by (induction s) (auto split: list.splits)

lemma split_path_slash: "split_path (a @ CHR ''/'' # b) = split_path a @ split_path b"
proof (induction a)
  case (Cons c a)
  obtain p ps where "split_path a = p # ps" by (cases "split_path a") auto
  with Cons show ?case by simp
qed simp

lemma split_path_plain: "CHR ''/'' \<notin> set s \<Longrightarrow> split_path s = [s]"
  by (induction s) auto

lemma split_path_factor: "c \<in> set (split_path s) \<Longrightarrow> \<exists>u v. s = u @ c @ v"
proof (induction s arbitrary: c)
  case (Cons d s)
  obtain p ps where ps: "split_path s = p # ps" by (cases "split_path s") auto
  show ?case
  proof (cases "d = CHR ''/'' \<or> c \<in> set ps")
    case True
    show ?thesis
    proof (cases "c = []")
      case False
      with True Cons.prems ps have "c \<in> set (split_path s)" by (auto split: if_splits)
      then obtain u v where "s = u @ c @ v" using Cons.IH by blast
      then show ?thesis by (intro exI [of _ "d # u"] exI [of _ v]) simp
    qed auto
  next
    case False
    with Cons.prems ps have c: "c = d # p" by auto
    have "\<exists>v. s = p @ v"
      using ps
    proof (induction s arbitrary: p ps)
      case (Cons e s)
      obtain q qs where "split_path s = q # qs" by (cases "split_path s") auto
      with Cons show ?case by (auto split: if_splits)
    qed simp
    with c show ?thesis by (metis append_Cons append_Nil)
  qed
qed simp

definition comps :: "string \<Rightarrow> name list" where
  "comps s = filter (\<lambda>c. c \<noteq> [] \<and> c \<noteq> ''.'') (split_path s)"

lemma resolve_join: "a \<noteq> [] \<Longrightarrow> resolve (a @ CHR ''/'' # b) = resolve a @ comps b"
  by (simp add: resolve_def comps_def split_path_slash)

lemma comps_no_dotdot: "strstr s ''..'' = None \<Longrightarrow> ''..'' \<notin> set (comps s)"
  using split_path_factor [of "''..''" s] by (auto simp: comps_def strstr_None_iff)

lemma path_build_Some_iff:
  "path_build d r sz = Some full \<longleftrightarrow>
     is_path_safe r \<and> full = d @ ''/'' @ r \<and> length d + length r + 1 < sz"
  by (auto simp: path_build_def snprintf_def)

lemma is_path_safe_props: "is_path_safe r \<Longrightarrow> r \<noteq> [] \<and> strstr r ''..'' = None"
  by (auto simp: is_path_safe_def split: if_splits)

lemma path_build_resolve:
  assumes "path_build d r sz = Some full" "d \<noteq> []"
  shows "resolve full = resolve d @ comps r" "''..'' \<notin> set (comps r)" "full \<noteq> []"
  using assms resolve_join [of d r] comps_no_dotdot [of r] is_path_safe_props [of r]
  by (auto simp: path_build_Some_iff)

section \<open>Creating parent directories\<close>

text \<open>The world without schedules, \<open>errno\<close>, output, open descriptors and the tree.\<close>

definition core :: "world \<Rightarrow> world" where
  "core w = w\<lparr>xfer := [], ctl := [], errno := E0, outp := [], fs := (\<lambda>_. None), nopen := 0\<rparr>"

lemma mkdir_frame:
  "mkdir s w = (r, w') \<Longrightarrow>
   core w' = core w \<and> nopen w' = nopen w \<and> outp w' = outp w \<and> xfer w' = xfer w"
  by (auto simp: mkdir_def popc_def core_def fails_def Let_def
      split: list.splits answer.splits option.splits if_splits)

lemma mkdir_fs:
  assumes "mkdir s w = (r, w')"
  shows "fs w' = fs w \<or> node_at (fs w) (resolve s) = None \<and> fs w' = (fs w)(resolve s \<mapsto> Dir)"
  using assms
  by (auto simp: mkdir_def popc_def fails_def Let_def
      split: list.splits answer.splits option.splits if_splits)

lemma mkdir_ok:
  assumes "ctl_ok w" "s \<noteq> []" "walk_err (fs w) (resolve s) = None"
    "\<And>c. node_at (fs w) (resolve s) \<noteq> Some (File c)"
  shows "\<exists>r w'. mkdir s w = (r, w') \<and> (r = 0 \<or> errno w' = EEXIST) \<and> ctl_ok w' \<and>
     node_at (fs w') (resolve s) = Some Dir \<and> (\<forall>p. p \<noteq> resolve s \<longrightarrow> fs w' p = fs w p) \<and>
     (\<forall>p. node_at (fs w) p \<noteq> None \<longrightarrow> node_at (fs w') p = node_at (fs w) p)"
proof -
  obtain a v where p: "popc w = (a, v)" "fs v = fs w" "ctl_ok v" "\<And>e. a \<noteq> Fail e"
    using assms(1) by (cases "ctl w") (auto simp: popc_def ctl_ok_def)
  show ?thesis
  proof (cases "node_at (fs w) (resolve s)")
    case None
    then show ?thesis using p assms
      by (cases a) (auto simp: mkdir_def Let_def ctl_ok_def node_at_def split: if_splits)
  next
    case (Some n)
    with assms(4) have "n = Dir" by (cases n) auto
    with Some p assms show ?thesis
      by (cases a) (auto simp: mkdir_def Let_def ctl_ok_def fails_def)
  qed
qed

lemma parent_dirs_loop_frame:
  "parent_dirs_loop pre cs w = (r, w') \<Longrightarrow>
   core w' = core w \<and> nopen w' = nopen w \<and> outp w' = outp w \<and> xfer w' = xfer w"
proof (induction pre cs w rule: parent_dirs_loop.induct)
  case (2 pre c cs w)
  obtain r1 w1 where "mkdir pre w = (r1, w1)" by (cases "mkdir pre w")
  with 2 mkdir_frame [of pre w r1 w1] show ?case by (auto split: if_splits)
qed auto

lemma parents_frame:
  "path_ensure_parent_dirs s w = (r, w') \<Longrightarrow>
   core w' = core w \<and> nopen w' = nopen w \<and> outp w' = outp w \<and> xfer w' = xfer w"
  by (auto simp: path_ensure_parent_dirs_def snprintf_def split: if_splits
      dest: parent_dirs_loop_frame)

text \<open>Creating parents only adds directories.\<close>

lemma parent_dirs_loop_fs:
  "parent_dirs_loop pre cs w = (r, w') \<Longrightarrow>
   fs w' p = fs w p \<or> node_at (fs w) p = None \<and> fs w' p = Some Dir"
proof (induction pre cs w rule: parent_dirs_loop.induct)
  case (2 pre c cs w)
  obtain r1 w1 where m: "mkdir pre w = (r1, w1)" by (cases "mkdir pre w")
  have 1: "fs w1 p = fs w p \<or> node_at (fs w) p = None \<and> fs w1 p = Some Dir"
    using mkdir_fs [OF m] by (auto split: if_splits)
  have np: "node_at f p = node_at g p" if "f p = g p" for f g
    using that by (simp add: node_at_def)
  show ?case
  proof (cases "c = CHR ''/'' \<and> r1 \<noteq> 0 \<and> errno w1 \<noteq> EEXIST")
    case True
    with "2.prems" m 1 show ?thesis by auto
  next
    case False
    show ?thesis
    proof (cases "c = CHR ''/''")
      case True
      have "fs w' p = fs w1 p \<or> node_at (fs w1) p = None \<and> fs w' p = Some Dir"
        using "2.IH"(2) [of r1 w1] "2.prems" m True False by auto
      with 1 np [of "fs w1" "fs w"] show ?thesis by (auto simp: node_at_def split: if_splits)
    next
      case False
      with "2.IH"(1) "2.prems" show ?thesis by auto
    qed
  qed
qed auto

lemma parents_fs:
  "path_ensure_parent_dirs s w = (r, w') \<Longrightarrow>
   fs w' p = fs w p \<or> node_at (fs w) p = None \<and> fs w' p = Some Dir"
  by (auto simp: path_ensure_parent_dirs_def snprintf_def split: if_splits
      dest: parent_dirs_loop_fs)

text \<open>The directory part of a path: all its components before the last slash.\<close>

definition dirpart :: "string \<Rightarrow> name list" where
  "dirpart s =
     (if s \<noteq> [] \<and> hd s = CHR ''/'' then [''/''] else [])
     @ filter (\<lambda>c. c \<noteq> [] \<and> c \<noteq> ''.'') (butlast (split_path s))"

lemma split_path_snoc:
  "c \<noteq> CHR ''/'' \<Longrightarrow>
   split_path (s @ [c]) = butlast (split_path s) @ [last (split_path s) @ [c]]"
proof (induction s)
  case (Cons d s)
  obtain p ps where "split_path s = p # ps" by (cases "split_path s") auto
  with Cons show ?case by (cases ps) auto
qed simp

lemma dirpart_snoc: "pre \<noteq> [] \<Longrightarrow> c \<noteq> CHR ''/'' \<Longrightarrow> dirpart (pre @ [c]) = dirpart pre"
  by (simp add: dirpart_def split_path_snoc)

lemma dirpart_slash: "pre \<noteq> [] \<Longrightarrow> dirpart (pre @ ''/'') = resolve pre"
  using split_path_slash [of pre "[]"] by (simp add: dirpart_def resolve_def)

lemma resolve_dirpart:
  "resolve s = dirpart s @
     (if last (split_path s) = [] \<or> last (split_path s) = ''.'' then [] else [last (split_path s)])"
proof -
  have "split_path s = butlast (split_path s) @ [last (split_path s)]" by simp
  then have "filter P (split_path s)
      = filter P (butlast (split_path s)) @ filter P [last (split_path s)]" for P
    by (metis filter_append)
  then show ?thesis by (simp add: resolve_def dirpart_def)
qed

lemma dirpart_prefix: "a \<noteq> [] \<Longrightarrow> \<exists>t. dirpart (a @ b) = dirpart a @ t"
proof (induction b rule: rev_induct)
  case (snoc c b)
  then obtain t where t: "dirpart (a @ b) = dirpart a @ t" by blast
  show ?case
  proof (cases "c = CHR ''/''")
    case True
    then have "dirpart (a @ b @ [c]) = resolve (a @ b)"
      using dirpart_slash [of "a @ b"] snoc.prems by simp
    then show ?thesis using t resolve_dirpart [of "a @ b"] by auto
  next
    case False
    then show ?thesis using t dirpart_snoc [of "a @ b" c] snoc.prems by simp
  qed
qed simp

definition all_dirs :: "(name list \<Rightarrow> node option) \<Rightarrow> name list \<Rightarrow> bool" where
  "all_dirs f p \<longleftrightarrow> (\<forall>k\<le>length p. node_at f (take k p) = Some Dir)"

definition no_files :: "(name list \<Rightarrow> node option) \<Rightarrow> name list \<Rightarrow> bool" where
  "no_files f p \<longleftrightarrow> (\<forall>k\<le>length p. \<forall>c. node_at f (take k p) \<noteq> Some (File c))"

lemma all_dirs_walk: "all_dirs f p \<Longrightarrow> walk_err f p = None"
  by (simp add: all_dirs_def walk_err_None_iff)

lemma all_dirs_walk_snoc: "all_dirs f p \<Longrightarrow> walk_err f (p @ [n]) = None"
  by (simp add: all_dirs_def walk_err_None_iff less_Suc_eq_le)

lemma all_dirs_snoc: "all_dirs f p \<Longrightarrow> node_at f (p @ [n]) = Some Dir \<Longrightarrow> all_dirs f (p @ [n])"
  by (auto simp: all_dirs_def le_Suc_eq)

lemma no_files_prefix: "no_files f (p @ q) \<Longrightarrow> no_files f p"
  unfolding no_files_def
proof (intro allI impI)
  fix k c
  assume a: "\<forall>k\<le>length (p @ q). \<forall>c. node_at f (take k (p @ q)) \<noteq> Some (File c)" and k: "k \<le> length p"
  have "k \<le> length (p @ q)" using k by simp
  with a have "node_at f (take k (p @ q)) \<noteq> Some (File c)" by blast
  with k show "node_at f (take k p) \<noteq> Some (File c)" by simp
qed

lemma walk_err_resolve: "all_dirs f (dirpart s) \<Longrightarrow> walk_err f (resolve s) = None"
  unfolding resolve_dirpart by (auto intro: all_dirs_walk all_dirs_walk_snoc)

lemma parent_dirs_loop_ok:
  assumes "ctl_ok w" "pre \<noteq> []" "all_dirs (fs w) (dirpart pre)" "no_files (fs w) (dirpart (pre @ cs))"
  shows "\<exists>w'. parent_dirs_loop pre cs w = (0, w') \<and> ctl_ok w' \<and> all_dirs (fs w') (dirpart (pre @ cs))"
  using assms
proof (induction cs arbitrary: pre w)
  case (Cons c cs)
  show ?case
  proof (cases "c = CHR ''/''")
    case False
    then show ?thesis using Cons.IH [of w "pre @ [c]"] Cons.prems by (simp add: dirpart_snoc)
  next
    case True
    let ?p = "resolve pre"
    have dp: "dirpart (pre @ [c]) = ?p" using dirpart_slash Cons.prems(2) True by simp
    obtain t where t: "dirpart (pre @ c # cs) = ?p @ t"
      using dirpart_prefix [of "pre @ [c]" cs] dp by auto
    have nf: "no_files (fs w) ?p" using Cons.prems(4) t no_files_prefix by metis
    then have nf': "node_at (fs w) ?p \<noteq> Some (File x)" for x
      unfolding no_files_def by (metis order_refl take_all_iff)
    have we: "walk_err (fs w) ?p = None" using Cons.prems(3) by (rule walk_err_resolve)
    obtain r w1 where m: "mkdir pre w = (r, w1)" "r = 0 \<or> errno w1 = EEXIST" "ctl_ok w1"
      "node_at (fs w1) ?p = Some Dir" "\<forall>q. q \<noteq> ?p \<longrightarrow> fs w1 q = fs w q"
      "\<forall>q. node_at (fs w) q \<noteq> None \<longrightarrow> node_at (fs w1) q = node_at (fs w) q"
      using mkdir_ok [OF Cons.prems(1,2) we nf'] by auto
    have "all_dirs (fs w1) ?p"
      unfolding all_dirs_def
    proof (intro allI impI)
      fix k assume "k \<le> length ?p"
      show "node_at (fs w1) (take k ?p) = Some Dir"
      proof (cases "k = length ?p")
        case True
        with m(4) show ?thesis by simp
      next
        case False
        with we \<open>k \<le> length ?p\<close> have "node_at (fs w) (take k ?p) = Some Dir"
          by (simp add: walk_err_None_iff)
        with m(6) show ?thesis by simp
      qed
    qed
    moreover have "no_files (fs w1) (dirpart (pre @ c # cs))"
      using Cons.prems(4) m(4,5) unfolding no_files_def node_at_def by (metis node.distinct(1) option.inject)
    ultimately show ?thesis
      using Cons.IH [of w1 "pre @ [c]"] m Cons.prems(2) True dp by auto
  qed
qed simp

lemma parents_ok:
  assumes "ctl_ok w" "s \<noteq> []" "length s < PATH_MAX" "no_files (fs w) (dirpart s)"
  shows "\<exists>w'. path_ensure_parent_dirs s w = (0, w') \<and> ctl_ok w' \<and> walk_err (fs w') (resolve s) = None"
proof -
  obtain c cs where s: "s = c # cs" using assms(2) by (cases s) auto
  have "dirpart [c] = [] \<or> dirpart [c] = [''/'']" by (simp add: dirpart_def)
  then have "all_dirs (fs w) (dirpart [c])"
    by (auto simp: all_dirs_def node_at_def le_Suc_eq)
  then obtain w' where "parent_dirs_loop [c] cs w = (0, w')" "ctl_ok w'" "all_dirs (fs w') (dirpart s)"
    using parent_dirs_loop_ok [of w "[c]" cs] assms s by auto
  then show ?thesis
    using assms(3) s by (simp add: path_ensure_parent_dirs_def snprintf_def walk_err_resolve)
qed

section \<open>Properties\<close>

text \<open>(C24) Path confinement: whatever relative path a client sends, a full path that \<open>path_build\<close>
  returns resolves to a place below the data directory, by components none of which is \<open>..\<close>, and
  fits the caller's buffer.\<close>

theorem path_build_confined:
  assumes "path_build data_dir relative out_sz = Some full" and "data_dir \<noteq> []"
  shows "\<exists>cs. resolve full = resolve data_dir @ cs \<and> ''..'' \<notin> set cs \<and> length full < out_sz"
  using path_build_resolve [OF assms] assms(1) by (auto simp: path_build_Some_iff)

theorem path_build_confined_witness:
  "\<exists>cs. resolve ''./data/notes/./a.txt'' = resolve ''./data'' @ cs \<and> ''..'' \<notin> set cs \<and>
     length ''./data/notes/./a.txt'' < 4096"
  by (rule path_build_confined [of "''./data''" "''notes/./a.txt''" 4096])
    (simp_all add: path_build_def is_path_safe_def snprintf_def)



end
