(* ===== verification/Logger.thy ===== *)
theory Logger
  imports PathUtils
begin

text \<open>
  \<open>src/logger.c\<close>: the audit log.  \<open>g_log_path\<close> is a field of the world.  The time stamp is \<open>now\<close>; a
  null argument is \<open>None\<close>.

  The lemmas: logging touches only the log file, leaves no descriptor open and no mutex locked, and
  appends exactly one formatted entry when the system calls succeed.
\<close>

abbreviation "g_log_mutex \<equiv> ''g_log_mutex''"

definition logger_init :: "string \<Rightarrow> world \<Rightarrow> world" where
  "logger_init data_dir w = w\<lparr>g_log_path := snd (snprintf PATH_MAX (data_dir @ ''/operations.log''))\<rparr>"

definition logger_path :: "world \<Rightarrow> string" where
  "logger_path w = g_log_path w"

definition or_else :: "string option \<Rightarrow> string \<Rightarrow> string" where
  "or_else s d = (case s of None \<Rightarrow> d | Some x \<Rightarrow> x)"

definition log_line ::
  "string \<Rightarrow> string option \<Rightarrow> string option \<Rightarrow> string option \<Rightarrow> string option \<Rightarrow> string option \<Rightarrow> string" where
  "log_line ts client command target status detail =
     ts @ '' client='' @ or_else client ''unknown'' @ '' cmd='' @ or_else command ''unknown''
     @ '' target='' @ or_else target ''-'' @ '' status='' @ or_else status ''-''
     @ '' detail='' @ or_else detail ''-'' @ [CHR 0x0A]"

definition logger_log ::
  "string option \<Rightarrow> string option \<Rightarrow> string option \<Rightarrow> string option \<Rightarrow> string option \<Rightarrow> world \<Rightarrow> world" where
  "logger_log client command target status detail w =
     (let ts = now w;
          w = mutex_lock g_log_mutex w in
      case fopen_append (g_log_path w) w of
        (None, w) \<Rightarrow> mutex_unlock g_log_mutex w
      | (Some fp, w) \<Rightarrow>
          mutex_unlock g_log_mutex
            (fprintf_fclose fp (log_line ts client command target status detail) w))"

section \<open>What logging touches\<close>

text \<open>No call fails, other than by an interrupt of a transfer.\<close>

definition oks :: "world \<Rightarrow> bool" where
  "oks w \<longleftrightarrow> xfer_ok w \<and> ctl_ok w"

lemma popc_frame:
  assumes "popc w = (a, w')"
  shows "core w' = core w \<and> nopen w' = nopen w \<and> outp w' = outp w \<and> fs w' = fs w \<and> xfer w' = xfer w \<and>
    errno w' = errno w \<and> (oks w \<longrightarrow> oks w') \<and> (ctl_ok w \<longrightarrow> (\<forall>e. a \<noteq> Fail e) \<and> ctl_ok w')"
proof -
  obtain c where c: "w' = w\<lparr>ctl := c\<rparr>" "set c \<subseteq> set (ctl w)" "\<forall>e. a = Fail e \<longrightarrow> Fail e \<in> set (ctl w)"
    using popc_cases [OF assms] by blast
  have "ctl_ok w \<Longrightarrow> ctl_ok w'" using c(1) ctl_ok_mono [OF _ c(2)] by simp
  moreover have "ctl_ok w \<Longrightarrow> a \<noteq> Fail e" for e using c(3) by (auto simp: ctl_ok_def)
  ultimately show ?thesis using c(1) by (auto simp: core_def oks_def xfer_ok_def)
qed

lemma answer_ok: "(\<And>e. a \<noteq> Fail e) \<Longrightarrow> (case a of Ok \<Rightarrow> y | Short n \<Rightarrow> y | Fail e \<Rightarrow> f e) = y"
  by (cases a) auto

lemma core_upd [simp]:
  "core (w\<lparr>errno := e\<rparr>) = core w" "core (w\<lparr>fs := f\<rparr>) = core w" "core (w\<lparr>nopen := n\<rparr>) = core w"
  "core (w\<lparr>outp := b\<rparr>) = core w" "core (w\<lparr>ctl := c\<rparr>) = core w" "core (w\<lparr>xfer := c\<rparr>) = core w"
  by (simp_all add: core_def)

lemma oks_upd [simp]:
  "oks (w\<lparr>errno := e\<rparr>) = oks w" "oks (w\<lparr>fs := f\<rparr>) = oks w" "oks (w\<lparr>nopen := n\<rparr>) = oks w"
  "oks (w\<lparr>outp := b\<rparr>) = oks w" "oks (w\<lparr>mutexes := m\<rparr>) = oks w" "oks (w\<lparr>lockmap := l\<rparr>) = oks w"
  by (simp_all add: oks_def xfer_ok_def ctl_ok_def)

lemma core_mutex:
  "core (mutex_unlock m w') = core w" if "core w' = core (mutex_lock m w)"
proof -
  have "core (mutex_unlock m w') = mutex_unlock m (core w')" by (simp add: core_def mutex_unlock_def)
  also have "\<dots> = mutex_unlock m (core (mutex_lock m w))" using that by simp
  also have "\<dots> = core w" by (simp add: core_def mutex_unlock_def mutex_lock_def)
  finally show ?thesis .
qed

lemma fopen_append_result:
  assumes "fopen_append s w = (h, w')" "popc w = (a, w1)"
  shows "(\<exists>e. h = None \<and> w' = w1\<lparr>errno := e\<rparr>) \<or>
    (\<exists>n. h = Some \<lparr>fpath = resolve s, foff = n\<rparr> \<and>
      (w' = w1\<lparr>nopen := nopen w1 + 1\<rparr> \<or> w' = w1\<lparr>fs := (fs w1)(resolve s \<mapsto> File []), nopen := nopen w1 + 1\<rparr>))"
  using assms
  by (simp add: fopen_append_def fails_def Let_def split: answer.splits option.splits if_splits node.splits)
    blast+

lemma fopen_append_frame:
  assumes "fopen_append s w = (h, w')"
  shows "core w' = core w \<and> outp w' = outp w \<and> nopen w' = nopen w + (if h = None then 0 else 1) \<and>
    (\<forall>p. p \<noteq> resolve s \<longrightarrow> fs w' p = fs w p) \<and> (\<forall>f. h = Some f \<longrightarrow> fpath f = resolve s) \<and> (oks w \<longrightarrow> oks w')"
proof -
  obtain a w1 where p: "popc w = (a, w1)" by (cases "popc w")
  show ?thesis
    using fopen_append_result [OF assms p] popc_frame [OF p] by (elim disjE exE conjE) simp_all
qed

lemma fprintf_fclose_frame:
  "core (fprintf_fclose h s w) = core w \<and> outp (fprintf_fclose h s w) = outp w \<and>
   nopen (fprintf_fclose h s w) = nopen w - 1 \<and>
   (\<forall>p. p \<noteq> fpath h \<longrightarrow> fs (fprintf_fclose h s w) p = fs w p) \<and> (oks w \<longrightarrow> oks (fprintf_fclose h s w))"
proof -
  obtain a w1 where p: "popc w = (a, w1)" by (cases "popc w")
  show ?thesis
    using popc_frame [OF p] p
    by (auto simp: fprintf_fclose_def fails_def Let_def split: answer.splits)
qed

lemma mutex_fields [simp]:
  "fs (mutex_lock m w) = fs w" "fs (mutex_unlock m w) = fs w" "outp (mutex_lock m w) = outp w"
  "outp (mutex_unlock m w) = outp w" "nopen (mutex_lock m w) = nopen w" "nopen (mutex_unlock m w) = nopen w"
  "oks (mutex_lock m w) = oks w" "oks (mutex_unlock m w) = oks w" "g_log_path (mutex_lock m w) = g_log_path w"
  "now (mutex_lock m w) = now w"
  by (simp_all add: mutex_lock_def mutex_unlock_def)

lemma logger_log_frame:
  "core (logger_log c cmd t st d w) = core w \<and> outp (logger_log c cmd t st d w) = outp w \<and>
   nopen (logger_log c cmd t st d w) = nopen w \<and> (oks w \<longrightarrow> oks (logger_log c cmd t st d w)) \<and>
   (\<forall>p. p \<noteq> resolve (g_log_path w) \<longrightarrow> fs (logger_log c cmd t st d w) p = fs w p)"
proof -
  obtain h w1 where f: "fopen_append (g_log_path w) (mutex_lock g_log_mutex w) = (h, w1)"
    by (cases "fopen_append (g_log_path w) (mutex_lock g_log_mutex w)")
  note ff = fopen_append_frame [OF f]
  show ?thesis
  proof (cases h)
    case None
    then show ?thesis using ff f by (simp add: logger_log_def core_mutex)
  next
    case (Some fp)
    let ?l = "log_line (now w) c cmd t st d"
    note fc = fprintf_fclose_frame [of fp ?l w1]
    have "core (fprintf_fclose fp ?l w1) = core (mutex_lock g_log_mutex w)" using ff fc by simp
    then show ?thesis using ff f fc Some by (simp add: logger_log_def core_mutex)
  qed
qed

section \<open>What logging writes\<close>

text \<open>The log can be appended to: its directory exists and it is not itself a directory.\<close>

definition log_ready :: "world \<Rightarrow> bool" where
  "log_ready w \<longleftrightarrow> g_log_path w \<noteq> [] \<and> \<not> wants_dir (g_log_path w) \<and>
     walk_err (fs w) (resolve (g_log_path w)) = None \<and> node_at (fs w) (resolve (g_log_path w)) \<noteq> Some Dir"

definition log_text :: "world \<Rightarrow> string" where
  "log_text w = file_data w (resolve (g_log_path w))"

lemma fopen_append_ready:
  assumes "ctl_ok w" "s \<noteq> []" "\<not> wants_dir s" "walk_err (fs w) (resolve s) = None" "node_at (fs w) (resolve s) \<noteq> Some Dir"
  shows "\<exists>n w'. fopen_append s w = (Some \<lparr>fpath = resolve s, foff = n\<rparr>, w') \<and> ctl_ok w' \<and>
    file_data w' (resolve s) = file_data w (resolve s) \<and> (\<forall>p. p \<noteq> resolve s \<longrightarrow> fs w' p = fs w p)"
proof -
  obtain a w1 where p: "popc w = (a, w1)" by (cases "popc w")
  note pf = popc_frame [OF p]
  have a: "\<And>e. a \<noteq> Fail e" "fs w1 = fs w" "ctl_ok w1" using pf assms(1) by simp_all
  have na: "node_at (fs w) (resolve s) = fs w (resolve s)" using assms(5) by (auto simp: node_at_def split: if_splits)
  show ?thesis
  proof (cases "fs w (resolve s)")
    case None
    then have "fopen_append s w = (Some \<lparr>fpath = resolve s, foff = 0\<rparr>,
        w1\<lparr>fs := (fs w1)(resolve s \<mapsto> File []), nopen := nopen w1 + 1\<rparr>)"
      using assms p a na by (simp add: fopen_append_def Let_def answer_ok)
    then show ?thesis using None a by (simp add: file_data_def ctl_ok_def)
  next
    case (Some n)
    then obtain c where "n = File c" using assms(5) na by (cases n) auto
    then have "fopen_append s w = (Some \<lparr>fpath = resolve s, foff = length c\<rparr>, w1\<lparr>nopen := nopen w1 + 1\<rparr>)"
      using assms p a na Some by (simp add: fopen_append_def Let_def answer_ok)
    then show ?thesis using a by (simp add: file_data_def ctl_ok_def)
  qed
qed

lemma fprintf_fclose_ready:
  assumes "ctl_ok w"
  shows "fs (fprintf_fclose h s w) = (fs w)(fpath h \<mapsto> File (file_data w (fpath h) @ s))"
proof -
  obtain a w1 where p: "popc w = (a, w1)" by (cases "popc w")
  note pf = popc_frame [OF p]
  show ?thesis using pf p assms by (simp add: fprintf_fclose_def file_data_def Let_def answer_ok)
qed

lemma logger_log_ready:
  assumes "ctl_ok w" "log_ready w"
  shows "fs (logger_log c cmd t st d w) =
    (fs w)(resolve (g_log_path w) \<mapsto> File (log_text w @ log_line (now w) c cmd t st d))"
proof -
  let ?w = "mutex_lock g_log_mutex w"
  have r: "ctl_ok ?w" "g_log_path w \<noteq> []" "\<not> wants_dir (g_log_path w)"
    "walk_err (fs ?w) (resolve (g_log_path w)) = None" "node_at (fs ?w) (resolve (g_log_path w)) \<noteq> Some Dir"
    using assms by (simp_all add: log_ready_def ctl_ok_def mutex_lock_def)
  obtain n w1 where f: "fopen_append (g_log_path w) ?w = (Some \<lparr>fpath = resolve (g_log_path w), foff = n\<rparr>, w1)"
    "ctl_ok w1" "file_data w1 (resolve (g_log_path w)) = file_data ?w (resolve (g_log_path w))"
    "\<forall>p. p \<noteq> resolve (g_log_path w) \<longrightarrow> fs w1 p = fs ?w p"
    using fopen_append_ready [OF r] by blast
  have "file_data ?w (resolve (g_log_path w)) = log_text w" by (simp add: file_data_def log_text_def)
  then show ?thesis
    using f fprintf_fclose_ready [OF f(2), of "\<lparr>fpath = resolve (g_log_path w), foff = n\<rparr>"]
    by (simp add: logger_log_def fun_eq_iff)
qed

end
