(* ===== verification/Locks.thy ===== *)
theory Locks
  imports PathUtils
begin

text \<open>
  \<open>src/locks.c\<close>: the registry of per-path read/write locks.  An entry is a pair of its path and its
  lock state; a lock pointer is the path of its entry, \<open>None\<close> the null pointer.  The linked list
  \<open>g_lock_map_head\<close> is \<open>lockmap\<close>, newest entry first.  A result \<open>None\<close> of an acquiring function is a
  caller that blocks.

  The lemmas: the registry holds one entry per path, and every function keeps it so; a second request
  for a path finds the same lock; acquiring and releasing restores every lock; the two-lock function
  takes its locks in \<open>strcmp\<close> order, a path given twice once.  The threads
  of the server, which take locks by such plans, are in \<open>LockThreads\<close>.
\<close>

abbreviation "g_lock_map_mutex \<equiv> ''g_lock_map_mutex''"

definition rw_free :: rwlock where
  "rw_free = \<lparr>readers = 0, writer = False\<rparr>"

definition get_or_create_lock :: "string \<Rightarrow> world \<Rightarrow> string option \<times> world" where
  "get_or_create_lock path w =
     (let w = mutex_lock g_lock_map_mutex w in
      if find_idx (\<lambda>e. strcmp (fst e) path = 0) (lockmap w) \<noteq> None
      then (Some path, mutex_unlock g_lock_map_mutex w)
      else case malloc w of (node, w) \<Rightarrow>
        if \<not> node then (None, mutex_unlock g_lock_map_mutex w)
        else case malloc w of (dup, w) \<Rightarrow>
          if \<not> dup then (None, mutex_unlock g_lock_map_mutex w)
          else case popc w of (a, w) \<Rightarrow>
            (case a of
               Fail e \<Rightarrow> (None, mutex_unlock g_lock_map_mutex w)
             | _ \<Rightarrow> (Some path,
                     mutex_unlock g_lock_map_mutex (w\<lparr>lockmap := (path, rw_free) # lockmap w\<rparr>))))"

definition locks_acquire_read :: "string \<Rightarrow> world \<Rightarrow> ((int \<times> string option) \<times> world) option" where
  "locks_acquire_read path w =
     (case get_or_create_lock path w of
        (None, w) \<Rightarrow> Some ((-1, None), w)
      | (Some entry, w) \<Rightarrow> do {
          (r, w) \<leftarrow> rwlock_rdlock entry w;
          if r \<noteq> 0 then Some ((-1, None), w) else Some ((0, Some entry), w)
        })"

definition locks_acquire_write :: "string \<Rightarrow> world \<Rightarrow> ((int \<times> string option) \<times> world) option" where
  "locks_acquire_write path w =
     (case get_or_create_lock path w of
        (None, w) \<Rightarrow> Some ((-1, None), w)
      | (Some entry, w) \<Rightarrow> do {
          (r, w) \<leftarrow> rwlock_wrlock entry w;
          if r \<noteq> 0 then Some ((-1, None), w) else Some ((0, Some entry), w)
        })"

definition unlock_opt :: "string option \<Rightarrow> world \<Rightarrow> world" where
  "unlock_opt l w = (case l of None \<Rightarrow> w | Some k \<Rightarrow> rwlock_unlock k w)"

record two_locks =
  lock_a :: "string option"
  lock_b :: "string option"
  same_lock :: bool

definition locks_acquire_two_write ::
  "string \<Rightarrow> string \<Rightarrow> world \<Rightarrow> ((int \<times> two_locks) \<times> world) option" where
  "locks_acquire_two_write path_a path_b w =
     (let none = \<lparr>lock_a = None, lock_b = None, same_lock = False\<rparr> in
      if strcmp path_a path_b = 0 then do {
        ((r, l), w) \<leftarrow> locks_acquire_write path_a w;
        if r \<noteq> 0 then Some ((-1, none), w)
        else Some ((0, \<lparr>lock_a = l, lock_b = l, same_lock = True\<rparr>), w)
      }
      else
        let swapped = (strcmp path_a path_b > 0);
            first = (if swapped then path_b else path_a);
            second = (if swapped then path_a else path_b)
        in do {
          ((r, first_lock), w) \<leftarrow> locks_acquire_write first w;
          if r \<noteq> 0 then Some ((-1, none), w)
          else do {
            ((r, second_lock), w) \<leftarrow> locks_acquire_write second w;
            if r \<noteq> 0 then Some ((-1, none), unlock_opt first_lock w)
            else if \<not> swapped
              then Some ((0, \<lparr>lock_a = first_lock, lock_b = second_lock, same_lock = False\<rparr>), w)
              else Some ((0, \<lparr>lock_a = second_lock, lock_b = first_lock, same_lock = False\<rparr>), w)
          }
        })"

definition locks_release :: "string option \<Rightarrow> world \<Rightarrow> world" where
  "locks_release l w = unlock_opt l w"

definition locks_release_two :: "two_locks \<Rightarrow> world \<Rightarrow> world" where
  "locks_release_two t w =
     (if same_lock t then unlock_opt (lock_a t) w
      else unlock_opt (lock_b t) (unlock_opt (lock_a t) w))"

section \<open>The registry\<close>

definition reg_ok :: "world \<Rightarrow> bool" where
  "reg_ok w \<longleftrightarrow> distinct (map fst (lockmap w))"

lemma upd_assoc_fst [simp]: "map fst (upd_assoc k v xs) = map fst xs"
  by (induction k v xs rule: upd_assoc.induct) auto

lemma map_of_upd_assoc:
  "map_of (upd_assoc k v xs) q = (if q = k \<and> map_of xs k \<noteq> None then Some v else map_of xs q)"
  by (induction k v xs rule: upd_assoc.induct) auto

definition reg_has :: "string \<Rightarrow> world \<Rightarrow> bool" where
  "reg_has k w \<longleftrightarrow> map_of (lockmap w) k \<noteq> None"

lemma reg_has_alt: "reg_has k w \<longleftrightarrow> k \<in> fst ` set (lockmap w)"
  by (simp add: reg_has_def map_of_eq_None_iff)

lemma rw_get_rw_set: "reg_has k w \<Longrightarrow> rw_get q (rw_set k l w) = (if q = k then l else rw_get q w)"
  by (auto simp: rw_get_def rw_set_def map_of_upd_assoc reg_has_def)

text \<open>The world without the schedules, \<open>errno\<close> and the lock registry.\<close>

definition unlk :: "world \<Rightarrow> world" where
  "unlk w = w\<lparr>ctl := [], errno := E0, lockmap := []\<rparr>"

lemma rw_set_simps [simp]:
  "unlk (rw_set k l w) = unlk w" "ctl (rw_set k l w) = ctl w" "reg_ok (rw_set k l w) = reg_ok w"
  "reg_has q (rw_set k l w) = reg_has q w"
  by (auto simp: unlk_def rw_set_def reg_ok_def reg_has_def map_of_upd_assoc)

lemma find_idx_key: "find_idx (\<lambda>e. fst e = k) xs = None \<longleftrightarrow> map_of xs k = None"
  by (simp add: find_idx_None_iff map_of_eq_None_iff image_iff) metis

text \<open>Looking a path up finds its entry, adds a free one, or fails to allocate.\<close>

lemma get_or_create_found:
  assumes "reg_has k w"
  shows "get_or_create_lock k w = (Some k, w)"
proof -
  have "find_idx (\<lambda>e. fst e = k) (lockmap w) \<noteq> None"
    using assms by (simp add: find_idx_key reg_has_def)
  then show ?thesis
    unfolding get_or_create_lock_def Let_def
    by (subst if_P) (simp_all add: mutex_lock_def mutex_unlock_def)
qed

lemma get_or_create_missing:
  fixes w :: world
  defines "w0 \<equiv> mutex_lock g_lock_map_mutex w"
  assumes "\<not> reg_has k w" "malloc w0 = (b1, w1)" "malloc w1 = (b2, w2)" "popc w2 = (a, w3)"
  shows "get_or_create_lock k w =
    (if \<not> b1 then (None, mutex_unlock g_lock_map_mutex w1)
     else if \<not> b2 then (None, mutex_unlock g_lock_map_mutex w2)
     else (case a of
        Fail e \<Rightarrow> (None, mutex_unlock g_lock_map_mutex w3)
      | _ \<Rightarrow> (Some k, mutex_unlock g_lock_map_mutex (w3\<lparr>lockmap := (k, rw_free) # lockmap w3\<rparr>))))"
proof -
  have "find_idx (\<lambda>e. fst e = k) (lockmap w) = None"
    using assms(2) by (simp add: find_idx_key reg_has_def)
  then have "\<not> find_idx (\<lambda>e. strcmp (fst e) k = 0) (lockmap w0) \<noteq> None"
    by (simp add: w0_def mutex_lock_def)
  then show ?thesis
    unfolding get_or_create_lock_def Let_def w0_def [symmetric]
    by (simp only: if_False assms(3-5) prod.case)
qed

lemma get_or_create_lock_cases:
  assumes "get_or_create_lock k w = (r, w')"
  obtains (found) "reg_has k w" "r = Some k" "w' = w"
  | (nomem) c e where "\<not> reg_has k w" "r = None" "w' = w\<lparr>ctl := c, errno := e\<rparr>" "\<not> ctl_ok w"
  | (new) c where "\<not> reg_has k w" "r = Some k" "set c \<subseteq> set (ctl w)"
      "w' = w\<lparr>ctl := c, lockmap := (k, rw_free) # lockmap w\<rparr>"
proof (cases "reg_has k w")
  case True
  with assms get_or_create_found [of k w] show thesis by (intro found) simp_all
next
  case False
  let ?w0 = "mutex_lock g_lock_map_mutex w"
  obtain b1 w1 where m1: "malloc ?w0 = (b1, w1)" by (cases "malloc ?w0")
  obtain b2 w2 where m2: "malloc w1 = (b2, w2)" by (cases "malloc w1")
  obtain a w3 where m3: "popc w2 = (a, w3)" by (cases "popc w2")
  note eq = get_or_create_missing [OF False m1 m2 m3]
  obtain c1 e1 where c1: "w1 = ?w0\<lparr>ctl := c1, errno := e1\<rparr>" "set c1 \<subseteq> set (ctl w)"
    "b1 \<or> \<not> ctl_ok w" "b1 \<longrightarrow> e1 = errno w"
    using malloc_effect [OF m1] by (auto simp: ctl_ok_def mutex_lock_def)
  obtain c2 e2 where c2: "w2 = w1\<lparr>ctl := c2, errno := e2\<rparr>" "set c2 \<subseteq> set c1"
    "b2 \<or> \<not> ctl_ok w1" "b2 \<longrightarrow> e2 = e1"
    using malloc_effect [OF m2] c1(1) by auto
  obtain c3 where c3: "w3 = w2\<lparr>ctl := c3\<rparr>" "set c3 \<subseteq> set c2" "\<forall>e. a = Fail e \<longrightarrow> Fail e \<in> set c2"
    using popc_cases [OF m3] c2(1) by auto
  have ctl1: "\<not> ctl_ok w1 \<longrightarrow> \<not> ctl_ok w" using c1 by (auto simp: ctl_ok_def)
  have fail: "\<not> ctl_ok w" if "a = Fail e" for e
    using that c1(2) c2(2) c3(3) by (auto simp: ctl_ok_def)
  have un: "mutex_unlock g_lock_map_mutex (?w0\<lparr>ctl := c, errno := e\<rparr>) = w\<lparr>ctl := c, errno := e\<rparr>" for c e
    by (simp add: mutex_lock_def mutex_unlock_def)
  have w123: "w1 = ?w0\<lparr>ctl := c1, errno := e1\<rparr>" "w2 = ?w0\<lparr>ctl := c2, errno := e2\<rparr>"
    "w3 = ?w0\<lparr>ctl := c3, errno := e2\<rparr>"
    using c1(1) c2(1) c3(1) by simp_all
  show thesis
  proof (cases "b1 \<and> b2 \<and> (\<forall>e. a \<noteq> Fail e)")
    case True
    then have "(r, w') = (Some k, mutex_unlock g_lock_map_mutex (w3\<lparr>lockmap := (k, rw_free) # lockmap w3\<rparr>))"
      using assms eq by (cases a) simp_all
    moreover have "e2 = errno w" using True c1 c2 by simp
    ultimately have "r = Some k" "w' = w\<lparr>ctl := c3, lockmap := (k, rw_free) # lockmap w\<rparr>"
      using w123(3) by (simp_all add: mutex_lock_def mutex_unlock_def)
    moreover have "set c3 \<subseteq> set (ctl w)" using c1(2) c2(2) c3(2) by blast
    ultimately show thesis using False by (intro new)
  next
    case bad: False
    then have "(r, w') \<in> {(None, mutex_unlock g_lock_map_mutex w1), (None, mutex_unlock g_lock_map_mutex w2),
        (None, mutex_unlock g_lock_map_mutex w3)}"
      using assms eq by (cases a) (simp_all split: if_splits)
    then have "r = None \<and> (\<exists>c e. w' = w\<lparr>ctl := c, errno := e\<rparr>)"
      unfolding w123 un by blast
    moreover have "\<not> ctl_ok w" using bad fail ctl1 c1(3) c2(3) by blast
    ultimately show thesis using False nomem by blast
  qed
qed

text \<open>
  What no function of the registry touches: everything but schedules, \<open>errno\<close> and the registry; the
  registry keeps its entries and stays free of duplicates, a schedule without failures stays one.
\<close>

definition lk :: "world \<Rightarrow> world \<Rightarrow> bool" where
  "lk w w' \<longleftrightarrow> unlk w' = unlk w \<and> (reg_ok w \<longrightarrow> reg_ok w') \<and> (\<forall>q. reg_has q w \<longrightarrow> reg_has q w') \<and>
     (ctl_ok w \<longrightarrow> ctl_ok w')"

lemma lk_refl [simp]: "lk w w"
  by (simp add: lk_def)

lemma lk_trans: "lk w w' \<Longrightarrow> lk w' w'' \<Longrightarrow> lk w w''"
  by (simp add: lk_def)

lemma lk_rw_set [simp]: "lk w (rw_set k l w') = lk w w'"
  by (simp add: lk_def ctl_ok_def)

lemma get_or_create_lock_props:
  assumes "get_or_create_lock k w = (r, w')"
  shows "lk w w'" "rw_get q w' = rw_get q w" "r = Some k \<and> reg_has k w' \<or> r = None \<and> \<not> ctl_ok w"
proof -
  show "lk w w'"
    using assms
    by (cases rule: get_or_create_lock_cases)
      (auto simp: lk_def unlk_def reg_ok_def reg_has_alt ctl_ok_def)
  show "rw_get q w' = rw_get q w"
    using assms by (cases rule: get_or_create_lock_cases) (auto simp: rw_get_def rw_free_def reg_has_def)
  show "r = Some k \<and> reg_has k w' \<or> r = None \<and> \<not> ctl_ok w"
    using assms by (cases rule: get_or_create_lock_cases) (simp_all add: reg_has_def)
qed

lemma popc_lk:
  assumes "popc w = (a, w')"
  shows "lk w w'" "rw_get q w' = rw_get q w" "reg_has q w' = reg_has q w" "a = Fail e \<Longrightarrow> \<not> ctl_ok w"
proof -
  obtain c where c: "w' = w\<lparr>ctl := c\<rparr>" "set c \<subseteq> set (ctl w)" "\<forall>e. a = Fail e \<longrightarrow> Fail e \<in> set (ctl w)"
    using popc_cases [OF assms] by blast
  then show "lk w w'" by (auto simp: lk_def unlk_def reg_ok_def reg_has_def ctl_ok_def)
  show "rw_get q w' = rw_get q w" "reg_has q w' = reg_has q w"
    using c(1) by (simp_all add: rw_get_def reg_has_def)
  show "a = Fail e \<Longrightarrow> \<not> ctl_ok w" using c(3) by (auto simp: ctl_ok_def)
qed

section \<open>Acquiring and releasing\<close>

definition rd_inc :: "rwlock \<Rightarrow> rwlock" where "rd_inc l = l\<lparr>readers := readers l + 1\<rparr>"
definition wr_held :: rwlock where "wr_held = \<lparr>readers = 0, writer = True\<rparr>"

lemma wr_held_upd: "readers l = 0 \<Longrightarrow> l\<lparr>writer := True\<rparr> = wr_held"
  by (simp add: wr_held_def)

lemma rw_free_iff: "l = rw_free \<longleftrightarrow> readers l = 0 \<and> \<not> writer l"
  by (auto simp: rw_free_def)

lemma rwlock_rdlock_cases:
  assumes "rwlock_rdlock k w = Some (r, w')" "reg_has k w"
  shows "lk w w'" "r = 0 \<and> \<not> writer (rw_get k w) \<and> rw_get q w' = (if q = k then rd_inc (rw_get k w) else rw_get q w)
    \<or> r = 1 \<and> \<not> ctl_ok w \<and> rw_get q w' = rw_get q w"
proof -
  obtain a w1 where p: "popc w = (a, w1)" by (cases "popc w")
  note pl = popc_lk [OF p]
  have has: "reg_has k w1" using assms(2) pl(3) by simp
  have "(\<exists>e. a = Fail e) \<and> r = 1 \<and> w' = w1 \<or> r = 0 \<and> \<not> writer (rw_get k w1) \<and> w' = rw_set k (rd_inc (rw_get k w1)) w1"
    using assms(1) p by (cases a) (auto simp: rwlock_rdlock_def rd_inc_def Let_def split: if_splits)
  then show "lk w w'" "r = 0 \<and> \<not> writer (rw_get k w) \<and> rw_get q w' = (if q = k then rd_inc (rw_get k w) else rw_get q w)
    \<or> r = 1 \<and> \<not> ctl_ok w \<and> rw_get q w' = rw_get q w"
    using pl has by (elim disjE; auto simp: rw_get_rw_set)+
qed

lemma rwlock_wrlock_cases:
  assumes "rwlock_wrlock k w = Some (r, w')" "reg_has k w"
  shows "lk w w'" "r = 0 \<and> rw_get k w = rw_free \<and> rw_get q w' = (if q = k then wr_held else rw_get q w)
    \<or> r = 1 \<and> \<not> ctl_ok w \<and> rw_get q w' = rw_get q w"
proof -
  obtain a w1 where p: "popc w = (a, w1)" by (cases "popc w")
  note pl = popc_lk [OF p]
  have has: "reg_has k w1" using assms(2) pl(3) by simp
  have "(\<exists>e. a = Fail e) \<and> r = 1 \<and> w' = w1 \<or> r = 0 \<and> rw_get k w1 = rw_free \<and> w' = rw_set k wr_held w1"
    using assms(1) p by (cases a) (auto simp: rwlock_wrlock_def rw_free_iff wr_held_upd Let_def split: if_splits)
  then show "lk w w'" "r = 0 \<and> rw_get k w = rw_free \<and> rw_get q w' = (if q = k then wr_held else rw_get q w)
    \<or> r = 1 \<and> \<not> ctl_ok w \<and> rw_get q w' = rw_get q w"
    using pl has by (elim disjE; auto simp: rw_get_rw_set)+
qed

lemma locks_acquire_read_cases:
  assumes "locks_acquire_read k w = Some ((r, l), w')"
  shows "lk w w'" "r = 0 \<and> l = Some k \<and> reg_has k w' \<and> \<not> writer (rw_get k w) \<and>
       rw_get q w' = (if q = k then rd_inc (rw_get k w) else rw_get q w)
    \<or> r = -1 \<and> l = None \<and> \<not> ctl_ok w \<and> rw_get q w' = rw_get q w"
proof -
  obtain e w1 where g: "get_or_create_lock k w = (e, w1)" by (cases "get_or_create_lock k w")
  note p = get_or_create_lock_props [OF g]
  have "lk w w' \<and> (r = 0 \<and> l = Some k \<and> reg_has k w' \<and> \<not> writer (rw_get k w) \<and>
       rw_get q w' = (if q = k then rd_inc (rw_get k w) else rw_get q w)
    \<or> r = -1 \<and> l = None \<and> \<not> ctl_ok w \<and> rw_get q w' = rw_get q w)"
  proof (cases e)
    case None
    with assms g have "r = -1" "l = None" "w' = w1" by (simp_all add: locks_acquire_read_def)
    with None p show ?thesis by simp
  next
    case (Some k')
    with p(3) have k: "k' = k" "reg_has k w1" by simp_all
    obtain r' w2 where rd: "rwlock_rdlock k w1 = Some (r', w2)"
      and res: "(r, l) = (if r' \<noteq> 0 then (-1, None) else (0, Some k))" "w' = w2"
      using assms g Some k by (auto simp: locks_acquire_read_def bind_eq_Some_conv split: if_splits)
    note c = rwlock_rdlock_cases [OF rd k(2)]
    have "lk w w2" by (rule lk_trans [OF p(1) c(1)])
    moreover have "reg_has k w2" "ctl_ok w \<longrightarrow> ctl_ok w1" using c(1) p(1) k by (simp_all add: lk_def)
    ultimately show ?thesis using c(2) [of q] res p(2) by auto
  qed
  then show "lk w w'" "r = 0 \<and> l = Some k \<and> reg_has k w' \<and> \<not> writer (rw_get k w) \<and>
       rw_get q w' = (if q = k then rd_inc (rw_get k w) else rw_get q w)
    \<or> r = -1 \<and> l = None \<and> \<not> ctl_ok w \<and> rw_get q w' = rw_get q w" by simp_all
qed

lemma locks_acquire_write_cases:
  assumes "locks_acquire_write k w = Some ((r, l), w')"
  shows "lk w w'" "r = 0 \<and> l = Some k \<and> reg_has k w' \<and> rw_get k w = rw_free \<and>
       rw_get q w' = (if q = k then wr_held else rw_get q w)
    \<or> r = -1 \<and> l = None \<and> \<not> ctl_ok w \<and> rw_get q w' = rw_get q w"
proof -
  obtain e w1 where g: "get_or_create_lock k w = (e, w1)" by (cases "get_or_create_lock k w")
  note p = get_or_create_lock_props [OF g]
  have "lk w w' \<and> (r = 0 \<and> l = Some k \<and> reg_has k w' \<and> rw_get k w = rw_free \<and>
       rw_get q w' = (if q = k then wr_held else rw_get q w)
    \<or> r = -1 \<and> l = None \<and> \<not> ctl_ok w \<and> rw_get q w' = rw_get q w)"
  proof (cases e)
    case None
    with assms g have "r = -1" "l = None" "w' = w1" by (simp_all add: locks_acquire_write_def)
    with None p show ?thesis by simp
  next
    case (Some k')
    with p(3) have k: "k' = k" "reg_has k w1" by simp_all
    obtain r' w2 where rd: "rwlock_wrlock k w1 = Some (r', w2)"
      and res: "(r, l) = (if r' \<noteq> 0 then (-1, None) else (0, Some k))" "w' = w2"
      using assms g Some k by (auto simp: locks_acquire_write_def bind_eq_Some_conv split: if_splits)
    note c = rwlock_wrlock_cases [OF rd k(2)]
    have "lk w w2" by (rule lk_trans [OF p(1) c(1)])
    moreover have "reg_has k w2" "ctl_ok w \<longrightarrow> ctl_ok w1" using c(1) p(1) k by (simp_all add: lk_def)
    ultimately show ?thesis using c(2) [of q] res p(2) by auto
  qed
  then show "lk w w'" "r = 0 \<and> l = Some k \<and> reg_has k w' \<and> rw_get k w = rw_free \<and>
       rw_get q w' = (if q = k then wr_held else rw_get q w)
    \<or> r = -1 \<and> l = None \<and> \<not> ctl_ok w \<and> rw_get q w' = rw_get q w" by simp_all
qed

lemma locks_acquire_readE:
  assumes "locks_acquire_read k w = Some ((r, l), w')"
  obtains (ok) "r = 0" "l = Some k" "reg_has k w'" "lk w w'" "\<not> writer (rw_get k w)"
      "\<And>q. rw_get q w' = (if q = k then rd_inc (rw_get k w) else rw_get q w)"
  | (err) "r = -1" "l = None" "lk w w'" "\<not> ctl_ok w" "\<And>q. rw_get q w' = rw_get q w"
proof (cases "r = 0")
  case True
  with locks_acquire_read_cases [OF assms] show thesis by (intro ok) simp_all
next
  case False
  with locks_acquire_read_cases [OF assms] show thesis by (intro err) simp_all
qed

lemma locks_acquire_writeE:
  assumes "locks_acquire_write k w = Some ((r, l), w')"
  obtains (ok) "r = 0" "l = Some k" "reg_has k w'" "lk w w'" "rw_get k w = rw_free"
      "\<And>q. rw_get q w' = (if q = k then wr_held else rw_get q w)"
  | (err) "r = -1" "l = None" "lk w w'" "\<not> ctl_ok w" "\<And>q. rw_get q w' = rw_get q w"
proof (cases "r = 0")
  case True
  with locks_acquire_write_cases [OF assms] show thesis by (intro ok) simp_all
next
  case False
  with locks_acquire_write_cases [OF assms] show thesis by (intro err) simp_all
qed

text \<open>Releasing undoes acquiring; a writer holds its lock alone.\<close>

lemma rwlock_unlock_get:
  "reg_has k w \<Longrightarrow> rw_get q (rwlock_unlock k w) =
     (if q \<noteq> k then rw_get q w else if writer (rw_get k w) then (rw_get k w)\<lparr>writer := False\<rparr>
      else (rw_get k w)\<lparr>readers := readers (rw_get k w) - 1\<rparr>)"
  by (simp add: rwlock_unlock_def Let_def rw_get_rw_set)

lemma rwlock_unlock_lk [simp]:
  "lk w (rwlock_unlock k w') = lk w w'" "reg_has q (rwlock_unlock k w) = reg_has q w"
  by (simp_all add: rwlock_unlock_def Let_def)

lemma unlock_wr_held [simp]: "wr_held\<lparr>writer := False\<rparr> = rw_free" "writer wr_held"
  by (simp_all add: wr_held_def rw_free_def)

lemma unlock_rd_inc [simp]: "(rd_inc l)\<lparr>readers := readers (rd_inc l) - Suc 0\<rparr> = l" "writer (rd_inc l) = writer l"
  by (simp_all add: rd_inc_def)

lemma release_read:
  assumes "locks_acquire_read k w = Some ((r, l), w')"
  shows "rw_get q (locks_release l w') = rw_get q w \<and> lk w (locks_release l w')"
  using assms
  by (cases rule: locks_acquire_readE) (simp_all add: locks_release_def unlock_opt_def rwlock_unlock_get)

lemma release_write:
  assumes "locks_acquire_write k w = Some ((r, l), w')"
  shows "rw_get q (locks_release l w') = rw_get q w \<and> lk w (locks_release l w')"
  using assms
  by (cases rule: locks_acquire_writeE) (simp_all add: locks_release_def unlock_opt_def rwlock_unlock_get)

text \<open>The two-lock function by cases: one path given twice, or two paths in \<open>strcmp\<close> order.\<close>

lemma two_write_same:
  assumes "locks_acquire_two_write p p w = Some ((r, t), w')"
  obtains "r = 0" "t = \<lparr>lock_a = Some p, lock_b = Some p, same_lock = True\<rparr>"
      "locks_acquire_write p w = Some ((0, Some p), w')"
  | "r = -1" "t = \<lparr>lock_a = None, lock_b = None, same_lock = False\<rparr>" "\<not> ctl_ok w"
      "locks_acquire_write p w = Some ((-1, None), w')"
proof -
  obtain r1 l1 w1 where a: "locks_acquire_write p w = Some ((r1, l1), w1)"
    and res: "(r, t, w') = (if r1 \<noteq> 0 then (-1, \<lparr>lock_a = None, lock_b = None, same_lock = False\<rparr>, w1)
        else (0, \<lparr>lock_a = l1, lock_b = l1, same_lock = True\<rparr>, w1))"
    using assms by (auto simp: locks_acquire_two_write_def bind_eq_Some_conv split: if_splits)
  show thesis
    using a by (cases rule: locks_acquire_writeE) (use res a that in auto)
qed


type_synonym table = "string \<Rightarrow> rwlock"




abbreviation tab :: "world \<Rightarrow> table" where "tab w \<equiv> \<lambda>q. rw_get q w"

lemma get_or_create_tab: "get_or_create_lock k w = (e, w1) \<Longrightarrow> tab w1 = tab w"
  by (rule ext) (rule get_or_create_lock_props)



text \<open>The two-lock function on distinct paths, by the order in which it takes them.\<close>

definition lock_pair :: "string \<Rightarrow> string \<Rightarrow> world \<Rightarrow> ((int \<times> string option \<times> string option) \<times> world) option" where
  "lock_pair p q w = do {
     ((r, l), w) \<leftarrow> locks_acquire_write p w;
     if r \<noteq> 0 then Some ((-1, None, None), w)
     else do {
       ((r, l'), w) \<leftarrow> locks_acquire_write q w;
       if r \<noteq> 0 then Some ((-1, None, None), unlock_opt l w) else Some ((0, l, l'), w)
     }
   }"

lemma two_write_pair:
  assumes "a \<noteq> b"
  shows "locks_acquire_two_write a b w =
    (if b < a
     then map_option (\<lambda>((r, l, l'), w). ((r, \<lparr>lock_a = l', lock_b = l, same_lock = False\<rparr>), w)) (lock_pair b a w)
     else map_option (\<lambda>((r, l, l'), w). ((r, \<lparr>lock_a = l, lock_b = l', same_lock = False\<rparr>), w)) (lock_pair a b w))"
  using assms
  by (simp add: locks_acquire_two_write_def lock_pair_def strcmp_pos_iff Let_def)
    (auto split: Option.bind_split)

lemma lock_pairE:
  assumes "lock_pair p q w = Some ((r, l, l'), w')" "p \<noteq> q"
  obtains (ok) "r = 0" "l = Some p" "l' = Some q" "reg_has p w'" "reg_has q w'" "lk w w'"
      "rw_get p w = rw_free" "rw_get q w = rw_free"
      "\<And>x. rw_get x w' = (if x = p \<or> x = q then wr_held else rw_get x w)"
  | (err) "r = -1" "l = None" "l' = None" "lk w w'" "\<not> ctl_ok w" "\<And>x. rw_get x w' = rw_get x w"
proof -
  obtain r1 l1 w1 where a1: "locks_acquire_write p w = Some ((r1, l1), w1)"
    and k1: "(if r1 \<noteq> 0 then Some ((-1, None, None), w1) else do {
       ((r, l'), w) \<leftarrow> locks_acquire_write q w1;
       if r \<noteq> 0 then Some ((-1, None, None), unlock_opt l1 w) else Some ((0, l1, l'), w)
     }) = Some ((r, l, l'), w')"
    using assms(1) by (auto simp: lock_pair_def bind_eq_Some_conv)
  from a1 show thesis
  proof (cases rule: locks_acquire_writeE)
    case err
    with k1 show thesis by (intro that(2)) simp_all
  next
    case o1: ok
    then obtain r2 l2 w2 where a2: "locks_acquire_write q w1 = Some ((r2, l2), w2)"
      and k2: "(if r2 \<noteq> 0 then Some ((-1, None, None), rwlock_unlock p w2) else Some ((0, l1, l2), w2)) =
        Some ((r, l, l'), w')"
      using k1 by (auto simp: bind_eq_Some_conv unlock_opt_def split: if_splits)
    from a2 show thesis
    proof (cases rule: locks_acquire_writeE)
      case ok
      with k2 o1 assms(2) show thesis
        by (intro that(1)) (auto simp: lk_def intro: lk_trans split: if_splits)
    next
      case e2: err
      have "reg_has p w2" "\<not> ctl_ok w" using e2 o1 by (auto simp: lk_def)
      moreover have "r = -1" "l = None" "l' = None" "w' = rwlock_unlock p w2" using k2 e2 by simp_all
      moreover have "lk w w2" using e2 o1 lk_trans by blast
      ultimately show thesis
        using o1 e2 by (intro that(2)) (auto simp: rwlock_unlock_get)
    qed
  qed
qed

lemma unlock_pair:
  assumes "reg_has p w" "reg_has q w" "rw_get p w = wr_held" "rw_get q w = wr_held" "p \<noteq> q"
  shows "rw_get x (rwlock_unlock q (rwlock_unlock p w)) = (if x = p \<or> x = q then rw_free else rw_get x w)"
  using assms by (simp add: rwlock_unlock_get)


lemma two_write_release:
  assumes "locks_acquire_two_write a b w = Some ((r, t), w')"
  shows "(\<forall>q. rw_get q (locks_release_two t w') = rw_get q w) \<and> lk w (locks_release_two t w') \<and> lk w w' \<and>
    (r = 0 \<or> r = -1 \<and> \<not> ctl_ok w \<and> locks_release_two t w' = w')"
proof (cases "a = b")
  case True
  with assms have "locks_acquire_two_write a a w = Some ((r, t), w')" by simp
  then show ?thesis
  proof (cases rule: two_write_same)
    case 1
    from 1(3) show ?thesis
      by (cases rule: locks_acquire_writeE) (use 1 in \<open>simp_all add: locks_release_two_def unlock_opt_def rwlock_unlock_get\<close>)
  next
    case 2
    from 2(4) show ?thesis
      by (cases rule: locks_acquire_writeE) (use 2 in \<open>simp_all add: locks_release_two_def unlock_opt_def\<close>)
  qed
next
  case ne: False
  define p where "p = (if b < a then b else a)"
  define q where "q = (if b < a then a else b)"
  have pq: "p \<noteq> q" using ne by (simp add: p_def q_def)
  obtain l l' where pair: "lock_pair p q w = Some ((r, l, l'), w')"
    and t: "t = (if b < a then \<lparr>lock_a = l', lock_b = l, same_lock = False\<rparr>
      else \<lparr>lock_a = l, lock_b = l', same_lock = False\<rparr>)"
    using assms two_write_pair [OF ne, of w] by (auto simp: p_def q_def split: if_splits)
  from pair pq show ?thesis
  proof (cases rule: lock_pairE)
    case ok
    have "rw_get x (rwlock_unlock q (rwlock_unlock p w')) = rw_get x w"
      "rw_get x (rwlock_unlock p (rwlock_unlock q w')) = rw_get x w" for x
      using ok pq unlock_pair [of p w' q x] unlock_pair [of q w' p x] by auto
    with ok t show ?thesis by (simp add: locks_release_two_def unlock_opt_def)
  next
    case err
    with t show ?thesis by (simp add: locks_release_two_def unlock_opt_def)
  qed
qed

text \<open>
  (C27) Acquiring two write locks on arguments \<open>a\<close>, \<open>b\<close> and releasing them leaves every lock of the
  registry as it was, whatever fails on the way: on success after \<open>locks_release_two\<close>, on an error
  return already before it.  One entry per path remains one entry per path, and nothing but the
  schedule, \<open>errno\<close> and the registry has changed.
\<close>

theorem locks_two_write_restores:
  assumes "locks_acquire_two_write a b w = Some ((r, t), w')" "reg_ok w"
  shows "tab (locks_release_two t w') = tab w \<and> (r = 0 \<or> tab w' = tab w) \<and>
    reg_ok (locks_release_two t w') \<and> unlk (locks_release_two t w') = unlk w"
  using two_write_release [OF assms(1)] assms(2) by (auto simp: lk_def fun_eq_iff)

theorem locks_two_write_restores_witness:
  "\<exists>t w'. locks_acquire_two_write ''b'' ''a'' world0 = Some ((0, t), w') \<and>
     tab (locks_release_two t w') = tab world0"
proof -
  obtain t w' where e: "locks_acquire_two_write ''b'' ''a'' world0 = Some ((0, t), w')"
    by (simp add: locks_acquire_two_write_def locks_acquire_write_def get_or_create_lock_def world0_def
        mutex_lock_def mutex_unlock_def malloc_def popc_def rwlock_wrlock_def rw_get_def Let_def rw_free_def rw_set_def)
  have "reg_ok world0" by (simp add: reg_ok_def world0_def)
  from e locks_two_write_restores [OF e this] show ?thesis by blast
qed



end
