(* ===== verification/IoLoops.thy ===== *)
theory IoLoops
  imports Posix
begin

text \<open>
  The transfer loops of the file server.  \<open>recv_exact\<close>, \<open>send_all\<close>, the read loop of
  \<open>read_all_file\<close>, the write loop of \<open>write_all_file\<close> and the inner loop of \<open>op_copyfile\<close> all repeat a
  call that may move fewer bytes than asked, retry it after \<open>EINTR\<close> and give up on any other error.
  \<open>in_loop\<close> and \<open>out_loop\<close> are these loops, over the call they repeat; a loop that never ends is
  the value \<open>None\<close>.

  The two locales state what the loops rely on of the call: a source that hands out the bytes of a
  stream in order, and a sink that appends a non-empty prefix of what it is given.  Under these laws
  the loops end and move exactly the bytes requested, whatever the pattern of short transfers and
  interrupts.  The interpretations for \<open>recv\<close>, \<open>send\<close>, \<open>read\<close> and \<open>write\<close> follow.
\<close>

partial_function (option) in_loop ::
  "(nat \<Rightarrow> 'h \<Rightarrow> world \<Rightarrow> (int \<times> bytes \<times> 'h) \<times> world) \<Rightarrow> nat \<Rightarrow> bytes \<Rightarrow> 'h \<Rightarrow> world
   \<Rightarrow> ((int \<times> bytes \<times> 'h) \<times> world) option" where
  "in_loop get n acc h w =
     (if length acc < n then
        (case get (n - length acc) h w of ((r, d, h'), w') \<Rightarrow>
           if r = 0 then Some ((0, acc, h'), w')
           else if r < 0 then
             (if errno w' = EINTR then in_loop get n acc h' w' else Some ((-1, acc, h'), w'))
           else in_loop get n (acc @ d) h' w')
      else Some ((1, acc, h), w))"

partial_function (option) out_loop ::
  "(bytes \<Rightarrow> 'h \<Rightarrow> world \<Rightarrow> (int \<times> 'h) \<times> world) \<Rightarrow> bytes \<Rightarrow> 'h \<Rightarrow> world
   \<Rightarrow> ((int \<times> 'h) \<times> world) option" where
  "out_loop put d h w =
     (if d = [] then Some ((0, h), w)
      else (case put d h w of ((r, h'), w') \<Rightarrow>
        if r < 0 then
          (if errno w' = EINTR then out_loop put d h' w' else Some ((-1, h'), w'))
        else out_loop put (drop (nat r) d) h' w'))"

section \<open>Sources\<close>

locale in_channel =
  fixes get :: "nat \<Rightarrow> 'h \<Rightarrow> world \<Rightarrow> (int \<times> bytes \<times> 'h) \<times> world"
    and src :: "'h \<Rightarrow> world \<Rightarrow> bytes"
    and ok :: "'h \<Rightarrow> world \<Rightarrow> bool"
    and rest :: "'h \<Rightarrow> world \<Rightarrow> 'r"
  assumes get_error: "ok h w \<Longrightarrow> get n h w = ((r, d, h'), w') \<Longrightarrow> r < 0 \<Longrightarrow>
      ok h' w' \<and> src h' w' = src h w \<and> rest h' w' = rest h w \<and>
      length (xfer w') < length (xfer w) \<and>
      (\<exists>e. errno w' = e \<and> xfer w = Fail e # xfer w')"
    and get_data: "ok h w \<Longrightarrow> 0 < n \<Longrightarrow> get n h w = ((r, d, h'), w') \<Longrightarrow> 0 \<le> r \<Longrightarrow>
      ok h' w' \<and> rest h' w' = rest h w \<and> r = int (length d) \<and> length d \<le> n \<and>
      src h w = d @ src h' w' \<and> (d = [] \<longrightarrow> src h w = []) \<and>
      (xfer w = [] \<and> xfer w' = [] \<or> (\<exists>a. xfer w = a # xfer w'))"
begin

lemma data_xfer_le:
  assumes "ok h w" "0 < n" "get n h w = ((r, d, h'), w')" "0 \<le> r"
  shows "length (xfer w') \<le> length (xfer w)"
  using get_data [OF assms] by auto

lemma data_xfer_ok:
  assumes "ok h w" "0 < n" "get n h w = ((r, d, h'), w')" "0 \<le> r" "xfer_ok w"
  shows "xfer_ok w'"
  using get_data [OF assms(1-4)] assms(5) by (auto simp: xfer_ok_def)

lemma error_xfer_ok:
  assumes "ok h w" "get n h w = ((r, d, h'), w')" "r < 0" "xfer_ok w"
  shows "xfer_ok w' \<and> errno w' = EINTR"
  using get_error [OF assms(1-3)] assms(4) by (auto simp: xfer_ok_def)

text \<open>The loop ends, and what it collected is a prefix of the stream.\<close>

lemma in_loop_total:
  "ok h w \<Longrightarrow> length acc \<le> n \<Longrightarrow>
   \<exists>st d h' w'. in_loop get n acc h w = Some ((st, acc @ d, h'), w') \<and>
     ok h' w' \<and> rest h' w' = rest h w \<and> src h w = d @ src h' w' \<and> length (acc @ d) \<le> n \<and>
     (st = 1 \<and> length (acc @ d) = n \<or> st = 0 \<and> src h' w' = [] \<and> length (acc @ d) < n \<or>
      st = -1 \<and> \<not> xfer_ok w) \<and> (xfer_ok w \<longrightarrow> xfer_ok w')"
proof (induction "length (xfer w) + (n - length acc)" arbitrary: acc h w rule: less_induct)
  case less
  note okw = less.prems(1)
  show ?case
  proof (cases "length acc < n")
    case False
    with less.prems have "in_loop get n acc h w = Some ((1, acc @ [], h), w)"
      by (subst in_loop.simps) simp
    with False less.prems show ?thesis by fastforce
  next
    case True
    obtain r d h1 w1 where g: "get (n - length acc) h w = ((r, d, h1), w1)"
      by (metis prod_cases3 surj_pair)
    consider "r < 0" | "r = 0" | "r > 0" by linarith
    then show ?thesis
    proof cases
      case 1
      note e = get_error [OF okw g 1]
      show ?thesis
      proof (cases "errno w1 = EINTR")
        case True
        have "in_loop get n acc h w = in_loop get n acc h1 w1"
          using \<open>length acc < n\<close> g 1 True by (subst in_loop.simps) simp
        moreover have "xfer_ok w \<longleftrightarrow> xfer_ok w1"
          using e True by (auto simp: xfer_ok_def)
        moreover have "length (xfer w1) + (n - length acc) < length (xfer w) + (n - length acc)"
          using e by simp
        moreover have "ok h1 w1" "rest h1 w1 = rest h w" "src h1 w1 = src h w" using e by auto
        ultimately show ?thesis using less.hyps [of w1 acc h1] less.prems(2) by simp
      next
        case False
        have "in_loop get n acc h w = Some ((-1, acc @ [], h1), w1)"
          using \<open>length acc < n\<close> g 1 False by (subst in_loop.simps) simp
        moreover have "\<not> xfer_ok w" using e False by (auto simp: xfer_ok_def)
        ultimately show ?thesis using e less.prems(2) by fastforce
      qed
    next
      case 2
      have pos: "0 < n - length acc" using True by simp
      note dd = get_data [OF okw pos g, unfolded 2, simplified]
      have "in_loop get n acc h w = Some ((0, acc @ [], h1), w1)"
        using True g 2 by (subst in_loop.simps) simp
      moreover have "d = []" "src h w = []" "src h1 w1 = []" using dd by auto
      moreover have "xfer_ok w \<longrightarrow> xfer_ok w1" using data_xfer_ok [OF okw pos g] 2 by simp
      ultimately show ?thesis using dd True by fastforce
    next
      case 3
      have pos: "0 < n - length acc" using True by simp
      have r0: "0 \<le> r" using 3 by simp
      note dd = get_data [OF okw pos g r0]
      have "in_loop get n acc h w = in_loop get n (acc @ d) h1 w1"
        using True g 3 by (subst in_loop.simps) simp
      moreover have "d \<noteq> []" using dd 3 by auto
      then have "length (xfer w1) + (n - length (acc @ d)) < length (xfer w) + (n - length acc)"
        using data_xfer_le [OF okw pos g r0] pos dd by (cases d) auto
      moreover have "ok h1 w1" "length (acc @ d) \<le> n" using dd pos by auto
      ultimately obtain st d2 h' w' where
        l: "in_loop get n acc h w = Some ((st, (acc @ d) @ d2, h'), w')"
          "ok h' w'" "rest h' w' = rest h1 w1" "src h1 w1 = d2 @ src h' w'"
          "length ((acc @ d) @ d2) \<le> n"
          "st = 1 \<and> length ((acc @ d) @ d2) = n \<or> st = 0 \<and> src h' w' = [] \<and> length ((acc @ d) @ d2) < n
             \<or> st = -1 \<and> \<not> xfer_ok w1"
          "xfer_ok w1 \<longrightarrow> xfer_ok w'"
        using less.hyps [of w1 "acc @ d" h1] by metis
      moreover have "xfer_ok w \<longrightarrow> xfer_ok w1" using data_xfer_ok [OF okw pos g r0] by blast
      ultimately show ?thesis using dd
        by (intro exI [of _ st] exI [of _ "d @ d2"] exI [of _ h'] exI [of _ w']) auto
    qed
  qed
qed

text \<open>Asking for no more than the stream holds gets exactly that, if no transfer fails.\<close>

lemma in_loop_exact:
  assumes "ok h w" "xfer_ok w" "n \<le> length (src h w)"
  shows "\<exists>h' w'. in_loop get n [] h w = Some ((1, take n (src h w), h'), w') \<and> ok h' w' \<and>
     rest h' w' = rest h w \<and> src h' w' = drop n (src h w) \<and> xfer_ok w'"
proof -
  obtain st d h' w' where l: "in_loop get n [] h w = Some ((st, [] @ d, h'), w')"
    "ok h' w'" "rest h' w' = rest h w" "src h w = d @ src h' w'" "length ([] @ d) \<le> n"
    "st = 1 \<and> length ([] @ d) = n \<or> st = 0 \<and> src h' w' = [] \<and> length ([] @ d) < n
       \<or> st = -1 \<and> \<not> xfer_ok w"
    "xfer_ok w \<longrightarrow> xfer_ok w'"
    using in_loop_total [OF assms(1), of "[]" n] by auto
  with assms have "st = 1" "length d = n" by auto
  with l have "take n (src h w) = d" "drop n (src h w) = src h' w'" by auto
  with l \<open>st = 1\<close> assms(2) show ?thesis by auto
qed

text \<open>Asking for at least what the stream holds drains it.\<close>

lemma in_loop_drain:
  assumes "ok h w" "xfer_ok w" "length (src h w) \<le> n"
  shows "\<exists>st h' w'. in_loop get n [] h w = Some ((st, src h w, h'), w') \<and> ok h' w' \<and>
     rest h' w' = rest h w \<and> src h' w' = [] \<and> xfer_ok w' \<and> 0 \<le> st"
proof -
  obtain st d h' w' where l: "in_loop get n [] h w = Some ((st, [] @ d, h'), w')"
    "ok h' w'" "rest h' w' = rest h w" "src h w = d @ src h' w'" "length ([] @ d) \<le> n"
    "st = 1 \<and> length ([] @ d) = n \<or> st = 0 \<and> src h' w' = [] \<and> length ([] @ d) < n
       \<or> st = -1 \<and> \<not> xfer_ok w"
    "xfer_ok w \<longrightarrow> xfer_ok w'"
    using in_loop_total [OF assms(1), of "[]" n] by auto
  with assms have "src h' w' = []" by auto
  with l assms(2) show ?thesis by auto
qed

end

section \<open>Sinks\<close>

locale out_channel =
  fixes put :: "bytes \<Rightarrow> 'h \<Rightarrow> world \<Rightarrow> (int \<times> 'h) \<times> world"
    and sink :: "'h \<Rightarrow> world \<Rightarrow> bytes"
    and ok :: "'h \<Rightarrow> world \<Rightarrow> bool"
    and rest :: "'h \<Rightarrow> world \<Rightarrow> 'r"
  assumes put_error: "ok h w \<Longrightarrow> put d h w = ((r, h'), w') \<Longrightarrow> r < 0 \<Longrightarrow>
      ok h' w' \<and> sink h' w' = sink h w \<and> rest h' w' = rest h w \<and>
      xfer w = Fail (errno w') # xfer w'"
    and put_data: "ok h w \<Longrightarrow> d \<noteq> [] \<Longrightarrow> put d h w = ((r, h'), w') \<Longrightarrow> 0 \<le> r \<Longrightarrow>
      ok h' w' \<and> rest h' w' = rest h w \<and> 0 < r \<and> r \<le> int (length d) \<and>
      sink h' w' = sink h w @ take (nat r) d \<and>
      (xfer w = [] \<and> xfer w' = [] \<or> (\<exists>a. xfer w = a # xfer w'))"
begin

text \<open>The loop ends; it delivers everything, or a prefix when a transfer failed.\<close>

lemma out_loop_total:
  "ok h w \<Longrightarrow>
   \<exists>r h' w' k. out_loop put d h w = Some ((r, h'), w') \<and> ok h' w' \<and> rest h' w' = rest h w \<and>
     k \<le> length d \<and> sink h' w' = sink h w @ take k d \<and>
     (r = 0 \<and> k = length d \<or> r = -1 \<and> \<not> xfer_ok w) \<and> (xfer_ok w \<longrightarrow> xfer_ok w')"
proof (induction "length (xfer w) + length d" arbitrary: d h w rule: less_induct)
  case less
  show ?case
  proof (cases "d = []")
    case True
    then have "out_loop put d h w = Some ((0, h), w)" by (subst out_loop.simps) simp
    with True less.prems show ?thesis by fastforce
  next
    case False
    obtain r h1 w1 where p: "put d h w = ((r, h1), w1)" by (metis surj_pair)
    show ?thesis
    proof (cases "r < 0")
      case True
      note e = put_error [OF less.prems p True]
      show ?thesis
      proof (cases "errno w1 = EINTR")
        case intr: True
        have "out_loop put d h w = out_loop put d h1 w1"
          using False p True intr by (subst out_loop.simps) simp
        moreover have "xfer_ok w \<longleftrightarrow> xfer_ok w1" using e intr by (auto simp: xfer_ok_def)
        moreover have "length (xfer w1) + length d < length (xfer w) + length d" using e by simp
        ultimately show ?thesis using less.hyps [of w1 d h1] e by simp
      next
        case nointr: False
        have "out_loop put d h w = Some ((-1, h1), w1)"
          using False p True nointr by (subst out_loop.simps) simp
        moreover have "\<not> xfer_ok w" using e nointr by (auto simp: xfer_ok_def)
        ultimately show ?thesis using e by (intro exI [of _ "-1"] exI exI exI [of _ 0]) auto
      qed
    next
      case nonneg: False
      then have r0: "0 \<le> r" by simp
      note dd = put_data [OF less.prems False p r0]
      have "out_loop put d h w = out_loop put (drop (nat r) d) h1 w1"
        using False p nonneg by (subst out_loop.simps) simp
      moreover have "length (xfer w1) + length (drop (nat r) d) < length (xfer w) + length d"
        using dd False by (cases d) auto
      ultimately obtain r2 h2 w2 k where l: "out_loop put d h w = Some ((r2, h2), w2)"
        "ok h2 w2" "rest h2 w2 = rest h1 w1" "k \<le> length (drop (nat r) d)"
        "sink h2 w2 = sink h1 w1 @ take k (drop (nat r) d)"
        "r2 = 0 \<and> k = length (drop (nat r) d) \<or> r2 = -1 \<and> \<not> xfer_ok w1"
        "xfer_ok w1 \<longrightarrow> xfer_ok w2"
        using less.hyps [of w1 "drop (nat r) d" h1] dd by metis
      have "sink h2 w2 = sink h w @ take (nat r + k) d"
        using l dd by (simp add: take_drop_chunk)
      moreover have "xfer_ok w \<longrightarrow> xfer_ok w1" using dd by (auto simp: xfer_ok_def)
      moreover have "nat r + k \<le> length d" using l dd by auto
      moreover have "r2 = 0 \<and> nat r + k = length d \<or> r2 = -1 \<and> \<not> xfer_ok w"
        using l dd \<open>xfer_ok w \<longrightarrow> xfer_ok w1\<close> by auto
      ultimately show ?thesis using l dd
        by (intro exI [of _ r2] exI [of _ h2] exI [of _ w2] exI [of _ "nat r + k"]) simp
    qed
  qed
qed

lemma out_loop_all:
  assumes "ok h w" "xfer_ok w"
  shows "\<exists>h' w'. out_loop put d h w = Some ((0, h'), w') \<and> ok h' w' \<and> rest h' w' = rest h w \<and>
     sink h' w' = sink h w @ d \<and> xfer_ok w'"
  using out_loop_total [OF assms(1), of d] assms(2) by auto

end

section \<open>The calls of the server are such channels\<close>

definition sock_get :: "nat \<Rightarrow> unit \<Rightarrow> world \<Rightarrow> (int \<times> bytes \<times> unit) \<times> world" where
  "sock_get n h w = (case recv n w of ((r, d), w') \<Rightarrow> ((r, d, h), w'))"

definition sock_put :: "bytes \<Rightarrow> unit \<Rightarrow> world \<Rightarrow> (int \<times> unit) \<times> world" where
  "sock_put d h w = (case send d w of (r, w') \<Rightarrow> ((r, h), w'))"

definition file_get :: "nat \<Rightarrow> fh \<Rightarrow> world \<Rightarrow> (int \<times> bytes \<times> fh) \<times> world" where
  "file_get n h w = read_fd h n w"

definition file_put :: "bytes \<Rightarrow> fh \<Rightarrow> world \<Rightarrow> (int \<times> fh) \<times> world" where
  "file_put d h w = write_fd h d w"

text \<open>Everything of the world but the schedule, \<open>errno\<close> and the part a channel moves.\<close>

definition no_inp :: "world \<Rightarrow> world" where
  "no_inp w = w\<lparr>xfer := [], errno := E0, inp := []\<rparr>"

definition no_outp :: "world \<Rightarrow> world" where
  "no_outp w = w\<lparr>xfer := [], errno := E0, outp := []\<rparr>"

definition no_io :: "world \<Rightarrow> world" where
  "no_io w = w\<lparr>xfer := [], errno := E0\<rparr>"

definition no_file :: "name list \<Rightarrow> world \<Rightarrow> world" where
  "no_file p w = w\<lparr>xfer := [], errno := E0, fs := (fs w)(p := None)\<rparr>"

lemma popx_cases:
  assumes "popx w = (a, w')"
  shows "xfer w = [] \<and> a = Ok \<and> w' = w \<or> xfer w = a # xfer w' \<and> w' = w\<lparr>xfer := xfer w'\<rparr>"
  using assms by (auto simp: popx_def split: list.splits)

interpretation recv_ch: in_channel sock_get "\<lambda>_ w. inp w" "\<lambda>_ _. True" "\<lambda>_ w. no_inp w"
proof (unfold_locales, goal_cases)
  case (1 h w n r d h' w')
  then show ?case
    by (cases "xfer w")
      (auto simp: sock_get_def recv_def popx_def no_inp_def Let_def split: answer.splits)
next
  case (2 h w n r d h' w')
  obtain a v where a: "popx w = (a, v)" by (cases "popx w")
  then have v: "inp v = inp w" "no_inp v = no_inp w" "\<And>x. no_inp (v\<lparr>inp := x\<rparr>) = no_inp w"
    and x: "xfer w = [] \<and> xfer v = [] \<or> xfer w = a # xfer v"
    by (auto simp: popx_def no_inp_def split: list.splits)
  have na: "a \<noteq> Fail e" for e using 2(3,4) a by (auto simp: sock_get_def recv_def)
  let ?d = "take (limit a n) (inp w)"
  have "d = ?d" "r = int (length ?d)" "w' = v\<lparr>inp := drop (length ?d) (inp w)\<rparr>"
    using 2(3) a na v(1)
    by (auto simp: sock_get_def recv_def Let_def split: answer.splits)
  moreover have "?d @ drop (length ?d) (inp w) = inp w" by (rule take_append_drop_length)
  moreover have "length ?d \<le> n" by (rule length_take_le) (rule limit_le)
  moreover have "?d = [] \<longrightarrow> inp w = []" using limit_pos [OF 2(2), of a] by simp
  ultimately show ?case using v x by auto
qed

interpretation send_ch: out_channel sock_put "\<lambda>_ w. outp w" "\<lambda>_ _. True" "\<lambda>_ w. no_outp w"
proof (unfold_locales, goal_cases)
  case (1 h w d r h' w')
  then show ?case
    by (cases "xfer w")
      (auto simp: sock_put_def send_def popx_def no_outp_def Let_def split: answer.splits)
next
  case (2 h w d r h' w')
  obtain a v where a: "popx w = (a, v)" by (cases "popx w")
  then have v: "outp v = outp w" "\<And>x. no_outp (v\<lparr>outp := x\<rparr>) = no_outp w"
    and x: "xfer w = [] \<and> xfer v = [] \<or> xfer w = a # xfer v"
    by (auto simp: popx_def no_outp_def split: list.splits)
  have na: "a \<noteq> Fail e" for e using 2(3,4) a by (auto simp: sock_put_def send_def)
  let ?k = "limit a (length d)"
  have "r = int ?k" "w' = v\<lparr>outp := outp w @ take ?k d\<rparr>"
    using 2(3) a na v(1) limit_le [of a "length d"]
    by (auto simp: sock_put_def send_def Let_def split: answer.splits)
  moreover have "0 < ?k" using 2(2) limit_pos [of "length d" a] by simp
  moreover have "?k \<le> length d" by simp
  ultimately show ?case using v x by auto
qed

interpretation read_ch: in_channel file_get
  "\<lambda>h w. drop (foff h) (file_data w (fpath h))"
  "\<lambda>h w. node_at (fs w) (fpath h) \<noteq> Some Dir" "\<lambda>h w. (fpath h, no_io w)"
proof (unfold_locales, goal_cases)
  case (1 h w n r d h' w')
  then show ?case
    by (cases "xfer w")
      (auto simp: file_get_def read_fd_def popx_def no_io_def fails_def file_data_def Let_def
        split: answer.splits if_splits)
next
  case (2 h w n r d h' w')
  obtain a v where a: "popx w = (a, v)" by (cases "popx w")
  then have v: "fs v = fs w" "no_io v = no_io w" "file_data v = file_data w"
    and x: "xfer w = [] \<and> xfer v = [] \<or> xfer w = a # xfer v"
    by (auto simp: popx_def no_io_def file_data_def split: list.splits)
  have na: "a \<noteq> Fail e" for e using 2(3,4) a by (auto simp: file_get_def read_fd_def)
  let ?s = "drop (foff h) (file_data w (fpath h))"
  let ?d = "take (limit a n) ?s"
  have "d = ?d" "r = int (length ?d)" "w' = v" "h' = h\<lparr>foff := foff h + length ?d\<rparr>"
    using 2(1,3) a na v
    by (auto simp: file_get_def read_fd_def Let_def split: answer.splits)
  moreover have "?d @ drop (length ?d) ?s = ?s" by (rule take_append_drop_length)
  moreover have "length ?d \<le> n" by (rule length_take_le) (rule limit_le)
  moreover have "?d = [] \<longrightarrow> ?s = []" using limit_pos [OF 2(2), of a] by simp
  ultimately show ?case using v x 2(1) by (auto simp: add.commute)
qed

interpretation write_ch: out_channel file_put "\<lambda>h w. file_data w (fpath h)"
  "\<lambda>h w. foff h = length (file_data w (fpath h)) \<and> (\<exists>c. fs w (fpath h) = Some (File c))"
  "\<lambda>h w. (fpath h, no_file (fpath h) w)"
proof (unfold_locales, goal_cases)
  case (1 h w d r h' w')
  then show ?case
    by (cases "xfer w")
      (auto simp: file_put_def write_fd_def popx_def no_file_def fails_def file_data_def Let_def
        split: answer.splits)
next
  case (2 h w d r h' w')
  obtain a v where a: "popx w = (a, v)" by (cases "popx w")
  then have v: "fs v = fs w" "file_data v = file_data w"
    "\<And>f. no_file (fpath h) (v\<lparr>fs := f\<rparr>) = no_file (fpath h) (w\<lparr>fs := f\<rparr>)"
    and x: "xfer w = [] \<and> xfer v = [] \<or> xfer w = a # xfer v"
    by (auto simp: popx_def no_file_def file_data_def split: list.splits)
  have na: "a \<noteq> Fail e" for e using 2(3,4) a by (auto simp: file_put_def write_fd_def)
  let ?k = "limit a (length d)"
  let ?c = "file_data w (fpath h)"
  have k: "0 < ?k" "?k \<le> length d" using 2(2) limit_pos [of "length d" a] by simp_all
  have "overwrite ?c (foff h) (take ?k d) = ?c @ take ?k d"
    using 2(1) by (simp add: overwrite_def)
  then have "r = int ?k" "h' = h\<lparr>foff := foff h + ?k\<rparr>"
    "w' = v\<lparr>fs := (fs w)(fpath h \<mapsto> File (?c @ take ?k d))\<rparr>"
    using 2(3) a na v k
    by (auto simp: file_put_def write_fd_def Let_def split: answer.splits)
  with k v x 2(1) show ?case by (auto simp: file_data_def no_file_def)
qed

end
