(* ===== verification/Resp.thy ===== *)
theory Resp
  imports IoLoops
begin

text \<open>
  \<open>src/resp.c\<close>: reading a request (a RESP array of bulk strings) from the client's socket and
  writing the five kinds of replies.  Functions that return -1 in C return \<open>None\<close> inside, or the
  integer -1, as the source does; the outer \<open>option\<close> is \<open>None\<close> only if the function never returns.

  The lemmas: reading always returns; a well-formed request of non-empty strings is read back exactly,
  however the stream is cut into segments and interrupted, and leaves the following bytes unread;
  every accepted request has 1 to 128 non-empty strings; a request with an empty string is
  rejected; each reply appends exactly its wire format.
\<close>

declare One_nat_def [simp del]

definition CR :: char where "CR = CHR 0x0D"
definition LF :: char where "LF = CHR 0x0A"

abbreviation "CRLF \<equiv> [CR, LF]"

section \<open>Reading\<close>

definition recv_exact :: "nat \<Rightarrow> world \<Rightarrow> ((int \<times> bytes) \<times> world) option" where
  "recv_exact n w = do {
     ((st, d, _), w) \<leftarrow> in_loop sock_get n [] () w;
     Some ((if st < 0 then -1 else if st = 0 then 0 else int (length d), d), w)
   }"

text \<open>The argument of the loop is the room left before the terminating NUL.\<close>

fun crlf_loop :: "nat \<Rightarrow> bytes \<Rightarrow> world \<Rightarrow> (bytes option \<times> world) option" where
  "crlf_loop 0 acc w = Some (None, w)"
| "crlf_loop (Suc k) acc w = do {
     ((r, c), w) \<leftarrow> recv_exact 1 w;
     if r \<le> 0 then Some (None, w)
     else if hd c = CR then do {
       ((r, nx), w) \<leftarrow> recv_exact 1 w;
       if r \<le> 0 \<or> hd nx \<noteq> LF then Some (None, w) else Some (Some acc, w)
     }
     else crlf_loop k (acc @ [hd c]) w
   }"

definition recv_crlf_line :: "nat \<Rightarrow> world \<Rightarrow> (bytes option \<times> world) option" where
  "recv_crlf_line out_sz w = crlf_loop (out_sz - 1) [] w"

definition parse_int :: "string \<Rightarrow> int option" where
  "parse_int s =
     (case strtol s of (v, e, erange) \<Rightarrow>
        if erange \<or> e = 0 \<or> e \<noteq> length s \<or> v < INT_MIN \<or> v > INT_MAX then None else Some v)"

fun read_items :: "nat \<Rightarrow> bytes list \<Rightarrow> world \<Rightarrow> (bytes list option \<times> world) option" where
  "read_items 0 items w = Some (Some items, w)"
| "read_items (Suc n) items w = do {
     ((r, kind), w) \<leftarrow> recv_exact 1 w;
     if r \<le> 0 \<or> hd kind \<noteq> CHR ''$'' then Some (None, w)
     else do {
       (line, w) \<leftarrow> recv_crlf_line 64 w;
       case line of None \<Rightarrow> Some (None, w)
       | Some line \<Rightarrow>
         (case parse_int (cstr line) of None \<Rightarrow> Some (None, w)
          | Some blen \<Rightarrow>
            if blen < 0 then Some (None, w)
            else case malloc w of (ok, w) \<Rightarrow>
              if \<not> ok then Some (None, w)
              else do {
                ((r, d), w) \<leftarrow> recv_exact (nat blen) w;
                if r \<le> 0 then Some (None, w)
                else do {
                  ((r, crlf), w) \<leftarrow> recv_exact 2 w;
                  if r \<le> 0 \<or> crlf \<noteq> CRLF then Some (None, w)
                  else read_items n (items @ [d]) w
                }
              })
     }
   }"

definition resp_read_array :: "world \<Rightarrow> (bytes list option \<times> world) option" where
  "resp_read_array w = do {
     ((r, lead), w) \<leftarrow> recv_exact 1 w;
     if r \<le> 0 then Some (None, w)
     else if hd lead \<noteq> CHR ''*'' then Some (None, w)
     else do {
       (line, w) \<leftarrow> recv_crlf_line 64 w;
       case line of None \<Rightarrow> Some (None, w)
       | Some line \<Rightarrow>
         (case parse_int (cstr line) of None \<Rightarrow> Some (None, w)
          | Some nitems \<Rightarrow>
            if nitems \<le> 0 \<or> nitems > 128 then Some (None, w)
            else case malloc w of (ok, w) \<Rightarrow>
              if \<not> ok then Some (None, w) else read_items (nat nitems) [] w)
     }
   }"

section \<open>Replying\<close>

definition send_all :: "bytes \<Rightarrow> world \<Rightarrow> (int \<times> world) option" where
  "send_all d w = do { ((r, _), w) \<leftarrow> out_loop sock_put d () w; Some (r, w) }"

definition resp_reply_simple :: "string \<Rightarrow> world \<Rightarrow> (int \<times> world) option" where
  "resp_reply_simple msg w =
     (case snprintf 256 (''+'' @ msg @ CRLF) of (n, line) \<Rightarrow>
        if n < 0 \<or> n \<ge> 256 then Some (-1, w) else send_all line w)"

definition resp_reply_error :: "string \<Rightarrow> world \<Rightarrow> (int \<times> world) option" where
  "resp_reply_error msg w =
     (case snprintf 512 (''-ERR '' @ msg @ CRLF) of (n, line) \<Rightarrow>
        if n < 0 \<or> n \<ge> 512 then Some (-1, w) else send_all line w)"

definition resp_reply_bulk :: "bytes \<Rightarrow> world \<Rightarrow> (int \<times> world) option" where
  "resp_reply_bulk data w =
     (case snprintf 64 (''$'' @ dec (length data) @ CRLF) of (n, head) \<Rightarrow>
        if n < 0 \<or> n \<ge> 64 then Some (-1, w)
        else do {
          (r, w) \<leftarrow> send_all head w;
          if r \<noteq> 0 then Some (-1, w)
          else do {
            (r, w) \<leftarrow> (if length data > 0 then send_all data w else Some (0, w));
            if r \<noteq> 0 then Some (-1, w) else send_all CRLF w
          }
        })"

definition resp_reply_null_bulk :: "world \<Rightarrow> (int \<times> world) option" where
  "resp_reply_null_bulk w = send_all (''$-1'' @ CRLF) w"

definition resp_reply_integer :: "int \<Rightarrow> world \<Rightarrow> (int \<times> world) option" where
  "resp_reply_integer v w =
     (case snprintf 128 ('':'' @ fmt_lld v @ CRLF) of (n, line) \<Rightarrow>
        if n < 0 \<or> n \<ge> 128 then Some (-1, w) else send_all line w)"

section \<open>The wire format\<close>

definition resp_bulk :: "bytes \<Rightarrow> bytes" where
  "resp_bulk d = ''$'' @ dec (length d) @ CRLF @ d @ CRLF"

definition resp_encode :: "bytes list \<Rightarrow> bytes" where
  "resp_encode items = ''*'' @ dec (length items) @ CRLF @ concat (map resp_bulk items)"

section \<open>Lemmas on reading\<close>

text \<open>The world without the schedules, \<open>errno\<close> and the bytes still to be received.\<close>

definition no_req :: "world \<Rightarrow> world" where
  "no_req w = w\<lparr>xfer := [], ctl := [], errno := E0, inp := []\<rparr>"

lemma no_inp_no_req: "no_inp w' = no_inp w \<Longrightarrow> no_req w' = no_req w \<and> ctl w' = ctl w"
proof -
  assume eq: "no_inp w' = no_inp w"
  have "(no_inp w)\<lparr>ctl := []\<rparr> = no_req w" for w by (simp add: no_inp_def no_req_def)
  moreover have "ctl (no_inp w) = ctl w" for w by (simp add: no_inp_def)
  ultimately show ?thesis using eq by metis
qed

text \<open>\<open>fed b w w'\<close>: going from \<open>w\<close> to \<open>w'\<close> consumed input until \<open>b\<close> is left and touched nothing else.\<close>

definition fed :: "bytes \<Rightarrow> world \<Rightarrow> world \<Rightarrow> bool" where
  "fed b w w' \<longleftrightarrow> xfer_ok w' \<and> ctl_ok w' \<and> inp w' = b \<and> no_req w' = no_req w"

lemma fed_trans: "fed b w w' \<Longrightarrow> fed c w' w'' \<Longrightarrow> fed c w w''"
  by (simp add: fed_def)

lemma recv_exact_total: "\<exists>r d w'. recv_exact n w = Some ((r, d), w') \<and>
    (r > 0 \<longrightarrow> length d = n \<and> r = int n) \<and> no_inp w' = no_inp w"
  using recv_ch.in_loop_total [where acc = "[]" and n = n and w = w and h = "()"] by (auto simp: recv_exact_def)

lemma recv_exact_fed:
  assumes "xfer_ok w" "ctl_ok w" "inp w = a @ b" "length a = n" "0 < n"
  shows "\<exists>w'. recv_exact n w = Some ((int n, a), w') \<and> fed b w w'"
proof -
  obtain h' w' where l: "in_loop sock_get n [] () w = Some ((1, a, h'), w')"
    "no_inp w' = no_inp w" "inp w' = b" "xfer_ok w'"
    using recv_ch.in_loop_exact [where w = w and n = n and h = "()"] assms by auto
  moreover have "ctl_ok w'" using no_inp_no_req [OF l(2)] assms(2) by (simp add: ctl_ok_def)
  ultimately show ?thesis
    using assms no_inp_no_req [OF l(2)] by (auto simp: recv_exact_def fed_def)
qed

lemma recv_exact_0: "recv_exact 0 w = Some ((0, []), w)"
  by (simp add: recv_exact_def in_loop.simps)

lemma crlf_loop_total: "\<exists>r w'. crlf_loop k acc w = Some (r, w')"
proof (induction k arbitrary: acc w)
  case (Suc k)
  obtain r c w1 where 1: "recv_exact 1 w = Some ((r, c), w1)" using recv_exact_total by blast
  obtain r2 c2 w2 where 2: "recv_exact 1 w1 = Some ((r2, c2), w2)" using recv_exact_total by blast
  show ?case using Suc [of "acc @ [hd c]" w1] by (auto simp: 1 2)
qed simp

lemma crlf_loop_fed:
  assumes "xfer_ok w" "ctl_ok w" "inp w = l @ CRLF @ b" "CR \<notin> set l" "length l < k"
  shows "\<exists>w'. crlf_loop k acc w = Some (Some (acc @ l), w') \<and> fed b w w'"
  using assms
proof (induction l arbitrary: k acc w)
  case Nil
  then obtain j where k: "k = Suc j" by (cases k) auto
  obtain w1 where 1: "recv_exact 1 w = Some ((int 1, [CR]), w1)" "fed (LF # b) w w1"
    using recv_exact_fed [of w "[CR]" "LF # b" 1] Nil by auto
  then obtain w2 where 2: "recv_exact 1 w1 = Some ((int 1, [LF]), w2)" "fed b w1 w2"
    using recv_exact_fed [of w1 "[LF]" b 1] by (auto simp: fed_def)
  with 1 k show ?case by (auto simp: fed_def)
next
  case (Cons c l)
  then obtain j where k: "k = Suc j" by (cases k) auto
  obtain w1 where 1: "recv_exact 1 w = Some ((int 1, [c]), w1)" "fed (l @ CRLF @ b) w w1"
    using recv_exact_fed [of w "[c]" "l @ CRLF @ b" 1] Cons.prems by auto
  have "\<exists>w'. crlf_loop j (acc @ [c]) w1 = Some (Some ((acc @ [c]) @ l), w') \<and> fed b w1 w'"
    by (rule Cons.IH) (use 1 Cons.prems k in \<open>auto simp: fed_def\<close>)
  with 1 k Cons.prems show ?case by (auto simp: fed_def)
qed

lemma parse_int_dec: "int n \<le> INT_MAX \<Longrightarrow> parse_int (dec n) = Some (int n)"
  using strtol_dec [of n] by (simp add: parse_int_def INT_MAX_def INT_MIN_def LONG_MAX_def)

lemma dec_not_ctl: "NUL \<notin> set (dec n)" "CR \<notin> set (dec n)"
  using dec_digits [of n] isdigit_not_ctl by (auto simp: CR_def)

lemma dec_int_length: "int n \<le> INT_MAX \<Longrightarrow> length (dec n) \<le> 10"
  by (rule dec_length_le) (simp_all add: INT_MAX_def)

text \<open>A printed number followed by a line end is read and converted back.\<close>

lemma recv_number_fed:
  assumes "xfer_ok w" "ctl_ok w" "inp w = dec n @ CRLF @ b" "int n \<le> INT_MAX"
  shows "\<exists>w'. recv_crlf_line 64 w = Some (Some (dec n), w') \<and> fed b w w'"
  unfolding recv_crlf_line_def
  using crlf_loop_fed [of w "dec n" b 63 "[]"] assms dec_not_ctl dec_int_length [of n] by auto

lemma malloc_fed:
  assumes "ctl_ok w" "xfer_ok w"
  shows "\<exists>w'. malloc w = (True, w') \<and> fed (inp w) w w'"
  using assms
  by (cases "ctl w") (auto simp: malloc_def popc_def ctl_ok_def xfer_ok_def fed_def no_req_def
      split: answer.splits)

lemma malloc_frame: "malloc w = (b, w') \<Longrightarrow> no_req w' = no_req w"
  by (auto simp: malloc_def popc_def no_req_def Let_def split: list.splits answer.splits)

text \<open>One bulk string: its bytes are taken, unless there are none.\<close>

lemma read_items_step:
  assumes "xfer_ok w" "ctl_ok w" "inp w = resp_bulk d @ b" "int (length d) \<le> INT_MAX" "d \<noteq> []"
  shows "\<exists>w'. read_items (Suc n) items w = read_items n (items @ [d]) w' \<and> fed b w w'"
proof -
  obtain w1 where 1: "recv_exact 1 w = Some ((int 1, ''$''), w1)"
    "fed (dec (length d) @ CRLF @ d @ CRLF @ b) w w1"
    using recv_exact_fed [of w "''$''" "dec (length d) @ CRLF @ d @ CRLF @ b" 1] assms
    by (auto simp: resp_bulk_def)
  then obtain w2 where 2: "recv_crlf_line 64 w1 = Some (Some (dec (length d)), w2)"
    "fed (d @ CRLF @ b) w1 w2"
    using recv_number_fed [of w1 "length d" "d @ CRLF @ b"] assms by (auto simp: fed_def)
  then obtain w3 where 3: "malloc w2 = (True, w3)" "fed (d @ CRLF @ b) w2 w3"
    using malloc_fed [of w2] by (auto simp: fed_def)
  then obtain w4 where 4: "recv_exact (length d) w3 = Some ((int (length d), d), w4)"
    "fed (CRLF @ b) w3 w4"
    using recv_exact_fed [of w3 d "CRLF @ b"] assms by (auto simp: fed_def)
  then obtain w5 where 5: "recv_exact 2 w4 = Some ((int 2, CRLF), w5)" "fed b w4 w5"
    using recv_exact_fed [of w4 CRLF b 2] by (auto simp: fed_def)
  have "fed b w w5" using 1(2) 2(2) 3(2) 4(2) 5(2) by (simp add: fed_def)
  moreover have "cstr (dec (length d)) = dec (length d)"
    by (rule cstr_id) (rule dec_not_ctl)
  ultimately show ?thesis using 1 2 3 4 5 assms(4,5) parse_int_dec by auto
qed

lemma read_items_empty:
  assumes "xfer_ok w" "ctl_ok w" "inp w = resp_bulk [] @ b"
  shows "\<exists>w'. read_items (Suc n) items w = Some (None, w')"
proof -
  obtain w1 where 1: "recv_exact 1 w = Some ((int 1, ''$''), w1)"
    "fed (dec 0 @ CRLF @ CRLF @ b) w w1"
    using recv_exact_fed [of w "''$''" "dec 0 @ CRLF @ CRLF @ b" 1] assms
    by (auto simp: resp_bulk_def)
  then obtain w2 where 2: "recv_crlf_line 64 w1 = Some (Some (dec 0), w2)"
    "fed (CRLF @ b) w1 w2"
    using recv_number_fed [of w1 0 "CRLF @ b"] by (auto simp: fed_def INT_MAX_def)
  obtain w3 where 3: "malloc w2 = (True, w3)"
    using malloc_fed [of w2] 2 by (auto simp: fed_def)
  have "cstr (dec 0) = dec 0" by (rule cstr_id) (rule dec_not_ctl)
  moreover have "parse_int (dec 0) = Some 0"
    using parse_int_dec [of 0] by (simp add: INT_MAX_def)
  ultimately show ?thesis using 1 2 3 recv_exact_0 by auto
qed

definition item_ok :: "bytes \<Rightarrow> bool" where
  "item_ok d \<longleftrightarrow> d \<noteq> [] \<and> int (length d) \<le> INT_MAX"

lemma read_items_prefix:
  assumes "xfer_ok w" "ctl_ok w" "inp w = concat (map resp_bulk ds) @ b" "\<forall>d\<in>set ds. item_ok d"
  shows "\<exists>w'. read_items (length ds + n) items w = read_items n (items @ ds) w' \<and> fed b w w'"
  using assms
proof (induction ds arbitrary: items w)
  case Nil
  then show ?case by (auto simp: fed_def)
next
  case (Cons d ds)
  obtain w1 where 1: "read_items (Suc (length ds + n)) items w
      = read_items (length ds + n) (items @ [d]) w1"
    "fed (concat (map resp_bulk ds) @ b) w w1"
    using read_items_step [of w d "concat (map resp_bulk ds) @ b" "length ds + n" items] Cons.prems
    by (auto simp: item_ok_def simp del: read_items.simps)
  then obtain w2 where "read_items (length ds + n) (items @ [d]) w1
      = read_items n ((items @ [d]) @ ds) w2" "fed b w1 w2"
    using Cons.IH [of w1 "items @ [d]"] Cons.prems(4) by (auto simp: fed_def)
  with 1 show ?case by (auto simp: fed_def simp del: read_items.simps)
qed

lemma read_array_header:
  assumes "xfer_ok w" "ctl_ok w" "inp w = ''*'' @ dec n @ CRLF @ b" "0 < n" "n \<le> 128"
  shows "\<exists>w'. resp_read_array w = read_items n [] w' \<and> fed b w w'"
proof -
  obtain w1 where 1: "recv_exact 1 w = Some ((int 1, ''*''), w1)" "fed (dec n @ CRLF @ b) w w1"
    using recv_exact_fed [of w "''*''" "dec n @ CRLF @ b" 1] assms by auto
  moreover have n: "int n \<le> INT_MAX" using assms(5) by (simp add: INT_MAX_def)
  ultimately obtain w2 where 2: "recv_crlf_line 64 w1 = Some (Some (dec n), w2)" "fed b w1 w2"
    using recv_number_fed [of w1 n b] by (auto simp: fed_def)
  then obtain w3 where 3: "malloc w2 = (True, w3)" "fed b w2 w3"
    using malloc_fed [of w2] by (auto simp: fed_def)
  have "fed b w w3" using 1(2) 2(2) 3(2) by (simp add: fed_def)
  moreover have "cstr (dec n) = dec n" by (rule cstr_id) (rule dec_not_ctl)
  ultimately show ?thesis
    using 1 2 3 assms(4,5) parse_int_dec [OF n] by (auto simp: resp_read_array_def)
qed

lemma read_items_total: "\<exists>r w'. read_items n items w = Some (r, w')"
proof (induction n arbitrary: items w)
  case (Suc n)
  obtain r k w1 where 1: "recv_exact 1 w = Some ((r, k), w1)" using recv_exact_total by blast
  obtain l w2 where 2: "recv_crlf_line 64 w1 = Some (l, w2)"
    unfolding recv_crlf_line_def using crlf_loop_total by blast
  obtain ok w3 where 3: "malloc w2 = (ok, w3)" by (cases "malloc w2")
  have "\<exists>r w'. (do {
        ((r, d), w) \<leftarrow> recv_exact m w3;
        if r \<le> 0 then Some (None, w)
        else do {
          ((r, crlf), w) \<leftarrow> recv_exact 2 w;
          if r \<le> 0 \<or> crlf \<noteq> CRLF then Some (None, w) else read_items n (items @ [d]) w
        }}) = Some (r, w')" for m
  proof -
    obtain r4 d w4 where 4: "recv_exact m w3 = Some ((r4, d), w4)" using recv_exact_total by blast
    obtain r5 c w5 where 5: "recv_exact 2 w4 = Some ((r5, c), w5)" using recv_exact_total by blast
    show ?thesis using Suc [of "items @ [d]" w5] by (simp add: 4 5)
  qed
  then show ?case by (simp add: 1 2 3 split: option.split)
qed simp

lemma read_items_sound:
  "read_items n items w = Some (Some out, w') \<Longrightarrow>
   \<exists>ds. out = items @ ds \<and> length ds = n \<and> (\<forall>d\<in>set ds. item_ok d)"
proof (induction n arbitrary: items w)
  case (Suc n)
  obtain r k w1 where 1: "recv_exact 1 w = Some ((r, k), w1)" using recv_exact_total by blast
  with Suc.prems obtain line w2 where 2: "recv_crlf_line 64 w1 = Some (Some line, w2)"
    by (auto simp: bind_eq_Some_conv split: if_splits option.splits)
  with Suc.prems 1 obtain blen w3 where 3: "parse_int (cstr line) = Some blen" "0 \<le> blen"
      "malloc w2 = (True, w3)"
    by (auto split: if_splits option.splits prod.splits)
  obtain r4 d w4 where 4: "recv_exact (nat blen) w3 = Some ((r4, d), w4)"
    "r4 > 0 \<longrightarrow> length d = nat blen \<and> r4 = int (nat blen)"
    using recv_exact_total [of "nat blen" w3] by blast
  obtain r5 c w5 where 5: "recv_exact 2 w4 = Some ((r5, c), w5)" using recv_exact_total by blast
  have "blen \<le> INT_MAX" using 3(1) by (auto simp: parse_int_def split: if_splits prod.splits)
  moreover have "0 < r4" "read_items n (items @ [d]) w5 = Some (Some out, w')"
    using Suc.prems 1 2 3 4(1) 5 by (auto split: if_splits)
  moreover from this obtain ds where
    "out = (items @ [d]) @ ds" "length ds = n" "\<forall>d\<in>set ds. item_ok d"
    using Suc.IH by blast
  ultimately show ?case
    using 4(2) by (intro exI [of _ "d # ds"]) (auto simp: item_ok_def)
qed simp

section \<open>Lemmas on replying\<close>

lemma send_all_ok:
  assumes "xfer_ok w"
  shows "\<exists>w'. send_all d w = Some (0, w') \<and> outp w' = outp w @ d \<and> no_outp w' = no_outp w \<and> xfer_ok w'"
  using send_ch.out_loop_all [where w = w and d = d and h = "()"] assms by (auto simp: send_all_def)

lemma send_all_total:
  "\<exists>r w' k. send_all d w = Some (r, w') \<and> outp w' = outp w @ take k d \<and> no_outp w' = no_outp w"
proof -
  obtain r w' k where "out_loop sock_put d () w = Some ((r, ()), w')"
    "outp w' = outp w @ take k d" "no_outp w' = no_outp w"
    using send_ch.out_loop_total [where w = w and d = d and h = "()"] by auto
  then show ?thesis by (intro exI [of _ r] exI [of _ w'] exI [of _ k]) (simp add: send_all_def)
qed

lemma snprintf_fits: "length s < sz \<Longrightarrow> snprintf sz s = (int (length s), s)"
  by (simp add: snprintf_def)

lemma resp_reply_simple_ok:
  assumes "xfer_ok w" "length msg < 253"
  shows "\<exists>w'. resp_reply_simple msg w = Some (0, w') \<and> outp w' = outp w @ ''+'' @ msg @ CRLF \<and>
    no_outp w' = no_outp w \<and> xfer_ok w'"
  using send_all_ok [OF assms(1), of "''+'' @ msg @ CRLF"] assms(2)
  by (auto simp: resp_reply_simple_def snprintf_fits)

lemma resp_reply_error_ok:
  assumes "xfer_ok w" "length msg < 505"
  shows "\<exists>w'. resp_reply_error msg w = Some (0, w') \<and> outp w' = outp w @ ''-ERR '' @ msg @ CRLF \<and>
    no_outp w' = no_outp w \<and> xfer_ok w'"
  using send_all_ok [OF assms(1), of "''-ERR '' @ msg @ CRLF"] assms(2)
  by (auto simp: resp_reply_error_def snprintf_fits)

lemma resp_reply_null_bulk_ok:
  assumes "xfer_ok w"
  shows "\<exists>w'. resp_reply_null_bulk w = Some (0, w') \<and> outp w' = outp w @ ''$-1'' @ CRLF \<and>
    no_outp w' = no_outp w \<and> xfer_ok w'"
  using send_all_ok [OF assms, of "''$-1'' @ CRLF"] by (auto simp: resp_reply_null_bulk_def)

lemma fmt_lld_length:
  assumes "\<bar>v\<bar> < 10 ^ 20"
  shows "length (fmt_lld v) \<le> 21"
proof -
  have "nat \<bar>v\<bar> < 10 ^ 20" using assms by (simp add: nat_less_iff)
  then have "length (dec (nat \<bar>v\<bar>)) \<le> 20" by (rule dec_length_le) simp
  then show ?thesis by (auto simp: fmt_lld_def abs_if split: if_splits)
qed

lemma resp_reply_integer_ok:
  assumes "xfer_ok w" "\<bar>v\<bar> < 10 ^ 20"
  shows "\<exists>w'. resp_reply_integer v w = Some (0, w') \<and> outp w' = outp w @ '':'' @ fmt_lld v @ CRLF \<and>
    no_outp w' = no_outp w \<and> xfer_ok w'"
  using send_all_ok [OF assms(1), of "'':'' @ fmt_lld v @ CRLF"] fmt_lld_length [OF assms(2)]
  by (auto simp: resp_reply_integer_def snprintf_fits)

lemma resp_reply_bulk_ok:
  assumes "xfer_ok w" "length d < 2 ^ 64"
  shows "\<exists>w'. resp_reply_bulk d w = Some (0, w') \<and> outp w' = outp w @ resp_bulk d \<and>
    no_outp w' = no_outp w \<and> xfer_ok w'"
proof -
  have "length (dec (length d)) \<le> 20" using assms(2) by (intro dec_length_le) auto
  then have "snprintf 64 (''$'' @ dec (length d) @ CRLF)
    = (int (length (dec (length d)) + 3), ''$'' @ dec (length d) @ CRLF)"
    by (subst snprintf_fits) auto
  moreover have "length (dec (length d)) + 3 < 64" using \<open>length (dec (length d)) \<le> 20\<close> by simp
  moreover obtain w1 where 1: "send_all (''$'' @ dec (length d) @ CRLF) w = Some (0, w1)"
    "outp w1 = outp w @ ''$'' @ dec (length d) @ CRLF" "no_outp w1 = no_outp w" "xfer_ok w1"
    using send_all_ok [OF assms(1)] by metis
  moreover obtain w2 where 2: "(if length d > 0 then send_all d w1 else Some (0, w1)) = Some (0, w2)"
    "outp w2 = outp w1 @ d" "no_outp w2 = no_outp w1" "xfer_ok w2"
    using send_all_ok [OF 1(4), of d] 1(4) by (cases "d = []") auto
  moreover obtain w3 where "send_all CRLF w2 = Some (0, w3)"
    "outp w3 = outp w2 @ CRLF" "no_outp w3 = no_outp w2" "xfer_ok w3"
    using send_all_ok [OF 2(4)] by metis
  ultimately show ?thesis by (simp add: resp_reply_bulk_def resp_bulk_def)
qed

section \<open>Properties\<close>

text \<open>(C11) Reading a request inverts its encoding: whatever segments the stream arrives in and however
  often \<open>recv\<close> is interrupted, a request of 1 to 128 non-empty strings is read back exactly, the bytes
  after it stay unread and nothing else of the server changes.\<close>

theorem resp_read_array_roundtrip:
  assumes "xfer_ok w" and "ctl_ok w"
    and "inp w = resp_encode items @ b"
    and "items \<noteq> []" and "length items \<le> 128" and "\<forall>d\<in>set items. item_ok d"
  shows "\<exists>w'. resp_read_array w = Some (Some items, w') \<and> inp w' = b \<and> no_req w' = no_req w"
proof -
  obtain w1 where 1: "resp_read_array w = read_items (length items) [] w1"
    "fed (concat (map resp_bulk items) @ b) w w1"
    using read_array_header [of w "length items" "concat (map resp_bulk items) @ b"] assms
    by (auto simp: resp_encode_def)
  then obtain w2 where "read_items (length items + 0) [] w1 = read_items 0 ([] @ items) w2"
    "fed b w1 w2"
    using read_items_prefix [of w1 items b 0 "[]"] assms(6) by (auto simp: fed_def)
  with 1 show ?thesis by (auto simp: fed_def)
qed

theorem resp_read_array_roundtrip_witness:
  "\<exists>w'. resp_read_array (world0\<lparr>xfer := [Short 0, Fail EINTR, Short 3, Fail EINTR],
        inp := resp_encode [''PING'', ''hi''] @ ''rest''\<rparr>) = Some (Some [''PING'', ''hi''], w') \<and>
     inp w' = ''rest'' \<and>
     no_req w' = no_req (world0\<lparr>xfer := [Short 0, Fail EINTR, Short 3, Fail EINTR],
        inp := resp_encode [''PING'', ''hi''] @ ''rest''\<rparr>)"
  by (rule resp_read_array_roundtrip)
    (simp_all add: world0_def xfer_ok_def ctl_ok_def item_ok_def INT_MAX_def)

text \<open>(C29) Reading a request always returns, and a request it accepts has between 1 and 128 strings,
  none of them empty, each at most \<open>INT_MAX\<close> bytes long.\<close>

theorem resp_read_array_accepts:
  "\<exists>r w'. resp_read_array w = Some (r, w') \<and>
     (case r of None \<Rightarrow> True
      | Some items \<Rightarrow> 0 < length items \<and> length items \<le> 128 \<and> list_all item_ok items)"
proof -
  obtain r k w1 where 1: "recv_exact 1 w = Some ((r, k), w1)" using recv_exact_total by blast
  obtain l w2 where 2: "recv_crlf_line 64 w1 = Some (l, w2)"
    unfolding recv_crlf_line_def using crlf_loop_total by blast
  obtain ok w3 where 3: "malloc w2 = (ok, w3)" by (cases "malloc w2")
  let ?ok = "\<lambda>r. case r of None \<Rightarrow> True
    | Some items \<Rightarrow> 0 < length items \<and> length items \<le> 128 \<and> list_all item_ok items"
  have rej: ?thesis if "resp_read_array w = Some (None, w')" for w' using that by simp
  show ?thesis
  proof (cases "0 < r \<and> hd k = CHR ''*''")
    case False
    then have "resp_read_array w = Some (None, w1)" by (auto simp: resp_read_array_def 1)
    then show ?thesis by (rule rej)
  next
    case lead: True
    show ?thesis
    proof (cases "\<exists>line n. l = Some line \<and> parse_int (cstr line) = Some n \<and> \<not> n \<le> 0 \<and> \<not> 128 < n")
      case False
      with lead have "resp_read_array w = Some (None, w2)"
        by (auto simp: resp_read_array_def 1 2 split: option.split)
      then show ?thesis by (rule rej)
    next
      case True
      then obtain line n where n: "l = Some line" "parse_int (cstr line) = Some n"
        "\<not> n \<le> 0" "\<not> 128 < n"
        by blast
      obtain q w' where q: "read_items (nat n) [] w3 = Some (q, w')" using read_items_total by blast
      have "resp_read_array w = (if ok then Some (q, w') else Some (None, w3))"
        using lead n q by (simp add: resp_read_array_def 1 2 3)
      moreover have "?ok q"
        using read_items_sound [of "nat n" "[]" w3 _ w'] q n
        by (auto simp: list_all_iff split: option.split)
      ultimately show ?thesis by simp
    qed
  qed
qed

text \<open>(C32) A request with an empty string is rejected: \<open>recv_exact\<close> returns its byte count, which for a
  string of length 0 is the value the caller takes for a closed connection.\<close>

theorem resp_empty_string_rejected:
  assumes "xfer_ok w" and "ctl_ok w"
    and "inp w = resp_encode (pre @ [] # post) @ b"
    and "length pre + length post < 128" and "\<forall>d\<in>set pre. item_ok d"
  shows "\<exists>w'. resp_read_array w = Some (None, w')"
proof -
  let ?n = "length pre + Suc (length post)"
  let ?b = "concat (map resp_bulk post) @ b"
  obtain w1 where 1: "resp_read_array w = read_items ?n [] w1"
    "fed (concat (map resp_bulk pre) @ resp_bulk [] @ ?b) w w1"
    using read_array_header [of w ?n "concat (map resp_bulk pre) @ resp_bulk [] @ ?b"] assms
    by (auto simp: resp_encode_def)
  then obtain w2 where 2: "read_items ?n [] w1 = read_items (Suc (length post)) pre w2"
    "fed (resp_bulk [] @ ?b) w1 w2"
    using read_items_prefix [of w1 pre "resp_bulk [] @ ?b" "Suc (length post)" "[]"] assms(5)
    by (auto simp: fed_def)
  then show ?thesis using 1 read_items_empty [of w2 ?b "length post" pre] by (auto simp: fed_def)
qed

theorem resp_empty_string_rejected_witness:
  "\<exists>w'. resp_read_array (world0\<lparr>inp := resp_encode ([''SETFILE'', ''f''] @ [] # []) @ []\<rparr>)
     = Some (None, w')"
  by (rule resp_empty_string_rejected [of _ "[''SETFILE'', ''f'']" "[]" "[]"])
    (simp_all add: world0_def xfer_ok_def ctl_ok_def item_ok_def INT_MAX_def)

end
