(* ===== verification/FileOps.thy ===== *)
theory FileOps
  imports Logger Locks Resp Rle
begin

text \<open>
  \<open>src/file_ops.c\<close>: the handlers of the file commands.  A handler takes the data directory, the client's
  name and its arguments as C strings, and returns the code of its reply with the new world; \<open>None\<close> is a
  handler that blocks on a lock.  Allocated buffers are values, so only the failure of an allocation
  shows in the model.

  The theorems are in \<open>FileSafe\<close> (every handler, on every path through it and whatever fails, closes
  what it opened, restores every lock and mutex and leaves all files outside the data directory alone)
  and in \<open>FileSpec\<close> (what the commands do to the files).
\<close>

definition COPY_BUF_SIZE :: nat where
  "COPY_BUF_SIZE = 8192"

definition logf :: "string \<Rightarrow> string \<Rightarrow> string \<Rightarrow> string \<Rightarrow> string \<Rightarrow> world \<Rightarrow> world" where
  "logf client cmd target status detail =
     logger_log (Some client) (Some cmd) (Some target) (Some status) (Some detail)"

definition close' :: "fh \<Rightarrow> world \<Rightarrow> world" where
  "close' f w = snd (close_fd f w)"

definition read_all_file :: "string \<Rightarrow> world \<Rightarrow> ((int \<times> bytes) \<times> world) option" where
  "read_all_file full_path w =
     (case open_rdonly full_path w of
        (None, w) \<Rightarrow> Some ((-1, []), w)
      | (Some f, w) \<Rightarrow>
        (case fstat_size f w of
           (None, w) \<Rightarrow> Some ((-1, []), close' f w)
         | (Some st_size, w) \<Rightarrow>
             if st_size < 0 \<or> st_size > int MAX_FILE_SIZE
             then Some ((-1, []), (close' f w)\<lparr>errno := EFBIG\<rparr>)
             else case malloc w of (buf, w) \<Rightarrow>
               if \<not> buf then Some ((-1, []), (close' f w)\<lparr>errno := ENOMEM\<rparr>)
               else do {
                 ((r, data, f), w) \<leftarrow> in_loop file_get (nat st_size) [] f w;
                 if r < 0 then Some ((-1, []), close' f w) else Some ((0, data), close' f w)
               }))"

definition write_all_file :: "string \<Rightarrow> bytes \<Rightarrow> world \<Rightarrow> (int \<times> world) option" where
  "write_all_file full_path data w =
     (case path_ensure_parent_dirs full_path w of (r, w) \<Rightarrow>
        if r \<noteq> 0 then Some (-1, w)
        else case open_creat_trunc full_path w of
          (None, w) \<Rightarrow> Some (-1, w)
        | (Some f, w) \<Rightarrow> do {
            ((r, f), w) \<leftarrow> out_loop file_put data f w;
            if r < 0 then Some (-1, close' f w)
            else case fsync f w of (r, w) \<Rightarrow>
              if r \<noteq> 0 then Some (-1, close' f w)
              else case close_fd f w of (r, w) \<Rightarrow> if r \<noteq> 0 then Some (-1, w) else Some (0, w)
          })"

definition op_getfile :: "string \<Rightarrow> string \<Rightarrow> string \<Rightarrow> world \<Rightarrow> (int \<times> world) option" where
  "op_getfile data_dir client rel_path w =
     (case path_build data_dir rel_path PATH_MAX of
        None \<Rightarrow> resp_reply_error ''invalid path'' (logf client ''GETFILE'' rel_path ''ERR'' ''invalid path'' w)
      | Some full \<Rightarrow> do {
          ((r, lock), w) \<leftarrow> locks_acquire_read full w;
          if r \<noteq> 0 then resp_reply_error ''internal lock error'' (logf client ''GETFILE'' rel_path ''ERR'' ''lock failure'' w)
          else do {
            ((r, buf), w) \<leftarrow> read_all_file full w;
            if r \<noteq> 0 then
              let e = errno w; w = locks_release lock w in
              if e = ENOENT then resp_reply_null_bulk (logf client ''GETFILE'' rel_path ''MISS'' ''not found'' w)
              else if e = EFBIG then resp_reply_error ''file too large'' (logf client ''GETFILE'' rel_path ''ERR'' ''file too large'' w)
              else resp_reply_error (strerror e) (logf client ''GETFILE'' rel_path ''ERR'' (strerror e) w)
            else do {
              (rc, w) \<leftarrow> resp_reply_bulk buf (locks_release lock w);
              Some (rc, logf client ''GETFILE'' rel_path ''OK'' ''read success'' w)
            }
          }
        })"

definition op_setfile :: "string \<Rightarrow> string \<Rightarrow> string \<Rightarrow> bytes \<Rightarrow> world \<Rightarrow> (int \<times> world) option" where
  "op_setfile data_dir client rel_path data w =
     (case path_build data_dir rel_path PATH_MAX of
        None \<Rightarrow> resp_reply_error ''invalid path'' (logf client ''SETFILE'' rel_path ''ERR'' ''invalid path'' w)
      | Some full \<Rightarrow> do {
          ((r, lock), w) \<leftarrow> locks_acquire_write full w;
          if r \<noteq> 0 then resp_reply_error ''internal lock error'' (logf client ''SETFILE'' rel_path ''ERR'' ''lock failure'' w)
          else do {
            (r, w) \<leftarrow> write_all_file full data w;
            if r \<noteq> 0 then
              let e = errno w; w = locks_release lock w in
              resp_reply_error (strerror e) (logf client ''SETFILE'' rel_path ''ERR'' (strerror e) w)
            else
              resp_reply_simple ''OK'' (logf client ''SETFILE'' rel_path ''OK'' ''write success'' (locks_release lock w))
          }
        })"

definition op_delfile :: "string \<Rightarrow> string \<Rightarrow> string \<Rightarrow> world \<Rightarrow> (int \<times> world) option" where
  "op_delfile data_dir client rel_path w =
     (case path_build data_dir rel_path PATH_MAX of
        None \<Rightarrow> resp_reply_error ''invalid path'' (logf client ''DELFILE'' rel_path ''ERR'' ''invalid path'' w)
      | Some full \<Rightarrow> do {
          ((r, lock), w) \<leftarrow> locks_acquire_write full w;
          if r \<noteq> 0 then resp_reply_error ''internal lock error'' (logf client ''DELFILE'' rel_path ''ERR'' ''lock failure'' w)
          else case unlink full w of (r, w) \<Rightarrow>
            if r \<noteq> 0 then
              let e = errno w; w = locks_release lock w in
              if e = ENOENT then resp_reply_integer 0 (logf client ''DELFILE'' rel_path ''MISS'' ''not found'' w)
              else resp_reply_error (strerror e) (logf client ''DELFILE'' rel_path ''ERR'' (strerror e) w)
            else
              resp_reply_integer 1 (logf client ''DELFILE'' rel_path ''OK'' ''deleted'' (locks_release lock w))
        })"

text \<open>\<open>path_build(src) != 0 || path_build(dst) != 0\<close>.\<close>

definition path_build2 :: "string \<Rightarrow> string \<Rightarrow> string \<Rightarrow> (string \<times> string) option" where
  "path_build2 data_dir src_rel dst_rel =
     (case path_build data_dir src_rel PATH_MAX of
        None \<Rightarrow> None
      | Some src_full \<Rightarrow> map_option (Pair src_full) (path_build data_dir dst_rel PATH_MAX))"

definition op_renamefile :: "string \<Rightarrow> string \<Rightarrow> string \<Rightarrow> string \<Rightarrow> world \<Rightarrow> (int \<times> world) option" where
  "op_renamefile data_dir client src_rel dst_rel w =
     (case path_build2 data_dir src_rel dst_rel of
        None \<Rightarrow> resp_reply_error ''invalid path'' (logf client ''RENAMEFILE'' ''-'' ''ERR'' ''invalid path'' w)
      | Some (src_full, dst_full) \<Rightarrow> do {
          ((r, locks), w) \<leftarrow> locks_acquire_two_write src_full dst_full w;
          if r \<noteq> 0 then resp_reply_error ''internal lock error'' (logf client ''RENAMEFILE'' src_rel ''ERR'' ''lock failure'' w)
          else case path_ensure_parent_dirs dst_full w of (r, w) \<Rightarrow>
            if r \<noteq> 0 then
              let e = errno w; w = locks_release_two locks w in
              resp_reply_error (strerror e) (logf client ''RENAMEFILE'' src_rel ''ERR'' (strerror e) w)
            else case rename src_full dst_full w of (r, w) \<Rightarrow>
              if r \<noteq> 0 then
                let e = errno w; w = locks_release_two locks w in
                resp_reply_error (strerror e) (logf client ''RENAMEFILE'' src_rel ''ERR'' (strerror e) w)
              else
                resp_reply_simple ''OK'' (logf client ''RENAMEFILE'' src_rel ''OK'' ''renamed'' (locks_release_two locks w))
        })"

text \<open>
  The copy loop: 0 when the source is used up, 1 when a read failed, 2 when a write failed.
\<close>

partial_function (option) copy_loop :: "fh \<Rightarrow> fh \<Rightarrow> world \<Rightarrow> ((nat \<times> fh \<times> fh) \<times> world) option" where
  "copy_loop src_fd dst_fd w =
     (case read_fd src_fd COPY_BUF_SIZE w of ((r, buf, src_fd), w) \<Rightarrow>
        if r < 0 then
          (if errno w = EINTR then copy_loop src_fd dst_fd w else Some ((1, src_fd, dst_fd), w))
        else if r = 0 then Some ((0, src_fd, dst_fd), w)
        else do {
          ((r, dst_fd), w) \<leftarrow> out_loop file_put buf dst_fd w;
          if r < 0 then Some ((2, src_fd, dst_fd), w) else copy_loop src_fd dst_fd w
        })"

definition op_copyfile :: "string \<Rightarrow> string \<Rightarrow> string \<Rightarrow> string \<Rightarrow> world \<Rightarrow> (int \<times> world) option" where
  "op_copyfile data_dir client src_rel dst_rel w =
     (case path_build2 data_dir src_rel dst_rel of
        None \<Rightarrow> resp_reply_error ''invalid path'' (logf client ''COPYFILE'' ''-'' ''ERR'' ''invalid path'' w)
      | Some (src_full, dst_full) \<Rightarrow> do {
          ((r, locks), w) \<leftarrow> locks_acquire_two_write src_full dst_full w;
          if r \<noteq> 0 then resp_reply_error ''internal lock error'' (logf client ''COPYFILE'' src_rel ''ERR'' ''lock failure'' w)
          else case open_rdonly src_full w of
            (None, w) \<Rightarrow>
              (let e = errno w; w = locks_release_two locks w in
               if e = ENOENT
               then resp_reply_error ''source file not found'' (logf client ''COPYFILE'' src_rel ''MISS'' ''source not found'' w)
               else resp_reply_error (strerror e) (logf client ''COPYFILE'' src_rel ''ERR'' (strerror e) w))
          | (Some src_fd, w) \<Rightarrow>
            (case path_ensure_parent_dirs dst_full w of (r, w) \<Rightarrow>
             if r \<noteq> 0 then
               let e = errno w; w = locks_release_two locks (close' src_fd w) in
               resp_reply_error (strerror e) (logf client ''COPYFILE'' dst_rel ''ERR'' (strerror e) w)
             else case open_creat_trunc dst_full w of
               (None, w) \<Rightarrow>
                 (let e = errno w; w = locks_release_two locks (close' src_fd w) in
                  resp_reply_error (strerror e) (logf client ''COPYFILE'' dst_rel ''ERR'' (strerror e) w))
             | (Some dst_fd, w) \<Rightarrow> do {
                 ((rc, src_fd, dst_fd), w) \<leftarrow> copy_loop src_fd dst_fd w;
                 if rc \<noteq> 0 then
                   let e = errno w; w = locks_release_two locks (close' dst_fd (close' src_fd w)) in
                   resp_reply_error (strerror e)
                     (logf client ''COPYFILE'' (if rc = 1 then src_rel else dst_rel) ''ERR'' (strerror e) w)
                 else case fsync dst_fd w of (r, w) \<Rightarrow>
                   if r \<noteq> 0 then
                     let e = errno w; w = locks_release_two locks (close' dst_fd (close' src_fd w)) in
                     resp_reply_error (strerror e) (logf client ''COPYFILE'' dst_rel ''ERR'' (strerror e) w)
                   else
                     let w = locks_release_two locks (close' dst_fd (close' src_fd w)) in
                     resp_reply_simple ''OK'' (logf client ''COPYFILE'' src_rel ''OK'' ''copied'' w)
               })
        })"

definition stat_text :: "int \<Rightarrow> attr \<Rightarrow> string" where
  "stat_text sz st =
     ''size='' @ fmt_lld sz @ '' mode='' @ oct (st_mode st mod 512) @ '' uid='' @ dec (st_uid st)
     @ '' gid='' @ dec (st_gid st) @ '' atime='' @ fmt_lld (st_atime st) @ '' mtime='' @ fmt_lld (st_mtime st)
     @ '' ctime='' @ fmt_lld (st_ctime st)"

definition op_statfile :: "string \<Rightarrow> string \<Rightarrow> string \<Rightarrow> world \<Rightarrow> (int \<times> world) option" where
  "op_statfile data_dir client rel_path w =
     (case path_build data_dir rel_path PATH_MAX of
        None \<Rightarrow> resp_reply_error ''invalid path'' (logf client ''STATFILE'' rel_path ''ERR'' ''invalid path'' w)
      | Some full \<Rightarrow> do {
          ((r, lock), w) \<leftarrow> locks_acquire_read full w;
          if r \<noteq> 0 then resp_reply_error ''internal lock error'' (logf client ''STATFILE'' rel_path ''ERR'' ''lock failure'' w)
          else case stat full w of
            (None, w) \<Rightarrow>
              (let e = errno w; w = locks_release lock w in
               if e = ENOENT then resp_reply_null_bulk (logf client ''STATFILE'' rel_path ''MISS'' ''not found'' w)
               else resp_reply_error (strerror e) (logf client ''STATFILE'' rel_path ''ERR'' (strerror e) w))
          | (Some (st_size, st), w) \<Rightarrow>
              (let w = locks_release lock w in
               case snprintf 512 (stat_text st_size st) of (n, out) \<Rightarrow>
                 if n < 0 \<or> n \<ge> 512
                 then resp_reply_error ''stat formatting error'' (logf client ''STATFILE'' rel_path ''ERR'' ''stat formatting error'' w)
                 else resp_reply_bulk out (logf client ''STATFILE'' rel_path ''OK'' ''metadata read'' w))
        })"

text \<open>\<open>for (i = nread; i > 0; --i)\<close>: where the last \<open>line_limit\<close> lines begin.\<close>

fun tail_start :: "bytes \<Rightarrow> int \<Rightarrow> nat \<Rightarrow> int \<Rightarrow> nat" where
  "tail_start buf line_limit 0 seen = 0"
| "tail_start buf line_limit (Suc i) seen =
     (if buf ! i = LF then
        (if seen + 1 > line_limit then Suc i else tail_start buf line_limit i (seen + 1))
      else tail_start buf line_limit i seen)"

definition LOG_TAIL_MAX :: nat where
  "LOG_TAIL_MAX = 1024 * 1024"

definition read_log_tail :: "int \<Rightarrow> world \<Rightarrow> (int \<times> bytes) \<times> world" where
  "read_log_tail line_limit w =
     (case open_rdonly (logger_path w) w of
        (None, w) \<Rightarrow>
          (if errno w = ENOENT then case malloc w of (ok, w) \<Rightarrow> ((if ok then 0 else -1, []), w)
           else ((-1, []), w))
      | (Some fp, w) \<Rightarrow>
        (case fseek_ok w of (ok, w) \<Rightarrow>
         if \<not> ok then ((-1, []), close' fp w)
         else
           let fend = length (file_data w (fpath fp));
               size = min fend LOG_TAIL_MAX in
           case fseek_ok w of (ok, w) \<Rightarrow>
           (case (if ok then (True, w) else fseek_ok w) of (ok', w) \<Rightarrow>
            if \<not> ok' then ((-1, []), close' fp w)
            else
              let fp = fp\<lparr>foff := (if ok then fend - size else 0)\<rparr> in
              case malloc w of (buf, w) \<Rightarrow>
              if \<not> buf then ((-1, []), close' fp w)
              else case fread fp size w of (data, w) \<Rightarrow>
                let w = close' fp w in
                if line_limit \<le> 0 then ((0, data), w)
                else
                  let start = tail_start data line_limit (length data) 0 in
                  case malloc w of (trim, w) \<Rightarrow>
                  if \<not> trim then ((-1, []), w) else ((0, drop start data), w))))"

definition op_logs :: "string \<Rightarrow> int \<Rightarrow> world \<Rightarrow> (int \<times> world) option" where
  "op_logs client line_limit w =
     (case read_log_tail line_limit w of ((r, buf), w) \<Rightarrow>
        if r \<noteq> 0 then
          let w = logf client ''LOGS'' ''operations.log'' ''ERR'' (strerror (errno w)) w in
          resp_reply_error (strerror (errno w)) w
        else do {
          (rc, w) \<leftarrow> resp_reply_bulk buf w;
          Some (rc, logf client ''LOGS'' ''operations.log'' ''OK'' ''read logs'' w)
        })"

definition op_compress :: "string \<Rightarrow> string \<Rightarrow> string \<Rightarrow> string \<Rightarrow> world \<Rightarrow> (int \<times> world) option" where
  "op_compress data_dir client src_rel dst_rel w =
     (case path_build2 data_dir src_rel dst_rel of
        None \<Rightarrow> resp_reply_error ''invalid path'' (logf client ''COMPRESS'' src_rel ''ERR'' ''invalid path'' w)
      | Some (src_full, dst_full) \<Rightarrow> do {
          ((r, locks), w) \<leftarrow> locks_acquire_two_write src_full dst_full w;
          if r \<noteq> 0 then resp_reply_error ''internal lock error'' (logf client ''COMPRESS'' src_rel ''ERR'' ''lock failure'' w)
          else do {
            ((r, src_buf), w) \<leftarrow> read_all_file src_full w;
            if r \<noteq> 0 then
              let e = errno w; w = locks_release_two locks w in
              resp_reply_error (strerror e) (logf client ''COMPRESS'' src_rel ''ERR'' (strerror e) w)
            else case rle_compress_bytes src_buf w of
              (None, w) \<Rightarrow>
                (let e = errno w; w = locks_release_two locks w in
                 resp_reply_error (strerror e) (logf client ''COMPRESS'' src_rel ''ERR'' (strerror e) w))
            | (Some comp_buf, w) \<Rightarrow> do {
                (r, w) \<leftarrow> write_all_file dst_full comp_buf w;
                if r \<noteq> 0 then
                  let e = errno w; w = locks_release_two locks w in
                  resp_reply_error (strerror e) (logf client ''COMPRESS'' dst_rel ''ERR'' (strerror e) w)
                else
                  resp_reply_simple ''OK'' (logf client ''COMPRESS'' src_rel ''OK'' ''compressed'' (locks_release_two locks w))
              }
          }
        })"

definition op_decompress :: "string \<Rightarrow> string \<Rightarrow> string \<Rightarrow> string \<Rightarrow> world \<Rightarrow> (int \<times> world) option" where
  "op_decompress data_dir client src_rel dst_rel w =
     (case path_build2 data_dir src_rel dst_rel of
        None \<Rightarrow> resp_reply_error ''invalid path'' (logf client ''DECOMPRESS'' src_rel ''ERR'' ''invalid path'' w)
      | Some (src_full, dst_full) \<Rightarrow> do {
          ((r, locks), w) \<leftarrow> locks_acquire_two_write src_full dst_full w;
          if r \<noteq> 0 then resp_reply_error ''internal lock error'' (logf client ''DECOMPRESS'' src_rel ''ERR'' ''lock failure'' w)
          else do {
            ((r, src_buf), w) \<leftarrow> read_all_file src_full w;
            if r \<noteq> 0 then
              let e = errno w; w = locks_release_two locks w in
              resp_reply_error (strerror e) (logf client ''DECOMPRESS'' src_rel ''ERR'' (strerror e) w)
            else case rle_decompress_bytes src_buf w of
              (None, w) \<Rightarrow>
                (let e = errno w; w = locks_release_two locks w in
                 resp_reply_error (strerror e) (logf client ''DECOMPRESS'' src_rel ''ERR'' (strerror e) w))
            | (Some dec_buf, w) \<Rightarrow> do {
                (r, w) \<leftarrow> write_all_file dst_full dec_buf w;
                if r \<noteq> 0 then
                  let e = errno w; w = locks_release_two locks w in
                  resp_reply_error (strerror e) (logf client ''DECOMPRESS'' dst_rel ''ERR'' (strerror e) w)
                else
                  resp_reply_simple ''OK'' (logf client ''DECOMPRESS'' src_rel ''OK'' ''decompressed'' (locks_release_two locks w))
              }
          }
        })"

end
