(* ===== verification/FileFrames.thy ===== *)
theory FileFrames
  imports FileOps
begin

text \<open>
  What the system calls and the helpers of \<open>src/file_ops.c\<close> keep of the world, and what they achieve.
  \<open>quiet\<close> is a call that touches neither the tree nor the output, \<open>calm P\<close> one that leaves the files at
  places other than \<open>P\<close> alone; \<open>oks\<close> is a world in which no call fails.  The \<open>step\<close> rules are the
  verification conditions of one call in a handler, in the order the handler makes them.
\<close>

section \<open>Frames of the system calls\<close>

definition below :: "name list \<Rightarrow> name list \<Rightarrow> bool" where
  "below d p \<longleftrightarrow> take (length d) p = d"

text \<open>
  The files at places other than those of \<open>P\<close>, with their contents.  Directories do not count: creating
  parents may add some.
\<close>

definition others :: "(name list \<Rightarrow> bool) \<Rightarrow> world \<Rightarrow> name list \<Rightarrow> bytes option" where
  "others P w p = (if P p then None else case fs w p of Some (File c) \<Rightarrow> Some c | _ \<Rightarrow> None)"

lemma others_fs: "fs w' = fs w \<Longrightarrow> others P w' = others P w"
  by (simp add: others_def fun_eq_iff)

lemma others_simps [simp]:
  "others P (w\<lparr>errno := e\<rparr>) = others P w" "others P (w\<lparr>nopen := n\<rparr>) = others P w"
  "others P (w\<lparr>lockmap := l\<rparr>) = others P w" "others P (w\<lparr>outp := x\<rparr>) = others P w"
  by (rule others_fs, simp)+

lemma others_upd:
  assumes "P p" "\<And>q. q \<noteq> p \<Longrightarrow> fs w' q = fs w q"
  shows "others P w' = others P w"
proof
  fix x
  show "others P w' x = others P w x"
    using assms by (cases "x = p") (simp_all add: others_def)
qed

lemma others_file: "others P w' = others P w \<Longrightarrow> \<not> P p \<Longrightarrow> fs w' p = Some (File c) \<longleftrightarrow> fs w p = Some (File c)"
  by (drule fun_cong [of _ _ p]) (auto simp: others_def split: option.splits node.splits)

lemma others_parents:
  assumes "path_ensure_parent_dirs s w = (r, w')"
  shows "others P w' = others P w"
proof
  fix x
  have "fs w x = None" if "node_at (fs w) x = None" using that by (simp add: node_at_def split: if_splits)
  then show "others P w' x = others P w x"
    using parents_fs [OF assms, of x] by (auto simp: others_def)
qed

lemma below_path_build: "path_build d r sz = Some full \<Longrightarrow> d \<noteq> [] \<Longrightarrow> below (resolve d) (resolve full)"
  using path_build_resolve(1) by (simp add: below_def)

lemma below_two:
  "path_build2 d r s = Some (a, b) \<Longrightarrow> d \<noteq> [] \<Longrightarrow> below (resolve d) (resolve a) \<and> below (resolve d) (resolve b)"
  by (auto simp: path_build2_def below_path_build split: option.splits)

text \<open>Every call keeps the locks and mutexes; \<open>quiet\<close> ones also keep the tree and the output.\<close>

definition quiet :: "world \<Rightarrow> world \<Rightarrow> bool" where
  "quiet w w' \<longleftrightarrow> core w' = core w \<and> fs w' = fs w \<and> outp w' = outp w \<and> (oks w \<longrightarrow> oks w')"

lemma quiet_refl [simp]: "quiet w w"
  by (simp add: quiet_def)

lemma quiet_trans: "quiet w w1 \<Longrightarrow> quiet w1 w2 \<Longrightarrow> quiet w w2"
  by (simp add: quiet_def)

lemma quiet_upd [simp]: "quiet w (w'\<lparr>errno := e\<rparr>) = quiet w w'" "quiet w (w'\<lparr>nopen := n\<rparr>) = quiet w w'"
  by (simp_all add: quiet_def)

lemma popc_quiet: "popc w = (a, w') \<Longrightarrow> quiet w w' \<and> nopen w' = nopen w \<and> errno w' = errno w"
  using popc_frame [of w a w'] by (simp add: quiet_def)

lemma malloc_quiet:
  assumes "malloc w = (b, w')"
  shows "quiet w w' \<and> nopen w' = nopen w \<and> (oks w \<longrightarrow> b)"
proof -
  obtain a w1 where p: "popc w = (a, w1)" by (cases "popc w")
  show ?thesis using assms p popc_quiet [OF p] popc_frame [OF p]
    by (cases a) (auto simp: malloc_def oks_def)
qed

lemma fseek_quiet:
  assumes "fseek_ok w = (b, w')"
  shows "quiet w w' \<and> nopen w' = nopen w \<and> (oks w \<longrightarrow> b)"
proof -
  obtain a w1 where p: "popc w = (a, w1)" by (cases "popc w")
  show ?thesis using assms p popc_quiet [OF p] popc_frame [OF p]
    by (cases a) (auto simp: fseek_ok_def fails_def oks_def)
qed

lemma fsync_quiet:
  assumes "fsync f w = (r, w')"
  shows "quiet w w' \<and> nopen w' = nopen w \<and> (oks w \<longrightarrow> r = 0)"
proof -
  obtain a w1 where p: "popc w = (a, w1)" by (cases "popc w")
  show ?thesis using assms p popc_quiet [OF p] popc_frame [OF p]
    by (cases a) (auto simp: fsync_def fails_def oks_def)
qed

lemma close_quiet:
  assumes "close_fd f w = (r, w')"
  shows "quiet w w' \<and> nopen w' = nopen w - 1 \<and> (oks w \<longrightarrow> r = 0)"
proof -
  obtain a w1 where p: "popc w = (a, w1)" by (cases "popc w")
  show ?thesis using assms p popc_quiet [OF p] popc_frame [OF p]
    by (cases a) (auto simp: close_fd_def fails_def Let_def oks_def)
qed

lemma close'_quiet [simp]: "quiet w (close' f w)" "nopen (close' f w) = nopen w - 1"
  using close_quiet [of f w] by (cases "close_fd f w"; simp add: close'_def)+

lemma fstat_quiet:
  assumes "fstat_size f w = (r, w')"
  shows "quiet w w' \<and> nopen w' = nopen w \<and>
    (oks w \<longrightarrow> r = Some (if node_at (fs w) (fpath f) = Some Dir then int (dirsz w) else int (length (file_data w (fpath f)))))"
proof -
  obtain a w1 where p: "popc w = (a, w1)" by (cases "popc w")
  have d: "dirsz w1 = dirsz w" using p by (auto simp: popc_def split: list.splits)
  show ?thesis using assms p popc_quiet [OF p] popc_frame [OF p] d
    by (cases a) (auto simp: fstat_size_def fails_def oks_def file_data_def)
qed

lemma open_rdonly_quiet:
  assumes "open_rdonly s w = (h, w')"
  shows "quiet w w' \<and> nopen w' = nopen w + (if h = None then 0 else 1) \<and>
    (\<forall>f. h = Some f \<longrightarrow> f = \<lparr>fpath = resolve s, foff = 0\<rparr>)"
proof -
  obtain a w1 where p: "popc w = (a, w1)" by (cases "popc w")
  have "h = None \<and> (\<exists>e. w' = w1\<lparr>errno := e\<rparr>) \<or>
    h = Some \<lparr>fpath = resolve s, foff = 0\<rparr> \<and> w' = w1\<lparr>nopen := nopen w1 + 1\<rparr>"
    using assms p
    by (simp add: open_rdonly_def fails_def Let_def split: answer.splits option.splits if_splits node.splits) blast+
  with popc_quiet [OF p] show ?thesis by (elim disjE conjE exE) simp_all
qed

lemma stat_quiet:
  assumes "stat s w = (r, w')"
  shows "quiet w w' \<and> nopen w' = nopen w"
proof -
  obtain a w1 where p: "popc w = (a, w1)" by (cases "popc w")
  have "w' = w1 \<or> (\<exists>e. w' = w1\<lparr>errno := e\<rparr>)"
    using assms p
    by (simp add: stat_def fails_def Let_def split: answer.splits option.splits if_splits node.splits) blast+
  with popc_quiet [OF p] show ?thesis by (elim disjE exE) simp_all
qed

lemma core_no_io: "no_io w' = no_io w \<Longrightarrow> core w' = core w \<and> fs w' = fs w \<and> outp w' = outp w \<and> ctl w' = ctl w \<and> nopen w' = nopen w"
  unfolding no_io_def core_def by (drule_tac f = "\<lambda>w. (core w, fs w, outp w, ctl w, nopen w)" in arg_cong) (simp add: core_def)

lemma core_no_file:
  assumes "no_file p w' = no_file p w"
  shows "core w' = core w" "outp w' = outp w" "ctl w' = ctl w" "nopen w' = nopen w" "q \<noteq> p \<Longrightarrow> fs w' q = fs w q"
proof -
  have "(core (no_file p w'), outp (no_file p w'), ctl (no_file p w'), nopen (no_file p w'), fs (no_file p w') q)
    = (core (no_file p w), outp (no_file p w), ctl (no_file p w), nopen (no_file p w), fs (no_file p w) q)"
    using assms by simp
  then show "core w' = core w" "outp w' = outp w" "ctl w' = ctl w" "nopen w' = nopen w" "q \<noteq> p \<Longrightarrow> fs w' q = fs w q"
    by (simp_all add: no_file_def)
qed

lemma core_no_outp: "no_outp w' = no_outp w \<Longrightarrow> core w' = core w \<and> fs w' = fs w \<and> ctl w' = ctl w \<and> nopen w' = nopen w"
  unfolding no_outp_def core_def by (drule_tac f = "\<lambda>w. (core w, fs w, ctl w, nopen w)" in arg_cong) (simp add: core_def)

text \<open>Reading a directory fails.\<close>

lemma read_fd_dir:
  assumes "node_at (fs w) (fpath h) = Some Dir" "read_fd h n w = ((r, d, h'), w')"
  shows "r = -1 \<and> d = [] \<and> h' = h \<and> no_io w' = no_io w \<and>
    (xfer w = [] \<and> xfer w' = [] \<and> errno w' = EISDIR \<or> (\<exists>a. xfer w = a # xfer w' \<and> (errno w' = EISDIR \<or> a = Fail (errno w'))))"
  using assms
  by (cases "xfer w") (auto simp: read_fd_def popx_def no_io_def fails_def split: answer.splits)

lemma in_loop_dir:
  "node_at (fs w) (fpath h) = Some Dir \<Longrightarrow> 0 < n \<Longrightarrow>
   \<exists>w'. in_loop file_get n [] h w = Some ((-1, [], h), w') \<and> no_io w' = no_io w \<and> (xfer_ok w \<longrightarrow> xfer_ok w')"
proof (induction "length (xfer w)" arbitrary: w rule: less_induct)
  case less
  obtain r d h1 w1 where r: "read_fd h n w = ((r, d, h1), w1)" by (metis surj_pair)
  note rd = read_fd_dir [OF less.prems(1) r]
  have xo: "xfer_ok w \<longrightarrow> xfer_ok w1" using rd by (auto simp: xfer_ok_def)
  show ?case
  proof (cases "errno w1 = EINTR")
    case True
    have "fs w1 = fs w" using rd core_no_io by blast
    moreover have "length (xfer w1) < length (xfer w)" using rd True by auto
    ultimately obtain w2 where "in_loop file_get n [] h w1 = Some ((-1, [], h), w2)" "no_io w2 = no_io w1"
      "xfer_ok w1 \<longrightarrow> xfer_ok w2" using less.hyps [of w1] less.prems by auto
    then show ?thesis using r rd True xo less.prems(2) by (subst in_loop.simps) (simp add: file_get_def)
  next
    case False
    then show ?thesis using r rd xo less.prems(2) by (subst in_loop.simps) (simp add: file_get_def)
  qed
qed

lemma in_loop_file:
  assumes "foff h = 0"
  shows "\<exists>r d h' w'. in_loop file_get n [] h w = Some ((r, d, h'), w') \<and> no_io w' = no_io w \<and> (xfer_ok w \<longrightarrow> xfer_ok w') \<and>
    fpath h' = fpath h \<and> (r = -1 \<or> 0 \<le> r) \<and>
    (node_at (fs w) (fpath h) \<noteq> Some Dir \<longrightarrow> xfer_ok w \<longrightarrow> r \<noteq> -1 \<and> d = take n (file_data w (fpath h)))"
proof (cases "node_at (fs w) (fpath h) = Some Dir")
  case True
  show ?thesis
  proof (cases "n = 0")
    case True
    then show ?thesis by (subst in_loop.simps) simp
  next
    case False
    then show ?thesis using in_loop_dir [OF True, of n] True by auto
  qed
next
  case False
  let ?src = "\<lambda>h w. drop (foff h) (file_data w (fpath h))"
  obtain st d h' w' where l: "in_loop file_get n [] h w = Some ((st, d, h'), w')"
    "(fpath h', no_io w') = (fpath h, no_io w)" "?src h w = d @ ?src h' w'"
    "st = 1 \<and> length d = n \<or> st = 0 \<and> ?src h' w' = [] \<and> length d < n \<or> st = -1 \<and> \<not> xfer_ok w"
    "xfer_ok w \<longrightarrow> xfer_ok w'"
    using read_ch.in_loop_total [OF False, of "[]" n] by auto
  have "xfer_ok w \<longrightarrow> st \<noteq> -1 \<and> d = take n (?src h w)"
    using l(3,4) by (auto simp del: drop_eq_Nil)
  with l assms show ?thesis by auto
qed

text \<open>
  \<open>read_all_file\<close> reads the whole file.  Its errors: \<open>ENOENT\<close> for a path whose file or directory is
  missing, \<open>EFBIG\<close> for a file beyond the limit.
\<close>

definition has_file :: "string \<Rightarrow> world \<Rightarrow> bytes \<Rightarrow> bool" where
  "has_file s w c \<longleftrightarrow> s \<noteq> [] \<and> \<not> wants_dir s \<and> walk_err (fs w) (resolve s) = None \<and> node_at (fs w) (resolve s) = Some (File c)"

definition no_such :: "string \<Rightarrow> world \<Rightarrow> bool" where
  "no_such s w \<longleftrightarrow> s = [] \<or> walk_err (fs w) (resolve s) = Some ENOENT \<or>
     walk_err (fs w) (resolve s) = None \<and> node_at (fs w) (resolve s) = None"

lemma node_at_File: "node_at f p = Some (File c) \<longleftrightarrow> p \<noteq> [] \<and> p \<noteq> [''/''] \<and> f p = Some (File c)"
  by (auto simp: node_at_def)

lemma has_file_data: "has_file s w c \<Longrightarrow> file_data w (resolve s) = c"
  by (simp add: has_file_def node_at_File file_data_def)

lemma open_rdonly_ok:
  assumes "open_rdonly s w = (h, w')" "oks w"
  shows "has_file s w c \<Longrightarrow> h = Some \<lparr>fpath = resolve s, foff = 0\<rparr>"
    "no_such s w \<Longrightarrow> h = None \<and> errno w' = ENOENT"
proof -
  obtain a w1 where p: "popc w = (a, w1)" by (cases "popc w")
  have a: "\<And>e. a \<noteq> Fail e" "fs w1 = fs w" using popc_frame [OF p] assms(2) by (simp_all add: oks_def)
  show "has_file s w c \<Longrightarrow> h = Some \<lparr>fpath = resolve s, foff = 0\<rparr>"
    using assms(1) p a by (simp add: open_rdonly_def Let_def answer_ok has_file_def)
  show "no_such s w \<Longrightarrow> h = None \<and> errno w' = ENOENT"
    using assms(1) p a by (auto simp: open_rdonly_def Let_def answer_ok no_such_def fails_def split: if_splits)
qed

lemma in_loop_read_spec:
  assumes "foff h = 0"
  shows "outcome b (in_loop file_get n [] h w) (\<lambda>((r, d, h'), w'). quiet w w' \<and> nopen w' = nopen w \<and>
    (\<forall>c. oks w \<longrightarrow> node_at (fs w) (fpath h) = Some (File c) \<longrightarrow> r \<noteq> -1 \<and> d = take n c) \<and> (r = -1 \<or> 0 \<le> r))"
proof -
  obtain r d h' w' where l: "in_loop file_get n [] h w = Some ((r, d, h'), w')" "no_io w' = no_io w"
    "xfer_ok w \<longrightarrow> xfer_ok w'" "r = -1 \<or> 0 \<le> r"
    "node_at (fs w) (fpath h) \<noteq> Some Dir \<longrightarrow> xfer_ok w \<longrightarrow> r \<noteq> -1 \<and> d = take n (file_data w (fpath h))"
    using in_loop_file [OF assms, of n w] by blast
  have "quiet w w'" "nopen w' = nopen w"
    using core_no_io [OF l(2)] l(3) by (auto simp: quiet_def oks_def ctl_ok_def)
  then show ?thesis using l by (auto simp: oks_def file_data_def node_at_def split: if_splits)
qed

lemma close'_frame [simp]:
  "core (close' f w) = core w" "fs (close' f w) = fs w" "outp (close' f w) = outp w" "oks w \<Longrightarrow> oks (close' f w)"
  using close'_quiet(1) [of w f] by (simp_all add: quiet_def)

text \<open>One step of a handler at a time.\<close>

lemma outcome_case: "(\<And>x y. c = (x, y) \<Longrightarrow> outcome b (f x y) Q) \<Longrightarrow> outcome b (case c of (x, y) \<Rightarrow> f x y) Q"
  by (cases c) simp

lemma outcome_opt:
  "(h = None \<Longrightarrow> outcome b m Q) \<Longrightarrow> (\<And>x. h = Some x \<Longrightarrow> outcome b (f x) Q) \<Longrightarrow>
   outcome b (case h of None \<Rightarrow> m | Some x \<Rightarrow> f x) Q"
  by (cases h) simp_all

lemma outcome_if:
  "(c \<Longrightarrow> outcome b m Q) \<Longrightarrow> (\<not> c \<Longrightarrow> outcome b m' Q) \<Longrightarrow> outcome b (if c then m else m') Q"
  by simp

lemma outcome_let: "outcome b (f x) Q \<Longrightarrow> outcome b (Let x f) Q"
  by simp

lemma outcome_ret: "Q x \<Longrightarrow> outcome b (Some x) Q"
  by simp

lemma outcome_bind2:
  "outcome b m P \<Longrightarrow> (\<And>r w. P (r, w) \<Longrightarrow> outcome b (f r w) Q) \<Longrightarrow> outcome b (Option.bind m (\<lambda>(r, w). f r w)) Q"
  by (cases m) (auto split: prod.split)

lemma outcome_bind3:
  "outcome b m P \<Longrightarrow> (\<And>r d w. P ((r, d), w) \<Longrightarrow> outcome b (f r d w) Q) \<Longrightarrow>
   outcome b (Option.bind m (\<lambda>((r, d), w). f r d w)) Q"
  by (cases m) (auto split: prod.split)

lemma outcome_bind4:
  "outcome b m P \<Longrightarrow> (\<And>r d h w. P ((r, d, h), w) \<Longrightarrow> outcome b (f r d h w) Q) \<Longrightarrow>
   outcome b (Option.bind m (\<lambda>((r, d, h), w). f r d h w)) Q"
  by (cases m) (auto split: prod.split)

lemma step_open_rdonly:
  "(\<And>h w'. quiet w w' \<Longrightarrow> nopen w' = nopen w + (if h = None then 0 else 1) \<Longrightarrow>
      (\<forall>f. h = Some f \<longrightarrow> f = \<lparr>fpath = resolve s, foff = 0\<rparr>) \<Longrightarrow> outcome b (f h w') Q) \<Longrightarrow>
   outcome b (case open_rdonly s w of (h, w') \<Rightarrow> f h w') Q"
  using open_rdonly_quiet by (intro outcome_case) blast

lemma step_fstat:
  "(\<And>z w'. quiet w w' \<Longrightarrow> nopen w' = nopen w \<Longrightarrow> outcome b (f z w') Q) \<Longrightarrow>
   outcome b (case fstat_size h w of (z, w') \<Rightarrow> f z w') Q"
  using fstat_quiet by (intro outcome_case) blast

lemma step_malloc:
  "(\<And>z w'. quiet w w' \<Longrightarrow> nopen w' = nopen w \<Longrightarrow> outcome b (f z w') Q) \<Longrightarrow>
   outcome b (case malloc w of (z, w') \<Rightarrow> f z w') Q"
  using malloc_quiet by (intro outcome_case) blast

lemmas steps = outcome_ret outcome_let outcome_if outcome_opt

lemma read_all_file_frame:
  "outcome b (read_all_file s w) (\<lambda>((r, d), w'). quiet w w' \<and> nopen w' = nopen w \<and> (r = 0 \<or> r = -1))"
  unfolding read_all_file_def
  by (intro step_open_rdonly step_fstat step_malloc steps outcome_bind4 [OF in_loop_read_spec])
    (simp_all add: quiet_def)

lemma read_all_file_missing:
  "oks w \<Longrightarrow> no_such s w \<Longrightarrow> outcome b (read_all_file s w) (\<lambda>((r, d), w'). r = -1 \<and> errno w' = ENOENT)"
  unfolding read_all_file_def
  by (cases "open_rdonly s w") (auto dest: open_rdonly_ok(2))

lemma read_all_file_present:
  assumes "oks w" "has_file s w c"
  shows "outcome b (read_all_file s w) (\<lambda>((r, d), w').
    if length c \<le> MAX_FILE_SIZE then r = 0 \<and> d = c else r = -1 \<and> errno w' = EFBIG)"
proof -
  obtain h w1 where o: "open_rdonly s w = (h, w1)" by (cases "open_rdonly s w")
  have h: "h = Some \<lparr>fpath = resolve s, foff = 0\<rparr>" using open_rdonly_ok(1) [OF o assms] .
  let ?f = "\<lparr>fpath = resolve s, foff = 0\<rparr>"
  have q1: "fs w1 = fs w" "oks w1" using open_rdonly_quiet [OF o] assms(1) by (simp_all add: quiet_def)
  have nd: "node_at (fs w) (resolve s) = Some (File c)" using assms(2) by (simp add: has_file_def)
  obtain z w2 where st: "fstat_size ?f w1 = (z, w2)" by (cases "fstat_size ?f w1")
  have z: "z = Some (int (length c))" "fs w2 = fs w" "oks w2"
    using fstat_quiet [OF st] q1 nd by (simp_all add: quiet_def file_data_def node_at_File)
  obtain bf w3 where m: "malloc w2 = (bf, w3)" by (cases "malloc w2")
  have bf: "bf" "fs w3 = fs w" "oks w3" using malloc_quiet [OF m] z by (simp_all add: quiet_def)
  have l: "outcome b (in_loop file_get (length c) [] ?f w3) (\<lambda>((r, d, h'), w'). 0 \<le> r \<and> d = c)"
    by (rule outcome_mono [OF in_loop_read_spec]) (use bf nd in auto)
  show ?thesis
    by (auto simp: read_all_file_def o h st z(1) m bf(1) intro!: outcome_bind4 [OF l])
qed

section \<open>Frames of the helpers\<close>

text \<open>\<open>calm P\<close>: locks, mutexes, output and the files outside \<open>P\<close> are kept.\<close>

definition calm :: "(name list \<Rightarrow> bool) \<Rightarrow> world \<Rightarrow> world \<Rightarrow> bool" where
  "calm P w w' \<longleftrightarrow> core w' = core w \<and> others P w' = others P w \<and> outp w' = outp w \<and> (oks w \<longrightarrow> oks w')"

lemma calm_refl [simp]: "calm P w w"
  by (simp add: calm_def)

lemma quiet_calm: "quiet w w' \<Longrightarrow> calm P w w'"
  using others_fs [of w' w P] by (simp add: quiet_def calm_def)

lemma calm_trans: "calm P w w1 \<Longrightarrow> calm P w1 w2 \<Longrightarrow> calm P w w2"
  by (simp add: calm_def)

lemma mkdir_ctl_ok:
  assumes "mkdir s w = (r, w')"
  shows "ctl_ok w \<Longrightarrow> ctl_ok w'"
proof -
  obtain a w1 where p: "popc w = (a, w1)" by (cases "popc w")
  have "ctl w' = ctl w1"
    using assms p by (simp add: mkdir_def fails_def Let_def split: answer.splits option.splits if_splits) auto
  then show "ctl_ok w \<Longrightarrow> ctl_ok w'" using popc_frame [OF p] by (simp add: ctl_ok_def)
qed

lemma parent_dirs_loop_ctl_ok: "parent_dirs_loop pre cs w = (r, w') \<Longrightarrow> ctl_ok w \<Longrightarrow> ctl_ok w'"
proof (induction pre cs w rule: parent_dirs_loop.induct)
  case (2 pre c cs w)
  obtain r1 w1 where m: "mkdir pre w = (r1, w1)" by (cases "mkdir pre w")
  with 2 mkdir_ctl_ok [OF m] show ?case by (auto split: if_splits)
qed simp

lemma parents_calm:
  assumes "path_ensure_parent_dirs s w = (r, w')"
  shows "calm P w w' \<and> nopen w' = nopen w"
proof -
  have "ctl_ok w \<Longrightarrow> ctl_ok w'"
    using assms parent_dirs_loop_ctl_ok by (auto simp: path_ensure_parent_dirs_def snprintf_def split: if_splits)
  then show ?thesis
  using parents_frame [OF assms] others_parents [OF assms] by (simp add: calm_def oks_def xfer_ok_def)
qed

lemma open_creat_trunc_result:
  assumes "open_creat_trunc s w = (h, w')" "popc w = (a, w1)"
  shows "(\<exists>e. h = None \<and> w' = w1\<lparr>errno := e\<rparr>) \<or> h = Some \<lparr>fpath = resolve s, foff = 0\<rparr> \<and>
      w' = w1\<lparr>fs := (fs w1)(resolve s \<mapsto> File []), nopen := nopen w1 + 1\<rparr>"
  using assms
  by (simp add: open_creat_trunc_def fails_def Let_def split: answer.splits option.splits if_splits node.splits)
    blast+

lemma open_creat_trunc_calm:
  assumes "open_creat_trunc s w = (h, w')" "P (resolve s)"
  shows "calm P w w' \<and> nopen w' = nopen w + (if h = None then 0 else 1) \<and>
    (\<forall>f. h = Some f \<longrightarrow> f = \<lparr>fpath = resolve s, foff = 0\<rparr> \<and> fs w' (resolve s) = Some (File []) \<and>
      (\<forall>p. p \<noteq> resolve s \<longrightarrow> fs w' p = fs w p))"
proof -
  obtain a w1 where p: "popc w = (a, w1)" by (cases "popc w")
  note q = popc_quiet [OF p]
  then have c: "calm P w w1" using quiet_calm by blast
  have o: "others P (w1\<lparr>fs := (fs w1)(resolve s \<mapsto> File []), nopen := n\<rparr>) = others P w1" for n
    using assms(2) by (intro others_upd [of P "resolve s"]) simp_all
  from open_creat_trunc_result [OF assms(1) p] show ?thesis
    using q c o by (elim disjE exE conjE) (simp_all add: calm_def quiet_def)
qed

lemma open_creat_trunc_ok:
  assumes "oks w" "s \<noteq> []" "\<not> wants_dir s" "walk_err (fs w) (resolve s) = None" "node_at (fs w) (resolve s) \<noteq> Some Dir"
    "open_creat_trunc s w = (h, w')"
  shows "h = Some \<lparr>fpath = resolve s, foff = 0\<rparr>"
proof -
  obtain a w1 where p: "popc w = (a, w1)" by (cases "popc w")
  have a: "\<And>e. a \<noteq> Fail e" "fs w1 = fs w" using popc_frame [OF p] assms(1) by (simp_all add: oks_def)
  show ?thesis
    using assms p a by (simp add: open_creat_trunc_def Let_def answer_ok split: option.splits node.splits)
qed

lemma out_loop_file:
  assumes "fs w (fpath h) = Some (File c)" "foff h = length c" "P (fpath h)"
  shows "outcome b (out_loop file_put d h w) (\<lambda>((r, h'), w'). calm P w w' \<and> nopen w' = nopen w \<and> fpath h' = fpath h \<and>
     (\<forall>p. p \<noteq> fpath h \<longrightarrow> fs w' p = fs w p) \<and> (r = 0 \<or> r = -1) \<and>
     (\<exists>c'. fs w' (fpath h) = Some (File c') \<and> foff h' = length c' \<and> (r = 0 \<longrightarrow> c' = c @ d)) \<and> (oks w \<longrightarrow> r = 0))"
proof -
  have ok: "foff h = length (file_data w (fpath h)) \<and> (\<exists>c. fs w (fpath h) = Some (File c))"
    using assms by (simp add: file_data_def)
  obtain r h' w' k where l: "out_loop file_put d h w = Some ((r, h'), w')"
    "foff h' = length (file_data w' (fpath h')) \<and> (\<exists>c. fs w' (fpath h') = Some (File c))"
    "(fpath h', no_file (fpath h') w') = (fpath h, no_file (fpath h) w)"
    "file_data w' (fpath h') = file_data w (fpath h) @ take k d"
    "r = 0 \<and> k = length d \<or> r = -1 \<and> \<not> xfer_ok w" "xfer_ok w \<longrightarrow> xfer_ok w'"
    using write_ch.out_loop_total [OF ok, of d] by metis
  have nf: "no_file (fpath h) w' = no_file (fpath h) w" "fpath h' = fpath h" using l(3) by auto
  note cn = core_no_file [OF nf(1)]
  have "others P w' = others P w" using cn(5) assms(3) by (intro others_upd [of P "fpath h"])
  then have "calm P w w'" using cn l(6) by (auto simp: calm_def oks_def ctl_ok_def)
  then show ?thesis using l cn nf assms(1) by (auto simp: file_data_def oks_def)
qed

lemma others_close' [simp]: "others P (close' f w) = others P w"
  by (rule others_fs) simp

lemma step_fsync:
  assumes "\<And>r w'. \<lbrakk>calm P w w'; nopen w' = nopen w; fs w' = fs w; oks w \<longrightarrow> r = 0\<rbrakk> \<Longrightarrow> outcome b (f r w') Q"
  shows "outcome b (case fsync h w of (r, w') \<Rightarrow> f r w') Q"
proof (rule outcome_case)
  fix r w' assume "fsync h w = (r, w')"
  from fsync_quiet [OF this] show "outcome b (f r w') Q" by (intro assms) (simp_all add: quiet_def quiet_calm)
qed

lemma step_close:
  assumes "\<And>r w'. \<lbrakk>calm P w w'; nopen w' = nopen w - 1; fs w' = fs w; oks w \<longrightarrow> r = 0\<rbrakk> \<Longrightarrow> outcome b (f r w') Q"
  shows "outcome b (case close_fd h w of (r, w') \<Rightarrow> f r w') Q"
proof (rule outcome_case)
  fix r w' assume "close_fd h w = (r, w')"
  from close_quiet [OF this] show "outcome b (f r w') Q" by (intro assms) (simp_all add: quiet_def quiet_calm)
qed

lemma write_all_file_frame:
  assumes "P (resolve s)"
  shows "outcome b (write_all_file s d w) (\<lambda>(r, w'). calm P w w' \<and> nopen w' = nopen w \<and> (r = 0 \<or> r = -1) \<and>
    (r = 0 \<longrightarrow> fs w' (resolve s) = Some (File d)))"
proof -
  obtain r1 w1 where p: "path_ensure_parent_dirs s w = (r1, w1)" by (cases "path_ensure_parent_dirs s w")
  note pc = parents_calm [OF p, of P]
  obtain h w2 where o: "open_creat_trunc s w1 = (h, w2)" by (cases "open_creat_trunc s w1")
  note oc = open_creat_trunc_calm [where P = P, OF o assms]
  have c: "calm P w w2" using pc oc calm_trans by blast
  show ?thesis
  proof (cases "r1 \<noteq> 0 \<or> h = None")
    case True
    then consider "r1 \<noteq> 0" | "r1 = 0" "h = None" by blast
    then show ?thesis
    proof cases
      case 1
      then show ?thesis by (simp add: write_all_file_def p pc)
    next
      case 2
      then have "nopen w2 = nopen w" using pc oc by simp
      with 2 show ?thesis by (simp add: write_all_file_def p o c)
    qed
  next
    case False
    then obtain f where h: "h = Some f" by blast
    with oc have f: "h = Some f" "f = \<lparr>fpath = resolve s, foff = 0\<rparr>" "fs w2 (fpath f) = Some (File [])"
      by simp_all
    have n: "nopen w2 = nopen w + 1" using pc oc f(1) by simp
    have l: "outcome b (out_loop file_put d f w2) (\<lambda>((r, f), w'). calm P w2 w' \<and> nopen w' = nopen w2 \<and>
        (r = 0 \<or> r = -1) \<and> (r = 0 \<longrightarrow> fs w' (resolve s) = Some (File d)))"
      by (rule outcome_mono [OF out_loop_file [OF f(3), of P]]) (use f assms in auto)
    have eq: "write_all_file s d w = do {
        ((r, f), w) \<leftarrow> out_loop file_put d f w2;
        if r < 0 then Some (-1, close' f w)
        else case fsync f w of (r, w) \<Rightarrow>
          if r \<noteq> 0 then Some (-1, close' f w)
          else case close_fd f w of (r, w) \<Rightarrow> if r \<noteq> 0 then Some (-1, w) else Some (0, w)
      }" using False by (simp add: write_all_file_def p o f(1))
    show ?thesis
      unfolding eq
      by (intro outcome_bind3 [OF l] step_fsync [where P = P] step_close [where P = P] steps)
        (use c n in \<open>simp_all add: calm_def\<close>)
  qed
qed

text \<open>Creating parents changes the tree at directories above the path only.\<close>

lemma parent_dirs_loop_where:
  "parent_dirs_loop pre cs w = (r, w') \<Longrightarrow> pre \<noteq> [] \<Longrightarrow> fs w' p \<noteq> fs w p \<Longrightarrow> \<exists>t. dirpart (pre @ cs) = p @ t"
proof (induction pre cs w rule: parent_dirs_loop.induct)
  case (2 pre c cs w)
  show ?case
  proof (cases "c = CHR ''/''")
    case False
    with 2 show ?thesis by simp
  next
    case True
    obtain r1 w1 where m: "mkdir pre w = (r1, w1)" by (cases "mkdir pre w")
    obtain t where t: "dirpart (pre @ c # cs) = resolve pre @ t"
      using dirpart_prefix [of "pre @ [c]" cs] dirpart_slash [OF "2.prems"(2)] True by auto
    show ?thesis
    proof (cases "fs w1 p = fs w p")
      case True
      with 2 m \<open>c = _\<close> show ?thesis by (auto split: if_splits)
    next
      case False
      then have "p = resolve pre" using mkdir_fs [OF m] by (auto split: if_splits)
      with t show ?thesis by blast
    qed
  qed
qed simp

lemma parents_where:
  assumes "path_ensure_parent_dirs s w = (r, w')" "fs w' p \<noteq> fs w p"
  shows "\<exists>t. dirpart s = p @ t"
proof -
  have "s \<noteq> []" "parent_dirs_loop (take 1 s) (drop 1 s) w = (r, w')"
    using assms by (auto simp: path_ensure_parent_dirs_def snprintf_def split: if_splits)
  then show ?thesis using parent_dirs_loop_where [of "take 1 s" "drop 1 s" w r w' p] assms(2) by simp
qed

lemma resolve_not_dirpart: "\<not> wants_dir s \<Longrightarrow> dirpart s \<noteq> resolve s @ t"
  by (auto simp: resolve_dirpart wants_dir_def)

lemma node_at_cong: "f p = g p \<Longrightarrow> node_at f p = node_at g p"
  by (simp add: node_at_def)

lemma walk_err_upd: "(\<And>q. q \<noteq> p \<Longrightarrow> f q = g q) \<Longrightarrow> walk_err g p = None \<Longrightarrow> walk_err f p = None"
  unfolding walk_err_None_iff by (metis node_at_cong length_take min.absorb4 nat_neq_iff)

text \<open>A path can be written: nothing but directories, present or missing, leads to it.\<close>

definition writable :: "string \<Rightarrow> world \<Rightarrow> bool" where
  "writable s w \<longleftrightarrow> s \<noteq> [] \<and> \<not> wants_dir s \<and> length s < PATH_MAX \<and> no_files (fs w) (dirpart s) \<and>
     node_at (fs w) (resolve s) \<noteq> Some Dir"

lemma parents_writable:
  assumes "oks w" "writable s w" "path_ensure_parent_dirs s w = (r, w')"
  shows "r = 0" "oks w'" "walk_err (fs w') (resolve s) = None" "fs w' (resolve s) = fs w (resolve s)"
proof -
  show "r = 0" "walk_err (fs w') (resolve s) = None"
    using parents_ok [of w s] assms by (auto simp: oks_def writable_def)
  show "oks w'" using parents_calm [OF assms(3)] assms(1) by (simp add: calm_def)
  show "fs w' (resolve s) = fs w (resolve s)"
    using parents_where [OF assms(3)] resolve_not_dirpart assms(2) by (auto simp: writable_def)
qed

lemma has_file_upd:
  assumes "walk_err (fs w) (resolve s) = None" "s \<noteq> []" "\<not> wants_dir s" "node_at (fs w) (resolve s) \<noteq> Some Dir"
    "\<And>p. p \<noteq> resolve s \<Longrightarrow> fs w' p = fs w p" "fs w' (resolve s) = Some (File d)"
  shows "has_file s w' d"
proof -
  have "resolve s \<noteq> []" "resolve s \<noteq> [''/'']" using assms(4) by (auto simp: node_at_def)
  then show ?thesis
    using walk_err_upd [OF assms(5,1)] assms by (simp add: has_file_def node_at_File)
qed

lemma write_all_file_ok:
  assumes "oks w" "writable s w"
  shows "outcome b (write_all_file s d w) (\<lambda>(r, w'). r = 0 \<and> has_file s w' d)"
proof -
  obtain r1 w1 where p: "path_ensure_parent_dirs s w = (r1, w1)" by (cases "path_ensure_parent_dirs s w")
  note pw = parents_writable [OF assms p]
  have nd: "node_at (fs w1) (resolve s) \<noteq> Some Dir"
    using pw(4) assms(2) node_at_cong [of "fs w1" "resolve s" "fs w"] by (simp add: writable_def)
  have s: "s \<noteq> []" "\<not> wants_dir s" using assms(2) by (simp_all add: writable_def)
  obtain h w2 where o: "open_creat_trunc s w1 = (h, w2)" by (cases "open_creat_trunc s w1")
  have h: "h = Some \<lparr>fpath = resolve s, foff = 0\<rparr>"
    by (rule open_creat_trunc_ok [OF pw(2) s pw(3) nd o])
  let ?P = "\<lambda>p. p = resolve s"
  have oc: "oks w2" "fs w2 (resolve s) = Some (File [])" "\<And>p. p \<noteq> resolve s \<Longrightarrow> fs w2 p = fs w1 p"
    using open_creat_trunc_calm [of s w1 h w2 ?P, OF o] h pw(2) by (auto simp: calm_def)
  have hf: "has_file s w' d" if "\<And>p. p \<noteq> resolve s \<Longrightarrow> fs w' p = fs w2 p" "fs w' (resolve s) = Some (File d)" for w'
    using has_file_upd [OF pw(3) s nd, of w' d] oc(3) that by simp
  have l: "outcome b (out_loop file_put d \<lparr>fpath = resolve s, foff = 0\<rparr> w2) (\<lambda>((r, f), w').
      r = 0 \<and> oks w' \<and> has_file s w' d)"
    by (rule outcome_mono [OF out_loop_file [of w2 _ "[]" ?P]]) (use oc hf in \<open>auto simp: calm_def\<close>)
  have fs_only: "has_file s w'' d" if "has_file s w' d" "fs w'' = fs w'" for w' w''
    using that by (simp add: has_file_def)
  show ?thesis
    unfolding write_all_file_def p h o pw(1) prod.case option.case
    by (simp, intro outcome_bind3 [OF l] step_fsync [where P = ?P] step_close [where P = ?P] steps)
      (auto simp: calm_def intro: fs_only)
qed

section \<open>The remaining calls\<close>

lemma step_case_calm:
  assumes "\<And>r w'. c = (r, w') \<Longrightarrow> calm P w w' \<and> nopen w' = nopen w"
    "\<And>r w'. calm P w w' \<Longrightarrow> nopen w' = nopen w \<Longrightarrow> outcome b (f r w') Q"
  shows "outcome b (case c of (r, w') \<Rightarrow> f r w') Q"
  using assms by (intro outcome_case) blast

lemma unlink_result:
  assumes "unlink s w = (r, w')" "popc w = (a, w1)"
  shows "(\<exists>e. w' = w1\<lparr>errno := e\<rparr>) \<and> r = -1 \<or> w' = w1\<lparr>fs := (fs w1)(resolve s := None)\<rparr> \<and> r = 0"
  using assms
  by (simp add: unlink_def fails_def Let_def split: answer.splits option.splits if_splits node.splits) blast+

lemma unlink_calm:
  assumes "P (resolve s)" "unlink s w = (r, w')"
  shows "calm P w w' \<and> nopen w' = nopen w"
proof -
  obtain a w1 where p: "popc w = (a, w1)" by (cases "popc w")
  note q = popc_quiet [OF p]
  then have c: "calm P w w1" using quiet_calm by blast
  have o: "others P (w1\<lparr>fs := (fs w1)(resolve s := None)\<rparr>) = others P w1"
    using assms(1) by (intro others_upd [of P "resolve s"]) simp_all
  from unlink_result [OF assms(2) p] show ?thesis
    using q c o by (elim disjE exE conjE) (simp_all add: calm_def)
qed

lemma rename_result:
  assumes "rename s t w = (r, w')" "popc w = (a, w1)"
  shows "(\<exists>e. w' = w1\<lparr>errno := e\<rparr>) \<and> r = -1 \<or> w' = w1 \<and> r = 0 \<or>
    (\<exists>c. w' = w1\<lparr>fs := (fs w1)(resolve s := None, resolve t \<mapsto> File c)\<rparr>) \<and> r = 0 \<or>
    w' = w1\<lparr>fs := subtree_move (resolve s) (resolve t) (fs w1)\<rparr> \<and> r = 0"
  using assms
  by (simp add: rename_def fails_def Let_def split: answer.splits option.splits if_splits node.splits) blast+

lemma rename_calm:
  assumes "\<And>p. below (resolve s) p \<or> below (resolve t) p \<Longrightarrow> P p" "rename s t w = (r, w')"
  shows "calm P w w' \<and> nopen w' = nopen w"
proof -
  obtain a w1 where p: "popc w = (a, w1)" by (cases "popc w")
  note q = popc_quiet [OF p]
  then have c: "calm P w w1" using quiet_calm by blast
  have b: "P (resolve s)" "P (resolve t)" using assms(1) by (simp_all add: below_def)
  have "others P (w1\<lparr>fs := (fs w1)(resolve s := None, resolve t \<mapsto> File x)\<rparr>) = others P w1" for x
    using b by (auto simp: others_def fun_eq_iff)
  moreover have "others P (w1\<lparr>fs := subtree_move (resolve s) (resolve t) (fs w1)\<rparr>) = others P w1"
    using assms(1) by (auto simp: others_def fun_eq_iff subtree_move_def below_def)
  ultimately show ?thesis
    using rename_result [OF assms(2) p] q c by (elim disjE exE conjE) (simp_all add: calm_def)
qed

lemma stat_calm: "stat s w = (r, w') \<Longrightarrow> calm P w w' \<and> nopen w' = nopen w"
  using stat_quiet quiet_calm by blast

lemma malloc_calm: "malloc w = (r, w') \<Longrightarrow> calm P w w' \<and> nopen w' = nopen w"
  using malloc_quiet quiet_calm by blast

lemma errno_calm: "calm P w w' \<Longrightarrow> calm P w (w'\<lparr>errno := e\<rparr>)"
  by (simp add: calm_def)

lemma rle_compress_calm: "rle_compress_bytes x w = (r, w') \<Longrightarrow> calm P w w' \<and> nopen w' = nopen w"
  using malloc_calm [of w _ _ P]
  by (auto simp: rle_compress_bytes_def Let_def split: prod.splits if_splits intro: errno_calm)

lemma rle_decompress_calm: "rle_decompress_bytes x w = (r, w') \<Longrightarrow> calm P w w' \<and> nopen w' = nopen w"
  using malloc_calm [of w _ _ P]
  by (auto simp: rle_decompress_bytes_def Let_def split: prod.splits if_splits option.splits intro: errno_calm)

text \<open>The copy loop ends.  On success it has appended all that was left of the source.\<close>

lemma oks_io: "no_io w' = no_io w \<Longrightarrow> (xfer_ok w \<longrightarrow> xfer_ok w') \<Longrightarrow> oks w \<longrightarrow> oks w'"
  using core_no_io [of w' w] by (simp add: oks_def ctl_ok_def)

lemma read_fd_dir_step:
  assumes "read_fd h n w = ((r, d, h'), w')" "node_at (fs w) (fpath h) = Some Dir"
  shows "no_io w' = no_io w \<and> (oks w \<longrightarrow> oks w') \<and> r = -1 \<and> h' = h \<and>
    (errno w' = EINTR \<longrightarrow> length (xfer w') < length (xfer w))"
proof -
  note d = read_fd_dir [OF assms(2,1)]
  have "xfer_ok w \<longrightarrow> xfer_ok w'" using d by (auto simp: xfer_ok_def)
  with d oks_io [of w' w] show ?thesis by auto
qed

lemma read_fd_file_step:
  assumes "read_fd h n w = ((r, d, h'), w')" "0 < n" "node_at (fs w) (fpath h) \<noteq> Some Dir"
  shows "no_io w' = no_io w \<and> fpath h' = fpath h \<and> (oks w \<longrightarrow> oks w') \<and> length (xfer w') \<le> length (xfer w) \<and>
    (r < 0 \<and> foff h' = foff h \<and> length (xfer w') < length (xfer w) \<and> (oks w \<longrightarrow> errno w' = EINTR) \<or>
     r = int (length d) \<and> drop (foff h) (file_data w (fpath h)) = d @ drop (foff h') (file_data w (fpath h)) \<and>
       (d = [] \<longrightarrow> drop (foff h) (file_data w (fpath h)) = []))"
proof -
  have g: "file_get n h w = ((r, d, h'), w')" using assms(1) by (simp add: file_get_def)
  show ?thesis
  proof (cases "r < 0")
    case True
    note e = read_ch.get_error [OF assms(3) g True] and x = read_ch.error_xfer_ok [OF assms(3) g True]
    have "h' = h" using assms(1) True by (auto simp: read_fd_def Let_def split: prod.splits answer.splits if_splits)
    then show ?thesis using e x True oks_io [of w' w] by (auto simp: oks_def)
  next
    case False
    then have r: "0 \<le> r" by simp
    note e = read_ch.get_data [OF assms(3,2) g r] and x = read_ch.data_xfer_ok [OF assms(3,2) g r]
      and y = read_ch.data_xfer_le [OF assms(3,2) g r]
    have n: "no_io w' = no_io w" "fpath h' = fpath h" using e by simp_all
    then have "file_data w' = file_data w" using core_no_io [OF n(1)] by (simp add: file_data_def fun_eq_iff)
    then show ?thesis using e x y n oks_io [of w' w] by auto
  qed
qed

lemma copy_loop_dir:
  "node_at (fs w) (fpath h) = Some Dir \<Longrightarrow>
   \<exists>w'. copy_loop h d w = Some ((1, h, d), w') \<and> no_io w' = no_io w \<and> (oks w \<longrightarrow> oks w')"
proof (induction "length (xfer w)" arbitrary: w rule: less_induct)
  case less
  obtain r x h1 w1 where r: "read_fd h COPY_BUF_SIZE w = ((r, x, h1), w1)" by (metis surj_pair)
  note rd = read_fd_dir_step [OF r less.prems]
  show ?case
  proof (cases "errno w1 = EINTR")
    case True
    have "fs w1 = fs w" using rd core_no_io by blast
    then obtain w2 where "copy_loop h d w1 = Some ((1, h, d), w2)" "no_io w2 = no_io w1" "oks w1 \<longrightarrow> oks w2"
      using less.hyps [of w1] less.prems rd True by auto
    then show ?thesis using r rd True by (subst copy_loop.simps) simp
  next
    case False
    then show ?thesis using r rd by (subst copy_loop.simps) simp
  qed
qed

abbreviation unread :: "fh \<Rightarrow> world \<Rightarrow> bytes" where
  "unread h w \<equiv> drop (foff h) (file_data w (fpath h))"

definition copied :: "(name list \<Rightarrow> bool) \<Rightarrow> fh \<Rightarrow> bytes \<Rightarrow> world \<Rightarrow> (nat \<times> fh \<times> fh) \<times> world \<Rightarrow> bool" where
  "copied P d c w = (\<lambda>((rc, h', d'), w'). calm P w w' \<and> nopen w' = nopen w \<and> (\<forall>p. p \<noteq> fpath d \<longrightarrow> fs w' p = fs w p) \<and>
     (\<exists>c'. fs w' (fpath d) = Some (File c') \<and> (rc = 0 \<longrightarrow> c' = c)) \<and> (oks w \<longrightarrow> rc = 0))"

lemma copied_back:
  assumes "copied P d' c w1 res" "calm P w w1" "nopen w1 = nopen w" "fpath d' = fpath d" "\<And>p. p \<noteq> fpath d \<Longrightarrow> fs w1 p = fs w p"
  shows "copied P d c w res"
  using assms by (cases res) (auto simp: copied_def calm_def)

lemma no_io_calm: "no_io w' = no_io w \<Longrightarrow> (oks w \<longrightarrow> oks w') \<Longrightarrow> calm P w w' \<and> nopen w' = nopen w \<and> fs w' = fs w"
  using core_no_io [of w' w] others_fs [of w' w P] by (simp add: calm_def)

text \<open>One chunk: what the inner loop appends, and the rest of the copy after it.\<close>

definition appended :: "(name list \<Rightarrow> bool) \<Rightarrow> fh \<Rightarrow> bytes \<Rightarrow> world \<Rightarrow> (int \<times> fh) \<times> world \<Rightarrow> bool" where
  "appended P d c w = (\<lambda>((r, d'), w'). calm P w w' \<and> nopen w' = nopen w \<and> fpath d' = fpath d \<and>
     (\<forall>p. p \<noteq> fpath d \<longrightarrow> fs w' p = fs w p) \<and> (r = 0 \<or> r = -1) \<and>
     (\<exists>c'. fs w' (fpath d) = Some (File c') \<and> foff d' = length c' \<and> (r = 0 \<longrightarrow> c' = c)) \<and> (oks w \<longrightarrow> r = 0))"

lemma out_loop_appended:
  "fs w (fpath d) = Some (File c) \<Longrightarrow> foff d = length c \<Longrightarrow> P (fpath d) \<Longrightarrow>
   outcome b (out_loop file_put x d w) (appended P d (c @ x) w)"
  unfolding appended_def by (rule out_loop_file)

lemma appended_copied:
  assumes "appended P d c w1 ((r, d2), w2)" "calm P w w1" "nopen w1 = nopen w" "fs w1 = fs w"
  shows "r < 0 \<Longrightarrow> copied P d c' w ((2, h, d2), w2)"
    and "r = 0 \<Longrightarrow> copied P d2 c' w2 res \<Longrightarrow> copied P d c' w res"
proof -
  have c: "calm P w w2" "nopen w2 = nopen w" "fpath d2 = fpath d" "\<And>p. p \<noteq> fpath d \<Longrightarrow> fs w2 p = fs w p"
    using assms by (auto simp: appended_def intro: calm_trans)
  show "r < 0 \<Longrightarrow> copied P d c' w ((2, h, d2), w2)"
    using assms c by (auto simp: appended_def copied_def calm_def)
  show "r = 0 \<Longrightarrow> copied P d2 c' w2 res \<Longrightarrow> copied P d c' w res"
    using copied_back [OF _ c] by blast
qed

lemma copy_loop_file:
  assumes "fs w (fpath d) = Some (File c)" "foff d = length c" "node_at (fs w) (fpath h) \<noteq> Some Dir" "P (fpath d)"
    "fpath h \<noteq> fpath d \<or> unread h w = []"
  shows "outcome b (copy_loop h d w) (copied P d (c @ unread h w) w)"
  using assms
proof (induction "(length (unread h w), length (xfer w))" arbitrary: h d w c
    rule: wf_induct_rule [OF wf_lex_prod [OF wf_less_than wf_less_than], case_names less])
  case (less h w d c)
  note IH = less.hyps and prems = less.prems
  have pos: "0 < COPY_BUF_SIZE" by (simp add: COPY_BUF_SIZE_def)
  obtain r x h1 w1 where r: "read_fd h COPY_BUF_SIZE w = ((r, x, h1), w1)" by (metis surj_pair)
  note rd = read_fd_file_step [OF r pos prems(3)]
  have io: "calm P w w1" "nopen w1 = nopen w" "fs w1 = fs w" using rd no_io_calm [of w1 w P] by auto
  then have fd: "file_data w1 = file_data w" by (simp add: file_data_def fun_eq_iff)
  consider "r < 0" "errno w1 = EINTR" | "r < 0 \<and> errno w1 \<noteq> EINTR \<or> r = 0" | "r > 0" by linarith
  then show ?case
  proof cases
    case 1
    have "outcome b (copy_loop h1 d w1) (copied P d (c @ unread h1 w1) w1)"
      using rd io fd 1 prems by (intro IH) auto
    then have "outcome b (copy_loop h1 d w1) (copied P d (c @ unread h w) w)"
      using io fd rd 1 by (elim outcome_mono) (auto elim!: copied_back)
    then show ?thesis using r 1 by (subst copy_loop.simps) simp
  next
    case 2
    then show ?thesis using r rd io prems by (subst copy_loop.simps) (auto simp: copied_def)
  next
    case 3
    have x: "x \<noteq> []" "unread h w = x @ unread h1 w1" "fpath h1 = fpath h" using 3 rd fd by auto
    then have ne: "fpath h \<noteq> fpath d" using prems(5) by auto
    have l: "outcome b (out_loop file_put x d w1) (appended P d (c @ x) w1)"
      using prems io by (intro out_loop_appended) simp_all
    have rest: "outcome b (copy_loop h1 d2 w2) (copied P d (c @ unread h w) w)"
      if a: "appended P d (c @ x) w1 ((0, d2), w2)" for d2 w2
    proof -
      have f2: "fs w2 (fpath h1) = fs w (fpath h1)" using a ne x(3) io(3) by (simp add: appended_def)
      then have u: "unread h1 w2 = unread h1 w1" by (simp add: file_data_def io(3))
      have "outcome b (copy_loop h1 d2 w2) (copied P d2 ((c @ x) @ unread h1 w2) w2)"
      proof (rule IH)
        show "((length (unread h1 w2), length (xfer w2)), length (unread h w), length (xfer w)) \<in> less_than <*lex*> less_than"
          using x(1,2) u by (simp only: in_lex_prod) simp
        show "node_at (fs w2) (fpath h1) \<noteq> Some Dir" using prems(3) f2 x(3) node_at_cong [of "fs w2" "fpath h1" "fs w"] by simp
      qed (use a prems(4) ne x in \<open>auto simp: appended_def\<close>)
      then show ?thesis
        by (rule outcome_mono) (use appended_copied(2) [OF a io] x(2) u in simp)
    qed
    have "outcome b (Option.bind (out_loop file_put x d w1) (\<lambda>((r, d), w).
        if r < 0 then Some ((2, h1, d), w) else copy_loop h1 d w)) (copied P d (c @ unread h w) w)"
      using appended_copied(1) [OF _ io] rest
      by (intro outcome_bind3 [OF l] outcome_if outcome_ret) (auto simp: appended_def)
    then show ?thesis using r 3 by (subst copy_loop.simps) simp
  qed
qed

end
