(* ===== verification/FileSafe.thy ===== *)
theory FileSafe
  imports FileFrames
begin

text \<open>
  Safety of the handlers of \<open>src/file_ops.c\<close>.  \<open>neat P\<close> relates the world before a handler to the world
  after it: the same locks are held, by whom they were held before; no mutex is left locked and no
  descriptor open; every file at a place other than \<open>P\<close> is as it was; the client's input is untouched
  and the output has only grown.  Each handler is proved neat on every path through it, for every schedule of short
  transfers, interrupts and failures, and proved to return whenever no lock it needs is taken.
\<close>

section \<open>Neat steps\<close>

definition coreL :: "world \<Rightarrow> world" where
  "coreL w = core (w\<lparr>lockmap := []\<rparr>)"

definition neat :: "(name list \<Rightarrow> bool) \<Rightarrow> world \<Rightarrow> world \<Rightarrow> bool" where
  "neat P w w' \<longleftrightarrow> coreL w' = coreL w \<and> tab w' = tab w \<and> (reg_ok w \<longrightarrow> reg_ok w') \<and> nopen w' = nopen w \<and>
     others P w' = others P w \<and> (\<exists>x. outp w' = outp w @ x) \<and> (oks w \<longrightarrow> oks w')"

lemma neat_refl [simp]: "neat P w w"
  by (simp add: neat_def)

lemma core_coreL: "core w' = core w \<Longrightarrow> coreL w' = coreL w \<and> lockmap w' = lockmap w"
proof -
  assume a: "core w' = core w"
  have "coreL w = (core w)\<lparr>lockmap := []\<rparr>" "lockmap (core w) = lockmap w" for w by (simp_all add: coreL_def core_def)
  with a show ?thesis by metis
qed

lemma coreL_log_path: "coreL w' = coreL w \<Longrightarrow> g_log_path w' = g_log_path w \<and> now w' = now w"
  by (drule arg_cong [of _ _ "\<lambda>w. (g_log_path w, now w)"]) (simp add: coreL_def core_def)

lemma tab_lockmap: "lockmap w' = lockmap w \<Longrightarrow> tab w' = tab w"
  by (simp add: rw_get_def)

lemma reg_lockmap: "lockmap w' = lockmap w \<Longrightarrow> reg_ok w' = reg_ok w"
  by (simp add: reg_ok_def)

lemma calm_neat:
  assumes "calm P w1 w2" "nopen w2 = nopen w1" "neat P w w1"
  shows "neat P w w2"
  using assms core_coreL [of w2 w1] tab_lockmap [of w2 w1] reg_lockmap [of w2 w1]
  by (simp add: calm_def neat_def)

lemma send_neat:
  assumes "neat P w w1" "outp w2 = outp w1 @ x" "no_outp w2 = no_outp w1" "xfer_ok w1 \<longrightarrow> xfer_ok w2"
  shows "neat P w w2"
proof -
  note c = core_no_outp [OF assms(3)]
  then have "coreL w2 = coreL w1" "lockmap w2 = lockmap w1" using core_coreL by blast+
  then show ?thesis
    using c assms tab_lockmap [of w2 w1] reg_lockmap [of w2 w1] others_fs [of w2 w1 P]
    by (auto simp: neat_def oks_def ctl_ok_def)
qed

lemma send_all_neat:
  assumes "neat P w w1"
  shows "outcome b (send_all d w1) (\<lambda>(r, w'). neat P w w')"
proof -
  obtain r w' k where "out_loop sock_put d () w1 = Some ((r, ()), w')" "outp w' = outp w1 @ take k d"
    "no_outp w' = no_outp w1" "xfer_ok w1 \<longrightarrow> xfer_ok w'"
    using send_ch.out_loop_total [where w = w1 and d = d and h = "()"] by auto
  then show ?thesis using send_neat [OF assms] by (simp add: send_all_def)
qed

lemma reply_neat:
  assumes "neat P w w1"
  shows "outcome b (resp_reply_error m w1) (\<lambda>(r, w'). neat P w w')"
    and "outcome b (resp_reply_simple m w1) (\<lambda>(r, w'). neat P w w')"
    and "outcome b (resp_reply_null_bulk w1) (\<lambda>(r, w'). neat P w w')"
    and "outcome b (resp_reply_integer v w1) (\<lambda>(r, w'). neat P w w')"
  using send_all_neat [OF assms] assms
  by (simp_all add: resp_reply_error_def resp_reply_simple_def resp_reply_null_bulk_def resp_reply_integer_def snprintf_def)

lemma reply_bulk_neat:
  assumes "neat P w w1"
  shows "outcome b (resp_reply_bulk d w1) (\<lambda>(r, w'). neat P w w')"
proof -
  have mid: "outcome b (if length d > 0 then send_all d w2 else Some (0, w2)) (\<lambda>(r, w'). neat P w w')"
    if "neat P w w2" for w2
    using send_all_neat [OF that] that by simp
  show ?thesis
    using assms unfolding resp_reply_bulk_def snprintf_def prod.case
    by (intro outcome_if outcome_ret outcome_bind2 [OF send_all_neat [OF assms]] outcome_bind2 [OF mid] send_all_neat)
      simp_all
qed

lemma logf_neat:
  assumes "neat P w w1" "P (resolve (g_log_path w))"
  shows "neat P w (logf c cmd t s d w1)"
proof -
  have g: "g_log_path w1 = g_log_path w" using assms(1) coreL_log_path [of w1 w] by (simp add: neat_def)
  note f = logger_log_frame [of "Some c" "Some cmd" "Some t" "Some s" "Some d" w1, unfolded g]
  have "others P (logf c cmd t s d w1) = others P w1"
    using assms(2) f by (intro others_upd [of P "resolve (g_log_path w)"]) (simp_all add: logf_def)
  then have "calm P w1 (logf c cmd t s d w1)" "nopen (logf c cmd t s d w1) = nopen w1"
    using f by (simp_all add: calm_def logf_def)
  then show ?thesis using assms(1) by (rule calm_neat)
qed

section \<open>Locks\<close>

text \<open>
  \<open>locked rel w w'\<close>: locks were acquired between \<open>w\<close> and \<open>w'\<close>, and \<open>rel\<close> gives them back, whatever happens
  to the rest of the world in between.
\<close>

definition locked :: "(world \<Rightarrow> world) \<Rightarrow> world \<Rightarrow> world \<Rightarrow> bool" where
  "locked rel w w' \<longleftrightarrow> coreL w' = coreL w \<and> fs w' = fs w \<and> outp w' = outp w \<and> nopen w' = nopen w \<and> (oks w \<longrightarrow> oks w') \<and>
     (\<forall>v. lockmap v = lockmap w' \<longrightarrow> tab (rel v) = tab w \<and> (reg_ok w \<longrightarrow> reg_ok (rel v)) \<and>
        coreL (rel v) = coreL v \<and> fs (rel v) = fs v \<and> outp (rel v) = outp v \<and> nopen (rel v) = nopen v \<and> oks (rel v) = oks v)"

lemma locked_neat:
  assumes "locked rel w w1" "calm P w1 w2" "nopen w2 = nopen w1"
  shows "neat P w (rel w2)"
proof -
  have l: "lockmap w2 = lockmap w1" "coreL w2 = coreL w1" using assms(2) core_coreL [of w2 w1] by (simp_all add: calm_def)
  have "others P (rel w2) = others P w2" "others P w1 = others P w"
    using assms(1) l(1) by (intro others_fs; simp add: locked_def)+
  then show ?thesis using assms l by (simp add: locked_def neat_def calm_def)
qed

lemma locked_none:
  assumes "locked rel w w1" "tab w1 = tab w" "reg_ok w \<longrightarrow> reg_ok w1"
  shows "neat P w w1"
proof -
  have "others P w1 = others P w" using assms(1) by (intro others_fs) (simp add: locked_def)
  then show ?thesis using assms by (simp add: locked_def neat_def)
qed

lemma lk_coreL:
  assumes "lk w w'"
  shows "coreL w' = coreL w" "fs w' = fs w" "outp w' = outp w" "nopen w' = nopen w" "oks w \<Longrightarrow> oks w'"
    "reg_ok w \<Longrightarrow> reg_ok w'"
proof -
  have u: "unlk w' = unlk w" "ctl_ok w \<longrightarrow> ctl_ok w'" using assms by (simp_all add: lk_def)
  have "(coreL (unlk w'), fs (unlk w'), outp (unlk w'), nopen (unlk w'), xfer (unlk w'))
      = (coreL (unlk w), fs (unlk w), outp (unlk w), nopen (unlk w), xfer (unlk w))" using u(1) by simp
  then have e: "coreL w' = coreL w" "fs w' = fs w" "outp w' = outp w" "nopen w' = nopen w" "xfer w' = xfer w"
    by (simp_all add: unlk_def coreL_def core_def)
  then show "coreL w' = coreL w" "fs w' = fs w" "outp w' = outp w" "nopen w' = nopen w" by blast+
  show "oks w \<Longrightarrow> oks w'" using e(5) u(2) by (simp add: oks_def xfer_ok_def)
  show "reg_ok w \<Longrightarrow> reg_ok w'" using assms by (simp add: lk_def)
qed

lemma rwlock_unlock_frame:
  "coreL (rwlock_unlock k w) = coreL w" "fs (rwlock_unlock k w) = fs w" "outp (rwlock_unlock k w) = outp w"
  "nopen (rwlock_unlock k w) = nopen w" "oks (rwlock_unlock k w) = oks w"
  by (simp_all add: rwlock_unlock_def Let_def rw_set_def coreL_def core_def)

lemma unlock_opt_frame:
  "coreL (unlock_opt l w) = coreL w" "fs (unlock_opt l w) = fs w" "outp (unlock_opt l w) = outp w"
  "nopen (unlock_opt l w) = nopen w" "oks (unlock_opt l w) = oks w"
  by (simp_all add: unlock_opt_def rwlock_unlock_frame split: option.split)

lemma unlock_opt_lockmap: "lockmap v = lockmap w \<Longrightarrow> lockmap (unlock_opt l v) = lockmap (unlock_opt l w)"
  by (simp add: unlock_opt_def rwlock_unlock_def rw_set_def rw_get_def Let_def split: option.split)

text \<open>Whatever happened to the rest of the world, releasing the acquired locks restores the table.\<close>

lemma lockedI:
  assumes "lk w w'" "lk w (rel w')" "\<And>q. rw_get q (rel w') = rw_get q w"
    "\<And>v. lockmap v = lockmap w' \<Longrightarrow> lockmap (rel v) = lockmap (rel w')"
    "\<And>v. coreL (rel v) = coreL v \<and> fs (rel v) = fs v \<and> outp (rel v) = outp v \<and> nopen (rel v) = nopen v \<and> oks (rel v) = oks v"
  shows "locked rel w w'"
proof -
  have "tab (rel v) = tab w \<and> (reg_ok w \<longrightarrow> reg_ok (rel v))" if "lockmap v = lockmap w'" for v
    using assms(3) lk_coreL(6) [OF assms(2)] tab_lockmap [OF assms(4) [OF that]] reg_lockmap [OF assms(4) [OF that]]
    by simp
  then show ?thesis using lk_coreL [OF assms(1)] assms(5) by (simp add: locked_def)
qed

lemma locked_release: "lk w w' \<Longrightarrow> (\<And>q. rw_get q (locks_release l w') = rw_get q w) \<Longrightarrow> lk w (locks_release l w') \<Longrightarrow>
  locked (locks_release l) w w'"
  by (rule lockedI) (simp_all add: locks_release_def unlock_opt_frame, rule unlock_opt_lockmap)

lemma locks_release_two_lockmap:
  "lockmap v = lockmap w \<Longrightarrow> lockmap (locks_release_two t v) = lockmap (locks_release_two t w)"
  unfolding locks_release_two_def by (auto intro!: unlock_opt_lockmap)

lemma locked_release_two:
  "lk w w' \<Longrightarrow> (\<And>q. rw_get q (locks_release_two t w') = rw_get q w) \<Longrightarrow> lk w (locks_release_two t w') \<Longrightarrow>
   locked (locks_release_two t) w w'"
  by (rule lockedI; (rule locks_release_two_lockmap, assumption)?)
    (simp_all add: locks_release_two_def unlock_opt_frame)

text \<open>Acquiring, as a step of a handler.\<close>

lemma acquire_read_returns: "\<not> writer (rw_get k w) \<Longrightarrow> locks_acquire_read k w \<noteq> None"
proof -
  assume a: "\<not> writer (rw_get k w)"
  obtain e w1 where g: "get_or_create_lock k w = (e, w1)" by (cases "get_or_create_lock k w")
  note p = get_or_create_lock_props [OF g]
  obtain x w2 where pc: "popc w1 = (x, w2)" by (cases "popc w1")
  have "rw_get k w2 = rw_get k w" using popc_lk(2) [OF pc] p(2) by simp
  then have "rwlock_rdlock k w1 \<noteq> None" using a pc by (cases x) (simp_all add: rwlock_rdlock_def Let_def)
  then show ?thesis using g p(3) by (auto simp: locks_acquire_read_def split: option.splits)
qed

lemma acquire_write_returns: "rw_get k w = rw_free \<Longrightarrow> locks_acquire_write k w \<noteq> None"
proof -
  assume a: "rw_get k w = rw_free"
  obtain e w1 where g: "get_or_create_lock k w = (e, w1)" by (cases "get_or_create_lock k w")
  note p = get_or_create_lock_props [OF g]
  obtain x w2 where pc: "popc w1 = (x, w2)" by (cases "popc w1")
  have "rw_get k w2 = rw_free" using popc_lk(2) [OF pc] p(2) a by simp
  then have "rwlock_wrlock k w1 \<noteq> None" using pc by (cases x) (simp_all add: rwlock_wrlock_def rw_free_def Let_def)
  then show ?thesis using g p(3) by (auto simp: locks_acquire_write_def split: option.splits)
qed

lemma lock_pair_returns:
  assumes "rw_get p w = rw_free" "rw_get q w = rw_free" "p \<noteq> q"
  shows "lock_pair p q w \<noteq> None"
proof -
  obtain r l w1 where a: "locks_acquire_write p w = Some ((r, l), w1)" using acquire_write_returns [OF assms(1)] by auto
  have "rw_get q w1 = rw_free" using a by (cases rule: locks_acquire_writeE) (use assms in auto)
  then have "locks_acquire_write q w1 \<noteq> None" by (rule acquire_write_returns)
  then show ?thesis using a by (auto simp: lock_pair_def)
qed

lemma two_write_returns:
  assumes "rw_get p w = rw_free" "rw_get q w = rw_free"
  shows "locks_acquire_two_write p q w \<noteq> None"
proof (cases "p = q")
  case True
  then show ?thesis using acquire_write_returns [OF assms(1)] by (auto simp: locks_acquire_two_write_def)
next
  case False
  then show ?thesis using lock_pair_returns [of p w q] lock_pair_returns [of q w p] assms
    by (auto simp: two_write_pair)
qed

lemma step_acquire_read:
  assumes "b \<or> \<not> writer (rw_get k w)"
    "\<And>r l w'. locked (locks_release l) w w' \<Longrightarrow> r = 0 \<or> r = -1 \<and> neat P w w' \<and> \<not> oks w \<Longrightarrow> outcome b (f r l w') Q"
  shows "outcome b (Option.bind (locks_acquire_read k w) (\<lambda>((r, l), w). f r l w)) Q"
proof (cases "locks_acquire_read k w")
  case None
  then show ?thesis using assms(1) acquire_read_returns [of k w] by auto
next
  case (Some x)
  then obtain r l w' where a: "locks_acquire_read k w = Some ((r, l), w')" by (cases x) auto
  have u: "locked (locks_release l) w w'"
    using release_read [OF a] locks_acquire_read_cases(1) [OF a] by (intro locked_release) simp_all
  from a have "r = 0 \<or> r = -1 \<and> neat P w w' \<and> \<not> oks w"
    by (cases rule: locks_acquire_readE) (use locked_none [OF u, of P] lk_coreL(6) [of w w'] in \<open>auto simp: oks_def\<close>)
  then show ?thesis using a u assms(2) by simp
qed

lemma step_acquire_write:
  assumes "b \<or> rw_get k w = rw_free"
    "\<And>r l w'. locked (locks_release l) w w' \<Longrightarrow> r = 0 \<or> r = -1 \<and> neat P w w' \<and> \<not> oks w \<Longrightarrow> outcome b (f r l w') Q"
  shows "outcome b (Option.bind (locks_acquire_write k w) (\<lambda>((r, l), w). f r l w)) Q"
proof (cases "locks_acquire_write k w")
  case None
  then show ?thesis using assms(1) acquire_write_returns [of k w] by auto
next
  case (Some x)
  then obtain r l w' where a: "locks_acquire_write k w = Some ((r, l), w')" by (cases x) auto
  have u: "locked (locks_release l) w w'"
    using release_write [OF a] locks_acquire_write_cases(1) [OF a] by (intro locked_release) simp_all
  from a have "r = 0 \<or> r = -1 \<and> neat P w w' \<and> \<not> oks w"
    by (cases rule: locks_acquire_writeE) (use locked_none [OF u, of P] lk_coreL(6) [of w w'] in \<open>auto simp: oks_def\<close>)
  then show ?thesis using a u assms(2) by simp
qed

lemma step_acquire_two:
  assumes "b \<or> rw_get p w = rw_free \<and> rw_get q w = rw_free"
    "\<And>r t w'. locked (locks_release_two t) w w' \<Longrightarrow> r = 0 \<or> r = -1 \<and> neat P w w' \<and> \<not> oks w \<Longrightarrow> outcome b (f r t w') Q"
  shows "outcome b (Option.bind (locks_acquire_two_write p q w) (\<lambda>((r, t), w). f r t w)) Q"
proof (cases "locks_acquire_two_write p q w")
  case None
  then show ?thesis using assms(1) two_write_returns [of p w q] by auto
next
  case (Some x)
  then obtain r t w' where a: "locks_acquire_two_write p q w = Some ((r, t), w')" by (cases x) auto
  note rel = two_write_release [OF a]
  have u: "locked (locks_release_two t) w w'" using rel by (intro locked_release_two) simp_all
  have "r = 0 \<or> r = -1 \<and> neat P w w' \<and> \<not> oks w"
    using rel locked_none [OF u, of P] lk_coreL(6) [of w w'] by (auto simp: oks_def)
  then show ?thesis using a u assms(2) by simp
qed

section \<open>The handlers\<close>

lemmas neat_release = locked_neat [where rel = "locks_release l" for l]
lemmas neat_release_two = locked_neat [where rel = "locks_release_two l" for l]

definition free_locks :: "bool \<Rightarrow> world \<Rightarrow> bool" where
  "free_locks b w \<longleftrightarrow> b \<or> (\<forall>q. rw_get q w = rw_free)"

lemma free_locksD: "free_locks b w \<Longrightarrow> b \<or> \<not> writer (rw_get q w)" "free_locks b w \<Longrightarrow> b \<or> rw_get q w = rw_free"
  "free_locks b w \<Longrightarrow> b \<or> rw_get p w = rw_free \<and> rw_get q w = rw_free"
  by (auto simp: free_locks_def rw_free_def)

lemmas step_parents = step_case_calm [where c = "path_ensure_parent_dirs s w" and w = w for s w, OF parents_calm]
lemmas step_unlink = step_case_calm [where c = "unlink s w" and w = w for s w, OF unlink_calm]
lemmas step_stat = step_case_calm [where c = "stat s w" and w = w for s w, OF stat_calm]
lemmas step_rename = step_case_calm [where c = "rename s t w" and w = w for s t w, OF rename_calm]
lemmas step_compress = step_case_calm [where c = "rle_compress_bytes d w" and w = w for d w, OF rle_compress_calm]
lemmas step_decompress = step_case_calm [where c = "rle_decompress_bytes d w" and w = w for d w, OF rle_decompress_calm]

lemmas handler_steps = outcome_let outcome_if outcome_opt reply_neat outcome_ret reply_bulk_neat free_locksD

lemma op_getfile_neat:
  assumes "P (resolve (g_log_path w))" "free_locks b w"
  shows "outcome b (op_getfile dd c rel w) (\<lambda>(rc, w'). neat P w w')"
  unfolding op_getfile_def
  by (intro handler_steps assms step_acquire_read [where P = P] outcome_bind3 [OF read_all_file_frame]
      outcome_bind2 [OF reply_bulk_neat [where P = P and w = w]])
    (use assms(1) in \<open>auto intro!: logf_neat neat_release intro: quiet_calm\<close>)

lemma op_setfile_neat:
  assumes "P (resolve (g_log_path w))" "free_locks b w" "\<And>full. path_build dd rel PATH_MAX = Some full \<Longrightarrow> P (resolve full)"
  shows "outcome b (op_setfile dd c rel d w) (\<lambda>(rc, w'). neat P w w')"
  unfolding op_setfile_def
  by (intro handler_steps assms step_acquire_write [where P = P] outcome_bind2 [OF write_all_file_frame [where P = P]])
    (use assms(1,3) in \<open>auto intro!: logf_neat neat_release\<close>)

lemma op_delfile_neat:
  assumes "P (resolve (g_log_path w))" "free_locks b w" "\<And>full. path_build dd rel PATH_MAX = Some full \<Longrightarrow> P (resolve full)"
  shows "outcome b (op_delfile dd c rel w) (\<lambda>(rc, w'). neat P w w')"
  unfolding op_delfile_def
  by (intro handler_steps assms step_acquire_write [where P = P] step_unlink [where P = P])
    (use assms(1,3) in \<open>auto intro!: logf_neat neat_release\<close>)

lemma op_statfile_neat:
  assumes "P (resolve (g_log_path w))" "free_locks b w"
  shows "outcome b (op_statfile dd c rel w) (\<lambda>(rc, w'). neat P w w')"
  unfolding op_statfile_def
  by (intro handler_steps assms step_acquire_read [where P = P] step_stat [where P = P] outcome_case)
    (use assms(1) in \<open>auto intro!: logf_neat neat_release\<close>)

lemma op_renamefile_neat:
  assumes "P (resolve (g_log_path w))" "free_locks b w"
    "\<And>a e p. path_build2 dd src dst = Some (a, e) \<Longrightarrow> below (resolve a) p \<or> below (resolve e) p \<Longrightarrow> P p"
  shows "outcome b (op_renamefile dd c src dst w) (\<lambda>(rc, w'). neat P w w')"
  unfolding op_renamefile_def
  by (intro handler_steps assms outcome_case [where c = "x :: string \<times> string" for x] step_acquire_two [where P = P]
      step_parents [where P = P] step_rename [where P = P])
    (use assms in \<open>auto intro!: logf_neat neat_release_two intro: calm_trans\<close>)

lemma op_compress_neat:
  assumes "P (resolve (g_log_path w))" "free_locks b w" "\<And>a e. path_build2 dd src dst = Some (a, e) \<Longrightarrow> P (resolve e)"
  shows "outcome b (op_compress dd c src dst w) (\<lambda>(rc, w'). neat P w w')"
  unfolding op_compress_def
  by (intro handler_steps assms outcome_case [where c = "x :: string \<times> string" for x] step_acquire_two [where P = P]
      outcome_bind3 [OF read_all_file_frame] step_compress [where P = P]
      outcome_bind2 [OF write_all_file_frame [where P = P]])
    (use assms in \<open>auto intro!: logf_neat neat_release_two intro: calm_trans quiet_calm\<close>)

lemma op_decompress_neat:
  assumes "P (resolve (g_log_path w))" "free_locks b w" "\<And>a e. path_build2 dd src dst = Some (a, e) \<Longrightarrow> P (resolve e)"
  shows "outcome b (op_decompress dd c src dst w) (\<lambda>(rc, w'). neat P w w')"
  unfolding op_decompress_def
  by (intro handler_steps assms outcome_case [where c = "x :: string \<times> string" for x] step_acquire_two [where P = P]
      outcome_bind3 [OF read_all_file_frame] step_decompress [where P = P]
      outcome_bind2 [OF write_all_file_frame [where P = P]])
    (use assms in \<open>auto intro!: logf_neat neat_release_two intro: calm_trans quiet_calm\<close>)


lemma copy_loop_frame:
  assumes "fs w (fpath d) = Some (File [])" "foff d = 0" "P (fpath d)"
  shows "outcome b (copy_loop h d w) (\<lambda>((rc, h', d'), w'). calm P w w' \<and> nopen w' = nopen w)"
proof (cases "node_at (fs w) (fpath h) = Some Dir")
  case True
  then obtain w' where "copy_loop h d w = Some ((1, h, d), w')" "no_io w' = no_io w" "oks w \<longrightarrow> oks w'"
    using copy_loop_dir by blast
  then show ?thesis using no_io_calm [of w' w P] by simp
next
  case False
  have "outcome b (copy_loop h d w) (copied P d ([] @ unread h w) w)"
    using False assms by (intro copy_loop_file) (auto simp: file_data_def)
  then show ?thesis by (rule outcome_mono) (auto simp: copied_def)
qed

lemma step_open_creat:
  assumes "P (resolve s)"
    "\<And>h w'. \<lbrakk>calm P w w'; nopen w' = nopen w + (if h = None then 0 else 1);
       \<forall>f. h = Some f \<longrightarrow> f = \<lparr>fpath = resolve s, foff = 0\<rparr> \<and> fs w' (resolve s) = Some (File [])\<rbrakk> \<Longrightarrow> outcome b (f h w') Q"
  shows "outcome b (case open_creat_trunc s w of (h, w') \<Rightarrow> f h w') Q"
proof (rule outcome_case)
  fix h w' assume "open_creat_trunc s w = (h, w')"
  from open_creat_trunc_calm [where P = P, OF this assms(1)] show "outcome b (f h w') Q" by (intro assms(2)) simp_all
qed

lemma calm_close: "calm P w w' \<Longrightarrow> calm P w (close' f w')"
  by (simp add: calm_def)

lemma op_copyfile_neat:
  assumes "P (resolve (g_log_path w))" "free_locks b w" "\<And>a e. path_build2 dd src dst = Some (a, e) \<Longrightarrow> P (resolve e)"
  shows "outcome b (op_copyfile dd c src dst w) (\<lambda>(rc, w'). neat P w w')"
  unfolding op_copyfile_def
  by (intro handler_steps assms outcome_case [where c = "x :: string \<times> string" for x] step_acquire_two [where P = P]
      step_open_rdonly step_parents [where P = P] step_open_creat [where P = P]
      outcome_bind4 [OF copy_loop_frame [where P = P]] step_fsync [where P = P])
    ((use assms in \<open>auto intro!: logf_neat neat_release_two\<close>)[1]; (drule quiet_calm [where P = P], simp add: calm_def))+

text \<open>A total function, step by step.\<close>

definition post :: "('a \<Rightarrow> bool) \<Rightarrow> 'a \<Rightarrow> bool" where
  "post Q c = Q c"

lemma post_case: "(\<And>x y. c = (x, y) \<Longrightarrow> post Q (f x y)) \<Longrightarrow> post Q (case c of (x, y) \<Rightarrow> f x y)"
  by (cases c) simp

lemma post_opt: "(h = None \<Longrightarrow> post Q m) \<Longrightarrow> (\<And>x. h = Some x \<Longrightarrow> post Q (f x)) \<Longrightarrow> post Q (case h of None \<Rightarrow> m | Some x \<Rightarrow> f x)"
  by (cases h) simp_all

lemma post_if: "(c \<Longrightarrow> post Q m) \<Longrightarrow> (\<not> c \<Longrightarrow> post Q m') \<Longrightarrow> post Q (if c then m else m')"
  by simp

lemma post_let: "post Q (f x) \<Longrightarrow> post Q (Let x f)"
  by simp

lemma post_ret: "Q x \<Longrightarrow> post Q x"
  by (simp add: post_def)

lemma fread_quiet: "fread h n w = (d, w') \<Longrightarrow> quiet w w' \<and> nopen w' = nopen w"
  by (cases "xfer w") (auto simp: fread_def popx_def quiet_def fails_def oks_def xfer_ok_def ctl_ok_def core_def split: answer.splits)

lemma fseek_again: "(if ok then (True, w) else fseek_ok w) = (ok', w') \<Longrightarrow> quiet w w' \<and> nopen w' = nopen w"
  using fseek_quiet [of w ok' w'] by (auto split: if_splits)

lemma read_log_tail_quiet:
  "post (\<lambda>(r, w'). quiet w w' \<and> nopen w' = nopen w) (read_log_tail n w)"
  unfolding read_log_tail_def
  by (intro post_case post_opt post_if post_let)
    (drule open_rdonly_quiet fseek_quiet malloc_quiet fread_quiet fseek_again, simp add: quiet_def post_def)+

lemma op_logs_neat:
  assumes "P (resolve (g_log_path w))"
  shows "outcome b (op_logs c n w) (\<lambda>(rc, w'). neat P w w')"
proof -
  obtain r d w1 where e: "read_log_tail n w = ((r, d), w1)" by (metis surj_pair)
  have "quiet w w1" "nopen w1 = nopen w" using read_log_tail_quiet [of w n] e by (simp_all add: post_def)
  then have n: "neat P w w1" using calm_neat [of P w w1 w] quiet_calm by simp
  show ?thesis
    unfolding op_logs_def e prod.case
    by (intro handler_steps outcome_bind2 [OF reply_bulk_neat [OF n]] logf_neat n assms)
      (use assms in \<open>auto intro: logf_neat\<close>)
qed

end
