(* ===== verification/LockThreads.thy ===== *)
theory LockThreads
  imports Locks "HOL-Library.Multiset"
begin










section \<open>The invariant\<close>
















section \<open>Exclusion and progress\<close>



















end
