(* ===== verification/Server.thy ===== *)
theory Server
  imports FileSafe LockThreads
begin







text \<open>
  \<open>main\<close> up to the call of \<open>start_server\<close>: the options (\<open>Inl\<close> is the message on standard error before
  \<open>return 1\<close>), the data directory and the log path.
\<close>

fun parse_args :: "string list \<Rightarrow> int \<Rightarrow> string \<Rightarrow> string + (int \<times> string)" where
  "parse_args [] port dir = Inr (port, dir)"
| "parse_args (a # v # rest) port dir =
     (if strcmp a ''-p'' = 0 then
        (let p = fst (strtol v) in
         if p \<le> 0 \<or> p > 65535 then Inl ''invalid port'' else parse_args rest (p mod 65536) dir)
      else if strcmp a ''-d'' = 0 then
        (if v = [] then Inl ''invalid data dir''
         else case snprintf PATH_MAX v of (n, d) \<Rightarrow>
           if n < 0 \<or> n \<ge> int PATH_MAX then Inl ''data dir too long'' else parse_args rest port d)
      else Inl ''usage'')"
| "parse_args [a] port dir = Inl ''usage''"

definition server_setup :: "string list \<Rightarrow> world \<Rightarrow> (string + (int \<times> string)) \<times> world" where
  "server_setup args w =
     (case parse_args args 6379 ''.'' of
        Inl e \<Rightarrow> (Inl e, w)
      | Inr (port, dir) \<Rightarrow>
          (case mkdir dir w of (r, w) \<Rightarrow>
             if r \<noteq> 0 \<and> errno w \<noteq> EEXIST then (Inl ''mkdir data dir'', w)
             else (Inr (port, dir), logger_init dir w)))"

section \<open>Commands\<close>






section \<open>Sessions\<close>
















section \<open>Start-up\<close>

lemma parse_args_ok:
  "parse_args args port dir = Inr (p, d) \<Longrightarrow> 0 < port \<Longrightarrow> port \<le> 65535 \<Longrightarrow> dir \<noteq> [] \<Longrightarrow> length dir < PATH_MAX \<Longrightarrow>
   0 < p \<and> p \<le> 65535 \<and> d \<noteq> [] \<and> length d < PATH_MAX"
  by (induction args port dir rule: parse_args.induct)
    (auto simp: Let_def snprintf_def PATH_MAX_def split: if_splits)

lemma log_path_below:
  assumes "d \<noteq> []" "length d < PATH_MAX"
  shows "below (resolve d) (resolve (snd (snprintf PATH_MAX (d @ ''/operations.log''))))"
proof -
  let ?t = "take (PATH_MAX - 1 - length d) ''/operations.log''"
  have e: "snd (snprintf PATH_MAX (d @ ''/operations.log'')) = d @ ?t" using assms(2) by (simp add: snprintf_def)
  show ?thesis
  proof (cases "?t = []")
    case True
    then show ?thesis unfolding e by (simp add: below_def)
  next
    case False
    then obtain x where "?t = CHR ''/'' # x" by (cases "PATH_MAX - 1 - length d") auto
    then show ?thesis unfolding e using resolve_join [OF assms(1), of x] by (simp add: below_def)
  qed
qed

text \<open>
  (C28) The start-up establishes what the commands rely on: when the server gets as far as opening its
  socket, the port fits 16 bits, the data directory is a non-empty path shorter than \<open>PATH_MAX\<close>, and
  the audit log lies below it, even where \<open>snprintf\<close> cut its name.
\<close>

theorem server_setup_establishes:
  assumes "server_setup args w = (Inr (port, dir), w')"
  shows "0 < port \<and> port < 2 ^ 16 \<and> dir \<noteq> [] \<and> length dir < PATH_MAX \<and>
    below (resolve dir) (resolve (g_log_path w')) \<and> tab w' = tab w \<and> nopen w' = nopen w"
proof -
  obtain r w1 where p: "parse_args args 6379 ''.'' = Inr (port, dir)" and m: "mkdir dir w = (r, w1)"
    and w': "w' = logger_init dir w1"
    using assms by (auto simp: server_setup_def split: sum.splits prod.splits if_splits)
  have d: "0 < port \<and> port \<le> 65535 \<and> dir \<noteq> [] \<and> length dir < PATH_MAX"
    by (rule parse_args_ok [OF p]) (simp_all add: PATH_MAX_def)
  have "lockmap w1 = lockmap w" "nopen w1 = nopen w"
    using mkdir_frame [OF m] core_coreL [of w1 w] by simp_all
  then show ?thesis
    using d log_path_below [of dir] tab_lockmap [of w' w] by (simp add: w' logger_init_def)
qed

theorem server_setup_establishes_witness:
  "\<exists>w'. server_setup [''-p'', ''6380'', ''-d'', ''data''] world0 = (Inr (6380, ''data''), w') \<and>
     below (resolve ''data'') (resolve (g_log_path w'))"
proof -
  have "parse_args [''-p'', ''6380'', ''-d'', ''data''] 6379 ''.'' = Inr (6380, ''data'')" by code_simp
  then obtain w' where e: "server_setup [''-p'', ''6380'', ''-d'', ''data''] world0 = (Inr (6380, ''data''), w')"
    by (simp add: server_setup_def mkdir_def popc_def world0_def resolve_def walk_err_def node_at_def split: option.split)
  from server_setup_establishes [OF e] e show ?thesis by blast
qed

end
