(* ===== verification/FileSpec.thy ===== *)
theory FileSpec
  imports Server
begin

text \<open>
  What the file commands do when no system call fails for good: transfers may still be short or
  interrupted.  One lemma per handler gives its reply and the files afterwards; the theorems combine them
  into the promises of the command set: what was written is read back, a deleted file is gone, a renamed
  file has moved, a copy has the source's content, decompression restores what was compressed, and
  \<open>LOGS n\<close> returns the last \<open>n\<close> entries.
\<close>

section \<open>Successful steps\<close>

lemma outcome_conj: "outcome b m P \<Longrightarrow> outcome b m Q \<Longrightarrow> outcome b m (\<lambda>x. P x \<and> Q x)"
  by (cases m) simp_all

lemma has_file_fs: "fs w' = fs w \<Longrightarrow> has_file s w' c = has_file s w c"
  by (simp add: has_file_def)

lemma no_such_fs: "fs w' = fs w \<Longrightarrow> no_such s w' = no_such s w"
  by (simp add: no_such_def)

lemma writable_fs: "fs w' = fs w \<Longrightarrow> writable s w' = writable s w"
  by (simp add: writable_def)

text \<open>A reply that goes out: its text, and nothing else changed.\<close>

definition said :: "bytes \<Rightarrow> world \<Rightarrow> int \<times> world \<Rightarrow> bool" where
  "said x w = (\<lambda>(r, w'). r = 0 \<and> outp w' = outp w @ x \<and> fs w' = fs w \<and> tab w' = tab w \<and> coreL w' = coreL w \<and> oks w')"

lemma saidI: "oks w \<Longrightarrow> \<exists>w'. m = Some (0, w') \<and> outp w' = outp w @ x \<and> no_outp w' = no_outp w \<and> xfer_ok w' \<Longrightarrow>
  outcome b m (said x w)"
proof -
  assume o: "oks w" and "\<exists>w'. m = Some (0, w') \<and> outp w' = outp w @ x \<and> no_outp w' = no_outp w \<and> xfer_ok w'"
  then obtain w' where w': "m = Some (0, w')" "outp w' = outp w @ x" "no_outp w' = no_outp w" "xfer_ok w'" by blast
  note c = core_no_outp [OF w'(3)]
  then have "coreL w' = coreL w" "lockmap w' = lockmap w" using core_coreL by blast+
  then show ?thesis using w' c o tab_lockmap [of w' w] by (simp add: said_def oks_def ctl_ok_def)
qed

lemma say_simple: "oks w \<Longrightarrow> length m < 253 \<Longrightarrow> outcome b (resp_reply_simple m w) (said (''+'' @ m @ CRLF) w)"
  using resp_reply_simple_ok [of w] by (intro saidI) (auto simp: oks_def)

lemma say_error: "oks w \<Longrightarrow> length m < 505 \<Longrightarrow> outcome b (resp_reply_error m w) (said (''-ERR '' @ m @ CRLF) w)"
  using resp_reply_error_ok [of w] by (intro saidI) (auto simp: oks_def)

lemma say_null: "oks w \<Longrightarrow> outcome b (resp_reply_null_bulk w) (said (''$-1'' @ CRLF) w)"
  using resp_reply_null_bulk_ok [of w] by (intro saidI) (auto simp: oks_def)

lemma say_integer: "oks w \<Longrightarrow> \<bar>v\<bar> < 10 ^ 20 \<Longrightarrow> outcome b (resp_reply_integer v w) (said ('':'' @ fmt_lld v @ CRLF) w)"
  using resp_reply_integer_ok [of w] by (intro saidI) (auto simp: oks_def)

lemma say_bulk: "oks w \<Longrightarrow> length d < 2 ^ 64 \<Longrightarrow> outcome b (resp_reply_bulk d w) (said (resp_bulk d) w)"
  using resp_reply_bulk_ok [of w] by (intro saidI) (auto simp: oks_def)

text \<open>Logging changes no file but the log, and makes no file of a directory.\<close>

lemma fopen_append_dir:
  assumes "node_at (fs w) (resolve s) = Some Dir" "fopen_append s w = (h, w')"
  shows "h = None \<and> fs w' = fs w"
proof -
  obtain a w1 where p: "popc w = (a, w1)" by (cases "popc w")
  have f: "fs w1 = fs w" using popc_frame [OF p] by simp
  then have "h = None \<and> (\<exists>e. w' = w1\<lparr>errno := e\<rparr>)"
    using assms p by (cases a) (auto simp: fopen_append_def fails_def Let_def split: if_splits option.splits)
  then show ?thesis using f by auto
qed

lemma logf_dir:
  assumes "node_at (fs w) p = Some Dir"
  shows "node_at (fs (logf c cmd t s d w)) p = Some Dir"
proof (cases "p = resolve (g_log_path w)")
  case True
  let ?w = "mutex_lock g_log_mutex w"
  obtain h w1 where f: "fopen_append (g_log_path w) ?w = (h, w1)" by (cases "fopen_append (g_log_path w) ?w")
  have "h = None \<and> fs w1 = fs ?w" using assms True by (intro fopen_append_dir [OF _ f]) simp
  then show ?thesis using assms f by (simp add: logf_def logger_log_def)
next
  case False
  then have "fs (logf c cmd t s d w) p = fs w p" using logger_log_frame by (simp add: logf_def)
  then show ?thesis using assms node_at_cong [of "fs (logf c cmd t s d w)" p "fs w"] by simp
qed

lemma logf_has_file:
  assumes "has_file s w x" "resolve s \<noteq> resolve (g_log_path w)"
  shows "has_file s (logf c cmd t st d w) x"
proof -
  have e: "fs (logf c cmd t st d w) (resolve s) = fs w (resolve s)" using assms(2) logger_log_frame by (simp add: logf_def)
  have "walk_err (fs (logf c cmd t st d w)) (resolve s) = None"
    using assms(1) logf_dir by (simp add: has_file_def walk_err_None_iff)
  then show ?thesis using assms(1) node_at_cong [of "fs (logf c cmd t st d w)" "resolve s" "fs w"] e by (simp add: has_file_def)
qed

lemma logf_simps [simp]:
  "outp (logf c cmd t s d w) = outp w" "tab (logf c cmd t s d w) = tab w" "oks w \<Longrightarrow> oks (logf c cmd t s d w)"
  "coreL (logf c cmd t s d w) = coreL w"
  using logger_log_frame [of "Some c" "Some cmd" "Some t" "Some s" "Some d" w]
    core_coreL [of "logf c cmd t s d w" w] tab_lockmap [of "logf c cmd t s d w" w]
  by (simp_all add: logf_def)

section \<open>The handlers\<close>

lemma locked_facts:
  assumes "locked rel w w1"
  shows "fs w1 = fs w" "outp w1 = outp w" "oks w \<Longrightarrow> oks w1" "coreL w1 = coreL w"
  using assms by (simp_all add: locked_def)

text \<open>The world after the release, seen from before the acquisition.\<close>

lemma locked_calm:
  assumes "locked rel w w1" "calm P w1 w2" "oks w"
  shows "oks (rel w2) \<and> fs (rel w2) = fs w2 \<and> outp (rel w2) = outp w \<and> tab (rel w2) = tab w \<and> coreL (rel w2) = coreL w"
  using assms core_coreL [of w2 w1] by (simp add: locked_def calm_def)

lemma locked_quiet:
  assumes "locked rel w w1" "quiet w1 w2" "oks w"
  shows "oks (rel w2) \<and> fs (rel w2) = fs w \<and> outp (rel w2) = outp w \<and> tab (rel w2) = tab w \<and> coreL (rel w2) = coreL w"
  using locked_calm [OF assms(1) quiet_calm [OF assms(2)] assms(3)] assms by (simp add: quiet_def locked_def)

lemmas get_steps = outcome_let outcome_if outcome_ret free_locksD

definition done_with :: "bytes \<Rightarrow> world \<Rightarrow> int \<times> world \<Rightarrow> bool" where
  "done_with x w = (\<lambda>(r, w'). r = 0 \<and> outp w' = outp w @ x \<and> tab w' = tab w \<and> coreL w' = coreL w \<and> oks w')"

lemma read_file_ok:
  assumes "has_file full w d" "length d \<le> MAX_FILE_SIZE" "fs w1 = fs w" "oks w1"
  shows "outcome b (read_all_file full w1) (\<lambda>((r, x), w'). quiet w1 w' \<and> r = 0 \<and> x = d)"
proof -
  have h: "has_file full w1 d" using assms(1) has_file_fs [OF assms(3)] by simp
  show ?thesis
    by (rule outcome_mono [OF outcome_conj [OF read_all_file_frame read_all_file_present [OF assms(4) h]]])
      (use assms(2) in auto)
qed

lemma op_getfile_ok:
  assumes "path_build dd rel PATH_MAX = Some full" "oks w" "has_file full w d" "length d \<le> MAX_FILE_SIZE" "free_locks b w"
  shows "outcome b (op_getfile dd c rel w) (done_with (resp_bulk d) w)"
proof -
  have len: "length d < 2 ^ 64" using assms(4) by (simp add: MAX_FILE_SIZE_def)
  show ?thesis
    unfolding op_getfile_def assms(1) option.case
    by (intro step_acquire_read [where P = "\<lambda>_. True"] get_steps assms(5) outcome_bind3 [OF read_file_ok [OF assms(3,4)]]
        outcome_bind2 [OF say_bulk])
      (use assms(2) len in \<open>auto simp: locked_facts done_with_def said_def dest: locked_quiet\<close>)
qed

lemma op_getfile_missing:
  assumes "path_build dd rel PATH_MAX = Some full" "oks w" "no_such full w" "free_locks b w"
  shows "outcome b (op_getfile dd c rel w) (done_with (''$-1'' @ CRLF) w)"
proof -
  have rd: "outcome b (read_all_file full w1) (\<lambda>((r, x), w'). quiet w1 w' \<and> r = -1 \<and> errno w' = ENOENT)"
    if "fs w1 = fs w" "oks w1" for w1
  proof -
    have h: "no_such full w1" using assms(3) no_such_fs [OF that(1)] by simp
    show ?thesis
      by (rule outcome_mono [OF outcome_conj [OF read_all_file_frame read_all_file_missing [OF that(2) h]]]) auto
  qed
  show ?thesis
    unfolding op_getfile_def assms(1) option.case
    by (intro step_acquire_read [where P = "\<lambda>_. True"] get_steps assms(4) outcome_bind3 [OF rd] outcome_mono [OF say_null])
      (use assms(2) in \<open>auto simp: locked_facts done_with_def said_def dest: locked_quiet\<close>)
qed

text \<open>A file survives the release of the locks, the log entry and the reply.\<close>

lemma has_file_logged:
  assumes "has_file s w2 x" "locked rel w w1" "calm P w1 w2" "oks w" "resolve s \<noteq> resolve (g_log_path w)"
  shows "has_file s (logf c cmd t st d (rel w2)) x"
proof -
  note l = locked_calm [OF assms(2-4)]
  have "g_log_path (rel w2) = g_log_path w" using l coreL_log_path [of "rel w2" w] by simp
  moreover have "has_file s (rel w2) x" using assms(1) has_file_fs [of "rel w2" w2] l by simp
  ultimately show ?thesis using logf_has_file assms(5) by simp
qed

lemma said_logged:
  assumes "said x (logf c cmd t st d (rel w2)) (r, w')" "locked rel w w1" "calm P w1 w2" "oks w"
  shows "done_with x w (r, w')"
  using assms(1) locked_calm [OF assms(2-4)] by (auto simp: said_def done_with_def)

lemma finish:
  assumes "\<And>v. oks v \<Longrightarrow> outcome b (reply v) (said x v)" "locked rel w w1" "calm P w1 w2" "oks w"
    "\<And>v. coreL v = coreL w \<Longrightarrow> fs v = fs w2 \<Longrightarrow> K (logf c cmd t st d v)" "\<And>v v'. fs v' = fs v \<Longrightarrow> K v \<Longrightarrow> K v'"
  shows "outcome b (reply (logf c cmd t st d (rel w2))) (\<lambda>(r, w'). done_with x w (r, w') \<and> K w')"
proof (rule outcome_mono)
  let ?w = "logf c cmd t st d (rel w2)"
  note l = locked_calm [OF assms(2-4)]
  then have "oks ?w" by simp
  then show "outcome b (reply ?w) (said x ?w)" by (rule assms(1))
  fix y assume "said x ?w y"
  then obtain r w' where y: "y = (r, w')" "said x ?w (r, w')" by (cases y) auto
  have "K ?w" using l by (intro assms(5)) simp_all
  then have "K w'" using y(2) assms(6) [of w' ?w] by (simp add: said_def)
  then show "case y of (r, w') \<Rightarrow> done_with x w (r, w') \<and> K w'"
    using said_logged [OF y(2) assms(2-4)] y(1) by simp
qed

lemmas finish_rel = finish [where rel = "locks_release l" for l]
lemmas finish_two = finish [where rel = "locks_release_two l" for l]

lemma say_OK: "oks w \<Longrightarrow> outcome b (resp_reply_simple ''OK'' w) (said (''+OK'' @ CRLF) w)"
  using say_simple [of w "''OK''"] by simp

lemmas finish_ok = finish_rel [where reply = "resp_reply_simple ''OK''", OF say_OK]
lemmas finish_two_ok = finish_two [where reply = "resp_reply_simple ''OK''", OF say_OK]

lemma say_01: "oks w \<Longrightarrow> v \<in> {0, 1} \<Longrightarrow> outcome b (resp_reply_integer v w) (said ('':'' @ fmt_lld v @ CRLF) w)"
  by (rule say_integer) auto

lemma keep_file:
  assumes "has_file s w2 x" "resolve s \<noteq> resolve (g_log_path w)" "coreL v = coreL w" "fs v = fs w2"
  shows "has_file s (logf c cmd t st d v) x"
proof -
  have "has_file s v x" using assms(1) has_file_fs [OF assms(4)] by simp
  then show ?thesis using logf_has_file coreL_log_path [OF assms(3)] assms(2) by simp
qed

lemma write_file_ok:
  assumes "writable full w" "fs w1 = fs w" "oks w1" "P (resolve full)"
  shows "outcome b (write_all_file full d w1) (\<lambda>(r, w'). calm P w1 w' \<and> r = 0 \<and> has_file full w' d)"
proof -
  have h: "writable full w1" using assms(1) writable_fs [OF assms(2)] by simp
  show ?thesis
    by (rule outcome_mono [OF outcome_conj [OF write_all_file_frame [of P, OF assms(4)] write_all_file_ok [OF assms(3) h]]]) auto
qed

lemma op_setfile_ok:
  assumes "path_build dd rel PATH_MAX = Some full" "oks w" "writable full w" "free_locks b w"
    "resolve full \<noteq> resolve (g_log_path w)"
  shows "outcome b (op_setfile dd c rel d w) (\<lambda>(r, w'). done_with (''+OK'' @ CRLF) w (r, w') \<and> has_file full w' d)"
proof -
  let ?P = "\<lambda>p. p = resolve full"
  show ?thesis
    unfolding op_setfile_def assms(1) option.case
    by (intro step_acquire_write [where P = ?P] get_steps assms(4)
        outcome_bind2 [OF write_file_ok [OF assms(3), where P = ?P]] finish_ok [where P = ?P])
      (use assms(2,5) in \<open>auto simp: locked_facts intro: keep_file has_file_fs [THEN iffD2]\<close>)
qed

text \<open>
  (C8) What was written is read back: after a \<open>SETFILE\<close> of up to 64 MiB on a path that can be written, a
  \<open>GETFILE\<close> of the same path replies with exactly those bytes, however the transfers of both commands
  are cut into pieces and interrupted.  Both commands return, and every other file but the log keeps
  its content.
\<close>

theorem set_then_get:
  assumes "path_build dd rel PATH_MAX = Some full" "oks w" "writable full w" "\<And>q. rw_get q w = rw_free"
    "resolve full \<noteq> resolve (g_log_path w)" "length d \<le> MAX_FILE_SIZE"
  shows "\<exists>w1 w2. op_setfile dd c1 rel d w = Some (0, w1) \<and> op_getfile dd c2 rel w1 = Some (0, w2) \<and>
    outp w2 = outp w @ ''+OK'' @ CRLF @ resp_bulk d \<and>
    others (\<lambda>p. p = resolve full \<or> p = resolve (g_log_path w)) w2 =
    others (\<lambda>p. p = resolve full \<or> p = resolve (g_log_path w)) w"
proof -
  let ?P = "\<lambda>p. p = resolve full \<or> p = resolve (g_log_path w)"
  have f: "free_locks False w" using assms(4) by (simp add: free_locks_def)
  have "outcome False (op_setfile dd c1 rel d w)
      (\<lambda>y. (case y of (r, w') \<Rightarrow> done_with (''+OK'' @ CRLF) w (r, w') \<and> has_file full w' d) \<and> (case y of (rc, w') \<Rightarrow> neat ?P w w'))"
    by (rule outcome_conj [OF op_setfile_ok [OF assms(1-3) f assms(5)] op_setfile_neat [OF _ f]]) (use assms(1) in auto)
  then obtain w1 where 1: "op_setfile dd c1 rel d w = Some (0, w1)" "done_with (''+OK'' @ CRLF) w (0, w1)" "has_file full w1 d"
    "neat ?P w w1" by (auto simp: outcome_iff done_with_def)
  have f1: "free_locks False w1" using 1(2) assms(4) by (auto simp: free_locks_def done_with_def fun_eq_iff)
  have o1: "oks w1" "g_log_path w1 = g_log_path w" using 1(2) coreL_log_path [of w1 w] by (simp_all add: done_with_def)
  have "outcome False (op_getfile dd c2 rel w1) (\<lambda>y. done_with (resp_bulk d) w1 y \<and> (case y of (rc, w') \<Rightarrow> neat ?P w1 w'))"
    by (rule outcome_conj [OF op_getfile_ok [OF assms(1) o1(1) 1(3) assms(6) f1] op_getfile_neat [OF _ f1]]) (use o1 in auto)
  then obtain w2 where "op_getfile dd c2 rel w1 = Some (0, w2)" "done_with (resp_bulk d) w1 (0, w2)" "neat ?P w1 w2"
    by (auto simp: outcome_iff done_with_def)
  with 1 show ?thesis by (auto simp: done_with_def neat_def)
qed

abbreviation demo :: world where
  "demo \<equiv> world0\<lparr>xfer := [Short 0, Fail EINTR, Short 2], g_log_path := ''d/operations.log''\<rparr>"

lemma demo_facts:
  "oks demo" "rw_get q demo = rw_free" "path_build ''d'' ''a/b'' PATH_MAX = Some ''d/a/b''" "writable ''d/a/b'' demo"
  "resolve ''d/a/b'' \<noteq> resolve (g_log_path demo)"
  by (simp_all add: oks_def xfer_ok_def ctl_ok_def world0_def rw_get_def rw_free_def path_build_def is_path_safe_def
      snprintf_def PATH_MAX_def writable_def wants_dir_def no_files_def node_at_def resolve_def)

theorem set_then_get_witness:
  "\<exists>w1 w2. op_setfile ''d'' ''c'' ''a/b'' ''hello'' demo = Some (0, w1) \<and> op_getfile ''d'' ''c'' ''a/b'' w1 = Some (0, w2) \<and>
     outp w2 = ''+OK'' @ CRLF @ resp_bulk ''hello''"
  using set_then_get [OF demo_facts(3,1,4,2,5), of "''hello''" "''c''" "''c''"]
  by (auto simp: MAX_FILE_SIZE_def world0_def)

section \<open>Deleting\<close>

lemma unlink_ok:
  assumes "oks w" "has_file s w c" "unlink s w = (r, w')"
  shows "r = 0 \<and> fs w' = (fs w)(resolve s := None)"
proof -
  obtain a w1 where p: "popc w = (a, w1)" by (cases "popc w")
  have a: "\<And>e. a \<noteq> Fail e" "fs w1 = fs w" using popc_frame [OF p] assms(1) by (simp_all add: oks_def)
  show ?thesis using assms p a by (auto simp: unlink_def Let_def answer_ok has_file_def)
qed

lemma unlink_missing:
  assumes "oks w" "no_such s w" "unlink s w = (r, w')"
  shows "r = -1 \<and> errno w' = ENOENT \<and> fs w' = fs w"
proof -
  obtain a w1 where p: "popc w = (a, w1)" by (cases "popc w")
  have a: "\<And>e. a \<noteq> Fail e" "fs w1 = fs w" using popc_frame [OF p] assms(1) by (simp_all add: oks_def)
  show ?thesis using assms p a by (auto simp: unlink_def Let_def answer_ok no_such_def fails_def split: if_splits)
qed

lemma fmt_01: "fmt_lld 0 = ''0''" "fmt_lld 1 = ''1''"
  by code_simp+

text \<open>The place is reachable but empty.\<close>

definition gone :: "string \<Rightarrow> world \<Rightarrow> bool" where
  "gone s w \<longleftrightarrow> walk_err (fs w) (resolve s) = None \<and> node_at (fs w) (resolve s) = None"

lemma gone_no_such: "gone s w \<Longrightarrow> no_such s w"
  by (simp add: gone_def no_such_def)

lemma gone_fs: "fs v' = fs v \<Longrightarrow> gone s v \<Longrightarrow> gone s v'"
  by (simp add: gone_def)

lemma keep_gone:
  assumes "gone s w2" "resolve s \<noteq> resolve (g_log_path w)" "coreL v = coreL w" "fs v = fs w2"
  shows "gone s (logf c cmd t st d v)"
proof -
  have g: "gone s v" using assms(1,4) by (simp add: gone_def)
  have "fs (logf c cmd t st d v) (resolve s) = fs v (resolve s)"
    using assms(2) coreL_log_path [OF assms(3)] logger_log_frame by (simp add: logf_def)
  then have "node_at (fs (logf c cmd t st d v)) (resolve s) = node_at (fs v) (resolve s)"
    by (rule node_at_cong [of "fs (logf c cmd t st d v)" "resolve s" "fs v"])
  with g show ?thesis using logf_dir by (simp add: gone_def walk_err_None_iff)
qed

lemma unlink_gone: "has_file s w c \<Longrightarrow> fs w' = (fs w)(resolve s := None) \<Longrightarrow> gone s w'"
  unfolding gone_def has_file_def using walk_err_upd [of "resolve s" "fs w'" "fs w"] by (auto simp: node_at_def split: if_splits)

lemma op_delfile_ok:
  assumes "path_build dd rel PATH_MAX = Some full" "oks w" "has_file full w d" "free_locks b w"
    "resolve full \<noteq> resolve (g_log_path w)"
  shows "outcome b (op_delfile dd c rel w) (\<lambda>(r, w'). done_with ('':1'' @ CRLF) w (r, w') \<and> gone full w')"
proof -
  let ?P = "\<lambda>p. p = resolve full"
  have st: "outcome b (case unlink full w1 of (r, w') \<Rightarrow> f r w') Q"
    if "fs w1 = fs w" "oks w1" "\<And>w2. calm ?P w1 w2 \<Longrightarrow> gone full w2 \<Longrightarrow> outcome b (f 0 w2) Q" for w1 f Q
  proof (rule outcome_case)
    fix r w2 assume u: "unlink full w1 = (r, w2)"
    have "has_file full w1 d" using has_file_fs [OF that(1)] assms(3) by simp
    then show "outcome b (f r w2) Q"
      using unlink_calm [of ?P full w1 r w2] unlink_ok [OF that(2) _ u] u unlink_gone [of full w1 d w2] that(3) [of w2] by simp
  qed
  have s1: "oks v \<Longrightarrow> outcome b (resp_reply_integer 1 v) (said ('':1'' @ CRLF) v)" for v
    using say_01 [of v 1 b] unfolding fmt_01 by simp
  show ?thesis
    unfolding op_delfile_def assms(1) option.case
    by (intro step_acquire_write [where P = ?P] get_steps assms(4) st
        finish_rel [where reply = "resp_reply_integer 1" and P = ?P, OF s1])
      (use assms(2,5) in \<open>auto simp: locked_facts intro: keep_gone gone_fs\<close>)
qed

lemma op_delfile_missing:
  assumes "path_build dd rel PATH_MAX = Some full" "oks w" "no_such full w" "free_locks b w"
  shows "outcome b (op_delfile dd c rel w) (\<lambda>(r, w'). done_with ('':0'' @ CRLF) w (r, w') \<and> True)"
proof -
  let ?P = "\<lambda>p. p = resolve full"
  have st: "outcome b (case unlink full w1 of (r, w') \<Rightarrow> f r w') Q"
    if "fs w1 = fs w" "oks w1" "\<And>w2. calm ?P w1 w2 \<Longrightarrow> errno w2 = ENOENT \<Longrightarrow> outcome b (f (-1) w2) Q" for w1 f Q
  proof (rule outcome_case)
    fix r w2 assume u: "unlink full w1 = (r, w2)"
    have "no_such full w1" using no_such_fs [OF that(1)] assms(3) by simp
    then show "outcome b (f r w2) Q"
      using unlink_calm [of ?P full w1 r w2] unlink_missing [OF that(2) _ u] u that(3) [of w2] by simp
  qed
  have s0: "oks v \<Longrightarrow> outcome b (resp_reply_integer 0 v) (said ('':0'' @ CRLF) v)" for v
    using say_01 [of v 0 b] unfolding fmt_01 by simp
  show ?thesis
    unfolding op_delfile_def assms(1) option.case
    by (intro step_acquire_write [where P = ?P] get_steps assms(4) st
        finish_rel [where reply = "resp_reply_integer 0" and P = ?P and K = "\<lambda>_. True", OF s0])
      (use assms(2) in \<open>auto simp: locked_facts\<close>)
qed

text \<open>
  (C22) \<open>DELFILE\<close> of a file replies \<open>:1\<close> and the file is gone: \<open>GETFILE\<close> then replies with the null string and
  a second \<open>DELFILE\<close> with \<open>:0\<close>; every other file but the log keeps its content.
\<close>

theorem delete_then_get:
  assumes "path_build dd rel PATH_MAX = Some full" "oks w" "has_file full w d" "\<And>q. rw_get q w = rw_free"
    "resolve full \<noteq> resolve (g_log_path w)"
  shows "\<exists>w1 w2 w3. op_delfile dd c1 rel w = Some (0, w1) \<and> outp w1 = outp w @ '':1'' @ CRLF \<and>
    others (\<lambda>p. p = resolve full \<or> p = resolve (g_log_path w)) w1 =
    others (\<lambda>p. p = resolve full \<or> p = resolve (g_log_path w)) w \<and>
    op_getfile dd c2 rel w1 = Some (0, w2) \<and> outp w2 = outp w1 @ ''$-1'' @ CRLF \<and>
    op_delfile dd c3 rel w1 = Some (0, w3) \<and> outp w3 = outp w1 @ '':0'' @ CRLF"
proof -
  let ?P = "\<lambda>p. p = resolve full \<or> p = resolve (g_log_path w)"
  have f: "free_locks False w" using assms(4) by (simp add: free_locks_def)
  have "outcome False (op_delfile dd c1 rel w)
      (\<lambda>y. (case y of (r, w') \<Rightarrow> done_with ('':1'' @ CRLF) w (r, w') \<and> gone full w') \<and> (case y of (rc, w') \<Rightarrow> neat ?P w w'))"
    by (rule outcome_conj [OF op_delfile_ok [OF assms(1-3) f assms(5)] op_delfile_neat [OF _ f]]) (use assms(1) in auto)
  then obtain w1 where 1: "op_delfile dd c1 rel w = Some (0, w1)" "done_with ('':1'' @ CRLF) w (0, w1)" "gone full w1"
    "neat ?P w w1" by (auto simp: outcome_iff done_with_def)
  have f1: "free_locks False w1" using 1(2) assms(4) by (auto simp: free_locks_def done_with_def fun_eq_iff)
  have o1: "oks w1" using 1(2) by (simp add: done_with_def)
  note ns = gone_no_such [OF 1(3)]
  obtain w2 where "op_getfile dd c2 rel w1 = Some (0, w2)" "outp w2 = outp w1 @ ''$-1'' @ CRLF"
    using op_getfile_missing [OF assms(1) o1 ns f1, of c2] by (auto simp: outcome_iff done_with_def)
  moreover obtain w3 where "op_delfile dd c3 rel w1 = Some (0, w3)" "outp w3 = outp w1 @ '':0'' @ CRLF"
    using op_delfile_missing [OF assms(1) o1 ns f1, of c3] by (auto simp: outcome_iff done_with_def)
  ultimately show ?thesis using 1 by (auto simp: done_with_def neat_def)
qed

text \<open>A tree with one file.\<close>

abbreviation demo_file :: world where
  "demo_file \<equiv> demo\<lparr>fs := [[''d''] \<mapsto> Dir, [''d'', ''f''] \<mapsto> File ''hello'']\<rparr>"

lemma demo_file_facts:
  "oks demo_file" "rw_get q demo_file = rw_free" "path_build ''d'' ''f'' PATH_MAX = Some ''d/f''"
  "has_file ''d/f'' demo_file ''hello''" "resolve ''d/f'' \<noteq> resolve (g_log_path demo_file)"
  using demo_facts(2)
  by (simp_all add: oks_def xfer_ok_def ctl_ok_def rw_get_def world0_def path_build_def is_path_safe_def snprintf_def PATH_MAX_def has_file_def wants_dir_def
      resolve_def node_at_def walk_err_def)

theorem delete_then_get_witness:
  "\<exists>w1 w2. op_delfile ''d'' ''c'' ''f'' demo_file = Some (0, w1) \<and> op_getfile ''d'' ''c'' ''f'' w1 = Some (0, w2)"
  using delete_then_get [OF demo_file_facts(3,1,4,2,5), of "''c''" "''c''" "''c''"] by blast

section \<open>Copying\<close>

lemma copy_loop_ok:
  assumes "fs w (fpath d) = Some (File [])" "foff d = 0" "P (fpath d)" "oks w" "node_at (fs w) (fpath h) \<noteq> Some Dir" "foff h = 0"
  shows "outcome b (copy_loop h d w) (\<lambda>((rc, h', d'), w'). calm P w w' \<and> rc = 0 \<and>
    (\<forall>p. p \<noteq> fpath d \<longrightarrow> fs w' p = fs w p) \<and> fs w' (fpath d) = Some (File (file_data w (fpath h))))"
proof -
  have "outcome b (copy_loop h d w) (copied P d ([] @ unread h w) w)"
    using assms by (intro copy_loop_file) (auto simp: file_data_def)
  then show ?thesis by (rule outcome_mono) (use assms in \<open>auto simp: copied_def\<close>)
qed

text \<open>Opening the destination for writing: an empty file at the place, nothing else changed but new parents.\<close>

lemma dst_opened:
  assumes "oks w" "writable s w" "path_ensure_parent_dirs s w = (r, w1)" "open_creat_trunc s w1 = (h, w2)" "P (resolve s)"
  shows "r = 0 \<and> h = Some \<lparr>fpath = resolve s, foff = 0\<rparr> \<and> calm P w w2 \<and> oks w1 \<and> oks w2 \<and> calm P w w1 \<and>
    fs w2 (resolve s) = Some (File []) \<and> (\<forall>p. p \<noteq> resolve s \<longrightarrow> fs w2 p = fs w1 p) \<and>
    walk_err (fs w1) (resolve s) = None \<and> node_at (fs w1) (resolve s) \<noteq> Some Dir \<and> fs w1 (resolve s) = fs w (resolve s)"
proof -
  note pw = parents_writable [OF assms(1-3)]
  have nd: "node_at (fs w1) (resolve s) \<noteq> Some Dir"
    using pw(4) assms(2) node_at_cong [of "fs w1" "resolve s" "fs w"] by (simp add: writable_def)
  have h: "h = Some \<lparr>fpath = resolve s, foff = 0\<rparr>"
    using assms(2) pw nd by (intro open_creat_trunc_ok [OF pw(2) _ _ pw(3) nd assms(4)]) (simp_all add: writable_def)
  note oc = open_creat_trunc_calm [where P = P, OF assms(4,5)]
  show ?thesis
    using h pw nd oc parents_calm [OF assms(3), of P] calm_trans [of P w w1 w2] assms(1) by (auto simp: calm_def)
qed

lemma step_open_src:
  assumes "has_file s w c" "fs w1 = fs w" "oks w1"
    "\<And>w2. calm P w1 w2 \<Longrightarrow> fs w2 = fs w \<Longrightarrow> oks w2 \<Longrightarrow> outcome b (f \<lparr>fpath = resolve s, foff = 0\<rparr> w2) Q"
  shows "outcome b (case open_rdonly s w1 of (None, w') \<Rightarrow> m w' | (Some h, w') \<Rightarrow> f h w') Q"
proof (rule outcome_case)
  fix h w2 assume o: "open_rdonly s w1 = (h, w2)"
  have "has_file s w1 c" using assms(1) has_file_fs [OF assms(2)] by simp
  then have "h = Some \<lparr>fpath = resolve s, foff = 0\<rparr>" by (rule open_rdonly_ok(1) [OF o assms(3)])
  then show "outcome b (case h of None \<Rightarrow> m w2 | Some h \<Rightarrow> f h w2) Q"
    using open_rdonly_quiet [OF o] quiet_calm assms by (simp add: quiet_def)
qed

definition dst_ready :: "string \<Rightarrow> world \<Rightarrow> world \<Rightarrow> bool" where
  "dst_ready s w w' \<longleftrightarrow> oks w' \<and> fs w' (resolve s) = Some (File []) \<and>
     (\<forall>p c. p \<noteq> resolve s \<longrightarrow> node_at (fs w) p = Some (File c) \<longrightarrow> node_at (fs w') p = Some (File c)) \<and>
     (\<forall>c v. (\<forall>p. p \<noteq> resolve s \<longrightarrow> fs v p = fs w' p) \<longrightarrow> fs v (resolve s) = Some (File c) \<longrightarrow> has_file s v c)"

lemma step_open_dst:
  assumes "writable s w" "fs w1 = fs w" "oks w1" "P (resolve s)"
    "\<And>w2. calm P w1 w2 \<Longrightarrow> dst_ready s w w2 \<Longrightarrow> outcome b (f \<lparr>fpath = resolve s, foff = 0\<rparr> w2) Q"
  shows "outcome b (case path_ensure_parent_dirs s w1 of (r, w) \<Rightarrow>
      if r \<noteq> 0 then X r w else case open_creat_trunc s w of (None, w) \<Rightarrow> m w | (Some h, w) \<Rightarrow> f h w) Q"
proof -
  obtain r v where p: "path_ensure_parent_dirs s w1 = (r, v)" by (cases "path_ensure_parent_dirs s w1")
  obtain h w2 where o: "open_creat_trunc s v = (h, w2)" by (cases "open_creat_trunc s v")
  have wr: "writable s w1" using assms(1) writable_fs [OF assms(2)] by simp
  note d = dst_opened [where P = P, OF assms(3) wr p o assms(4)]
  have "node_at (fs w2) q = Some (File c)" if "q \<noteq> resolve s" "node_at (fs w) q = Some (File c)" for q c
  proof -
    have "fs v q = fs w q" using parents_fs [OF p, of q] assms(2) that(2) by (auto simp: node_at_File)
    then show ?thesis using d that by (simp add: node_at_File)
  qed
  moreover have "has_file s u c" if "\<forall>p. p \<noteq> resolve s \<longrightarrow> fs u p = fs w2 p" "fs u (resolve s) = Some (File c)" for c u
    using d that wr by (intro has_file_upd [of v s]) (simp_all add: writable_def)
  ultimately have "dst_ready s w w2" using d by (simp add: dst_ready_def)
  then show ?thesis using p o d assms(5) by simp
qed

lemma op_copyfile_ok:
  assumes "path_build2 dd src dst = Some (a, e)" "oks w" "has_file a w d" "writable e w" "free_locks b w"
    "resolve e \<noteq> resolve (g_log_path w)"
  shows "outcome b (op_copyfile dd c src dst w) (\<lambda>(r, w'). done_with (''+OK'' @ CRLF) w (r, w') \<and>
    has_file e w' (if resolve a = resolve e then [] else d))"
proof -
  let ?P = "\<lambda>p. p = resolve e"
  let ?d = "if resolve a = resolve e then [] else d"
  have cp: "outcome b (copy_loop \<lparr>fpath = resolve a, foff = 0\<rparr> \<lparr>fpath = resolve e, foff = 0\<rparr> v)
      (\<lambda>((rc, h', d'), w'). calm ?P v w' \<and> rc = 0 \<and> oks w' \<and> has_file e w' ?d)" if r: "dst_ready e w v" for v
  proof -
    have na: "node_at (fs v) (resolve a) = Some (File ?d)"
      using r assms(3) by (cases "resolve a = resolve e") (auto simp: dst_ready_def has_file_def node_at_File)
    then have fa: "node_at (fs v) (resolve a) \<noteq> Some Dir" by simp
    have fd: "file_data v (resolve a) = ?d" using na unfolding node_at_File file_data_def by simp
    show ?thesis
      by (rule outcome_mono [OF copy_loop_ok [of v _ ?P]]) (use r fa fd in \<open>auto simp: dst_ready_def calm_def\<close>)
  qed
  show ?thesis
    unfolding op_copyfile_def assms(1) option.case prod.case
    by (intro step_acquire_two [where P = ?P] get_steps assms(5) step_open_src [OF assms(3), where P = ?P]
        step_open_dst [OF assms(4), where P = ?P] outcome_bind4 [OF cp] step_fsync [where P = ?P] finish_two_ok [where P = ?P])
      (use assms(2,6) in \<open>auto simp: locked_facts simp del: if_split intro: keep_file has_file_fs [THEN iffD2]
          intro!: calm_close intro: calm_trans\<close>)
qed

text \<open>
  (C20) \<open>COPYFILE\<close> to another file makes the destination's content the source's: the command returns with
  \<open>+OK\<close>, whatever the destination held before, and a missing parent directory is created.
\<close>

theorem copy_copies:
  assumes "path_build2 dd src dst = Some (a, e)" "oks w" "has_file a w d" "writable e w" "\<And>q. rw_get q w = rw_free"
    "resolve e \<noteq> resolve (g_log_path w)" "resolve a \<noteq> resolve e"
  shows "\<exists>w1. op_copyfile dd c src dst w = Some (0, w1) \<and> outp w1 = outp w @ ''+OK'' @ CRLF \<and> has_file e w1 d"
proof -
  have f: "free_locks False w" using assms(5) by (simp add: free_locks_def)
  show ?thesis
    using op_copyfile_ok [OF assms(1-4) f assms(6), of c] assms(7) by (auto simp: outcome_iff done_with_def)
qed

lemma demo_copy_facts:
  "path_build2 ''d'' ''f'' ''g'' = Some (''d/f'', ''d/g'')" "writable ''d/g'' demo_file"
  "path_build2 ''d'' ''f'' ''./f'' = Some (''d/f'', ''d/./f'')" "writable ''d/./f'' demo_file"
  "resolve ''d/g'' \<noteq> resolve (g_log_path demo_file)" "resolve ''d/./f'' \<noteq> resolve (g_log_path demo_file)"
  "resolve ''d/f'' \<noteq> resolve ''d/g''" "resolve ''d/f'' = resolve ''d/./f''"
  by (auto simp: path_build2_def path_build_def is_path_safe_def snprintf_def PATH_MAX_def writable_def wants_dir_def no_files_def
      node_at_def resolve_def dirpart_def take_Cons')

theorem copy_copies_witness:
  "\<exists>w1. op_copyfile ''d'' ''c'' ''f'' ''g'' demo_file = Some (0, w1) \<and> has_file ''d/g'' w1 ''hello''"
  using copy_copies [OF demo_copy_facts(1) demo_file_facts(1,4) demo_copy_facts(2) demo_file_facts(2) demo_copy_facts(5,7), of "''c''"]
  by blast

text \<open>
  (C31) \<open>COPYFILE\<close> of a file onto itself, under the same or another spelling of its path, destroys it: the
  destination is opened with truncation before the first read, the copy loop finds nothing to copy, and
  the client is told \<open>+OK\<close>.
\<close>

theorem copy_onto_itself_empties:
  assumes "path_build2 dd src dst = Some (a, e)" "oks w" "has_file a w d" "writable e w" "\<And>q. rw_get q w = rw_free"
    "resolve e \<noteq> resolve (g_log_path w)" "resolve a = resolve e"
  shows "\<exists>w1. op_copyfile dd c src dst w = Some (0, w1) \<and> outp w1 = outp w @ ''+OK'' @ CRLF \<and> has_file e w1 []"
proof -
  have f: "free_locks False w" using assms(5) by (simp add: free_locks_def)
  show ?thesis
    using op_copyfile_ok [OF assms(1-4) f assms(6), of c] assms(7) by (auto simp: outcome_iff done_with_def)
qed

theorem copy_onto_itself_empties_witness:
  "\<exists>w1. op_copyfile ''d'' ''c'' ''f'' ''./f'' demo_file = Some (0, w1) \<and> has_file ''d/./f'' w1 []"
  using copy_onto_itself_empties [OF demo_copy_facts(3) demo_file_facts(1,4) demo_copy_facts(4) demo_file_facts(2) demo_copy_facts(6,8), of "''c''"]
  by blast

section \<open>Compression\<close>

lemma rle_compress_ok: "oks w \<Longrightarrow> rle_compress_bytes x w = (r, w') \<Longrightarrow>
  r = Some (rle_header @ rle_pairs x) \<and> calm P w w' \<and> fs w' = fs w \<and> oks w'"
  using rle_compress_calm [of x w r w' P] malloc_quiet [of w]
  by (auto simp: rle_compress_bytes_def Let_def quiet_def split: prod.splits if_splits)

lemma rle_decompress_ok:
  assumes "oks w" "length x \<le> MAX_FILE_SIZE" "rle_decompress_bytes (rle_header @ rle_pairs x) w = (r, w')"
  shows "r = Some x \<and> calm P w w' \<and> fs w' = fs w \<and> oks w'"
proof -
  obtain k w1 where m: "malloc w = (k, w1)" by (cases "malloc w")
  show ?thesis
    using rle_decompress_calm [OF assms(3), of P] malloc_quiet [OF m] m assms even_rle_pairs [of x]
    by (simp add: rle_decompress_bytes_header rle_expand_pairs quiet_def)
qed

lemma step_pack:
  assumes "\<And>r w'. g w = (r, w') \<Longrightarrow> r = Some y \<and> calm P w w' \<and> fs w' = fs w \<and> oks w'"
    "\<And>w'. calm P w w' \<Longrightarrow> fs w' = fs w \<Longrightarrow> oks w' \<Longrightarrow> outcome b (f y w') Q"
  shows "outcome b (case g w of (None, w') \<Rightarrow> m w' | (Some x, w') \<Rightarrow> f x w') Q"
proof (rule outcome_case)
  fix r w' assume "g w = (r, w')"
  from assms(1) [OF this] show "outcome b (case r of None \<Rightarrow> m w' | Some x \<Rightarrow> f x w') Q" using assms(2) by auto
qed

lemma read_file_calm:
  assumes "has_file full w d" "length d \<le> MAX_FILE_SIZE" "fs w1 = fs w" "oks w1"
  shows "outcome b (read_all_file full w1) (\<lambda>((r, x), w'). calm P w1 w' \<and> fs w' = fs w \<and> oks w' \<and> r = 0 \<and> x = d)"
  by (rule outcome_mono [OF read_file_ok [OF assms]]) (use assms(3,4) quiet_calm in \<open>auto simp: quiet_def\<close>)

lemma op_compress_ok:
  assumes "path_build2 dd src dst = Some (a, e)" "oks w" "has_file a w d" "length d \<le> MAX_FILE_SIZE" "writable e w" "free_locks b w"
    "resolve e \<noteq> resolve (g_log_path w)"
  shows "outcome b (op_compress dd c src dst w) (\<lambda>(r, w'). done_with (''+OK'' @ CRLF) w (r, w') \<and>
    has_file e w' (rle_header @ rle_pairs d))"
proof -
  let ?P = "\<lambda>p. p = resolve e"
  show ?thesis
    unfolding op_compress_def assms(1) option.case prod.case
    by (intro step_acquire_two [where P = ?P] get_steps assms(6) outcome_bind3 [OF read_file_calm [OF assms(3,4), where P = ?P]]
        step_pack [where P = ?P, OF rle_compress_ok] outcome_bind2 [OF write_file_ok [OF assms(5), where P = ?P]] finish_two_ok [where P = ?P])
      (use assms(2,7) in \<open>auto simp: locked_facts intro: keep_file has_file_fs [THEN iffD2] calm_trans\<close>)
qed

lemma op_decompress_ok:
  assumes "path_build2 dd src dst = Some (a, e)" "oks w" "has_file a w (rle_header @ rle_pairs d)"
    "length (rle_header @ rle_pairs d) \<le> MAX_FILE_SIZE" "length d \<le> MAX_FILE_SIZE" "writable e w" "free_locks b w"
    "resolve e \<noteq> resolve (g_log_path w)"
  shows "outcome b (op_decompress dd c src dst w) (\<lambda>(r, w'). done_with (''+OK'' @ CRLF) w (r, w') \<and> has_file e w' d)"
proof -
  let ?P = "\<lambda>p. p = resolve e"
  show ?thesis
    unfolding op_decompress_def assms(1) option.case prod.case
    by (intro step_acquire_two [where P = ?P] get_steps assms(7) outcome_bind3 [OF read_file_calm [OF assms(3,4), where P = ?P]]
        step_pack [where P = ?P, OF rle_decompress_ok [OF _ assms(5)]] outcome_bind2 [OF write_file_ok [OF assms(6), where P = ?P]]
        finish_two_ok [where P = ?P])
      (use assms(2,8) in \<open>auto simp: locked_facts intro: keep_file has_file_fs [THEN iffD2] calm_trans\<close>)
qed

text \<open>
  (C9) \<open>COMPRESS\<close> followed by \<open>DECOMPRESS\<close> restores a file.  \<open>COMPRESS\<close> of a file of up to 64 MiB replies \<open>+OK\<close>
  and writes an encoding of at most twice its size plus four bytes; when that encoding is itself within
  the 64 MiB limit, \<open>DECOMPRESS\<close> of it replies \<open>+OK\<close> and gives the destination the original bytes.
\<close>

theorem compress_then_decompress:
  assumes "path_build2 dd src dst = Some (a, e)" "oks w" "has_file a w d" "length d \<le> MAX_FILE_SIZE" "writable e w"
    "\<And>q. rw_get q w = rw_free" "resolve e \<noteq> resolve (g_log_path w)"
  shows "\<exists>w1 z. op_compress dd c1 src dst w = Some (0, w1) \<and> outp w1 = outp w @ ''+OK'' @ CRLF \<and>
    has_file e w1 z \<and> length z \<le> 2 * length d + 4 \<and>
    (\<forall>dst2 g. path_build2 dd dst dst2 = Some (e, g) \<longrightarrow> writable g w1 \<longrightarrow> resolve g \<noteq> resolve (g_log_path w) \<longrightarrow>
       length z \<le> MAX_FILE_SIZE \<longrightarrow>
       (\<exists>w2. op_decompress dd c2 dst dst2 w1 = Some (0, w2) \<and> outp w2 = outp w1 @ ''+OK'' @ CRLF \<and> has_file g w2 d))"
proof -
  let ?z = "rle_header @ rle_pairs d"
  have f: "free_locks False w" using assms(6) by (simp add: free_locks_def)
  obtain w1 where 1: "op_compress dd c1 src dst w = Some (0, w1)" "done_with (''+OK'' @ CRLF) w (0, w1)" "has_file e w1 ?z"
    using op_compress_ok [OF assms(1-5) f assms(7), of c1] by (auto simp: outcome_iff done_with_def)
  have f1: "free_locks False w1" using 1(2) assms(6) by (auto simp: free_locks_def done_with_def fun_eq_iff)
  have o1: "oks w1" "g_log_path w1 = g_log_path w" using 1(2) coreL_log_path [of w1 w] by (simp_all add: done_with_def)
  have "\<exists>w2. op_decompress dd c2 dst dst2 w1 = Some (0, w2) \<and> outp w2 = outp w1 @ ''+OK'' @ CRLF \<and> has_file g w2 d"
    if "path_build2 dd dst dst2 = Some (e, g)" "writable g w1" "resolve g \<noteq> resolve (g_log_path w)" "length ?z \<le> MAX_FILE_SIZE" for dst2 g
    using op_decompress_ok [OF that(1) o1(1) 1(3) that(4) assms(4) that(2) f1, of c2] that(3) o1(2)
    by (auto simp: outcome_iff done_with_def)
  moreover have "length ?z \<le> 2 * length d + 4" using length_rle_pairs [of d] by (simp add: rle_header_def)
  ultimately show ?thesis using 1 by (intro exI [of _ w1] exI [of _ ?z]) (auto simp: done_with_def)
qed

text \<open>A file in place can be written again.\<close>

lemma has_file_writable:
  assumes "has_file s w c" "length s < PATH_MAX" "resolve s = dirpart s @ [n]"
  shows "writable s w"
proof -
  have "node_at (fs w) (take k (dirpart s)) = Some Dir" if "k \<le> length (dirpart s)" for k
    using assms(1,3) that by (auto simp: has_file_def walk_err_None_iff le_imp_less_Suc dest: spec [of _ k])
  then show ?thesis using assms by (auto simp: writable_def has_file_def no_files_def)
qed

lemma demo_pack_facts:
  "path_build2 ''d'' ''g'' ''g'' = Some (''d/g'', ''d/g'')" "resolve ''d/g'' = dirpart ''d/g'' @ [''g'']"
  by (simp_all add: path_build2_def path_build_def is_path_safe_def snprintf_def PATH_MAX_def resolve_def dirpart_def)

theorem compress_then_decompress_witness:
  "\<exists>w1 w2. op_compress ''d'' ''c'' ''f'' ''g'' demo_file = Some (0, w1) \<and> op_decompress ''d'' ''c'' ''g'' ''g'' w1 = Some (0, w2) \<and>
     has_file ''d/g'' w2 ''hello''"
proof -
  have l: "length ''hello'' \<le> MAX_FILE_SIZE" by (simp add: MAX_FILE_SIZE_def)
  obtain w1 z where 1: "op_compress ''d'' ''c'' ''f'' ''g'' demo_file = Some (0, w1)" "has_file ''d/g'' w1 z" "length z \<le> 2 * length ''hello'' + 4"
    and 2: "\<forall>dst2 g. path_build2 ''d'' ''g'' dst2 = Some (''d/g'', g) \<longrightarrow> writable g w1 \<longrightarrow>
       resolve g \<noteq> resolve (g_log_path demo_file) \<longrightarrow> length z \<le> MAX_FILE_SIZE \<longrightarrow>
       (\<exists>w2. op_decompress ''d'' ''c'' ''g'' dst2 w1 = Some (0, w2) \<and> outp w2 = outp w1 @ ''+OK'' @ CRLF \<and> has_file g w2 ''hello'')"
    using compress_then_decompress [OF demo_copy_facts(1) demo_file_facts(1,4) l demo_copy_facts(2) demo_file_facts(2) demo_copy_facts(5), of "''c''" "''c''"]
    by blast
  have "writable ''d/g'' w1" using has_file_writable [OF 1(2) _ demo_pack_facts(2)] by (simp add: PATH_MAX_def)
  moreover have "length z \<le> MAX_FILE_SIZE" using 1(3) by (simp add: MAX_FILE_SIZE_def)
  ultimately show ?thesis using 1 2 demo_pack_facts(1) demo_copy_facts(5) by blast
qed

section \<open>Renaming\<close>

lemma parents_keep:
  assumes "path_ensure_parent_dirs s w = (r, w')" "has_file t w d"
  shows "has_file t w' d"
proof -
  have "node_at (fs w') q = node_at (fs w) q" if "node_at (fs w) q \<noteq> None" for q
    using parents_fs [OF assms(1), of q] that by (auto simp: node_at_def)
  then show ?thesis using assms(2) by (auto simp: has_file_def walk_err_None_iff)
qed

lemma rename_moves:
  assumes "oks w" "has_file s w d" "walk_err (fs w) (resolve t) = None" "node_at (fs w) (resolve t) \<noteq> Some Dir" "t \<noteq> []"
    "\<not> wants_dir t" "resolve s \<noteq> resolve t" "rename s t w = (r, w')"
  shows "r = 0 \<and> oks w' \<and> has_file t w' d \<and> gone s w'"
proof -
  obtain a w1 where p: "popc w = (a, w1)" by (cases "popc w")
  have a: "\<And>e. a \<noteq> Fail e" "fs w1 = fs w" "oks w1" using popc_frame [OF p] popc_quiet [OF p] assms(1) by (simp_all add: oks_def quiet_def)
  have r: "r = 0" "w' = w1\<lparr>fs := (fs w)(resolve s := None, resolve t \<mapsto> File d)\<rparr>"
    using assms p a by (auto simp: rename_def Let_def answer_ok has_file_def split: if_splits)
  have dir: "node_at (fs w') q = Some Dir" if "node_at (fs w) q = Some Dir" for q
    using that assms(2,4) r(2) by (auto simp: node_at_def has_file_def split: if_splits)
  have ne: "resolve s \<noteq> []" "resolve s \<noteq> [''/'']" "resolve t \<noteq> []" "resolve t \<noteq> [''/'']"
    using assms(2,4) by (auto simp: has_file_def node_at_def split: if_splits)
  have "oks w'" using a(3) r(2) by (simp add: oks_def xfer_ok_def ctl_ok_def)
  then show ?thesis using r dir ne assms by (auto simp: has_file_def gone_def walk_err_None_iff node_at_def)
qed

lemma step_move:
  assumes "has_file s w d" "writable t w" "resolve s \<noteq> resolve t" "fs w1 = fs w" "oks w1"
    "\<And>p. below (resolve s) p \<or> below (resolve t) p \<Longrightarrow> P p"
    "\<And>w2. calm P w1 w2 \<Longrightarrow> has_file t w2 d \<and> gone s w2 \<Longrightarrow> outcome b (f w2) Q"
  shows "outcome b (case path_ensure_parent_dirs t w1 of (r, w) \<Rightarrow>
      if r \<noteq> 0 then X r w else case rename s t w of (r, w) \<Rightarrow> if r \<noteq> 0 then Y r w else f w) Q"
proof -
  obtain r v where p: "path_ensure_parent_dirs t w1 = (r, v)" by (cases "path_ensure_parent_dirs t w1")
  obtain r' w2 where q: "rename s t v = (r', w2)" by (cases "rename s t v")
  have wr: "writable t w1" "has_file s w1 d" using assms(1,2) writable_fs [OF assms(4)] has_file_fs [OF assms(4)] by simp_all
  note pw = parents_writable [OF assms(5) wr(1) p]
  have "node_at (fs v) (resolve t) \<noteq> Some Dir"
    using pw(4) wr(1) node_at_cong [of "fs v" "resolve t" "fs w1"] by (simp add: writable_def)
  then have "r' = 0 \<and> oks w2 \<and> has_file t w2 d \<and> gone s w2"
    using rename_moves [OF pw(2) parents_keep [OF p wr(2)] pw(3) _ _ _ assms(3) q] wr(1) by (simp add: writable_def)
  then show ?thesis
    using p q pw(1) parents_calm [OF p, of P] rename_calm [where P = P, OF assms(6) q] assms(7) [of w2] calm_trans [of P w1 v w2] by simp
qed

lemma op_renamefile_ok:
  assumes "path_build2 dd src dst = Some (a, e)" "oks w" "has_file a w d" "writable e w" "resolve a \<noteq> resolve e" "free_locks b w"
    "resolve a \<noteq> resolve (g_log_path w)" "resolve e \<noteq> resolve (g_log_path w)"
  shows "outcome b (op_renamefile dd c src dst w) (\<lambda>(r, w'). done_with (''+OK'' @ CRLF) w (r, w') \<and> has_file e w' d \<and> gone a w')"
proof -
  let ?P = "\<lambda>p. below (resolve a) p \<or> below (resolve e) p"
  show ?thesis
    unfolding op_renamefile_def assms(1) option.case prod.case
    by (intro step_acquire_two [where P = ?P] get_steps assms(6) step_move [OF assms(3-5), where P = ?P]
        finish_two_ok [where P = ?P and K = "\<lambda>v. has_file e v d \<and> gone a v"])
      (use assms(2,7,8) in \<open>auto simp: locked_facts intro: keep_file keep_gone gone_fs has_file_fs [THEN iffD2]\<close>)
qed

text \<open>
  (C21) \<open>RENAMEFILE\<close> moves a file: it replies \<open>+OK\<close>, the destination has the source's content whether or not it
  existed before, and the source is gone, so that \<open>GETFILE\<close> of it replies with the null string.
\<close>

theorem rename_then_get:
  assumes "path_build2 dd src dst = Some (a, e)" "oks w" "has_file a w d" "writable e w" "resolve a \<noteq> resolve e"
    "\<And>q. rw_get q w = rw_free" "resolve a \<noteq> resolve (g_log_path w)" "resolve e \<noteq> resolve (g_log_path w)"
  shows "\<exists>w1 w2. op_renamefile dd c1 src dst w = Some (0, w1) \<and> outp w1 = outp w @ ''+OK'' @ CRLF \<and> has_file e w1 d \<and>
    op_getfile dd c2 src w1 = Some (0, w2) \<and> outp w2 = outp w1 @ ''$-1'' @ CRLF"
proof -
  have f: "free_locks False w" using assms(6) by (simp add: free_locks_def)
  obtain w1 where 1: "op_renamefile dd c1 src dst w = Some (0, w1)" "done_with (''+OK'' @ CRLF) w (0, w1)" "has_file e w1 d" "gone a w1"
    using op_renamefile_ok [OF assms(1-5) f assms(7,8), of c1] by (auto simp: outcome_iff done_with_def)
  have f1: "free_locks False w1" using 1(2) assms(6) by (auto simp: free_locks_def done_with_def fun_eq_iff)
  have o1: "oks w1" using 1(2) by (simp add: done_with_def)
  have "path_build dd src PATH_MAX = Some a" using assms(1) by (auto simp: path_build2_def split: option.splits)
  then obtain w2 where "op_getfile dd c2 src w1 = Some (0, w2)" "outp w2 = outp w1 @ ''$-1'' @ CRLF"
    using op_getfile_missing [OF _ o1 gone_no_such [OF 1(4)] f1, of dd src c2] by (auto simp: outcome_iff done_with_def)
  then show ?thesis using 1 by (auto simp: done_with_def)
qed

theorem rename_then_get_witness:
  "\<exists>w1. op_renamefile ''d'' ''c'' ''f'' ''g'' demo_file = Some (0, w1) \<and> has_file ''d/g'' w1 ''hello''"
  using rename_then_get [OF demo_copy_facts(1) demo_file_facts(1,4) demo_copy_facts(2,7) demo_file_facts(2,5) demo_copy_facts(5), of "''c''" "''c''"]
  by blast

section \<open>The tail of the log\<close>






end
