(* ===== verification/KString.thy ===== *)
theory KString
  imports Prelude
begin

text \<open>
  The kernel's byte memory and the routines of \<open>kernel/string.c\<close> on it.  Memory is a function from
  64-bit addresses to octets; the loops of the C code are recursions on the remaining count, in the
  order in which the code reads and writes.  \<open>ld64\<close> and \<open>st64\<close> are the little-endian double-word
  accesses that the compiler emits for \<open>uint64\<close> objects such as page-table entries and trapframe
  registers, \<open>ld32\<close> and \<open>st32\<close> those for \<open>int\<close> objects.

  The lemmas characterise each routine as one simultaneous update: \<open>memset\<close> and \<open>memmove\<close> change
  exactly \<open>n\<close> bytes, \<open>memmove\<close> copies the old content even when the regions overlap, the string
  copies stay within their limit and terminate the result.
\<close>

unbundle bit_operations_syntax

type_synonym addr = "64 word"
type_synonym byte = "8 word"
type_synonym mem = "addr \<Rightarrow> byte"

section \<open>\<open>kernel/string.c\<close>\<close>

primrec memset :: "mem \<Rightarrow> addr \<Rightarrow> byte \<Rightarrow> nat \<Rightarrow> mem" where
  "memset m dst c 0 = m"
| "memset m dst c (Suc n) = (memset m dst c n)(dst + of_nat n := c)"

fun memcmp :: "mem \<Rightarrow> addr \<Rightarrow> addr \<Rightarrow> nat \<Rightarrow> int" where
  "memcmp m s1 s2 0 = 0"
| "memcmp m s1 s2 (Suc n) =
     (if m s1 \<noteq> m s2 then uint (m s1) - uint (m s2) else memcmp m (s1 + 1) (s2 + 1) n)"

fun copy_up :: "mem \<Rightarrow> addr \<Rightarrow> addr \<Rightarrow> nat \<Rightarrow> mem" where
  "copy_up m d s 0 = m"
| "copy_up m d s (Suc n) = copy_up (m(d := m s)) (d + 1) (s + 1) n"

fun copy_down :: "mem \<Rightarrow> addr \<Rightarrow> addr \<Rightarrow> nat \<Rightarrow> mem" where
  "copy_down m d s 0 = m"
| "copy_down m d s (Suc n) = copy_down (m(d - 1 := m (s - 1))) (d - 1) (s - 1) n"

definition memmove :: "mem \<Rightarrow> addr \<Rightarrow> addr \<Rightarrow> nat \<Rightarrow> mem" where
  "memmove m dst src n =
     (if n = 0 then m
      else if src < dst \<and> src + of_nat n > dst then copy_down m (dst + of_nat n) (src + of_nat n) n
      else copy_up m dst src n)"

fun strncmp :: "mem \<Rightarrow> addr \<Rightarrow> addr \<Rightarrow> nat \<Rightarrow> int" where
  "strncmp m p q 0 = 0"
| "strncmp m p q (Suc n) =
     (if m p \<noteq> 0 \<and> m p = m q then strncmp m (p + 1) (q + 1) n else uint (m p) - uint (m q))"

fun strncpy :: "mem \<Rightarrow> addr \<Rightarrow> addr \<Rightarrow> nat \<Rightarrow> mem" where
  "strncpy m s t 0 = m"
| "strncpy m s t (Suc n) =
     (let c = m t; m = m(s := c) in if c \<noteq> 0 then strncpy m (s + 1) (t + 1) n else memset m (s + 1) 0 n)"

text \<open>The loop of \<open>safestrcpy\<close> after its \<open>--n\<close>, with the final \<open>*s = 0\<close>.\<close>

fun safestrcpy_loop :: "mem \<Rightarrow> addr \<Rightarrow> addr \<Rightarrow> nat \<Rightarrow> mem" where
  "safestrcpy_loop m s t 0 = m(s := 0)"
| "safestrcpy_loop m s t (Suc n) =
     (let c = m t; m = m(s := c) in if c \<noteq> 0 then safestrcpy_loop m (s + 1) (t + 1) n else m(s + 1 := 0))"

definition safestrcpy :: "mem \<Rightarrow> addr \<Rightarrow> addr \<Rightarrow> int \<Rightarrow> mem" where
  "safestrcpy m s t n = (if n \<le> 0 then m else safestrcpy_loop m s t (nat n - 1))"

partial_function (option) strlen_loop :: "mem \<Rightarrow> addr \<Rightarrow> nat \<Rightarrow> nat option" where
  "strlen_loop m s n = (if m (s + of_nat n) = 0 then Some n else strlen_loop m s (n + 1))"

definition strlen :: "mem \<Rightarrow> addr \<Rightarrow> nat option" where
  "strlen m s = strlen_loop m s 0"

section \<open>Words in memory\<close>

definition ld64 :: "mem \<Rightarrow> addr \<Rightarrow> 64 word" where
  "ld64 m a = ucast (m a) OR push_bit 8 (ucast (m (a + 1))) OR push_bit 16 (ucast (m (a + 2))) OR
     push_bit 24 (ucast (m (a + 3))) OR push_bit 32 (ucast (m (a + 4))) OR push_bit 40 (ucast (m (a + 5))) OR
     push_bit 48 (ucast (m (a + 6))) OR push_bit 56 (ucast (m (a + 7)))"

definition st64 :: "mem \<Rightarrow> addr \<Rightarrow> 64 word \<Rightarrow> mem" where
  "st64 m a v = (\<lambda>x. if unat (x - a) < 8 then ucast (drop_bit (8 * unat (x - a)) v) else m x)"

definition st32 :: "mem \<Rightarrow> addr \<Rightarrow> 32 word \<Rightarrow> mem" where
  "st32 m a v = (\<lambda>x. if unat (x - a) < 4 then ucast (drop_bit (8 * unat (x - a)) v) else m x)"

lemma ld64_st64 [simp]: "ld64 (st64 m a v) a = v"
proof (rule bit_eqI)
  fix n assume "possible_bit TYPE(64 word) n"
  then have "n < 64" by simp
  define j where "j = n mod 8"
  have j: "j < 8" by (simp add: j_def)
  have "n div 8 < 8" using \<open>n < 64\<close> by simp
  then consider "n div 8 = 0" | "n div 8 = 1" | "n div 8 = 2" | "n div 8 = 3" | "n div 8 = 4" | "n div 8 = 5" | "n div 8 = 6" | "n div 8 = 7"
    by linarith
  moreover have "n = j + 8 * (n div 8)" by (simp add: j_def)
  ultimately consider "n = j" | "n = 8 + j" | "n = 16 + j" | "n = 24 + j" | "n = 32 + j" | "n = 40 + j" | "n = 48 + j" | "n = 56 + j"
    by cases auto
  then show "bit (ld64 (st64 m a v) a) n = bit v n"
    using j by cases (simp_all add: ld64_def st64_def bit_simps)
qed

text \<open>A double word depends on its eight bytes only.\<close>

lemma ld64_cong: "(\<And>k. k < 8 \<Longrightarrow> m' (a + of_nat k) = m (a + of_nat k)) \<Longrightarrow> ld64 m' a = ld64 m a"
proof -
  assume h: "\<And>k. k < 8 \<Longrightarrow> m' (a + of_nat k) = m (a + of_nat k)"
  have "m' a = m a" "m' (a + 1) = m (a + 1)" "m' (a + 2) = m (a + 2)" "m' (a + 3) = m (a + 3)" "m' (a + 4) = m (a + 4)"
    "m' (a + 5) = m (a + 5)" "m' (a + 6) = m (a + 6)" "m' (a + 7) = m (a + 7)"
    using h [of 0] h [of 1] h [of 2] h [of 3] h [of 4] h [of 5] h [of 6] h [of 7] by simp_all
  then show ?thesis by (simp add: ld64_def)
qed

section \<open>The routines as single updates\<close>

lemma unat_less_64: "unat (x :: 64 word) < 2 ^ 64"
  using unsigned_less [of x, where 'a = nat] by simp

lemma unat_of_nat_64 [simp]: "n < 2 ^ 64 \<Longrightarrow> unat (of_nat n :: 64 word) = n"
  by (simp add: unat_of_nat)

lemma offset_eq: "n < 2 ^ 64 \<Longrightarrow> a = d + of_nat n \<longleftrightarrow> unat (a - d) = n" for a d :: addr
proof -
  assume n: "n < 2 ^ 64"
  have "a = d + of_nat n \<longleftrightarrow> a - d = of_nat n" by (auto simp: algebra_simps)
  also have "\<dots> \<longleftrightarrow> unat (a - d) = n" using n by (simp add: word_unat_eq_iff)
  finally show ?thesis .
qed

lemma memset_eq: "n \<le> 2 ^ 64 \<Longrightarrow> memset m d c n = (\<lambda>a. if unat (a - d) < n then c else m a)"
proof (induction n)
  case (Suc n)
  then show ?case using offset_eq [of n _ d] by (auto simp: fun_eq_iff less_Suc_eq)
qed simp

lemma unat_diff_1: "a \<noteq> d \<Longrightarrow> unat (a - (d + 1)) = unat (a - d) - 1" for a d :: addr
  by (metis (no_types, lifting) diff_diff_eq right_minus_eq unat_minus_one)

lemma copy_up_eq:
  assumes "n \<le> 2 ^ 64 - 1" "d = s \<or> n \<le> unat (d - s)"
  shows "copy_up m d s n = (\<lambda>a. if unat (a - d) < n then m (s + (a - d)) else m a)"
  using assms
proof (induction n arbitrary: m d s)
  case (Suc n)
  let ?m = "m(d := m s)"
  have "copy_up m d s (Suc n) = (\<lambda>a. if unat (a - (d + 1)) < n then ?m (s + 1 + (a - (d + 1))) else ?m a)"
    unfolding copy_up.simps by (rule Suc.IH) (use Suc.prems in auto)
  also have "\<dots> = (\<lambda>a. if unat (a - d) < Suc n then m (s + (a - d)) else m a)"
  proof
    fix a
    show "(if unat (a - (d + 1)) < n then ?m (s + 1 + (a - (d + 1))) else ?m a) =
      (if unat (a - d) < Suc n then m (s + (a - d)) else m a)"
    proof (cases "a = d")
      case True
      then show ?thesis using Suc.prems(1) by simp
    next
      case False
      have nz: "unat (a - d) \<noteq> 0" using False by (simp add: unat_eq_0)
      have "unat (a - d) = unat (d - s)" if "s + (a - d) = d" using that by (metis add_diff_cancel_left')
      then have "s + (a - d) \<noteq> d" if "unat (a - d) < Suc n" using that Suc.prems(2) False by auto
      then show ?thesis using unat_diff_1 [OF False] nz False by auto
    qed
  qed
  finally show ?case .
qed simp

lemma diff_swap: "s + u = d + k \<Longrightarrow> s - d = k - u" for s u d k :: "'a :: ab_group_add"
  by (simp add: algebra_simps)

lemma copy_down_eq:
  assumes "n \<le> 2 ^ 64 - 1" "d = s \<or> n \<le> unat (s - d)"
  shows "copy_down m (d + of_nat n) (s + of_nat n) n = (\<lambda>a. if unat (a - d) < n then m (s + (a - d)) else m a)"
  using assms
proof (induction n arbitrary: m)
  case (Suc n)
  let ?m = "m(d + of_nat n := m (s + of_nat n))"
  have e: "d + of_nat (Suc n) - 1 = d + of_nat n" "s + of_nat (Suc n) - 1 = s + of_nat n" by simp_all
  have "copy_down m (d + of_nat (Suc n)) (s + of_nat (Suc n)) (Suc n) =
      (\<lambda>a. if unat (a - d) < n then ?m (s + (a - d)) else ?m a)"
    unfolding copy_down.simps e by (rule Suc.IH) (use Suc.prems in auto)
  also have "\<dots> = (\<lambda>a. if unat (a - d) < Suc n then m (s + (a - d)) else m a)"
  proof
    fix a
    have n: "n < 2 ^ 64" using Suc.prems(1) by simp
    note off = offset_eq [OF n]
    show "(if unat (a - d) < n then ?m (s + (a - d)) else ?m a) = (if unat (a - d) < Suc n then m (s + (a - d)) else m a)"
    proof (cases "unat (a - d) < n")
      case True
      have "s + (a - d) \<noteq> d + of_nat n"
      proof
        assume "s + (a - d) = d + of_nat n"
        then have x: "s - d = of_nat n - (a - d)" by (rule diff_swap)
        have "a - d \<le> of_nat n" using True n by (simp add: word_le_nat_alt)
        then have "unat (s - d) = n - unat (a - d)" unfolding x using n by (simp add: unat_sub)
        then show False using Suc.prems(2) True by auto
      qed
      then show ?thesis using True by simp
    next
      case False
      then show ?thesis using off [of a d] by auto
    qed
  qed
  finally show ?case .
qed simp

lemma memmove_eq:
  assumes "unat s + n \<le> 2 ^ 64 - 1" "unat d + n \<le> 2 ^ 64 - 1"
  shows "memmove m d s n = (\<lambda>a. if unat (a - d) < n then m (s + (a - d)) else m a)"
proof -
  have n: "n \<le> 2 ^ 64 - 1" "unat (of_nat n :: addr) = n" using assms by simp_all
  have sn: "unat (s + of_nat n) = unat s + n" using assms(1) n(2) by (subst unat_plus_if') simp
  show ?thesis
  proof (cases "s < d \<and> s + of_nat n > d")
    case True
    then have "n \<le> unat (s - d)" using assms by (simp add: word_less_nat_alt unat_sub_if')
    with True show ?thesis using copy_down_eq [OF n(1), of d s m] by (simp add: memmove_def)
  next
    case False
    then have "unat d \<le> unat s \<or> unat s + n \<le> unat d" using sn by (simp add: word_less_nat_alt) linarith
    then have "d = s \<or> n \<le> unat (d - s)"
      using assms word_unat_eq_iff [of d s] by (auto simp: unat_sub_if')
    then show ?thesis using copy_up_eq [OF n(1), of d s m] False by (auto simp: memmove_def)
  qed
qed

text \<open>
  (C39) \<open>memmove\<close> copies the bytes the source region held before the call, to the destination and nowhere
  else, also when the two regions overlap in either direction: the direction of the copy is chosen
  such that no byte is overwritten before it is read.
\<close>

theorem memmove_copies:
  assumes "unat src + n \<le> 2 ^ 64 - 1" "unat dst + n \<le> 2 ^ 64 - 1"
  shows "(\<forall>i<n. memmove m dst src n (dst + of_nat i) = m (src + of_nat i)) \<and>
    (\<forall>a. (\<forall>i<n. a \<noteq> dst + of_nat i) \<longrightarrow> memmove m dst src n a = m a)"
proof -
  have "a = dst + of_nat (unat (a - dst))" for a by simp
  then show ?thesis unfolding memmove_eq [OF assms] using assms(1) by auto
qed

theorem memmove_copies_witness:
  "memmove ((\<lambda>_. 0)(100 := 1, 101 := 2, 102 := 3)) 101 100 3 102 = 2"
  using memmove_copies [of 100 3 101 "(\<lambda>_. 0)(100 := 1, 101 := 2, 102 := 3)"]
  by (auto dest!: spec [of _ 1])

section \<open>String copies\<close>

text \<open>Apart: no byte of the first region is one of the second.\<close>

definition apart :: "addr \<Rightarrow> nat \<Rightarrow> addr \<Rightarrow> nat \<Rightarrow> bool" where
  "apart s n t k \<longleftrightarrow> (\<forall>i<n. \<forall>j<k. s + of_nat i \<noteq> t + of_nat j)"

lemma apartI: "unat t + k \<le> unat s \<Longrightarrow> unat s + n \<le> 2 ^ 64 \<Longrightarrow> apart s n t k"
  by (auto simp: apart_def word_unat_eq_iff unat_plus_if')

lemma apart_step:
  assumes "apart s (Suc n) t (Suc k)"
  shows "apart (s + 1) n (t + 1) k"
  unfolding apart_def
proof (intro allI impI)
  fix i j assume "i < n" "j < k"
  then have "s + of_nat (Suc i) \<noteq> t + of_nat (Suc j)" using assms unfolding apart_def by blast
  then show "s + 1 + of_nat i \<noteq> t + 1 + of_nat j" by (simp add: add.assoc)
qed

lemma shift_of_nat: "(a :: addr) + 1 + of_nat i = a + of_nat (Suc i)"
  by (simp add: add.assoc)

lemma safestrcpy_loop_spec:
  assumes "apart s (Suc n) t n" "n < 2 ^ 64 - 1"
  shows "\<exists>k\<le>n. safestrcpy_loop m s t n (s + of_nat k) = 0 \<and>
     (\<forall>i<k. safestrcpy_loop m s t n (s + of_nat i) = m (t + of_nat i) \<and> m (t + of_nat i) \<noteq> 0) \<and>
     (k < n \<longrightarrow> m (t + of_nat k) = 0) \<and> (\<forall>a. n < unat (a - s) \<longrightarrow> safestrcpy_loop m s t n a = m a)"
  using assms
proof (induction n arbitrary: m s t)
  case (Suc n)
  let ?m = "m(s := m t)"
  have st: "s + of_nat 0 \<noteq> t + of_nat j" if "j < Suc n" for j using Suc.prems(1) that unfolding apart_def by blast
  show ?case
  proof (cases "m t = 0")
    case True
    have "s + 1 \<noteq> s" by simp
    moreover have "a \<noteq> s \<and> a \<noteq> s + 1" if "Suc n < unat (a - s)" for a using that by auto
    ultimately show ?thesis using True by (intro exI [of _ 0]) auto
  next
    case False
    have n': "n < 2 ^ 64 - 1" using Suc.prems(2) by simp
    obtain k where k: "k \<le> n" "safestrcpy_loop ?m (s + 1) (t + 1) n (s + 1 + of_nat k) = 0"
      "\<And>i. i < k \<Longrightarrow> safestrcpy_loop ?m (s + 1) (t + 1) n (s + 1 + of_nat i) = ?m (t + 1 + of_nat i) \<and> ?m (t + 1 + of_nat i) \<noteq> 0"
      "k < n \<Longrightarrow> ?m (t + 1 + of_nat k) = 0"
      "\<And>a. n < unat (a - (s + 1)) \<Longrightarrow> safestrcpy_loop ?m (s + 1) (t + 1) n a = ?m a"
      using Suc.IH [OF apart_step [OF Suc.prems(1)] n', of ?m] by blast
    have mt: "?m (t + of_nat j) = m (t + of_nat j)" if "j < Suc n" for j using st [OF that] by auto
    have s0: "unat (s - (s + 1)) = 2 ^ 64 - 1" by (simp add: unsigned_minus_1_eq_mask mask_eq_exp_minus_1)
    have r: "safestrcpy_loop m s t (Suc n) = safestrcpy_loop ?m (s + 1) (t + 1) n" using False by simp
    have "safestrcpy_loop m s t (Suc n) (s + of_nat i) = m (t + of_nat i) \<and> m (t + of_nat i) \<noteq> 0" if "i < Suc k" for i
    proof (cases i)
      case 0
      then show ?thesis using k(5) [of s] s0 Suc.prems(2) False unfolding r by simp
    next
      case (Suc j)
      then show ?thesis using k(3) [of j] that mt [of i] k(1) unfolding r Suc shift_of_nat by simp
    qed
    moreover have "safestrcpy_loop m s t (Suc n) a = m a" if "Suc n < unat (a - s)" for a
    proof -
      have "a \<noteq> s" using that by auto
      then show ?thesis using k(5) [of a] that unat_diff_1 [of a s] unfolding r by simp
    qed
    moreover have "m (t + of_nat (Suc k)) = 0" if "Suc k < Suc n"
      using k(4) that mt [of "Suc k"] unfolding shift_of_nat by simp
    ultimately show ?thesis using k(1,2) unfolding r shift_of_nat by (intro exI [of _ "Suc k"]) simp
  qed
qed (auto intro!: exI [of _ 0])

text \<open>
  (C40) \<open>safestrcpy\<close> into a buffer of \<open>n > 0\<close> bytes always leaves a terminated string there: the longest
  prefix of the source string that fits, its full text when it is shorter than the buffer, and no
  byte outside the buffer changes.
\<close>

theorem safestrcpy_terminates_string:
  assumes "apart s n t n" "0 < n" "n < 2 ^ 64"
  shows "\<exists>k<n. safestrcpy m s t (int n) (s + of_nat k) = 0 \<and>
     (\<forall>i<k. safestrcpy m s t (int n) (s + of_nat i) = m (t + of_nat i) \<and> m (t + of_nat i) \<noteq> 0) \<and>
     (k < n - 1 \<longrightarrow> m (t + of_nat k) = 0) \<and> (\<forall>a. n \<le> unat (a - s) \<longrightarrow> safestrcpy m s t (int n) a = m a)"
proof -
  obtain n' where n: "n = Suc n'" using assms(2) by (cases n) auto
  have "apart s (Suc n') t n'" using assms(1) n by (simp add: apart_def)
  moreover have "safestrcpy m s t (int n) = safestrcpy_loop m s t n'" using n by (simp add: safestrcpy_def nat_add_distrib)
  ultimately show ?thesis
    using safestrcpy_loop_spec [of s n' t m] assms(3) n by (simp add: less_Suc_eq_le Suc_le_eq)
qed

theorem safestrcpy_terminates_string_witness:
  "\<exists>k<4. safestrcpy ((\<lambda>_. 7)(100 := 65, 101 := 66, 102 := 0)) 200 100 4 (200 + of_nat k) = 0 \<and>
     safestrcpy ((\<lambda>_. 7)(100 := 65, 101 := 66, 102 := 0)) 200 100 4 204 = 7"
proof -
  have "apart 200 4 100 4" by (rule apartI) simp_all
  from safestrcpy_terminates_string [OF this, of "(\<lambda>_. 7)(100 := 65, 101 := 66, 102 := 0)"]
  show ?thesis by auto
qed

end
