(* ===== verification/Spinlock.thy ===== *)
theory Spinlock
  imports KString "HOL-Library.Multiset"
begin

text \<open>
  Spin locks and interrupt nesting (\<open>kernel/spinlock.c\<close>, with \<open>struct spinlock\<close> and \<open>struct cpu\<close>).

  The state \<open>sync\<close> holds every lock of the kernel, named by \<open>lockid\<close>, the per-CPU structures, the
  CPU that executes (\<open>tp\<close>) and its interrupt-enable bit.  A function returns \<open>None\<close> when it does not
  come back: \<open>panic\<close> loops for ever, and so does \<open>acquire\<close> on a lock that stays taken while no other
  CPU moves.

  The lemmas: an acquisition and a release, with a critical section between them that keeps the
  books, restore the lock, the nesting depth and the interrupt-enable bit; releases may come in any
  order.
\<close>

datatype lockid =
  Lpid | Lwait | Lproc nat | Lkmem | Lshm | Lmsgq | Lticks | Lftable | Litable | Llog | Lbcache
| Lbuf nat | Linode nat | Lpipe addr

record spinlock =
  lk_locked :: bool
  lk_cpu :: "nat option"

record cpu =
  c_proc :: "nat option"
  c_noff :: int
  c_intena :: bool

record sync =
  locks :: "lockid \<Rightarrow> spinlock"
  cpus :: "nat \<Rightarrow> cpu"
  tp :: nat
  sie :: bool

definition initlock :: "lockid \<Rightarrow> sync \<Rightarrow> sync" where
  "initlock lk y = y\<lparr>locks := (locks y)(lk := \<lparr>lk_locked = False, lk_cpu = None\<rparr>)\<rparr>"

definition cpuid :: "sync \<Rightarrow> nat" where
  "cpuid y = tp y"

definition mycpu :: "sync \<Rightarrow> cpu" where
  "mycpu y = cpus y (cpuid y)"

abbreviation set_mycpu :: "cpu \<Rightarrow> sync \<Rightarrow> sync" where
  "set_mycpu c y \<equiv> y\<lparr>cpus := (cpus y)(cpuid y := c)\<rparr>"

definition intr_get :: "sync \<Rightarrow> bool" where
  "intr_get y = sie y"

definition intr_on :: "sync \<Rightarrow> sync" where
  "intr_on y = y\<lparr>sie := True\<rparr>"

definition intr_off :: "sync \<Rightarrow> sync" where
  "intr_off y = y\<lparr>sie := False\<rparr>"

definition holding :: "lockid \<Rightarrow> sync \<Rightarrow> bool" where
  "holding lk y \<longleftrightarrow> lk_locked (locks y lk) \<and> lk_cpu (locks y lk) = Some (cpuid y)"

definition push_off :: "sync \<Rightarrow> sync" where
  "push_off y =
     (let old = intr_get y; y = intr_off y; c = mycpu y;
          c = (if c_noff c = 0 then c\<lparr>c_intena := old\<rparr> else c) in
      set_mycpu (c\<lparr>c_noff := c_noff c + 1\<rparr>) y)"

definition pop_off :: "sync \<Rightarrow> sync option" where
  "pop_off y =
     (let c = mycpu y in
      if intr_get y then None
      else if c_noff c < 1 then None
      else
        let c = c\<lparr>c_noff := c_noff c - 1\<rparr>; y = set_mycpu c y in
        Some (if c_noff c = 0 \<and> c_intena c then intr_on y else y))"

definition acquire :: "lockid \<Rightarrow> sync \<Rightarrow> sync option" where
  "acquire lk y =
     (let y = push_off y in
      if holding lk y then None
      else if lk_locked (locks y lk) then None
      else Some (y\<lparr>locks := (locks y)(lk := \<lparr>lk_locked = True, lk_cpu = Some (cpuid y)\<rparr>)\<rparr>))"

definition release :: "lockid \<Rightarrow> sync \<Rightarrow> sync option" where
  "release lk y =
     (if \<not> holding lk y then None
      else pop_off (y\<lparr>locks := (locks y)(lk := \<lparr>lk_locked = False, lk_cpu = None\<rparr>)\<rparr>))"

section \<open>Brackets\<close>

text \<open>
  \<open>lockd lk y\<close> is the state with the lock taken, \<open>settle y\<close> the state after a bracket: the saved
  interrupt flag is the only trace it leaves, and only at the outermost level.
\<close>

definition lockd :: "lockid \<Rightarrow> sync \<Rightarrow> sync" where
  "lockd lk y = (push_off y)\<lparr>locks := (locks y)(lk := \<lparr>lk_locked = True, lk_cpu = Some (tp y)\<rparr>)\<rparr>"

definition settle :: "sync \<Rightarrow> sync" where
  "settle y = (if c_noff (mycpu y) = 0 then set_mycpu ((mycpu y)\<lparr>c_intena := sie y\<rparr>) y else y)"

definition is_free :: "lockid \<Rightarrow> sync \<Rightarrow> bool" where
  "is_free lk y \<longleftrightarrow> locks y lk = \<lparr>lk_locked = False, lk_cpu = None\<rparr>"

definition sync_ok :: "sync \<Rightarrow> bool" where
  "sync_ok y \<longleftrightarrow> 0 \<le> c_noff (mycpu y) \<and> (0 < c_noff (mycpu y) \<longrightarrow> \<not> sie y)"

lemmas sync_defs = initlock_def cpuid_def mycpu_def intr_get_def intr_on_def intr_off_def holding_def push_off_def pop_off_def
  acquire_def release_def lockd_def settle_def is_free_def sync_ok_def Let_def

lemma acquire_free [simp]: "is_free lk y \<Longrightarrow> acquire lk y = Some (lockd lk y)"
  by (simp add: sync_defs)

lemma is_free_lockd [simp]: "is_free lk (lockd lk' y) \<longleftrightarrow> lk \<noteq> lk' \<and> is_free lk y"
  by (auto simp: sync_defs)

lemma is_free_settle [simp]: "is_free lk (settle y) = is_free lk y"
  by (simp add: sync_defs)

lemma sync_ok_lockd [simp]: "sync_ok y \<Longrightarrow> sync_ok (lockd lk y)"
  by (simp add: sync_defs)

lemma sync_ok_settle [simp]: "sync_ok (settle y) = sync_ok y"
  by (simp add: sync_defs)

lemma release_lockd [simp]: "sync_ok y \<Longrightarrow> is_free lk y \<Longrightarrow> release lk (lockd lk y) = Some (settle y)"
  by (auto simp: sync_defs fun_upd_idem)

lemma settle_lockd [simp]: "sync_ok y \<Longrightarrow> settle (lockd lk y) = lockd lk y"
  by (simp add: sync_defs)

lemma lockd_settle [simp]: "lockd lk (settle y) = lockd lk y"
  by (simp add: sync_defs)

lemma settle_settle [simp]: "settle (settle y) = settle y"
  by (simp add: sync_defs)

lemma release_swap [simp]: "sync_ok y \<Longrightarrow> is_free lk y \<Longrightarrow> lk \<noteq> lk' \<Longrightarrow> release lk (lockd lk' (lockd lk y)) = Some (lockd lk' y)"
  by (cases "c_noff (cpus y (tp y)) = 0"; simp add: sync_defs fun_upd_twist [of lk lk'] fun_upd_idem add.commute)

lemma holding_lockd [simp]: "holding lk (lockd lk y)" "is_free lk y \<Longrightarrow> lk \<noteq> lk' \<Longrightarrow> \<not> holding lk (lockd lk' y)"
  by (simp_all add: sync_defs)

lemma cpu_proc_simps [simp]: "c_proc (mycpu (lockd lk y)) = c_proc (mycpu y)" "c_proc (mycpu (settle y)) = c_proc (mycpu y)"
  "tp (lockd lk y) = tp y" "tp (settle y) = tp y"
  by (simp_all add: sync_defs)

lemma noff_simps [simp]: "c_noff (mycpu (lockd lk y)) = c_noff (mycpu y) + 1" "c_noff (mycpu (settle y)) = c_noff (mycpu y)"
  "sie (settle y) = sie y" "\<not> sie (lockd lk y)"
  by (simp_all add: sync_defs)

section \<open>Any nesting\<close>

lemma lockd_swap: "lk \<noteq> lk' \<Longrightarrow> lockd lk (lockd lk' y) = lockd lk' (lockd lk y)"
  by (cases "c_noff (cpus y (tp y)) = 0"; simp add: sync_defs fun_upd_twist [of lk lk'])

fun take_locks :: "lockid list \<Rightarrow> sync \<Rightarrow> sync option" where
  "take_locks [] y = Some y"
| "take_locks (lk # lks) y = Option.bind (acquire lk y) (take_locks lks)"

fun drop_locks :: "lockid list \<Rightarrow> sync \<Rightarrow> sync option" where
  "drop_locks [] y = Some y"
| "drop_locks (lk # lks) y = Option.bind (release lk y) (drop_locks lks)"

lemma take_locks_free: "distinct lks \<Longrightarrow> (\<And>lk. lk \<in> set lks \<Longrightarrow> is_free lk y) \<Longrightarrow> take_locks lks y = Some (fold lockd lks y)"
proof (induction lks arbitrary: y)
  case (Cons lk lks)
  have "take_locks lks (lockd lk y) = Some (fold lockd lks (lockd lk y))" using Cons by (intro Cons.IH) auto
  then show ?case using Cons.prems by simp
qed simp

lemma fold_lockd_push: "lk \<notin> set lks \<Longrightarrow> fold lockd lks (lockd lk y) = lockd lk (fold lockd lks y)"
  by (induction lks arbitrary: y) (auto simp: lockd_swap [of _ lk])

lemma fold_lockd_ok: "sync_ok y \<Longrightarrow> sync_ok (fold lockd lks y)"
  "lk \<notin> set lks \<Longrightarrow> is_free lk y \<Longrightarrow> is_free lk (fold lockd lks y)"
  by (induction lks arbitrary: y) auto

lemma fold_lockd_pull:
  assumes "distinct lks" "lk \<in> set lks"
  shows "fold lockd lks y = lockd lk (fold lockd (remove1 lk lks) y)"
  using assms
proof (induction lks arbitrary: y)
  case (Cons a lks)
  then show ?case by (auto simp: fold_lockd_push lockd_swap [of a lk])
qed simp

lemma drop_locks_any:
  assumes "sync_ok y" "distinct lks" "mset ms = mset lks" "\<And>lk. lk \<in> set lks \<Longrightarrow> is_free lk y" "lks \<noteq> []"
  shows "drop_locks ms (fold lockd lks y) = Some (settle y)"
  using assms
proof (induction ms arbitrary: lks)
  case (Cons m ms)
  have m: "m \<in> set lks" using Cons.prems(3) by (metis list.set_intros(1) set_mset_mset)
  let ?r = "remove1 m lks"
  have "m \<notin> set ?r" using Cons.prems(2) by simp
  then have "release m (fold lockd lks y) = Some (settle (fold lockd ?r y))"
    unfolding fold_lockd_pull [OF Cons.prems(2) m] using Cons.prems(1,4) m fold_lockd_ok by (intro release_lockd) auto
  moreover have "mset ms = mset ?r" using Cons.prems(3) by (metis add_mset_remove_trivial mset.simps(2) mset_remove1)
  moreover have "drop_locks ms (settle (fold lockd ?r y)) = Some (settle y)"
  proof (cases "?r = []")
    case True
    then show ?thesis using \<open>mset ms = mset ?r\<close> by simp
  next
    case False
    then obtain xs x where "?r = xs @ [x]" by (metis rev_exhaust)
    then have "settle (fold lockd ?r y) = fold lockd ?r y" using Cons.prems(1) fold_lockd_ok(1) by simp
    moreover have "drop_locks ms (fold lockd ?r y) = Some (settle y)"
      using Cons.prems False \<open>mset ms = mset ?r\<close> by (intro Cons.IH) (auto dest: notin_set_remove1)
    ultimately show ?thesis by simp
  qed
  ultimately show ?case by simp
qed simp

text \<open>
  (C38) Spin locks nest in any order: whichever distinct free locks a CPU takes one after the other, it may
  release them in every order, and then each of them is free, the nesting depth is what it was, and
  interrupts are enabled exactly if they were enabled at the start.  While it holds at least one,
  interrupts are off.
\<close>

theorem locks_nest:
  assumes "sync_ok y" "distinct lks" "mset ms = mset lks" "lks \<noteq> []" "\<forall>lk\<in>set lks. is_free lk y"
  shows "\<exists>y1 y2. take_locks lks y = Some y1 \<and> \<not> intr_get y1 \<and> drop_locks ms y1 = Some y2 \<and> locks y2 = locks y \<and>
    intr_get y2 = intr_get y \<and> c_noff (mycpu y2) = c_noff (mycpu y)"
proof -
  obtain xs x where "lks = xs @ [x]" using assms(4) by (metis rev_exhaust)
  then have "\<not> intr_get (fold lockd lks y)" by (simp add: intr_get_def)
  moreover have "locks (settle y) = locks y" by (simp add: settle_def)
  ultimately show ?thesis
    using take_locks_free [OF assms(2), of y] drop_locks_any [OF assms(1-3) _ assms(4)] assms(5) by (simp add: intr_get_def)
qed

definition sync0 :: sync where
  "sync0 = \<lparr>locks = \<lambda>_. \<lparr>lk_locked = False, lk_cpu = None\<rparr>, cpus = \<lambda>_. \<lparr>c_proc = None, c_noff = 0, c_intena = False\<rparr>, tp = 0, sie = True\<rparr>"

theorem locks_nest_witness:
  "\<exists>y1 y2. take_locks [Lwait, Lproc 3] sync0 = Some y1 \<and> \<not> intr_get y1 \<and> drop_locks [Lwait, Lproc 3] y1 = Some y2 \<and> intr_get y2"
  using locks_nest [of sync0 "[Lwait, Lproc 3]" "[Lwait, Lproc 3]"]
  by (auto simp: sync0_def sync_ok_def mycpu_def cpuid_def is_free_def intr_get_def)

end
