(* ===== verification/KState.thy ===== *)
theory KState
  imports Spinlock
begin

text \<open>
  The state of the kernel: one record with the global variables of the kernel's C files, the
  allocatable physical memory as bytes, and the disk.  Tables (\<open>proc[]\<close>, \<open>ftable\<close>, ...) are functions
  on their index or lists of their length; a pointer into a table is the index, a null pointer is
  \<open>None\<close>; objects that the code keeps in pages from \<open>kalloc\<close> (page tables, trapframes, user pages) are
  bytes of \<open>mem\<close> at their physical address, pipes are typed objects at theirs.

  A C function that runs in the kernel is a function on this state.  \<open>None\<close> means that it does not
  come back to its caller: it panics, or waits for a lock or a sleep lock that nobody releases
  meanwhile.  Functions that give up the processor in the middle are split there, see \<open>Sched\<close>.
\<close>

section \<open>Constants of \<open>param.h\<close>, \<open>riscv.h\<close> and \<open>memlayout.h\<close>\<close>

definition NPROC :: nat where "NPROC = 64"
definition NOFILE :: nat where "NOFILE = 16"
definition NFILE :: nat where "NFILE = 100"
definition NINODE :: nat where "NINODE = 50"
definition NDEV :: int where "NDEV = 10"
definition NBUF :: nat where "NBUF = 30"
definition LOGBLOCKS :: nat where "LOGBLOCKS = 30"
definition MAXOPBLOCKS :: nat where "MAXOPBLOCKS = 10"
definition BSIZE :: nat where "BSIZE = 1024"
definition NDIRECT :: nat where "NDIRECT = 12"
definition NINDIRECT :: nat where "NINDIRECT = BSIZE div 4"
definition MAXFILE :: nat where "MAXFILE = NDIRECT + NINDIRECT"
definition DIRSIZ :: nat where "DIRSIZ = 14"
definition IPB :: nat where "IPB = BSIZE div 64"
definition BPB :: nat where "BPB = BSIZE * 8"
definition NKMUTEX :: nat where "NKMUTEX = 16"
definition MAX_MSG :: nat where "MAX_MSG = 10"
definition MAX_Q :: nat where "MAX_Q = 10"
definition MAX_MSG_LEN :: nat where "MAX_MSG_LEN = 128"
definition MAX_SHM :: nat where "MAX_SHM = 8"
definition MAX_SHM_PG :: nat where "MAX_SHM_PG = 4"
definition MAX_SHM_SIZE :: nat where "MAX_SHM_SIZE = MAX_SHM_PG * 4096"

definition PGSIZE :: addr where "PGSIZE = 4096"
definition MAXVA :: addr where "MAXVA = push_bit (9 + 9 + 9 + 12 - 1) 1"
definition TRAMPOLINE :: addr where "TRAMPOLINE = MAXVA - PGSIZE"
definition TRAPFRAME :: addr where "TRAPFRAME = TRAMPOLINE - PGSIZE"
definition KERNBASE :: addr where "KERNBASE = 0x80000000"
definition PHYSTOP :: addr where "PHYSTOP = KERNBASE + 128 * 1024 * 1024"

definition KSTACK :: "nat \<Rightarrow> addr" where
  "KSTACK p = TRAMPOLINE - (of_nat p + 1) * 2 * PGSIZE"

definition PGROUNDUP :: "addr \<Rightarrow> addr" where
  "PGROUNDUP sz = (sz + PGSIZE - 1) AND NOT (PGSIZE - 1)"

definition PGROUNDDOWN :: "addr \<Rightarrow> addr" where
  "PGROUNDDOWN a = a AND NOT (PGSIZE - 1)"

section \<open>Objects\<close>

datatype procstate = UNUSED | USED | SLEEPING | RUNNABLE | RUNNING | ZOMBIE

text \<open>Sleep channels: the objects whose address the code passes to \<open>sleep\<close>.\<close>

datatype chan = Cproc nat | Cticks | Cmutex nat | Cpread addr | Cpwrite addr | Clog | Cbuf nat | Cinode nat

record kcontext =
  ctx_ra :: addr
  ctx_sp :: addr
  ctx_s :: "nat \<Rightarrow> addr"

record proc =
  p_state :: procstate
  p_chan :: "chan option"
  p_killed :: int
  p_frozen :: int
  p_xstate :: int
  p_pid :: int
  p_parent :: "nat option"
  p_kstack :: addr
  p_sz :: addr
  p_pagetable :: addr
  p_trapframe :: addr
  p_context :: kcontext
  p_ofile :: "nat \<Rightarrow> nat option"
  p_cwd :: "nat option"
  p_name :: string
  p_shm_va :: "nat \<Rightarrow> addr"

record kmutex_entry =
  mx_used :: bool
  mx_locked :: bool
  mx_owner_pid :: int

record message =
  m_type :: int
  m_data :: "nat \<Rightarrow> byte"
  m_len :: int
  m_valid :: bool

record msgqueue =
  q_key :: int
  q_used :: bool
  q_msg :: "message list"
  q_count :: int

record shmseg =
  sh_used :: bool
  sh_key :: int
  sh_size :: int
  sh_npages :: nat
  sh_pa :: "nat \<Rightarrow> addr"
  sh_refcount :: int

record pipe =
  pi_data :: "nat \<Rightarrow> byte"
  pi_nread :: "32 word"
  pi_nwrite :: "32 word"
  pi_readopen :: bool
  pi_writeopen :: bool

datatype ftype = FD_NONE | FD_PIPE | FD_INODE | FD_DEVICE

record kfile =
  f_type :: ftype
  f_ref :: int
  f_readable :: bool
  f_writable :: bool
  f_pipe :: addr
  f_ip :: "nat option"
  f_off :: "32 word"
  f_major :: int

record sleeplock =
  sl_locked :: bool
  sl_pid :: int

record inode =
  i_dev :: nat
  i_inum :: nat
  i_ref :: int
  i_lock :: sleeplock
  i_valid :: bool
  i_type :: int
  i_major :: int
  i_minor :: int
  i_nlink :: int
  i_size :: "32 word"
  i_addrs :: "nat \<Rightarrow> nat"

type_synonym block = "nat \<Rightarrow> byte"

record buf =
  b_valid :: bool
  b_dev :: nat
  b_blockno :: nat
  b_lock :: sleeplock
  b_refcnt :: int
  b_prev :: nat
  b_next :: nat
  b_data :: block

record klog =
  l_start :: nat
  l_outstanding :: int
  l_committing :: bool
  l_dev :: nat
  l_n :: int
  l_block :: "nat \<Rightarrow> nat"

record superblock =
  sb_magic :: nat
  sb_size :: nat
  sb_nblocks :: nat
  sb_ninodes :: nat
  sb_nlog :: nat
  sb_logstart :: nat
  sb_inodestart :: nat
  sb_bmapstart :: nat

record kstate =
  sync :: sync
  mem :: mem
  kend :: addr
  ktramp :: addr
  kforkret :: addr
  freelist :: addr
  procs :: "nat \<Rightarrow> proc"
  initproc :: "nat option"
  nextpid :: int
  ticks :: "32 word"
  kmutex_table :: "kmutex_entry list"
  msgq :: "msgqueue list"
  shmtable :: "nat \<Rightarrow> shmseg"
  ftable :: "nat \<Rightarrow> kfile"
  pipes :: "addr \<Rightarrow> pipe"
  itable :: "nat \<Rightarrow> inode"
  bcache :: "nat \<Rightarrow> buf"
  log :: klog
  sb :: superblock
  disk :: "nat \<Rightarrow> block"
  dhist :: "(nat \<times> block) list"
  kout :: string

text \<open>
  \<open>kend\<close>, \<open>ktramp\<close> and \<open>kforkret\<close> are the link-time addresses of the symbols \<open>end\<close>, \<open>trampoline\<close> and \<open>forkret\<close>.
\<close>

text \<open>\<open>dhist\<close> is the history of disk writes, oldest first; no code reads it.\<close>

section \<open>Locks of the state, the current process\<close>

definition acq :: "lockid \<Rightarrow> kstate \<Rightarrow> kstate option" where
  "acq lk s = map_option (\<lambda>y. s\<lparr>sync := y\<rparr>) (acquire lk (sync s))"

definition rel :: "lockid \<Rightarrow> kstate \<Rightarrow> kstate option" where
  "rel lk s = map_option (\<lambda>y. s\<lparr>sync := y\<rparr>) (release lk (sync s))"

text \<open>
  The current process; \<open>push_off\<close> and \<open>pop_off\<close> around the read are a bracket that only keeps the CPU
  from changing in between.  Dereferencing a null result is the \<open>None\<close> of the callers.
\<close>

definition myproc :: "kstate \<Rightarrow> nat option" where
  "myproc s = c_proc (mycpu (sync s))"

abbreviation curproc :: "kstate \<Rightarrow> nat" where
  "curproc s \<equiv> the (myproc s)"

definition upd_proc :: "nat \<Rightarrow> (proc \<Rightarrow> proc) \<Rightarrow> kstate \<Rightarrow> kstate" where
  "upd_proc i f s = s\<lparr>procs := (procs s)(i := f (procs s i))\<rparr>"

lemma acq_free [simp]: "is_free lk (sync s) \<Longrightarrow> acq lk s = Some (s\<lparr>sync := lockd lk (sync s)\<rparr>)"
  by (simp add: acq_def)

lemma upd_proc_simps [simp]: "procs (upd_proc i f s) = (procs s)(i := f (procs s i))" "sync (upd_proc i f s) = sync s"
  "mem (upd_proc i f s) = mem s" "myproc (upd_proc i f s) = myproc s" "upd_proc i f (s\<lparr>sync := y\<rparr>) = (upd_proc i f s)\<lparr>sync := y\<rparr>"
  by (simp_all add: upd_proc_def myproc_def)

end
