(* ===== verification/Kalloc.thy ===== *)
theory Kalloc
  imports KState
begin

text \<open>
  The physical page allocator (\<open>kernel/kalloc.c\<close>).  The free list is the linked list the code builds
  inside the free pages: \<open>freelist\<close> is the address of its first page and the first double word of a
  free page is the address of the next one.

  The lemmas show that this list implements a stack of page addresses (\<open>free_pages\<close>): \<open>kalloc\<close> pops
  its top, \<open>kfree\<close> pushes, and neither touches a byte outside the page concerned, although both fill
  the page with junk and keep the links inside the pages.
\<close>

definition kfree :: "addr \<Rightarrow> kstate \<Rightarrow> kstate option" where
  "kfree pa s =
     (if pa mod PGSIZE \<noteq> 0 \<or> pa < kend s \<or> pa \<ge> PHYSTOP then None
      else do {
        s \<leftarrow> acq Lkmem (s\<lparr>mem := memset (mem s) pa 1 4096\<rparr>);
        rel Lkmem (s\<lparr>mem := st64 (mem s) pa (freelist s), freelist := pa\<rparr>)
      })"

definition kalloc :: "kstate \<Rightarrow> (addr \<times> kstate) option" where
  "kalloc s = do {
     s \<leftarrow> acq Lkmem s;
     let r = freelist s;
     s \<leftarrow> rel Lkmem (if r \<noteq> 0 then s\<lparr>freelist := ld64 (mem s) r\<rparr> else s);
     Some (r, if r \<noteq> 0 then s\<lparr>mem := memset (mem s) r 5 4096\<rparr> else s)
   }"

partial_function (option) freerange_loop :: "addr \<Rightarrow> addr \<Rightarrow> kstate \<Rightarrow> kstate option" where
  "freerange_loop p pa_end s =
     (if p + PGSIZE \<le> pa_end then do { s \<leftarrow> kfree p s; freerange_loop (p + PGSIZE) pa_end s } else Some s)"

definition freerange :: "addr \<Rightarrow> addr \<Rightarrow> kstate \<Rightarrow> kstate option" where
  "freerange pa_start pa_end s = freerange_loop (PGROUNDUP pa_start) pa_end s"

definition kinit :: "kstate \<Rightarrow> kstate option" where
  "kinit s = freerange (kend s) PHYSTOP (s\<lparr>sync := initlock Lkmem (sync s)\<rparr>)"

section \<open>Pages\<close>

text \<open>The byte at \<open>a\<close> belongs to the page at \<open>p\<close>.\<close>

definition in_page :: "addr \<Rightarrow> addr \<Rightarrow> bool" where
  "in_page p a \<longleftrightarrow> unat (a - p) < 4096"

definition aligned :: "addr \<Rightarrow> bool" where
  "aligned p \<longleftrightarrow> p mod PGSIZE = 0"

lemma aligned_unat: "aligned p \<longleftrightarrow> 4096 dvd unat p"
  by (simp add: aligned_def PGSIZE_def word_unat_eq_iff unat_mod dvd_eq_mod_eq_0)

lemma aligned_no_wrap: "aligned p \<Longrightarrow> unat p + 4096 \<le> 2 ^ 64"
proof -
  assume "aligned p"
  then obtain k where k: "unat p = 4096 * k" by (auto simp: aligned_unat)
  then have "k < 2 ^ 52" using unat_less_64 [of p] by simp
  then show ?thesis using k by simp
qed

lemma in_page_unat: "aligned p \<Longrightarrow> in_page p a \<longleftrightarrow> unat p \<le> unat a \<and> unat a < unat p + 4096"
  using aligned_no_wrap [of p] unat_less_64 [of p] by (auto simp: in_page_def unat_sub_if')

lemma page_disjoint: "aligned p \<Longrightarrow> aligned q \<Longrightarrow> in_page p a \<Longrightarrow> in_page q a \<Longrightarrow> p = q"
proof -
  assume a: "aligned p" "aligned q" "in_page p a" "in_page q a"
  then obtain j k where "unat p = 4096 * j" "unat q = 4096 * k" by (meson aligned_unat dvdE)
  then have "j = k" using a by (simp add: in_page_unat)
  then show ?thesis using \<open>unat p = 4096 * j\<close> \<open>unat q = 4096 * k\<close> by (simp add: word_unat_eq_iff)
qed

lemma in_page_off: "k < 4096 \<Longrightarrow> in_page p (p + of_nat k)"
  by (simp add: in_page_def)

lemma memset_page: "memset m p c 4096 = (\<lambda>a. if in_page p a then c else m a)"
  by (simp add: memset_eq in_page_def)

lemma st64_page: "k \<le> 4088 \<Longrightarrow> \<not> in_page p a \<Longrightarrow> st64 m (p + of_nat k) v a = m a"
proof -
  assume k: "k \<le> 4088" and a: "\<not> in_page p a"
  have "\<not> unat (a - (p + of_nat k)) < 8"
  proof
    assume h: "unat (a - (p + of_nat k)) < 8"
    have "unat (a - (p + of_nat k) + of_nat k) = unat (a - (p + of_nat k)) + k" using h k by (subst unat_plus_if') simp
    then have "unat (a - p) = unat (a - (p + of_nat k)) + k" by simp
    then show False using a h k by (simp add: in_page_def)
  qed
  then show ?thesis by (simp add: st64_def)
qed

section \<open>The free list\<close>

fun chain :: "mem \<Rightarrow> addr \<Rightarrow> addr list \<Rightarrow> bool" where
  "chain m h [] \<longleftrightarrow> h = 0"
| "chain m h (p # ps) \<longleftrightarrow> h = p \<and> p \<noteq> 0 \<and> chain m (ld64 m p) ps"

definition is_page :: "kstate \<Rightarrow> addr \<Rightarrow> bool" where
  "is_page s p \<longleftrightarrow> aligned p \<and> kend s \<le> p \<and> p < PHYSTOP"

definition free_pages :: "kstate \<Rightarrow> addr list \<Rightarrow> bool" where
  "free_pages s ps \<longleftrightarrow> chain (mem s) (freelist s) ps \<and> distinct ps \<and> (\<forall>p\<in>set ps. is_page s p) \<and> 0 < kend s"

definition ready :: "kstate \<Rightarrow> bool" where
  "ready s \<longleftrightarrow> sync_ok (sync s) \<and> is_free Lkmem (sync s)"

lemma chain_cong: "(\<And>p k. p \<in> set ps \<Longrightarrow> k < 8 \<Longrightarrow> m' (p + of_nat k) = m (p + of_nat k)) \<Longrightarrow> chain m' h ps = chain m h ps"
proof (induction ps arbitrary: h)
  case (Cons p ps)
  have "ld64 m' p = ld64 m p" by (rule ld64_cong) (use Cons.prems in auto)
  then show ?case using Cons by auto
qed simp

lemma chain_head: "chain m h ps \<Longrightarrow> h = (case ps of [] \<Rightarrow> 0 | p # _ \<Rightarrow> p)"
  by (cases ps) auto

text \<open>Changes to pages that are not free keep the list.\<close>

lemma free_pages_frame:
  assumes "free_pages s ps" "freelist s' = freelist s" "kend s' = kend s"
    "\<And>p a. p \<in> set ps \<Longrightarrow> in_page p a \<Longrightarrow> mem s' a = mem s a"
  shows "free_pages s' ps"
proof -
  have "chain (mem s') (freelist s) ps = chain (mem s) (freelist s) ps"
    by (rule chain_cong) (simp add: assms(4) in_page_off)
  then show ?thesis using assms(1-3) by (simp add: free_pages_def is_page_def)
qed

lemma kalloc_empty: "ready s \<Longrightarrow> free_pages s [] \<Longrightarrow> kalloc s = Some (0, s\<lparr>sync := settle (sync s)\<rparr>)"
  by (simp add: kalloc_def rel_def ready_def free_pages_def)

lemma kalloc_pop:
  assumes "ready s" "free_pages s (p # ps)"
  shows "kalloc s = Some (p, s\<lparr>sync := settle (sync s), freelist := ld64 (mem s) p, mem := memset (mem s) p 5 4096\<rparr>)"
  using assms by (simp add: kalloc_def rel_def ready_def free_pages_def)

lemma kalloc_pages:
  assumes "free_pages s (p # ps)"
  shows "free_pages (s\<lparr>sync := y, freelist := ld64 (mem s) p, mem := memset (mem s) p c 4096\<rparr>) ps"
proof -
  have "chain (memset (mem s) p c 4096) (ld64 (mem s) p) ps = chain (mem s) (ld64 (mem s) p) ps"
  proof (rule chain_cong)
    fix q k assume q: "q \<in> set ps" "k < (8 :: nat)"
    have "p \<noteq> q" "aligned p" "aligned q" using assms q by (auto simp: free_pages_def is_page_def)
    then have "\<not> in_page p (q + of_nat k)" using page_disjoint in_page_off [of k q] q(2) by auto
    then show "memset (mem s) p c 4096 (q + of_nat k) = mem s (q + of_nat k)" by (simp add: memset_page)
  qed
  then show ?thesis using assms by (simp add: free_pages_def is_page_def)
qed

lemma kfree_push:
  assumes "ready s" "is_page s p"
  shows "kfree p s = Some (s\<lparr>sync := settle (sync s), mem := st64 (memset (mem s) p 1 4096) p (freelist s), freelist := p\<rparr>)"
  using assms by (simp add: kfree_def rel_def ready_def is_page_def aligned_def not_less not_le [symmetric])

lemma kfree_pages:
  assumes "free_pages s ps" "is_page s p" "p \<notin> set ps"
  shows "free_pages (s\<lparr>sync := y, mem := st64 (memset (mem s) p 1 4096) p (freelist s), freelist := p\<rparr>) (p # ps)"
proof -
  let ?m = "st64 (memset (mem s) p 1 4096) p (freelist s)"
  have "chain ?m (freelist s) ps = chain (mem s) (freelist s) ps"
  proof (rule chain_cong)
    fix q k assume q: "q \<in> set ps" "k < (8 :: nat)"
    have "p \<noteq> q" "aligned p" "aligned q" using assms q by (auto simp: free_pages_def is_page_def)
    then have "\<not> in_page p (q + of_nat k)" using page_disjoint in_page_off [of k q] q(2) by auto
    then show "?m (q + of_nat k) = mem s (q + of_nat k)" using st64_page [of 0 p] by (simp add: memset_page)
  qed
  moreover have "p \<noteq> 0" using assms(1,2) by (auto simp: free_pages_def is_page_def)
  ultimately show ?thesis using assms by (simp add: free_pages_def is_page_def)
qed

text \<open>
  (C36) The page allocator implements a stack of free pages.  \<open>kalloc\<close> never fails to return; it returns
  0 exactly if no page is free and otherwise takes the page on top of the stack; \<open>kfree\<close> of a page
  that is not free puts it on top.  Neither changes a byte of memory outside that page, although the
  list itself lives in the free pages.
\<close>

theorem kalloc_kfree_stack:
  assumes "ready s" "free_pages s ps"
  shows "(\<exists>r s'. kalloc s = Some (r, s') \<and> r = (case ps of [] \<Rightarrow> 0 | p # _ \<Rightarrow> p) \<and> free_pages s' (tl ps) \<and> ready s' \<and>
      (\<forall>a. mem s' a = (if ps \<noteq> [] \<and> in_page r a then 5 else mem s a))) \<and>
    (\<forall>p. is_page s p \<and> p \<notin> set ps \<longrightarrow> (\<exists>s'. kfree p s = Some s' \<and> free_pages s' (p # ps) \<and> ready s' \<and>
      (\<forall>a. \<not> in_page p a \<longrightarrow> mem s' a = mem s a)))"
proof (intro conjI allI impI)
  show "\<exists>r s'. kalloc s = Some (r, s') \<and> r = (case ps of [] \<Rightarrow> 0 | p # _ \<Rightarrow> p) \<and> free_pages s' (tl ps) \<and> ready s' \<and>
      (\<forall>a. mem s' a = (if ps \<noteq> [] \<and> in_page r a then 5 else mem s a))"
  proof (cases ps)
    case Nil
    then show ?thesis using assms kalloc_empty [of s] by (simp add: ready_def free_pages_def)
  next
    case (Cons p qs)
    then show ?thesis using kalloc_pop [OF assms(1)] kalloc_pages assms(1,2) by (simp add: ready_def memset_page)
  qed
next
  fix p assume "is_page s p \<and> p \<notin> set ps"
  then show "\<exists>s'. kfree p s = Some s' \<and> free_pages s' (p # ps) \<and> ready s' \<and> (\<forall>a. \<not> in_page p a \<longrightarrow> mem s' a = mem s a)"
    using kfree_push [OF assms(1)] kfree_pages [OF assms(2)] assms(1) st64_page [of 0 p] by (simp add: ready_def memset_page)
qed

section \<open>Start-up\<close>

definition pages_from :: "addr \<Rightarrow> nat \<Rightarrow> addr list" where
  "pages_from p n = rev (map (\<lambda>i. p + of_nat i * PGSIZE) [0..<n])"

lemma pages_from_Suc: "pages_from p (Suc n) = pages_from (p + PGSIZE) n @ [p]"
  unfolding pages_from_def upt_rec [of 0 "Suc n"] map_Suc_upt [symmetric] by (simp add: algebra_simps)

lemma in_pages_from: "q \<in> set (pages_from p n) \<longleftrightarrow> (\<exists>i<n. q = p + of_nat i * PGSIZE)"
  by (auto simp: pages_from_def)

lemma page_step: "unat p + Suc n * 4096 = unat e \<Longrightarrow> unat (p + PGSIZE) = unat p + 4096" for e :: addr
  using unat_less_64 [of e] by (simp add: PGSIZE_def unat_plus_if')

lemma freerange_loop_frees:
  assumes "unat p + n * 4096 = unat e" "aligned p" "kend s \<le> p" "e \<le> PHYSTOP" "ready s" "free_pages s ps" "\<forall>q\<in>set ps. q < p"
  shows "\<exists>s'. freerange_loop p e s = Some s' \<and> ready s' \<and> kend s' = kend s \<and> free_pages s' (pages_from p n @ ps)"
  using assms
proof (induction n arbitrary: p s ps)
  case 0
  then have "\<not> p + PGSIZE \<le> e" using aligned_no_wrap [of p] unat_less_64 [of p]
    by (simp add: word_le_nat_alt PGSIZE_def unat_plus_if' PHYSTOP_def KERNBASE_def)
  then show ?case using 0 by (subst freerange_loop.simps) (simp add: pages_from_def)
next
  case (Suc n)
  note st = page_step [OF Suc.prems(1)]
  have le: "p + PGSIZE \<le> e" "p < p + PGSIZE" "p < PHYSTOP"
    using Suc.prems(1,4) st by (auto simp: word_le_nat_alt word_less_nat_alt)
  have pg: "is_page s p" using Suc.prems le by (simp add: is_page_def)
  have np: "p \<notin> set ps" using Suc.prems(7) by auto
  let ?s = "s\<lparr>sync := settle (sync s), mem := st64 (memset (mem s) p 1 4096) p (freelist s), freelist := p\<rparr>"
  have "\<exists>s'. freerange_loop (p + PGSIZE) e ?s = Some s' \<and> ready s' \<and> kend s' = kend ?s \<and> free_pages s' (pages_from (p + PGSIZE) n @ p # ps)"
  proof (rule Suc.IH)
    show "unat (p + PGSIZE) + n * 4096 = unat e" using st Suc.prems(1) by simp
    show "aligned (p + PGSIZE)" using Suc.prems(2) st by (simp add: aligned_unat)
    show "free_pages ?s (p # ps)" using kfree_pages [OF Suc.prems(6) pg np] .
    show "\<forall>q\<in>set (p # ps). q < p + PGSIZE" using Suc.prems(7) le(2) by auto
  qed (use Suc.prems le in \<open>auto simp: ready_def\<close>)
  then show ?case
    using kfree_push [OF Suc.prems(5) pg] le(1) by (subst freerange_loop.simps) (simp add: pages_from_Suc)
qed

lemma PGROUNDDOWN_unat: "unat (PGROUNDDOWN a) = unat a div 4096 * 4096"
proof -
  have m: "(PGSIZE - 1 :: addr) = mask 12" by (simp add: PGSIZE_def mask_eq_exp_minus_1)
  have "PGROUNDDOWN a = push_bit 12 (drop_bit 12 a)"
    unfolding PGROUNDDOWN_def m by (rule bit_eqI) (auto simp: bit_simps)
  then have "unat (PGROUNDDOWN a) = take_bit 64 (unat a div 4096 * 4096)"
    by (simp add: drop_bit_eq_div push_bit_eq_mult unat_word_ariths(2) unat_div take_bit_eq_mod)
  also have "\<dots> = unat a div 4096 * 4096"
    using unat_less_64 [of a] by (intro take_bit_nat_eq_self) simp
  finally show ?thesis .
qed

lemma PGROUNDUP_unat: "unat a + 4095 < 2 ^ 64 \<Longrightarrow> unat (PGROUNDUP a) = (unat a + 4095) div 4096 * 4096"
proof -
  assume a: "unat a + 4095 < 2 ^ 64"
  have "unat (a + 4095) = unat a + 4095" using a by (simp add: unat_plus_if')
  moreover have "PGROUNDUP a = PGROUNDDOWN (a + 4095)" by (simp add: PGROUNDUP_def PGROUNDDOWN_def PGSIZE_def add.commute)
  ultimately show ?thesis by (simp add: PGROUNDDOWN_unat)
qed

text \<open>
  (C37) After \<open>kinit\<close> every whole page between the end of the kernel and the end of memory is free, each
  exactly once, and nothing else is.
\<close>

theorem kinit_frees_memory:
  assumes "sync_ok (sync s)" "freelist s = 0" "0 < kend s" "kend s \<le> PHYSTOP"
  shows "\<exists>s' ps. kinit s = Some s' \<and> free_pages s' ps \<and> set ps = {p. is_page s p}"
proof -
  let ?s = "s\<lparr>sync := initlock Lkmem (sync s)\<rparr>"
  let ?p = "PGROUNDUP (kend s)"
  define n where "n = (unat PHYSTOP - unat ?p) div 4096"
  have top: "unat PHYSTOP = 2281701376" by (simp add: PHYSTOP_def KERNBASE_def)
  have ke: "unat (kend s) \<le> 2281701376" using assms(4) top by (simp add: word_le_nat_alt)
  have p: "unat ?p = (unat (kend s) + 4095) div 4096 * 4096" using ke by (intro PGROUNDUP_unat) simp
  then have al: "aligned ?p" "kend s \<le> ?p" by (simp_all add: aligned_unat word_le_nat_alt)
  have le: "unat ?p \<le> unat PHYSTOP" using p ke top by simp
  then have e: "unat ?p + n * 4096 = unat PHYSTOP" using p top by (simp add: n_def)
  have "sync_ok (sync ?s) \<and> is_free Lkmem (sync ?s)" using assms(1) by (simp add: sync_defs)
  then have "\<exists>s'. freerange_loop ?p PHYSTOP ?s = Some s' \<and> ready s' \<and> kend s' = kend ?s \<and> free_pages s' (pages_from ?p n @ [])"
    by (intro freerange_loop_frees e) (use assms al in \<open>simp_all add: ready_def free_pages_def\<close>)
  then obtain s' where s': "kinit s = Some s'" "free_pages s' (pages_from ?p n)" "kend s' = kend s" by (auto simp: kinit_def freerange_def)
  have "q \<in> set (pages_from ?p n)" if "is_page s q" for q
  proof -
    have "4096 dvd unat q" using that by (simp add: is_page_def aligned_unat)
    then obtain k where k: "unat q = 4096 * k" by (rule dvdE)
    obtain j where j: "unat ?p = 4096 * j" using al(1) by (meson aligned_unat dvdE)
    have b: "unat (kend s) \<le> 4096 * k" "4096 * k < unat PHYSTOP" using that k by (simp_all add: is_page_def word_le_nat_alt word_less_nat_alt)
    have jk: "j \<le> k" "k < j + n" using p j b e by simp_all
    then obtain i where i: "k = j + i" "i < n" by (metis add_less_cancel_left le_Suc_ex)
    have "unat (?p + of_nat i * PGSIZE) = 4096 * k"
      using i(1) j b(2) top by (simp add: PGSIZE_def unat_word_ariths unat_of_nat)
    then have "q = ?p + of_nat i * PGSIZE" using k by (simp add: word_unat_eq_iff)
    then show ?thesis using i(2) by (auto simp: in_pages_from)
  qed
  moreover have "is_page s q" if "q \<in> set (pages_from ?p n)" for q
    using s'(2,3) that by (simp add: free_pages_def is_page_def)
  ultimately show ?thesis using s' by blast
qed

section \<open>Instances\<close>

text \<open>A machine of two free pages.\<close>

definition kstate0 :: kstate where
  "kstate0 = \<lparr>sync = sync0, mem = st64 (st64 (\<lambda>_. 0) 0x87ffe000 0x87fff000) 0x87fff000 0, kend = 0x87ffe000, ktramp = 0x80007000, kforkret = 0x80001000, freelist = 0x87ffe000,
     procs = \<lambda>i. \<lparr>p_state = UNUSED, p_chan = None, p_killed = 0, p_frozen = 0, p_xstate = 0, p_pid = 0, p_parent = None,
       p_kstack = KSTACK i, p_sz = 0, p_pagetable = 0, p_trapframe = 0, p_context = \<lparr>ctx_ra = 0, ctx_sp = 0, ctx_s = \<lambda>_. 0\<rparr>,
       p_ofile = \<lambda>_. None, p_cwd = None, p_name = [], p_shm_va = \<lambda>_. 0\<rparr>,
     initproc = None, nextpid = 1, ticks = 0,
     kmutex_table = replicate NKMUTEX \<lparr>mx_used = False, mx_locked = False, mx_owner_pid = 0\<rparr>,
     msgq = replicate MAX_Q \<lparr>q_key = 0, q_used = False,
       q_msg = replicate MAX_MSG \<lparr>m_type = 0, m_data = \<lambda>_. 0, m_len = 0, m_valid = False\<rparr>, q_count = 0\<rparr>,
     shmtable = \<lambda>_. \<lparr>sh_used = False, sh_key = 0, sh_size = 0, sh_npages = 0, sh_pa = \<lambda>_. 0, sh_refcount = 0\<rparr>,
     ftable = \<lambda>_. \<lparr>f_type = FD_NONE, f_ref = 0, f_readable = False, f_writable = False, f_pipe = 0, f_ip = None, f_off = 0, f_major = 0\<rparr>,
     pipes = \<lambda>_. \<lparr>pi_data = \<lambda>_. 0, pi_nread = 0, pi_nwrite = 0, pi_readopen = False, pi_writeopen = False\<rparr>,
     itable = \<lambda>_. \<lparr>i_dev = 0, i_inum = 0, i_ref = 0, i_lock = \<lparr>sl_locked = False, sl_pid = 0\<rparr>, i_valid = False, i_type = 0,
       i_major = 0, i_minor = 0, i_nlink = 0, i_size = 0, i_addrs = \<lambda>_. 0\<rparr>,
     bcache = \<lambda>_. \<lparr>b_valid = False, b_dev = 0, b_blockno = 0, b_lock = \<lparr>sl_locked = False, sl_pid = 0\<rparr>, b_refcnt = 0,
       b_prev = 0, b_next = 0, b_data = \<lambda>_. 0\<rparr>,
     log = \<lparr>l_start = 0, l_outstanding = 0, l_committing = False, l_dev = 0, l_n = 0, l_block = \<lambda>_. 0\<rparr>,
     sb = \<lparr>sb_magic = 0, sb_size = 0, sb_nblocks = 0, sb_ninodes = 0, sb_nlog = 0, sb_logstart = 0, sb_inodestart = 0, sb_bmapstart = 0\<rparr>,
     disk = \<lambda>_ _. 0, dhist = [], kout = []\<rparr>"

lemma kstate0_facts: "ready kstate0" "free_pages kstate0 [0x87ffe000, 0x87fff000]" "is_page kstate0 0x87ffe000"
proof -
  show "ready kstate0" by (simp add: ready_def kstate0_def sync0_def sync_defs)
  have "ld64 (mem kstate0) 0x87ffe000 = 0x87fff000"
  proof -
    have "ld64 (mem kstate0) 0x87ffe000 = ld64 (st64 (\<lambda>_. 0) 0x87ffe000 0x87fff000) 0x87ffe000"
      by (rule ld64_cong) (simp add: kstate0_def st64_def unat_word_ariths unat_of_nat unat_sub_if')
    then show ?thesis by simp
  qed
  moreover have "ld64 (mem kstate0) 0x87fff000 = 0" by (simp add: kstate0_def)
  moreover show "is_page kstate0 0x87ffe000" by (simp add: is_page_def aligned_def PGSIZE_def PHYSTOP_def KERNBASE_def kstate0_def)
  ultimately show "free_pages kstate0 [0x87ffe000, 0x87fff000]"
    by (simp add: free_pages_def is_page_def aligned_def PGSIZE_def PHYSTOP_def KERNBASE_def) (simp add: kstate0_def)
qed

theorem kalloc_kfree_stack_witness:
  "\<exists>s'. kalloc kstate0 = Some (0x87ffe000, s') \<and> free_pages s' [0x87fff000]"
  using kalloc_kfree_stack [OF kstate0_facts(1,2)] by auto

theorem kinit_frees_memory_witness:
  "\<exists>s' ps. kinit (kstate0\<lparr>freelist := 0\<rparr>) = Some s' \<and> free_pages s' ps \<and> 0x87ffe000 \<in> set ps"
proof -
  have "sync_ok (sync (kstate0\<lparr>freelist := 0\<rparr>))" "freelist (kstate0\<lparr>freelist := 0\<rparr>) = 0" "0 < kend (kstate0\<lparr>freelist := 0\<rparr>)"
    "kend (kstate0\<lparr>freelist := 0\<rparr>) \<le> PHYSTOP"
    by (simp_all add: kstate0_def sync0_def sync_defs PHYSTOP_def KERNBASE_def)
  from kinit_frees_memory [OF this] kstate0_facts(3) show ?thesis by (auto simp: is_page_def)
qed

end
