(* ===== verification/Vm.thy ===== *)
theory Vm
  imports Kalloc
begin

text \<open>
  Page tables and user memory (\<open>kernel/vm.c\<close>, with the Sv39 macros of \<open>kernel/riscv.h\<close>).  A page table is
  the address of its root page; its entries are double words of \<open>mem\<close>.  Every function is the C
  function on the kernel state; \<open>walk\<close> returns the address of the entry, 0 for none.

  Copies between kernel and user memory move bytes between \<open>mem\<close> and kernel objects that are values
  of the model: \<open>copyout\<close> takes the source as a function on its offsets, \<open>copyin\<close> and \<open>copyinstr\<close>
  return the bytes they stored at the destination.
\<close>

definition PTE_V :: addr where "PTE_V = push_bit 0 1"
definition PTE_R :: addr where "PTE_R = push_bit 1 1"
definition PTE_W :: addr where "PTE_W = push_bit 2 1"
definition PTE_X :: addr where "PTE_X = push_bit 3 1"
definition PTE_U :: addr where "PTE_U = push_bit 4 1"

definition PA2PTE :: "addr \<Rightarrow> addr" where
  "PA2PTE pa = push_bit 10 (drop_bit 12 pa)"

definition PTE2PA :: "addr \<Rightarrow> addr" where
  "PTE2PA pte = push_bit 12 (drop_bit 10 pte)"

definition PTE_FLAGS :: "addr \<Rightarrow> addr" where
  "PTE_FLAGS pte = pte AND 0x3FF"

definition PX :: "nat \<Rightarrow> addr \<Rightarrow> addr" where
  "PX level va = drop_bit (12 + 9 * level) va AND 0x1FF"

section \<open>Page tables\<close>

text \<open>The loop of \<open>walk\<close>, with \<open>level\<close> counting down to 0.\<close>

fun walk_loop :: "nat \<Rightarrow> addr \<Rightarrow> addr \<Rightarrow> bool \<Rightarrow> kstate \<Rightarrow> (addr \<times> kstate) option" where
  "walk_loop 0 pagetable va alloc s = Some (pagetable + 8 * PX 0 va, s)"
| "walk_loop (Suc l) pagetable va alloc s =
     (let pte = pagetable + 8 * PX (Suc l) va in
      if ld64 (mem s) pte AND PTE_V \<noteq> 0 then walk_loop l (PTE2PA (ld64 (mem s) pte)) va alloc s
      else if \<not> alloc then Some (0, s)
      else do {
        (pagetable, s) \<leftarrow> kalloc s;
        if pagetable = 0 then Some (0, s)
        else
          let s = s\<lparr>mem := memset (mem s) pagetable 0 4096\<rparr>;
              s = s\<lparr>mem := st64 (mem s) pte (PA2PTE pagetable OR PTE_V)\<rparr> in
          walk_loop l pagetable va alloc s
      })"

definition walk :: "addr \<Rightarrow> addr \<Rightarrow> bool \<Rightarrow> kstate \<Rightarrow> (addr \<times> kstate) option" where
  "walk pagetable va alloc s = (if va \<ge> MAXVA then None else walk_loop 2 pagetable va alloc s)"

definition walkaddr :: "addr \<Rightarrow> addr \<Rightarrow> kstate \<Rightarrow> (addr \<times> kstate) option" where
  "walkaddr pagetable va s =
     (if va \<ge> MAXVA then Some (0, s)
      else do {
        (pte, s) \<leftarrow> walk pagetable va False s;
        if pte = 0 then Some (0, s)
        else
          let e = ld64 (mem s) pte in
          if e AND PTE_V = 0 then Some (0, s)
          else if e AND PTE_U = 0 then Some (0, s)
          else Some (PTE2PA e, s)
      })"

partial_function (option) mappages_loop :: "addr \<Rightarrow> addr \<Rightarrow> addr \<Rightarrow> addr \<Rightarrow> addr \<Rightarrow> kstate \<Rightarrow> (int \<times> kstate) option" where
  "mappages_loop pagetable a last_va pa perm s = do {
     (pte, s) \<leftarrow> walk pagetable a True s;
     if pte = 0 then Some (-1, s)
     else if ld64 (mem s) pte AND PTE_V \<noteq> 0 then None
     else
       let s = s\<lparr>mem := st64 (mem s) pte (PA2PTE pa OR perm OR PTE_V)\<rparr> in
       if a = last_va then Some (0, s)
       else mappages_loop pagetable (a + PGSIZE) last_va (pa + PGSIZE) perm s
   }"

definition mappages :: "addr \<Rightarrow> addr \<Rightarrow> addr \<Rightarrow> addr \<Rightarrow> addr \<Rightarrow> kstate \<Rightarrow> (int \<times> kstate) option" where
  "mappages pagetable va nbytes pa perm s =
     (if va mod PGSIZE \<noteq> 0 then None
      else if nbytes mod PGSIZE \<noteq> 0 then None
      else if nbytes = 0 then None
      else mappages_loop pagetable va (va + nbytes - PGSIZE) pa perm s)"

definition kvmmap :: "addr \<Rightarrow> addr \<Rightarrow> addr \<Rightarrow> addr \<Rightarrow> addr \<Rightarrow> kstate \<Rightarrow> kstate option" where
  "kvmmap kpgtbl va pa sz perm s = do {
     (r, s) \<leftarrow> mappages kpgtbl va sz pa perm s;
     if r \<noteq> 0 then None else Some s
   }"

definition uvmcreate :: "kstate \<Rightarrow> (addr \<times> kstate) option" where
  "uvmcreate s = do {
     (pagetable, s) \<leftarrow> kalloc s;
     if pagetable = 0 then Some (0, s)
     else Some (pagetable, s\<lparr>mem := memset (mem s) pagetable 0 4096\<rparr>)
   }"

partial_function (option) uvmunmap_loop :: "addr \<Rightarrow> addr \<Rightarrow> addr \<Rightarrow> bool \<Rightarrow> kstate \<Rightarrow> kstate option" where
  "uvmunmap_loop pagetable a lim do_free s =
     (if a < lim then do {
        (pte, s) \<leftarrow> walk pagetable a False s;
        if pte = 0 then uvmunmap_loop pagetable (a + PGSIZE) lim do_free s
        else if ld64 (mem s) pte AND PTE_V = 0 then uvmunmap_loop pagetable (a + PGSIZE) lim do_free s
        else do {
          s \<leftarrow> (if do_free then kfree (PTE2PA (ld64 (mem s) pte)) s else Some s);
          uvmunmap_loop pagetable (a + PGSIZE) lim do_free (s\<lparr>mem := st64 (mem s) pte 0\<rparr>)
        }
      }
      else Some s)"

definition uvmunmap :: "addr \<Rightarrow> addr \<Rightarrow> addr \<Rightarrow> bool \<Rightarrow> kstate \<Rightarrow> kstate option" where
  "uvmunmap pagetable va npages do_free s =
     (if va mod PGSIZE \<noteq> 0 then None else uvmunmap_loop pagetable va (va + npages * PGSIZE) do_free s)"

definition uvmdealloc :: "addr \<Rightarrow> addr \<Rightarrow> addr \<Rightarrow> kstate \<Rightarrow> (addr \<times> kstate) option" where
  "uvmdealloc pagetable oldsz newsz s =
     (if newsz \<ge> oldsz then Some (oldsz, s)
      else if PGROUNDUP newsz < PGROUNDUP oldsz then do {
        let npages = (PGROUNDUP oldsz - PGROUNDUP newsz) div PGSIZE;
        s \<leftarrow> uvmunmap pagetable (PGROUNDUP newsz) (scast (ucast npages :: 32 word)) True s;
        Some (newsz, s)
      }
      else Some (newsz, s))"

partial_function (option) uvmalloc_loop :: "addr \<Rightarrow> addr \<Rightarrow> addr \<Rightarrow> addr \<Rightarrow> addr \<Rightarrow> kstate \<Rightarrow> (addr \<times> kstate) option" where
  "uvmalloc_loop pagetable a oldsz newsz xperm s =
     (if a < newsz then do {
        (memp, s) \<leftarrow> kalloc s;
        if memp = 0 then do {
          (_, s) \<leftarrow> uvmdealloc pagetable a oldsz s;
          Some (0, s)
        }
        else do {
          let s = s\<lparr>mem := memset (mem s) memp 0 4096\<rparr>;
          (r, s) \<leftarrow> mappages pagetable a PGSIZE memp (PTE_R OR PTE_U OR xperm) s;
          if r \<noteq> 0 then do {
            s \<leftarrow> kfree memp s;
            (_, s) \<leftarrow> uvmdealloc pagetable a oldsz s;
            Some (0, s)
          }
          else uvmalloc_loop pagetable (a + PGSIZE) oldsz newsz xperm s
        }
      }
      else Some (newsz, s))"

definition uvmalloc :: "addr \<Rightarrow> addr \<Rightarrow> addr \<Rightarrow> addr \<Rightarrow> kstate \<Rightarrow> (addr \<times> kstate) option" where
  "uvmalloc pagetable oldsz newsz xperm s =
     (if newsz < oldsz then Some (oldsz, s)
      else uvmalloc_loop pagetable (PGROUNDUP oldsz) (PGROUNDUP oldsz) newsz xperm s)"

text \<open>
  \<open>freewalk\<close> from the entry with index \<open>i\<close> on: the loop and the recursion in one function.
\<close>

partial_function (option) freewalk_from :: "addr \<Rightarrow> nat \<Rightarrow> kstate \<Rightarrow> kstate option" where
  "freewalk_from pagetable i s =
     (if i < 512 then
        (let a = pagetable + 8 * of_nat i; pte = ld64 (mem s) a in
         if pte AND PTE_V \<noteq> 0 \<and> pte AND (PTE_R OR PTE_W OR PTE_X) = 0 then do {
           s \<leftarrow> freewalk_from (PTE2PA pte) 0 s;
           freewalk_from pagetable (i + 1) (s\<lparr>mem := st64 (mem s) a 0\<rparr>)
         }
         else if pte AND PTE_V \<noteq> 0 then None
         else freewalk_from pagetable (i + 1) s)
      else kfree pagetable s)"

definition freewalk :: "addr \<Rightarrow> kstate \<Rightarrow> kstate option" where
  "freewalk pagetable s = freewalk_from pagetable 0 s"

definition uvmfree :: "addr \<Rightarrow> addr \<Rightarrow> kstate \<Rightarrow> kstate option" where
  "uvmfree pagetable sz s = do {
     s \<leftarrow> (if sz > 0 then uvmunmap pagetable 0 (PGROUNDUP sz div PGSIZE) True s else Some s);
     freewalk pagetable s
   }"

partial_function (option) uvmcopy_loop :: "addr \<Rightarrow> addr \<Rightarrow> addr \<Rightarrow> addr \<Rightarrow> kstate \<Rightarrow> (int \<times> kstate) option" where
  "uvmcopy_loop old new i sz s =
     (if i < sz then do {
        (pte, s) \<leftarrow> walk old i False s;
        if pte = 0 then uvmcopy_loop old new (i + PGSIZE) sz s
        else if ld64 (mem s) pte AND PTE_V = 0 then uvmcopy_loop old new (i + PGSIZE) sz s
        else do {
          let pa = PTE2PA (ld64 (mem s) pte);
          let flags = PTE_FLAGS (ld64 (mem s) pte);
          (memp, s) \<leftarrow> kalloc s;
          if memp = 0 then do {
            s \<leftarrow> uvmunmap new 0 (i div PGSIZE) True s;
            Some (-1, s)
          }
          else do {
            let s = s\<lparr>mem := memmove (mem s) memp pa 4096\<rparr>;
            (r, s) \<leftarrow> mappages new i PGSIZE memp flags s;
            if r \<noteq> 0 then do {
              s \<leftarrow> kfree memp s;
              s \<leftarrow> uvmunmap new 0 (i div PGSIZE) True s;
              Some (-1, s)
            }
            else uvmcopy_loop old new (i + PGSIZE) sz s
          }
        }
      }
      else Some (0, s))"

definition uvmcopy :: "addr \<Rightarrow> addr \<Rightarrow> addr \<Rightarrow> kstate \<Rightarrow> (int \<times> kstate) option" where
  "uvmcopy old new sz s = uvmcopy_loop old new 0 sz s"

definition uvmclear :: "addr \<Rightarrow> addr \<Rightarrow> kstate \<Rightarrow> kstate option" where
  "uvmclear pagetable va s = do {
     (pte, s) \<leftarrow> walk pagetable va False s;
     if pte = 0 then None else Some (s\<lparr>mem := st64 (mem s) pte (ld64 (mem s) pte AND NOT PTE_U)\<rparr>)
   }"

section \<open>User memory\<close>

definition ismapped :: "addr \<Rightarrow> addr \<Rightarrow> kstate \<Rightarrow> (bool \<times> kstate) option" where
  "ismapped pagetable va s = do {
     (pte, s) \<leftarrow> walk pagetable va False s;
     Some (pte \<noteq> 0 \<and> ld64 (mem s) pte AND PTE_V \<noteq> 0, s)
   }"

definition vmfault :: "addr \<Rightarrow> addr \<Rightarrow> kstate \<Rightarrow> (addr \<times> kstate) option" where
  "vmfault pagetable va s = do {
     i \<leftarrow> myproc s;
     let p = procs s i;
     if va \<ge> p_sz p then Some (0, s)
     else do {
       let va = PGROUNDDOWN va;
       (im, s) \<leftarrow> ismapped pagetable va s;
       if im then Some (0, s)
       else do {
         (memp, s) \<leftarrow> kalloc s;
         if memp = 0 then Some (0, s)
         else do {
           let s = s\<lparr>mem := memset (mem s) memp 0 4096\<rparr>;
           (r, s) \<leftarrow> mappages (p_pagetable p) va PGSIZE memp (PTE_W OR PTE_U OR PTE_R) s;
           if r \<noteq> 0 then do { s \<leftarrow> kfree memp s; Some (0, s) }
           else Some (memp, s)
         }
       }
     }
   }"

text \<open>The physical address of a user page, faulting it in when it is not there.\<close>

definition user_page :: "addr \<Rightarrow> addr \<Rightarrow> kstate \<Rightarrow> (addr \<times> kstate) option" where
  "user_page pagetable va0 s = do {
     (pa0, s) \<leftarrow> walkaddr pagetable va0 s;
     if pa0 = 0 then vmfault pagetable va0 s else Some (pa0, s)
   }"

text \<open>\<open>memmove\<close> from a kernel object: its bytes from offset \<open>i\<close> on.\<close>

definition poke :: "mem \<Rightarrow> addr \<Rightarrow> (nat \<Rightarrow> byte) \<Rightarrow> nat \<Rightarrow> nat \<Rightarrow> mem" where
  "poke m dst src i n = (\<lambda>a. if unat (a - dst) < n then src (i + unat (a - dst)) else m a)"

definition peek :: "mem \<Rightarrow> addr \<Rightarrow> nat \<Rightarrow> byte list" where
  "peek m src n = map (\<lambda>k. m (src + of_nat k)) [0..<n]"

partial_function (option) copyout_loop ::
  "addr \<Rightarrow> addr \<Rightarrow> (nat \<Rightarrow> byte) \<Rightarrow> nat \<Rightarrow> addr \<Rightarrow> kstate \<Rightarrow> (int \<times> kstate) option" where
  "copyout_loop pagetable dstva src i len s =
     (if len > 0 then
        (let va0 = PGROUNDDOWN dstva in
         if va0 \<ge> MAXVA then Some (-1, s)
         else do {
           (pa0, s) \<leftarrow> user_page pagetable va0 s;
           if pa0 = 0 then Some (-1, s)
           else do {
             (pte, s) \<leftarrow> walk pagetable va0 False s;
             if pte = 0 then None
             else if ld64 (mem s) pte AND PTE_W = 0 then Some (-1, s)
             else
               let n = PGSIZE - (dstva - va0); n = (if n > len then len else n);
                   s = s\<lparr>mem := poke (mem s) (pa0 + (dstva - va0)) src i (unat n)\<rparr> in
               copyout_loop pagetable (va0 + PGSIZE) src (i + unat n) (len - n) s
           }
         })
      else Some (0, s))"

definition copyout :: "addr \<Rightarrow> addr \<Rightarrow> (nat \<Rightarrow> byte) \<Rightarrow> addr \<Rightarrow> kstate \<Rightarrow> (int \<times> kstate) option" where
  "copyout pagetable dstva src len s = copyout_loop pagetable dstva src 0 len s"

partial_function (option) copyin_loop ::
  "addr \<Rightarrow> byte list \<Rightarrow> addr \<Rightarrow> addr \<Rightarrow> kstate \<Rightarrow> ((int \<times> byte list) \<times> kstate) option" where
  "copyin_loop pagetable dst srcva len s =
     (if len > 0 then do {
        let va0 = PGROUNDDOWN srcva;
        (pa0, s) \<leftarrow> user_page pagetable va0 s;
        if pa0 = 0 then Some ((-1, dst), s)
        else
          let n = PGSIZE - (srcva - va0); n = (if n > len then len else n) in
          copyin_loop pagetable (dst @ peek (mem s) (pa0 + (srcva - va0)) (unat n)) (va0 + PGSIZE) (len - n) s
      }
      else Some ((0, dst), s))"

definition copyin :: "addr \<Rightarrow> addr \<Rightarrow> addr \<Rightarrow> kstate \<Rightarrow> ((int \<times> byte list) \<times> kstate) option" where
  "copyin pagetable srcva len s = copyin_loop pagetable [] srcva len s"

text \<open>The inner loop of \<open>copyinstr\<close>: the bytes up to and including the first 0 among \<open>n\<close>.\<close>

fun str_chunk :: "mem \<Rightarrow> addr \<Rightarrow> nat \<Rightarrow> byte list \<times> bool" where
  "str_chunk m p 0 = ([], False)"
| "str_chunk m p (Suc n) =
     (if m p = 0 then ([0], True) else case str_chunk m (p + 1) n of (bs, got) \<Rightarrow> (m p # bs, got))"

partial_function (option) copyinstr_loop ::
  "addr \<Rightarrow> byte list \<Rightarrow> addr \<Rightarrow> addr \<Rightarrow> kstate \<Rightarrow> ((int \<times> byte list) \<times> kstate) option" where
  "copyinstr_loop pagetable dst srcva maxlen s =
     (if maxlen > 0 then do {
        let va0 = PGROUNDDOWN srcva;
        (pa0, s) \<leftarrow> walkaddr pagetable va0 s;
        if pa0 = 0 then Some ((-1, dst), s)
        else
          let n = PGSIZE - (srcva - va0); n = (if n > maxlen then maxlen else n) in
          case str_chunk (mem s) (pa0 + (srcva - va0)) (unat n) of (bs, got_null) \<Rightarrow>
            if got_null then Some ((0, dst @ bs), s)
            else copyinstr_loop pagetable (dst @ bs) (va0 + PGSIZE) (maxlen - n) s
      }
      else Some ((-1, dst), s))"

definition copyinstr :: "addr \<Rightarrow> addr \<Rightarrow> addr \<Rightarrow> kstate \<Rightarrow> ((int \<times> byte list) \<times> kstate) option" where
  "copyinstr pagetable srcva maxlen s = copyinstr_loop pagetable [] srcva maxlen s"

end
