(* ===== verification/Sched.thy ===== *)
theory Sched
  imports Vm
begin

text \<open>
  Processes giving up and getting the processor, and the operations that change another process's
  state (\<open>kernel/proc.c\<close>: the process table, \<open>scheduler\<close>, \<open>sched\<close>, \<open>yield\<close>, \<open>sleep\<close>, \<open>wakeup\<close>, \<open>kkill\<close>,
  \<open>kfreeze\<close>, \<open>kthaw\<close>, \<open>ksignal_send\<close>, \<open>kgetprocstate\<close>).

  The context switch divides \<open>yield\<close> and \<open>sleep\<close>: \<open>yield_out\<close> and \<open>sleep_out\<close> are the code up to \<open>swtch\<close>
  and the scheduler's code behind it; \<open>scheduler_scan\<close> runs the scheduler until it switches to a
  process; \<open>yield_in\<close> and \<open>sleep_in\<close> are the code of the resumed process behind \<open>swtch\<close>.  The local
  variable \<open>intena\<close> of \<open>sched\<close> is handed from the first part to the second.
\<close>

section \<open>Process table\<close>

fun procinit_loop :: "nat list \<Rightarrow> kstate \<Rightarrow> kstate" where
  "procinit_loop [] s = s"
| "procinit_loop (p # ps) s =
     procinit_loop ps (upd_proc p (\<lambda>pr. pr\<lparr>p_state := UNUSED, p_kstack := KSTACK p\<rparr>) (s\<lparr>sync := initlock (Lproc p) (sync s)\<rparr>))"

definition procinit :: "kstate \<Rightarrow> kstate" where
  "procinit s = procinit_loop [0..<NPROC] (s\<lparr>sync := initlock Lwait (initlock Lpid (sync s))\<rparr>)"

definition allocpid :: "kstate \<Rightarrow> (int \<times> kstate) option" where
  "allocpid s = do {
     s \<leftarrow> acq Lpid s;
     let pid = nextpid s;
     s \<leftarrow> rel Lpid (s\<lparr>nextpid := nextpid s + 1\<rparr>);
     Some (pid, s)
   }"

text \<open>The loop over the process table that locks each entry and acts on the first that fits.\<close>

fun scan_procs :: "(proc \<Rightarrow> bool) \<Rightarrow> (proc \<Rightarrow> proc) \<Rightarrow> (proc \<Rightarrow> int) \<Rightarrow> nat list \<Rightarrow> kstate \<Rightarrow> (int \<times> kstate) option" where
  "scan_procs hit act ret [] s = Some (-1, s)"
| "scan_procs hit act ret (p # ps) s = do {
     s \<leftarrow> acq (Lproc p) s;
     if hit (procs s p) then do {
       let r = ret (procs s p);
       s \<leftarrow> rel (Lproc p) (upd_proc p act s);
       Some (r, s)
     }
     else do {
       s \<leftarrow> rel (Lproc p) s;
       scan_procs hit act ret ps s
     }
   }"

definition kkill :: "int \<Rightarrow> kstate \<Rightarrow> (int \<times> kstate) option" where
  "kkill pid = scan_procs (\<lambda>p. p_pid p = pid)
     (\<lambda>p. let p = p\<lparr>p_killed := 1, p_frozen := 0\<rparr> in if p_state p = SLEEPING then p\<lparr>p_state := RUNNABLE\<rparr> else p)
     (\<lambda>_. 0) [0..<NPROC]"

definition kfreeze :: "int \<Rightarrow> kstate \<Rightarrow> (int \<times> kstate) option" where
  "kfreeze pid = scan_procs (\<lambda>p. p_pid p = pid \<and> p_state p \<noteq> UNUSED) (\<lambda>p. p\<lparr>p_frozen := 1\<rparr>) (\<lambda>_. 0) [0..<NPROC]"

definition kthaw :: "int \<Rightarrow> kstate \<Rightarrow> (int \<times> kstate) option" where
  "kthaw pid = scan_procs (\<lambda>p. p_pid p = pid \<and> p_state p \<noteq> UNUSED) (\<lambda>p. p\<lparr>p_frozen := 0\<rparr>) (\<lambda>_. 0) [0..<NPROC]"

definition ksignal_send :: "int \<Rightarrow> int \<Rightarrow> kstate \<Rightarrow> (int \<times> kstate) option" where
  "ksignal_send pid sig s =
     (if sig = 1 then kkill pid s
      else if sig = 2 then kfreeze pid s
      else if sig = 3 then kthaw pid s
      else Some (-1, s))"

fun state_no :: "procstate \<Rightarrow> int" where
  "state_no UNUSED = 0" | "state_no USED = 1" | "state_no SLEEPING = 2"
| "state_no RUNNABLE = 3" | "state_no RUNNING = 4" | "state_no ZOMBIE = 5"

definition kgetprocstate :: "int \<Rightarrow> kstate \<Rightarrow> (int \<times> kstate) option" where
  "kgetprocstate pid = scan_procs (\<lambda>p. p_pid p = pid \<and> p_state p \<noteq> UNUSED) (\<lambda>p. p) (\<lambda>p. state_no (p_state p)) [0..<NPROC]"

definition setkilled :: "nat \<Rightarrow> kstate \<Rightarrow> kstate option" where
  "setkilled p s = do {
     s \<leftarrow> acq (Lproc p) s;
     rel (Lproc p) (upd_proc p (\<lambda>p. p\<lparr>p_killed := 1\<rparr>) s)
   }"

definition killed :: "nat \<Rightarrow> kstate \<Rightarrow> (int \<times> kstate) option" where
  "killed p s = do {
     s \<leftarrow> acq (Lproc p) s;
     let k = p_killed (procs s p);
     s \<leftarrow> rel (Lproc p) s;
     Some (k, s)
   }"

section \<open>Wake-up\<close>

fun wakeup_loop :: "chan option \<Rightarrow> nat list \<Rightarrow> kstate \<Rightarrow> kstate option" where
  "wakeup_loop ch [] s = Some s"
| "wakeup_loop ch (p # ps) s =
     (if Some p \<noteq> myproc s then do {
        s \<leftarrow> acq (Lproc p) s;
        let s = (if p_state (procs s p) = SLEEPING \<and> p_chan (procs s p) = ch
                 then upd_proc p (\<lambda>p. p\<lparr>p_state := RUNNABLE\<rparr>) s else s);
        s \<leftarrow> rel (Lproc p) s;
        wakeup_loop ch ps s
      }
      else wakeup_loop ch ps s)"

text \<open>\<open>None\<close> is a null pointer as channel.\<close>

definition wakeup_ptr :: "chan option \<Rightarrow> kstate \<Rightarrow> kstate option" where
  "wakeup_ptr ch s = wakeup_loop ch [0..<NPROC] s"

abbreviation wakeup :: "chan \<Rightarrow> kstate \<Rightarrow> kstate option" where
  "wakeup ch \<equiv> wakeup_ptr (Some ch)"

section \<open>Switching\<close>

abbreviation set_cproc :: "nat option \<Rightarrow> kstate \<Rightarrow> kstate" where
  "set_cproc c s \<equiv> s\<lparr>sync := set_mycpu ((mycpu (sync s))\<lparr>c_proc := c\<rparr>) (sync s)\<rparr>"

text \<open>\<open>sched\<close> up to \<open>swtch\<close>, and behind it.\<close>

definition sched_out :: "kstate \<Rightarrow> (bool \<times> kstate) option" where
  "sched_out s = do {
     p \<leftarrow> myproc s;
     if \<not> holding (Lproc p) (sync s) then None
     else if c_noff (mycpu (sync s)) \<noteq> 1 then None
     else if p_state (procs s p) = RUNNING then None
     else if intr_get (sync s) then None
     else Some (c_intena (mycpu (sync s)), s)
   }"

definition sched_in :: "bool \<Rightarrow> kstate \<Rightarrow> kstate" where
  "sched_in intena s = s\<lparr>sync := set_mycpu ((mycpu (sync s))\<lparr>c_intena := intena\<rparr>) (sync s)\<rparr>"

text \<open>The scheduler behind its \<open>swtch\<close>, when process \<open>p\<close> has given up the CPU.\<close>

definition scheduler_back :: "nat \<Rightarrow> kstate \<Rightarrow> kstate option" where
  "scheduler_back p s = rel (Lproc p) (set_cproc None s)"

text \<open>
  The scheduler's pass over the rest \<open>ps\<close> of the process table, up to the switch to a process; it hands on what is
  left of the pass.
\<close>

fun scheduler_scan :: "nat list \<Rightarrow> kstate \<Rightarrow> ((nat \<times> nat list) option \<times> kstate) option" where
  "scheduler_scan [] s = Some (None, s)"
| "scheduler_scan (p # ps) s = do {
     s \<leftarrow> acq (Lproc p) s;
     if p_state (procs s p) = RUNNABLE \<and> p_frozen (procs s p) = 0
     then Some (Some (p, ps), set_cproc (Some p) (upd_proc p (\<lambda>p. p\<lparr>p_state := RUNNING\<rparr>) s))
     else do {
       s \<leftarrow> rel (Lproc p) s;
       scheduler_scan ps s
     }
   }"

text \<open>The start of a pass.\<close>

definition scheduler_pass :: "kstate \<Rightarrow> ((nat \<times> nat list) option \<times> kstate) option" where
  "scheduler_pass s = scheduler_scan [0..<NPROC] (s\<lparr>sync := intr_off (intr_on (sync s))\<rparr>)"

definition yield_out :: "kstate \<Rightarrow> (bool \<times> kstate) option" where
  "yield_out s = do {
     p \<leftarrow> myproc s;
     s \<leftarrow> acq (Lproc p) s;
     (intena, s) \<leftarrow> sched_out (upd_proc p (\<lambda>p. p\<lparr>p_state := RUNNABLE\<rparr>) s);
     s \<leftarrow> scheduler_back p s;
     Some (intena, s)
   }"

definition yield_in :: "nat \<Rightarrow> bool \<Rightarrow> kstate \<Rightarrow> kstate option" where
  "yield_in p intena s = rel (Lproc p) (sched_in intena s)"

definition sleep_out :: "chan \<Rightarrow> lockid \<Rightarrow> kstate \<Rightarrow> (bool \<times> kstate) option" where
  "sleep_out ch lk s = do {
     p \<leftarrow> myproc s;
     s \<leftarrow> acq (Lproc p) s;
     s \<leftarrow> rel lk s;
     (intena, s) \<leftarrow> sched_out (upd_proc p (\<lambda>p. p\<lparr>p_chan := Some ch, p_state := SLEEPING\<rparr>) s);
     s \<leftarrow> scheduler_back p s;
     Some (intena, s)
   }"

definition sleep_in :: "nat \<Rightarrow> lockid \<Rightarrow> bool \<Rightarrow> kstate \<Rightarrow> kstate option" where
  "sleep_in p lk intena s = do {
     s \<leftarrow> rel (Lproc p) (upd_proc p (\<lambda>p. p\<lparr>p_chan := None\<rparr>) (sched_in intena s));
     acq lk s
   }"

text \<open>
  The result of a system call that may sleep: its value, or asleep with what the interrupted code has to
  remember (its loop variables and the \<open>intena\<close> of \<open>sched\<close>), or gone when the process has exited.
\<close>

datatype ('a, 'c) blk = Done 'a | Asleep 'c bool | Gone

definition asleep :: "'c \<Rightarrow> (bool \<times> kstate) option \<Rightarrow> (('a, 'c) blk \<times> kstate) option" where
  "asleep c m = map_option (\<lambda>(b, s). (Asleep c b, s)) m"

section \<open>What the operations do\<close>

abbreviation settled :: "kstate \<Rightarrow> kstate" where
  "settled s \<equiv> s\<lparr>sync := settle (sync s)\<rparr>"

definition procs_free :: "kstate \<Rightarrow> bool" where
  "procs_free s \<longleftrightarrow> sync_ok (sync s) \<and> (\<forall>p. is_free (Lproc p) (sync s))"

lemma procs_free_simps [simp]: "procs_free (upd_proc p f s) = procs_free s" "procs_free (settled s) = procs_free s"
  by (simp_all add: procs_free_def)

lemma settle_id [simp]: "c_noff (mycpu y) \<noteq> 0 \<Longrightarrow> settle y = y"
  by (simp add: settle_def)

lemma rel_lockd [simp]:
  "sync_ok y \<Longrightarrow> is_free lk y \<Longrightarrow> rel lk (s\<lparr>sync := lockd lk y\<rparr>) = Some (s\<lparr>sync := settle y\<rparr>)"
  by (simp add: rel_def)

lemma upd_proc_sync [simp]: "(upd_proc p f s)\<lparr>sync := sync s\<rparr> = upd_proc p f s"
  by (simp add: upd_proc_def)

lemma scan_procs_eq:
  "procs_free s \<Longrightarrow> scan_procs hit act ret ps s =
     (case find (\<lambda>p. hit (procs s p)) ps of
        None \<Rightarrow> Some (-1, if ps = [] then s else settled s)
      | Some p \<Rightarrow> Some (ret (procs s p), settled (upd_proc p act s)))"
proof (induction ps arbitrary: s)
  case (Cons p ps)
  have f: "sync_ok (sync s)" "is_free (Lproc p) (sync s)" using Cons.prems by (simp_all add: procs_free_def)
  show ?case
  proof (cases "hit (procs s p)")
    case True
    then show ?thesis using f by simp
  next
    case False
    then show ?thesis using f Cons.IH [of "settled s"] Cons.prems by (simp split: option.split)
  qed
qed simp

lemma wakeup_loop_eq:
  assumes "procs_free s" "c_noff (mycpu (sync s)) \<noteq> 0" "distinct ps"
  shows "wakeup_loop ch ps s = Some (s\<lparr>procs := \<lambda>p. if p \<in> set ps \<and> Some p \<noteq> myproc s \<and> p_state (procs s p) = SLEEPING \<and>
      p_chan (procs s p) = ch then (procs s p)\<lparr>p_state := RUNNABLE\<rparr> else procs s p\<rparr>)"
  using assms
proof (induction ps arbitrary: s)
  case (Cons p ps)
  have f: "sync_ok (sync s)" "is_free (Lproc p) (sync s)" using Cons.prems(1) by (simp_all add: procs_free_def)
  let ?c = "p_state (procs s p) = SLEEPING \<and> p_chan (procs s p) = ch"
  let ?s = "if ?c then upd_proc p (\<lambda>p. p\<lparr>p_state := RUNNABLE\<rparr>) s else s"
  have pf: "procs_free ?s" "c_noff (mycpu (sync ?s)) \<noteq> 0" "myproc ?s = myproc s" using Cons.prems by simp_all
  show ?case
  proof (cases "Some p = myproc s")
    case True
    then show ?thesis using Cons by (auto simp: fun_eq_iff)
  next
    case False
    then have "wakeup_loop ch (p # ps) s = wakeup_loop ch ps ?s" using f Cons.prems(2) by simp
    also have "\<dots> = Some (?s\<lparr>procs := \<lambda>q. if q \<in> set ps \<and> Some q \<noteq> myproc ?s \<and> p_state (procs ?s q) = SLEEPING \<and>
      p_chan (procs ?s q) = ch then (procs ?s q)\<lparr>p_state := RUNNABLE\<rparr> else procs ?s q\<rparr>)"
      using Cons.IH [OF pf(1,2)] Cons.prems(3) by simp
    also have "\<dots> = Some (s\<lparr>procs := \<lambda>q. if q \<in> set (p # ps) \<and> Some q \<noteq> myproc s \<and> p_state (procs s q) = SLEEPING \<and>
      p_chan (procs s q) = ch then (procs s q)\<lparr>p_state := RUNNABLE\<rparr> else procs s q\<rparr>)"
      using Cons.prems(3) False by (auto simp: upd_proc_def fun_eq_iff myproc_def)
    finally show ?thesis .
  qed
qed simp

definition woken :: "chan option \<Rightarrow> kstate \<Rightarrow> kstate" where
  "woken ch s = s\<lparr>procs := \<lambda>p. if p < NPROC \<and> Some p \<noteq> myproc s \<and> p_state (procs s p) = SLEEPING \<and> p_chan (procs s p) = ch
     then (procs s p)\<lparr>p_state := RUNNABLE\<rparr> else procs s p\<rparr>"

lemma wakeup_eq: "procs_free s \<Longrightarrow> c_noff (mycpu (sync s)) \<noteq> 0 \<Longrightarrow> wakeup_ptr ch s = Some (woken ch s)"
  unfolding wakeup_ptr_def woken_def by (subst wakeup_loop_eq) simp_all

lemma woken_simps [simp]: "sync (woken ch s) = sync s" "mem (woken ch s) = mem s" "myproc (woken ch s) = myproc s"
  "kmutex_table (woken ch s) = kmutex_table s" "p_pid (procs (woken ch s) p) = p_pid (procs s p)"
  "p_killed (procs (woken ch s) p) = p_killed (procs s p)" "p_chan (procs (woken ch s) p) = p_chan (procs s p)"
  by (simp_all add: woken_def myproc_def)

lemma scheduler_scan_eq:
  "procs_free s \<Longrightarrow> scheduler_scan ps s =
     (case find (\<lambda>p. p_state (procs s p) = RUNNABLE \<and> p_frozen (procs s p) = 0) ps of
        None \<Rightarrow> Some (None, if ps = [] then s else settled s)
      | Some p \<Rightarrow> Some (Some (p, tl (dropWhile (\<lambda>q. q \<noteq> p) ps)),
          set_cproc (Some p) (upd_proc p (\<lambda>p. p\<lparr>p_state := RUNNING\<rparr>) (s\<lparr>sync := lockd (Lproc p) (sync s)\<rparr>))))"
proof (induction ps arbitrary: s)
  case (Cons p ps)
  have f: "sync_ok (sync s)" "is_free (Lproc p) (sync s)" using Cons.prems by (simp_all add: procs_free_def)
  show ?case
  proof (cases "p_state (procs s p) = RUNNABLE \<and> p_frozen (procs s p) = 0")
    case True
    then show ?thesis using f by simp
  next
    case False
    let ?r = "\<lambda>p. p_state (procs s p) = RUNNABLE \<and> p_frozen (procs s p) = 0"
    have "q \<noteq> p" if "find ?r ps = Some q" for q using that False by (auto simp: find_Some_iff)
    then show ?thesis using f Cons.IH [of "settled s"] Cons.prems False by (cases "find ?r ps") auto
  qed
qed simp

end
