(* ===== verification/Bio.thy ===== *)
theory Bio
  imports Sched
begin

text \<open>
  Sleep locks (\<open>kernel/sleeplock.c\<close>) and the buffer cache (\<open>kernel/bio.c\<close>).  The cache is the circular
  doubly linked list of the code: buffer \<open>i\<close> has the indices of its neighbours, and index \<open>NBUF\<close> is the
  list head.  The disk driver (\<open>virtio_disk_rw\<close>) is modelled by what it does to the buffer and the
  disk; every write is also appended to the history \<open>dhist\<close>.

  A sleep lock that is taken makes \<open>acquiresleep\<close> wait, which is \<open>None\<close> here.
\<close>

section \<open>Sleep locks\<close>

fun get_sl :: "lockid \<Rightarrow> kstate \<Rightarrow> sleeplock" where
  "get_sl (Lbuf i) s = b_lock (bcache s i)"
| "get_sl (Linode i) s = i_lock (itable s i)"
| "get_sl _ s = \<lparr>sl_locked = False, sl_pid = 0\<rparr>"

fun set_sl :: "lockid \<Rightarrow> sleeplock \<Rightarrow> kstate \<Rightarrow> kstate" where
  "set_sl (Lbuf i) l s = s\<lparr>bcache := (bcache s)(i := (bcache s i)\<lparr>b_lock := l\<rparr>)\<rparr>"
| "set_sl (Linode i) l s = s\<lparr>itable := (itable s)(i := (itable s i)\<lparr>i_lock := l\<rparr>)\<rparr>"
| "set_sl _ l s = s"

fun sl_chan :: "lockid \<Rightarrow> chan" where
  "sl_chan (Lbuf i) = Cbuf i"
| "sl_chan (Linode i) = Cinode i"
| "sl_chan _ = Clog"

definition initsleeplock :: "lockid \<Rightarrow> kstate \<Rightarrow> kstate" where
  "initsleeplock lk s = set_sl lk \<lparr>sl_locked = False, sl_pid = 0\<rparr> (s\<lparr>sync := initlock lk (sync s)\<rparr>)"

definition acquiresleep :: "lockid \<Rightarrow> kstate \<Rightarrow> kstate option" where
  "acquiresleep lk s = do {
     s \<leftarrow> acq lk s;
     if sl_locked (get_sl lk s) then None
     else do {
       p \<leftarrow> myproc s;
       rel lk (set_sl lk \<lparr>sl_locked = True, sl_pid = p_pid (procs s p)\<rparr> s)
     }
   }"

definition releasesleep :: "lockid \<Rightarrow> kstate \<Rightarrow> kstate option" where
  "releasesleep lk s = do {
     s \<leftarrow> acq lk s;
     s \<leftarrow> wakeup (sl_chan lk) (set_sl lk \<lparr>sl_locked = False, sl_pid = 0\<rparr> s);
     rel lk s
   }"

definition holdingsleep :: "lockid \<Rightarrow> kstate \<Rightarrow> (bool \<times> kstate) option" where
  "holdingsleep lk s = do {
     s \<leftarrow> acq lk s;
     p \<leftarrow> myproc s;
     let r = (sl_locked (get_sl lk s) \<and> sl_pid (get_sl lk s) = p_pid (procs s p));
     s \<leftarrow> rel lk s;
     Some (r, s)
   }"

section \<open>Buffer cache\<close>

abbreviation upd_buf :: "nat \<Rightarrow> (buf \<Rightarrow> buf) \<Rightarrow> kstate \<Rightarrow> kstate" where
  "upd_buf i f s \<equiv> s\<lparr>bcache := (bcache s)(i := f (bcache s i))\<rparr>"

text \<open>Inserting buffer \<open>i\<close> behind the head: the five assignments of the code.\<close>

definition buf_push :: "nat \<Rightarrow> kstate \<Rightarrow> kstate" where
  "buf_push i s =
     (let s = upd_buf i (\<lambda>b. b\<lparr>b_next := b_next (bcache s NBUF)\<rparr>) s;
          s = upd_buf i (\<lambda>b. b\<lparr>b_prev := NBUF\<rparr>) s;
          s = upd_buf (b_next (bcache s NBUF)) (\<lambda>b. b\<lparr>b_prev := i\<rparr>) s in
      upd_buf NBUF (\<lambda>b. b\<lparr>b_next := i\<rparr>) s)"

fun binit_loop :: "nat list \<Rightarrow> kstate \<Rightarrow> kstate" where
  "binit_loop [] s = s"
| "binit_loop (i # is) s = binit_loop is (buf_push i (initsleeplock (Lbuf i) s))"

definition binit :: "kstate \<Rightarrow> kstate" where
  "binit s =
     (let s = s\<lparr>sync := initlock Lbcache (sync s)\<rparr>;
          s = upd_buf NBUF (\<lambda>b. b\<lparr>b_prev := NBUF, b_next := NBUF\<rparr>) s in
      binit_loop [0..<NBUF] s)"

text \<open>The two searches of \<open>bget\<close>, along \<open>next\<close> and along \<open>prev\<close>.\<close>

partial_function (option) bget_cached :: "nat \<Rightarrow> nat \<Rightarrow> nat \<Rightarrow> kstate \<Rightarrow> nat option option" where
  "bget_cached b dev blockno s =
     (if b = NBUF then Some None
      else if b_dev (bcache s b) = dev \<and> b_blockno (bcache s b) = blockno then Some (Some b)
      else bget_cached (b_next (bcache s b)) dev blockno s)"

partial_function (option) bget_unused :: "nat \<Rightarrow> kstate \<Rightarrow> nat option option" where
  "bget_unused b s =
     (if b = NBUF then Some None
      else if b_refcnt (bcache s b) = 0 then Some (Some b)
      else bget_unused (b_prev (bcache s b)) s)"

definition bget :: "nat \<Rightarrow> nat \<Rightarrow> kstate \<Rightarrow> (nat \<times> kstate) option" where
  "bget dev blockno s = do {
     s \<leftarrow> acq Lbcache s;
     r \<leftarrow> bget_cached (b_next (bcache s NBUF)) dev blockno s;
     case r of
       Some b \<Rightarrow> do {
         s \<leftarrow> rel Lbcache (upd_buf b (\<lambda>b. b\<lparr>b_refcnt := b_refcnt b + 1\<rparr>) s);
         s \<leftarrow> acquiresleep (Lbuf b) s;
         Some (b, s)
       }
     | None \<Rightarrow> do {
         r \<leftarrow> bget_unused (b_prev (bcache s NBUF)) s;
         case r of
           None \<Rightarrow> None
         | Some b \<Rightarrow> do {
             s \<leftarrow> rel Lbcache (upd_buf b (\<lambda>b. b\<lparr>b_dev := dev, b_blockno := blockno, b_valid := False, b_refcnt := 1\<rparr>) s);
             s \<leftarrow> acquiresleep (Lbuf b) s;
             Some (b, s)
           }
       }
   }"

definition virtio_disk_rw :: "nat \<Rightarrow> bool \<Rightarrow> kstate \<Rightarrow> kstate" where
  "virtio_disk_rw b write s =
     (let bno = b_blockno (bcache s b); d = b_data (bcache s b) in
      if write then s\<lparr>disk := (disk s)(bno := d), dhist := dhist s @ [(bno, d)]\<rparr>
      else upd_buf b (\<lambda>b. b\<lparr>b_data := disk s bno\<rparr>) s)"

definition bread :: "nat \<Rightarrow> nat \<Rightarrow> kstate \<Rightarrow> (nat \<times> kstate) option" where
  "bread dev blockno s = do {
     (b, s) \<leftarrow> bget dev blockno s;
     if \<not> b_valid (bcache s b)
     then Some (b, upd_buf b (\<lambda>b. b\<lparr>b_valid := True\<rparr>) (virtio_disk_rw b False s))
     else Some (b, s)
   }"

definition bwrite :: "nat \<Rightarrow> kstate \<Rightarrow> kstate option" where
  "bwrite b s = do {
     (h, s) \<leftarrow> holdingsleep (Lbuf b) s;
     if \<not> h then None else Some (virtio_disk_rw b True s)
   }"

definition brelse :: "nat \<Rightarrow> kstate \<Rightarrow> kstate option" where
  "brelse b s = do {
     (h, s) \<leftarrow> holdingsleep (Lbuf b) s;
     if \<not> h then None
     else do {
       s \<leftarrow> releasesleep (Lbuf b) s;
       s \<leftarrow> acq Lbcache s;
       let s = upd_buf b (\<lambda>b. b\<lparr>b_refcnt := b_refcnt b - 1\<rparr>) s;
       let s = (if b_refcnt (bcache s b) = 0 then
           (let s = upd_buf (b_next (bcache s b)) (\<lambda>n. n\<lparr>b_prev := b_prev (bcache s b)\<rparr>) s;
                s = upd_buf (b_prev (bcache s b)) (\<lambda>n. n\<lparr>b_next := b_next (bcache s b)\<rparr>) s in
            buf_push b s)
         else s);
       rel Lbcache s
     }
   }"

definition bpin :: "nat \<Rightarrow> kstate \<Rightarrow> kstate option" where
  "bpin b s = do {
     s \<leftarrow> acq Lbcache s;
     rel Lbcache (upd_buf b (\<lambda>b. b\<lparr>b_refcnt := b_refcnt b + 1\<rparr>) s)
   }"

definition bunpin :: "nat \<Rightarrow> kstate \<Rightarrow> kstate option" where
  "bunpin b s = do {
     s \<leftarrow> acq Lbcache s;
     rel Lbcache (upd_buf b (\<lambda>b. b\<lparr>b_refcnt := b_refcnt b - 1\<rparr>) s)
   }"

end
