(* ===== verification/Log.thy ===== *)
theory Log
  imports Bio CLib
begin

text \<open>
  The write-ahead log (\<open>kernel/log.c\<close>).  The header block on disk holds the count and the block numbers
  as little-endian 32-bit words, as \<open>struct logheader\<close> lays them out.  The waiting of \<open>begin_op\<close> is \<open>None\<close>.
\<close>

text \<open>Kernel messages: what the call prints, appended to the output so far.\<close>

definition printk :: "string \<Rightarrow> kstate \<Rightarrow> kstate" where
  "printk str s = s\<lparr>kout := kout s @ str\<rparr>"

text \<open>32-bit word \<open>k\<close> of a block.\<close>

definition get32 :: "block \<Rightarrow> nat \<Rightarrow> 32 word" where
  "get32 d k = ucast (d (4 * k)) OR push_bit 8 (ucast (d (4 * k + 1))) OR push_bit 16 (ucast (d (4 * k + 2))) OR
     push_bit 24 (ucast (d (4 * k + 3)))"

definition put32 :: "nat \<Rightarrow> 32 word \<Rightarrow> block \<Rightarrow> block" where
  "put32 k v d = (\<lambda>i. if i div 4 = k then ucast (drop_bit (8 * (i mod 4)) v) else d i)"

abbreviation upd_log :: "(klog \<Rightarrow> klog) \<Rightarrow> kstate \<Rightarrow> kstate" where
  "upd_log f s \<equiv> s\<lparr>log := f (log s)\<rparr>"

fun install_loop :: "bool \<Rightarrow> nat list \<Rightarrow> kstate \<Rightarrow> kstate option" where
  "install_loop recovering [] s = Some s"
| "install_loop recovering (tail # ts) s = do {
     let s = (if recovering then printk (''recovering tail '' @ dec tail @ '' dst '' @ fmt_lld (sint (of_nat (l_block (log s) tail) :: 32 word))
       @ [CHR 0x0A]) s else s);
     (lbuf, s) \<leftarrow> bread (l_dev (log s)) (l_start (log s) + tail + 1) s;
     (dbuf, s) \<leftarrow> bread (l_dev (log s)) (l_block (log s) tail) s;
     let s = upd_buf dbuf (\<lambda>b. b\<lparr>b_data := b_data (bcache s lbuf)\<rparr>) s;
     s \<leftarrow> bwrite dbuf s;
     s \<leftarrow> (if \<not> recovering then bunpin dbuf s else Some s);
     s \<leftarrow> brelse lbuf s;
     s \<leftarrow> brelse dbuf s;
     install_loop recovering ts s
   }"

definition install_trans :: "bool \<Rightarrow> kstate \<Rightarrow> kstate option" where
  "install_trans recovering s = install_loop recovering [0..<nat (l_n (log s))] s"

definition read_head :: "kstate \<Rightarrow> kstate option" where
  "read_head s = do {
     (buf, s) \<leftarrow> bread (l_dev (log s)) (l_start (log s)) s;
     let d = b_data (bcache s buf);
     let n = sint (get32 d 0);
     let s = upd_log (\<lambda>l. l\<lparr>l_n := n, l_block := \<lambda>i. if int i < n then unat (get32 d (i + 1)) else l_block l i\<rparr>) s;
     brelse buf s
   }"

text \<open>The header with \<open>n\<close> and the first \<open>n\<close> block numbers stored over the old block.\<close>

fun put_blocks :: "nat list \<Rightarrow> (nat \<Rightarrow> nat) \<Rightarrow> block \<Rightarrow> block" where
  "put_blocks [] bs d = d"
| "put_blocks (i # is) bs d = put_blocks is bs (put32 (i + 1) (of_nat (bs i)) d)"

definition write_head :: "kstate \<Rightarrow> kstate option" where
  "write_head s = do {
     (buf, s) \<leftarrow> bread (l_dev (log s)) (l_start (log s)) s;
     let s = upd_buf buf (\<lambda>b. b\<lparr>b_data := put_blocks [0..<nat (l_n (log s))] (l_block (log s))
         (put32 0 (word_of_int (l_n (log s))) (b_data b))\<rparr>) s;
     s \<leftarrow> bwrite buf s;
     brelse buf s
   }"

definition recover_from_log :: "kstate \<Rightarrow> kstate option" where
  "recover_from_log s = do {
     s \<leftarrow> read_head s;
     s \<leftarrow> install_trans True s;
     write_head (upd_log (\<lambda>l. l\<lparr>l_n := 0\<rparr>) s)
   }"

definition initlog :: "nat \<Rightarrow> superblock \<Rightarrow> kstate \<Rightarrow> kstate option" where
  "initlog dev sbl s =
     recover_from_log (upd_log (\<lambda>l. l\<lparr>l_start := sb_logstart sbl, l_dev := dev\<rparr>) (s\<lparr>sync := initlock Llog (sync s)\<rparr>))"

definition begin_op :: "kstate \<Rightarrow> kstate option" where
  "begin_op s = do {
     s \<leftarrow> acq Llog s;
     if l_committing (log s) then None
     else if l_n (log s) + (l_outstanding (log s) + 1) * int MAXOPBLOCKS > int LOGBLOCKS then None
     else rel Llog (upd_log (\<lambda>l. l\<lparr>l_outstanding := l_outstanding l + 1\<rparr>) s)
   }"

fun write_log_loop :: "nat list \<Rightarrow> kstate \<Rightarrow> kstate option" where
  "write_log_loop [] s = Some s"
| "write_log_loop (tail # ts) s = do {
     (to, s) \<leftarrow> bread (l_dev (log s)) (l_start (log s) + tail + 1) s;
     (from', s) \<leftarrow> bread (l_dev (log s)) (l_block (log s) tail) s;
     let s = upd_buf to (\<lambda>b. b\<lparr>b_data := b_data (bcache s from')\<rparr>) s;
     s \<leftarrow> bwrite to s;
     s \<leftarrow> brelse from' s;
     s \<leftarrow> brelse to s;
     write_log_loop ts s
   }"

definition write_log :: "kstate \<Rightarrow> kstate option" where
  "write_log s = write_log_loop [0..<nat (l_n (log s))] s"

definition commit :: "kstate \<Rightarrow> kstate option" where
  "commit s =
     (if l_n (log s) > 0 then do {
        s \<leftarrow> write_log s;
        s \<leftarrow> write_head s;
        s \<leftarrow> install_trans False s;
        write_head (upd_log (\<lambda>l. l\<lparr>l_n := 0\<rparr>) s)
      }
      else Some s)"

definition end_op :: "kstate \<Rightarrow> kstate option" where
  "end_op s = do {
     s \<leftarrow> acq Llog s;
     let s = upd_log (\<lambda>l. l\<lparr>l_outstanding := l_outstanding l - 1\<rparr>) s;
     if l_committing (log s) then None
     else if l_outstanding (log s) = 0 then do {
       s \<leftarrow> rel Llog (upd_log (\<lambda>l. l\<lparr>l_committing := True\<rparr>) s);
       s \<leftarrow> commit s;
       s \<leftarrow> acq Llog s;
       s \<leftarrow> wakeup Clog (upd_log (\<lambda>l. l\<lparr>l_committing := False\<rparr>) s);
       rel Llog s
     }
     else do {
       s \<leftarrow> wakeup Clog s;
       rel Llog s
     }
   }"

text \<open>The search for the block in the header: its index, or the count when it is new.\<close>

definition log_index :: "nat \<Rightarrow> klog \<Rightarrow> nat" where
  "log_index blockno l = (case find (\<lambda>i. l_block l i = blockno) [0..<nat (l_n l)] of Some i \<Rightarrow> i | None \<Rightarrow> nat (l_n l))"

definition log_write :: "nat \<Rightarrow> kstate \<Rightarrow> kstate option" where
  "log_write b s = do {
     s \<leftarrow> acq Llog s;
     if l_n (log s) \<ge> int LOGBLOCKS then None
     else if l_outstanding (log s) < 1 then None
     else do {
       let bno = b_blockno (bcache s b);
       let i = log_index bno (log s);
       let s = upd_log (\<lambda>l. l\<lparr>l_block := (l_block l)(i := bno)\<rparr>) s;
       s \<leftarrow> (if int i = l_n (log s) then do {
           s \<leftarrow> bpin b s;
           Some (upd_log (\<lambda>l. l\<lparr>l_n := l_n l + 1\<rparr>) s)
         } else Some s);
       rel Llog s
     }
   }"

end
