(* ===== verification/Fs.thy ===== *)
theory Fs
  imports Log
begin

text \<open>
  The file system (\<open>kernel/fs.c\<close>): block allocation, inodes, file content, directories and path names,
  on the buffer cache and the log.  Disk structures are read from and written into the bytes of a
  block at the offsets of their C declarations (\<open>kernel/fs.h\<close>).

  A kernel buffer that the C code passes by address (a directory entry, an ELF header) is a value
  here: \<open>readi\<close> returns the bytes it copied to a kernel destination, \<open>writei\<close> takes a kernel source as a
  function on offsets.  Path names and names are lists of bytes without the final 0.
\<close>

section \<open>Disk structures\<close>

definition get16 :: "block \<Rightarrow> nat \<Rightarrow> 16 word" where
  "get16 d k = ucast (d (2 * k)) OR push_bit 8 (ucast (d (2 * k + 1)))"

definition put16 :: "nat \<Rightarrow> 16 word \<Rightarrow> block \<Rightarrow> block" where
  "put16 k v d = (\<lambda>i. if i div 2 = k then ucast (drop_bit (8 * (i mod 2)) v) else d i)"

text \<open>Field \<open>k\<close> of \<open>short\<close> and \<open>uint\<close> fields of on-disk inode \<open>j\<close> of a block (64 bytes each).\<close>

definition di_short :: "block \<Rightarrow> nat \<Rightarrow> nat \<Rightarrow> int" where
  "di_short d j k = sint (get16 d (32 * j + k))"

definition di_uint :: "block \<Rightarrow> nat \<Rightarrow> nat \<Rightarrow> 32 word" where
  "di_uint d j k = get32 d (16 * j + 2 + k)"

fun put_addrs :: "nat \<Rightarrow> nat list \<Rightarrow> (nat \<Rightarrow> nat) \<Rightarrow> block \<Rightarrow> block" where
  "put_addrs j [] a d = d"
| "put_addrs j (k # ks) a d = put_addrs j ks a (put32 (16 * j + 3 + k) (of_nat (a k)) d)"

definition put_dinode :: "nat \<Rightarrow> inode \<Rightarrow> block \<Rightarrow> block" where
  "put_dinode j ip d =
     put_addrs j [0..<NDIRECT + 1] (i_addrs ip)
       (put32 (16 * j + 2) (i_size ip)
         (put16 (32 * j + 3) (word_of_int (i_nlink ip))
           (put16 (32 * j + 2) (word_of_int (i_minor ip))
             (put16 (32 * j + 1) (word_of_int (i_major ip))
               (put16 (32 * j) (word_of_int (i_type ip)) d)))))"

definition IBLOCK :: "nat \<Rightarrow> superblock \<Rightarrow> nat" where
  "IBLOCK i sbl = i div IPB + sb_inodestart sbl"

definition BBLOCK :: "nat \<Rightarrow> superblock \<Rightarrow> nat" where
  "BBLOCK b sbl = b div BPB + sb_bmapstart sbl"

definition FSMAGIC :: nat where "FSMAGIC = 0x10203040"
definition T_DIR :: int where "T_DIR = 1"
definition ROOTDEV :: nat where "ROOTDEV = 1"
definition ROOTINO :: nat where "ROOTINO = 1"

section \<open>Blocks\<close>

definition readsb :: "nat \<Rightarrow> kstate \<Rightarrow> kstate option" where
  "readsb dev s = do {
     (bp, s) \<leftarrow> bread dev 1 s;
     let d = b_data (bcache s bp);
     let w = (\<lambda>k. unat (get32 d k));
     brelse bp (s\<lparr>sb := \<lparr>sb_magic = w 0, sb_size = w 1, sb_nblocks = w 2, sb_ninodes = w 3, sb_nlog = w 4,
       sb_logstart = w 5, sb_inodestart = w 6, sb_bmapstart = w 7\<rparr>\<rparr>)
   }"

definition bzero :: "nat \<Rightarrow> nat \<Rightarrow> kstate \<Rightarrow> kstate option" where
  "bzero dev bno s = do {
     (bp, s) \<leftarrow> bread dev bno s;
     s \<leftarrow> log_write bp (upd_buf bp (\<lambda>b. b\<lparr>b_data := \<lambda>i. if i < BSIZE then 0 else b_data b i\<rparr>) s);
     brelse bp s
   }"

text \<open>The inner loop of \<open>balloc\<close>: the first clear bit of a bitmap block among \<open>bi < BPB\<close>, \<open>b + bi < sb.size\<close>.\<close>

definition free_bit :: "block \<Rightarrow> nat \<Rightarrow> nat \<Rightarrow> nat option" where
  "free_bit d b fssize = find (\<lambda>bi. b + bi < fssize \<and> d (bi div 8) AND push_bit (bi mod 8) 1 = 0) [0..<BPB]"

partial_function (option) balloc_loop :: "nat \<Rightarrow> nat \<Rightarrow> kstate \<Rightarrow> (nat \<times> kstate) option" where
  "balloc_loop dev b s =
     (if b < sb_size (sb s) then do {
        (bp, s) \<leftarrow> bread dev (BBLOCK b (sb s)) s;
        case free_bit (b_data (bcache s bp)) b (sb_size (sb s)) of
          Some bi \<Rightarrow> do {
            let s = upd_buf bp (\<lambda>x. x\<lparr>b_data := (b_data x)(bi div 8 := b_data x (bi div 8) OR push_bit (bi mod 8) 1)\<rparr>) s;
            s \<leftarrow> log_write bp s;
            s \<leftarrow> brelse bp s;
            s \<leftarrow> bzero dev (b + bi) s;
            Some (b + bi, s)
          }
        | None \<Rightarrow> do {
            s \<leftarrow> brelse bp s;
            balloc_loop dev (b + BPB) s
          }
      }
      else Some (0, printk (''balloc: out of blocks'' @ [CHR 0x0A]) s))"

definition balloc :: "nat \<Rightarrow> kstate \<Rightarrow> (nat \<times> kstate) option" where
  "balloc dev s = balloc_loop dev 0 s"

definition bfree :: "nat \<Rightarrow> nat \<Rightarrow> kstate \<Rightarrow> kstate option" where
  "bfree dev b s = do {
     (bp, s) \<leftarrow> bread dev (BBLOCK b (sb s)) s;
     let bi = b mod BPB;
     let m = push_bit (bi mod 8) 1;
     if b_data (bcache s bp) (bi div 8) AND m = 0 then None
     else do {
       s \<leftarrow> log_write bp (upd_buf bp (\<lambda>x. x\<lparr>b_data := (b_data x)(bi div 8 := b_data x (bi div 8) AND NOT m)\<rparr>) s);
       brelse bp s
     }
   }"

section \<open>Inodes\<close>

abbreviation upd_inode :: "nat \<Rightarrow> (inode \<Rightarrow> inode) \<Rightarrow> kstate \<Rightarrow> kstate" where
  "upd_inode i f s \<equiv> s\<lparr>itable := (itable s)(i := f (itable s i))\<rparr>"

definition iinit :: "kstate \<Rightarrow> kstate" where
  "iinit s = fold (\<lambda>i. initsleeplock (Linode i)) [0..<NINODE] (s\<lparr>sync := initlock Litable (sync s)\<rparr>)"

definition iget :: "nat \<Rightarrow> nat \<Rightarrow> kstate \<Rightarrow> (nat \<times> kstate) option" where
  "iget dev inum s = do {
     s \<leftarrow> acq Litable s;
     case find (\<lambda>i. i_ref (itable s i) > 0 \<and> i_dev (itable s i) = dev \<and> i_inum (itable s i) = inum) [0..<NINODE] of
       Some ip \<Rightarrow> do {
         s \<leftarrow> rel Litable (upd_inode ip (\<lambda>i. i\<lparr>i_ref := i_ref i + 1\<rparr>) s);
         Some (ip, s)
       }
     | None \<Rightarrow>
         (case find (\<lambda>i. i_ref (itable s i) = 0) [0..<NINODE] of
            None \<Rightarrow> None
          | Some ip \<Rightarrow> do {
              s \<leftarrow> rel Litable (upd_inode ip (\<lambda>i. i\<lparr>i_dev := dev, i_inum := inum, i_ref := 1, i_valid := False\<rparr>) s);
              Some (ip, s)
            })
   }"

fun ialloc_loop :: "nat \<Rightarrow> int \<Rightarrow> nat list \<Rightarrow> kstate \<Rightarrow> (nat option \<times> kstate) option" where
  "ialloc_loop dev type [] s = Some (None, printk (''ialloc: no inodes'' @ [CHR 0x0A]) s)"
| "ialloc_loop dev type (inum # rest) s = do {
     (bp, s) \<leftarrow> bread dev (IBLOCK inum (sb s)) s;
     let j = inum mod IPB;
     if di_short (b_data (bcache s bp)) j 0 = 0 then do {
       let s = upd_buf bp (\<lambda>x. x\<lparr>b_data := put16 (32 * j) (word_of_int type)
           (\<lambda>i. if i div 64 = j then 0 else b_data x i)\<rparr>) s;
       s \<leftarrow> log_write bp s;
       s \<leftarrow> brelse bp s;
       (ip, s) \<leftarrow> iget dev inum s;
       Some (Some ip, s)
     }
     else do {
       s \<leftarrow> brelse bp s;
       ialloc_loop dev type rest s
     }
   }"

definition ialloc :: "nat \<Rightarrow> int \<Rightarrow> kstate \<Rightarrow> (nat option \<times> kstate) option" where
  "ialloc dev type s = ialloc_loop dev type [1..<sb_ninodes (sb s)] s"

definition iupdate :: "nat \<Rightarrow> kstate \<Rightarrow> kstate option" where
  "iupdate ip s = do {
     (bp, s) \<leftarrow> bread (i_dev (itable s ip)) (IBLOCK (i_inum (itable s ip)) (sb s)) s;
     let s = upd_buf bp (\<lambda>x. x\<lparr>b_data := put_dinode (i_inum (itable s ip) mod IPB) (itable s ip) (b_data x)\<rparr>) s;
     s \<leftarrow> log_write bp s;
     brelse bp s
   }"

definition idup :: "nat \<Rightarrow> kstate \<Rightarrow> kstate option" where
  "idup ip s = do {
     s \<leftarrow> acq Litable s;
     rel Litable (upd_inode ip (\<lambda>i. i\<lparr>i_ref := i_ref i + 1\<rparr>) s)
   }"

definition ilock :: "nat \<Rightarrow> kstate \<Rightarrow> kstate option" where
  "ilock ip s =
     (if i_ref (itable s ip) < 1 then None
      else do {
        s \<leftarrow> acquiresleep (Linode ip) s;
        if \<not> i_valid (itable s ip) then do {
          (bp, s) \<leftarrow> bread (i_dev (itable s ip)) (IBLOCK (i_inum (itable s ip)) (sb s)) s;
          let d = b_data (bcache s bp);
          let j = i_inum (itable s ip) mod IPB;
          let s = upd_inode ip (\<lambda>i. i\<lparr>i_type := di_short d j 0, i_major := di_short d j 1, i_minor := di_short d j 2,
            i_nlink := di_short d j 3, i_size := di_uint d j 0,
            i_addrs := \<lambda>k. if k \<le> NDIRECT then unat (di_uint d j (k + 1)) else i_addrs i k\<rparr>) s;
          s \<leftarrow> brelse bp s;
          let s = upd_inode ip (\<lambda>i. i\<lparr>i_valid := True\<rparr>) s;
          if i_type (itable s ip) = 0 then None else Some s
        }
        else Some s
      })"

definition iunlock :: "nat \<Rightarrow> kstate \<Rightarrow> kstate option" where
  "iunlock ip s = do {
     (h, s) \<leftarrow> holdingsleep (Linode ip) s;
     if \<not> h \<or> i_ref (itable s ip) < 1 then None else releasesleep (Linode ip) s
   }"

fun itrunc_direct :: "nat \<Rightarrow> nat list \<Rightarrow> kstate \<Rightarrow> kstate option" where
  "itrunc_direct ip [] s = Some s"
| "itrunc_direct ip (i # is) s =
     (if i_addrs (itable s ip) i \<noteq> 0 then do {
        s \<leftarrow> bfree (i_dev (itable s ip)) (i_addrs (itable s ip) i) s;
        itrunc_direct ip is (upd_inode ip (\<lambda>n. n\<lparr>i_addrs := (i_addrs n)(i := 0)\<rparr>) s)
      }
      else itrunc_direct ip is s)"

fun itrunc_indirect :: "nat \<Rightarrow> nat \<Rightarrow> nat list \<Rightarrow> kstate \<Rightarrow> kstate option" where
  "itrunc_indirect ip bp [] s = Some s"
| "itrunc_indirect ip bp (j # js) s =
     (let a = unat (get32 (b_data (bcache s bp)) j) in
      if a \<noteq> 0 then do {
        s \<leftarrow> bfree (i_dev (itable s ip)) a s;
        itrunc_indirect ip bp js s
      }
      else itrunc_indirect ip bp js s)"

definition itrunc :: "nat \<Rightarrow> kstate \<Rightarrow> kstate option" where
  "itrunc ip s = do {
     s \<leftarrow> itrunc_direct ip [0..<NDIRECT] s;
     s \<leftarrow> (if i_addrs (itable s ip) NDIRECT \<noteq> 0 then do {
         (bp, s) \<leftarrow> bread (i_dev (itable s ip)) (i_addrs (itable s ip) NDIRECT) s;
         s \<leftarrow> itrunc_indirect ip bp [0..<NINDIRECT] s;
         s \<leftarrow> brelse bp s;
         s \<leftarrow> bfree (i_dev (itable s ip)) (i_addrs (itable s ip) NDIRECT) s;
         Some (upd_inode ip (\<lambda>n. n\<lparr>i_addrs := (i_addrs n)(NDIRECT := 0)\<rparr>) s)
       } else Some s);
     iupdate ip (upd_inode ip (\<lambda>n. n\<lparr>i_size := 0\<rparr>) s)
   }"

definition iput :: "nat \<Rightarrow> kstate \<Rightarrow> kstate option" where
  "iput ip s = do {
     s \<leftarrow> acq Litable s;
     s \<leftarrow> (if i_ref (itable s ip) = 1 \<and> i_valid (itable s ip) \<and> i_nlink (itable s ip) = 0 then do {
         s \<leftarrow> acquiresleep (Linode ip) s;
         s \<leftarrow> rel Litable s;
         s \<leftarrow> itrunc ip s;
         s \<leftarrow> iupdate ip (upd_inode ip (\<lambda>n. n\<lparr>i_type := 0\<rparr>) s);
         s \<leftarrow> releasesleep (Linode ip) (upd_inode ip (\<lambda>n. n\<lparr>i_valid := False\<rparr>) s);
         acq Litable s
       } else Some s);
     rel Litable (upd_inode ip (\<lambda>n. n\<lparr>i_ref := i_ref n - 1\<rparr>) s)
   }"

definition iunlockput :: "nat \<Rightarrow> kstate \<Rightarrow> kstate option" where
  "iunlockput ip s = do {
     s \<leftarrow> iunlock ip s;
     iput ip s
   }"

fun ireclaim_loop :: "nat \<Rightarrow> nat list \<Rightarrow> kstate \<Rightarrow> kstate option" where
  "ireclaim_loop dev [] s = Some s"
| "ireclaim_loop dev (inum # rest) s = do {
     (bp, s) \<leftarrow> bread dev (IBLOCK inum (sb s)) s;
     let d = b_data (bcache s bp);
     let j = inum mod IPB;
     if di_short d j 0 \<noteq> 0 \<and> di_short d j 3 = 0 then do {
       (ip, s) \<leftarrow> iget dev inum (printk (''ireclaim: orphaned inode '' @ dec inum @ [CHR 0x0A]) s);
       s \<leftarrow> brelse bp s;
       s \<leftarrow> begin_op s;
       s \<leftarrow> ilock ip s;
       s \<leftarrow> iunlock ip s;
       s \<leftarrow> iput ip s;
       s \<leftarrow> end_op s;
       ireclaim_loop dev rest s
     }
     else do {
       s \<leftarrow> brelse bp s;
       ireclaim_loop dev rest s
     }
   }"

definition ireclaim :: "nat \<Rightarrow> kstate \<Rightarrow> kstate option" where
  "ireclaim dev s = ireclaim_loop dev [1..<sb_ninodes (sb s)] s"

definition fsinit :: "nat \<Rightarrow> kstate \<Rightarrow> kstate option" where
  "fsinit dev s = do {
     s \<leftarrow> readsb dev s;
     if sb_magic (sb s) \<noteq> FSMAGIC then None
     else do {
       s \<leftarrow> initlog dev (sb s) s;
       ireclaim dev s
     }
   }"

section \<open>File content\<close>

definition bmap :: "nat \<Rightarrow> nat \<Rightarrow> kstate \<Rightarrow> (nat \<times> kstate) option" where
  "bmap ip bn s =
     (if bn < NDIRECT then
        (if i_addrs (itable s ip) bn = 0 then do {
           (addr, s) \<leftarrow> balloc (i_dev (itable s ip)) s;
           if addr = 0 then Some (0, s)
           else Some (addr, upd_inode ip (\<lambda>n. n\<lparr>i_addrs := (i_addrs n)(bn := addr)\<rparr>) s)
         }
         else Some (i_addrs (itable s ip) bn, s))
      else
        let bn = bn - NDIRECT in
        if bn < NINDIRECT then do {
          (addr, s) \<leftarrow> (if i_addrs (itable s ip) NDIRECT = 0 then do {
              (addr, s) \<leftarrow> balloc (i_dev (itable s ip)) s;
              if addr = 0 then Some (0, s)
              else Some (addr, upd_inode ip (\<lambda>n. n\<lparr>i_addrs := (i_addrs n)(NDIRECT := addr)\<rparr>) s)
            } else Some (i_addrs (itable s ip) NDIRECT, s));
          if addr = 0 then Some (0, s)
          else do {
            (bp, s) \<leftarrow> bread (i_dev (itable s ip)) addr s;
            let addr = unat (get32 (b_data (bcache s bp)) bn);
            (addr, s) \<leftarrow> (if addr = 0 then do {
                (addr, s) \<leftarrow> balloc (i_dev (itable s ip)) s;
                if addr \<noteq> 0 then do {
                  s \<leftarrow> log_write bp (upd_buf bp (\<lambda>x. x\<lparr>b_data := put32 bn (of_nat addr) (b_data x)\<rparr>) s);
                  Some (addr, s)
                } else Some (addr, s)
              } else Some (addr, s));
            s \<leftarrow> brelse bp s;
            Some (addr, s)
          }
        }
        else None)"

text \<open>\<open>struct stat\<close>: device, inode number, type, links, size.\<close>

definition stati :: "nat \<Rightarrow> kstate \<Rightarrow> nat \<times> nat \<times> int \<times> int \<times> 32 word" where
  "stati ip s = (let i = itable s ip in (i_dev i, i_inum i, i_type i, i_nlink i, i_size i))"

definition either_copyout :: "bool \<Rightarrow> addr \<Rightarrow> (nat \<Rightarrow> byte) \<Rightarrow> nat \<Rightarrow> byte list \<Rightarrow> kstate \<Rightarrow> ((int \<times> byte list) \<times> kstate) option" where
  "either_copyout user_dst dst src len out s =
     (if user_dst then do {
        p \<leftarrow> myproc s;
        (r, s) \<leftarrow> copyout (p_pagetable (procs s p)) dst src (of_nat len) s;
        Some ((r, out), s)
      }
      else Some ((0, out @ map src [0..<len]), s))"

text \<open>A source for \<open>either_copyin\<close>: a user address, or a kernel object as a function on offsets.\<close>

datatype source = User addr | Kernel "nat \<Rightarrow> byte"

fun either_copyin :: "source \<Rightarrow> nat \<Rightarrow> nat \<Rightarrow> kstate \<Rightarrow> ((int \<times> byte list) \<times> kstate) option" where
  "either_copyin (User src) off len s = do {
     p \<leftarrow> myproc s;
     copyin (p_pagetable (procs s p)) (src + of_nat off) (of_nat len) s
   }"
| "either_copyin (Kernel f) off len s = Some ((0, map (\<lambda>k. f (off + k)) [0..<len]), s)"

partial_function (option) readi_loop ::
  "nat \<Rightarrow> bool \<Rightarrow> addr \<Rightarrow> 32 word \<Rightarrow> 32 word \<Rightarrow> 32 word \<Rightarrow> byte list \<Rightarrow> kstate \<Rightarrow> ((int \<times> byte list) \<times> kstate) option" where
  "readi_loop ip user_dst dst off n tot out s =
     (if tot < n then do {
        (addr, s) \<leftarrow> bmap ip (unat off div BSIZE) s;
        if addr = 0 then Some ((sint tot, out), s)
        else do {
          (bp, s) \<leftarrow> bread (i_dev (itable s ip)) addr s;
          let m = min (n - tot) (of_nat (BSIZE - unat off mod BSIZE));
          let d = b_data (bcache s bp);
          ((r, out), s) \<leftarrow> either_copyout user_dst dst (\<lambda>k. d (unat off mod BSIZE + k)) (unat m) out s;
          s \<leftarrow> brelse bp s;
          if r = -1 then Some ((-1, out), s)
          else readi_loop ip user_dst (dst + ucast m) (off + m) n (tot + m) out s
        }
      }
      else Some ((sint tot, out), s))"

definition readi :: "nat \<Rightarrow> bool \<Rightarrow> addr \<Rightarrow> 32 word \<Rightarrow> 32 word \<Rightarrow> kstate \<Rightarrow> ((int \<times> byte list) \<times> kstate) option" where
  "readi ip user_dst dst off n s =
     (let isize = i_size (itable s ip) in
      if off > isize \<or> off + n < off then Some ((0, []), s)
      else readi_loop ip user_dst dst off (if off + n > isize then isize - off else n) 0 [] s)"

partial_function (option) writei_loop ::
  "nat \<Rightarrow> source \<Rightarrow> 32 word \<Rightarrow> 32 word \<Rightarrow> 32 word \<Rightarrow> kstate \<Rightarrow> ((32 word \<times> 32 word) \<times> kstate) option" where
  "writei_loop ip src off n tot s =
     (if tot < n then do {
        (addr, s) \<leftarrow> bmap ip (unat off div BSIZE) s;
        if addr = 0 then Some ((tot, off), s)
        else do {
          (bp, s) \<leftarrow> bread (i_dev (itable s ip)) addr s;
          let m = min (n - tot) (of_nat (BSIZE - unat off mod BSIZE));
          ((r, bs), s) \<leftarrow> either_copyin src (unat tot) (unat m) s;
          let s = upd_buf bp (\<lambda>x. x\<lparr>b_data := \<lambda>i. if unat off mod BSIZE \<le> i \<and> i < unat off mod BSIZE + length bs
              then bs ! (i - unat off mod BSIZE) else b_data x i\<rparr>) s;
          if r = -1 then do {
            s \<leftarrow> brelse bp s;
            Some ((tot, off), s)
          }
          else do {
            s \<leftarrow> log_write bp s;
            s \<leftarrow> brelse bp s;
            writei_loop ip src (off + m) n (tot + m) s
          }
        }
      }
      else Some ((tot, off), s))"

definition writei :: "nat \<Rightarrow> source \<Rightarrow> 32 word \<Rightarrow> 32 word \<Rightarrow> kstate \<Rightarrow> (int \<times> kstate) option" where
  "writei ip src off n s =
     (if off > i_size (itable s ip) \<or> off + n < off then Some (-1, s)
      else if unat (off + n) > MAXFILE * BSIZE then Some (-1, s)
      else do {
        ((tot, off), s) \<leftarrow> writei_loop ip src off n 0 s;
        let s = (if off > i_size (itable s ip) then upd_inode ip (\<lambda>i. i\<lparr>i_size := off\<rparr>) s else s);
        s \<leftarrow> iupdate ip s;
        Some (sint tot, s)
      })"

section \<open>Directories\<close>

text \<open>\<open>strncmp\<close> on two character arrays given by their bytes before the end, which count as followed by 0.\<close>

fun strncmp_bytes :: "byte list \<Rightarrow> byte list \<Rightarrow> nat \<Rightarrow> int" where
  "strncmp_bytes p q 0 = 0"
| "strncmp_bytes p q (Suc n) =
     (let a = (case p of [] \<Rightarrow> 0 | x # _ \<Rightarrow> x); b = (case q of [] \<Rightarrow> 0 | x # _ \<Rightarrow> x) in
      if a \<noteq> 0 \<and> a = b then strncmp_bytes (tl p) (tl q) n else uint a - uint b)"

definition namecmp :: "byte list \<Rightarrow> byte list \<Rightarrow> int" where
  "namecmp a b = strncmp_bytes a b DIRSIZ"

text \<open>A directory entry: two bytes of inode number, then the name.\<close>

definition de_inum :: "byte list \<Rightarrow> nat" where
  "de_inum de = unat (de ! 0) + 256 * unat (de ! 1)"

definition de_name :: "byte list \<Rightarrow> byte list" where
  "de_name de = drop 2 de"

definition mk_dirent :: "nat \<Rightarrow> byte list \<Rightarrow> byte list" where
  "mk_dirent inum name =
     [of_nat inum, of_nat (inum div 256)] @ take DIRSIZ (takeWhile (\<lambda>c. c \<noteq> 0) name @ replicate DIRSIZ 0)"

partial_function (option) dirlookup_loop :: "nat \<Rightarrow> byte list \<Rightarrow> 32 word \<Rightarrow> kstate \<Rightarrow> ((nat \<times> 32 word) option \<times> kstate) option" where
  "dirlookup_loop dp name off s =
     (if off < i_size (itable s dp) then do {
        ((r, de), s) \<leftarrow> readi dp False 0 off 16 s;
        if r \<noteq> 16 then None
        else if de_inum de = 0 then dirlookup_loop dp name (off + 16) s
        else if namecmp name (de_name de) = 0 then do {
          (ip, s) \<leftarrow> iget (i_dev (itable s dp)) (de_inum de) s;
          Some (Some (ip, off), s)
        }
        else dirlookup_loop dp name (off + 16) s
      }
      else Some (None, s))"

definition dirlookup :: "nat \<Rightarrow> byte list \<Rightarrow> kstate \<Rightarrow> ((nat \<times> 32 word) option \<times> kstate) option" where
  "dirlookup dp name s = (if i_type (itable s dp) \<noteq> T_DIR then None else dirlookup_loop dp name 0 s)"

text \<open>The offset of the first empty entry, or the directory's size.\<close>

partial_function (option) dirlink_loop :: "nat \<Rightarrow> 32 word \<Rightarrow> kstate \<Rightarrow> (32 word \<times> kstate) option" where
  "dirlink_loop dp off s =
     (if off < i_size (itable s dp) then do {
        ((r, de), s) \<leftarrow> readi dp False 0 off 16 s;
        if r \<noteq> 16 then None
        else if de_inum de = 0 then Some (off, s)
        else dirlink_loop dp (off + 16) s
      }
      else Some (off, s))"

definition dirlink :: "nat \<Rightarrow> byte list \<Rightarrow> nat \<Rightarrow> kstate \<Rightarrow> (int \<times> kstate) option" where
  "dirlink dp name inum s = do {
     (r, s) \<leftarrow> dirlookup dp name s;
     case r of
       Some (ip, _) \<Rightarrow> do { s \<leftarrow> iput ip s; Some (-1, s) }
     | None \<Rightarrow> do {
         (off, s) \<leftarrow> dirlink_loop dp 0 s;
         (r, s) \<leftarrow> writei dp (Kernel (\<lambda>k. mk_dirent inum name ! k)) off 16 s;
         Some (if r \<noteq> 16 then -1 else 0, s)
       }
   }"

section \<open>Paths\<close>

text \<open>The next path element, at most \<open>DIRSIZ\<close> bytes of it, and the rest of the path.\<close>

definition skipelem :: "byte list \<Rightarrow> (byte list \<times> byte list) option" where
  "skipelem path =
     (let path = dropWhile (\<lambda>c. c = 47) path in
      if path = [] then None
      else
        let elem = takeWhile (\<lambda>c. c \<noteq> 47) path; path = dropWhile (\<lambda>c. c \<noteq> 47) path in
        Some (take DIRSIZ elem, dropWhile (\<lambda>c. c = 47) path))"

partial_function (option) namex_loop :: "nat \<Rightarrow> byte list \<Rightarrow> bool \<Rightarrow> kstate \<Rightarrow> ((nat \<times> byte list) option \<times> kstate) option" where
  "namex_loop ip path nameiparent s =
     (case skipelem path of
        Some (name, path) \<Rightarrow> do {
          s \<leftarrow> ilock ip s;
          if i_type (itable s ip) \<noteq> T_DIR then do { s \<leftarrow> iunlockput ip s; Some (None, s) }
          else if nameiparent \<and> path = [] then do { s \<leftarrow> iunlock ip s; Some (Some (ip, name), s) }
          else do {
            (next, s) \<leftarrow> dirlookup ip name s;
            case next of
              None \<Rightarrow> do { s \<leftarrow> iunlockput ip s; Some (None, s) }
            | Some (ip', _) \<Rightarrow> do { s \<leftarrow> iunlockput ip s; namex_loop ip' path nameiparent s }
          }
        }
      | None \<Rightarrow>
          if nameiparent then do { s \<leftarrow> iput ip s; Some (None, s) }
          else Some (Some (ip, []), s))"

definition namex :: "byte list \<Rightarrow> bool \<Rightarrow> kstate \<Rightarrow> ((nat \<times> byte list) option \<times> kstate) option" where
  "namex path nameiparent s = do {
     (ip, s) \<leftarrow> (if path \<noteq> [] \<and> hd path = 47 then iget ROOTDEV ROOTINO s
       else do {
         p \<leftarrow> myproc s;
         ip \<leftarrow> p_cwd (procs s p);
         s \<leftarrow> idup ip s;
         Some (ip, s)
       });
     namex_loop ip path nameiparent s
   }"

definition namei :: "byte list \<Rightarrow> kstate \<Rightarrow> (nat option \<times> kstate) option" where
  "namei path s = do {
     (r, s) \<leftarrow> namex path False s;
     Some (map_option fst r, s)
   }"

definition nameiparent :: "byte list \<Rightarrow> kstate \<Rightarrow> ((nat \<times> byte list) option \<times> kstate) option" where
  "nameiparent path s = namex path True s"

end
