(* ===== verification/Pipe.thy ===== *)
theory Pipe
  imports Fs
begin

text \<open>
  Pipes (\<open>kernel/pipe.c\<close>): the ring buffer with free-running 32-bit counters.  A pipe is named by the
  address of its page.  \<open>pipewrite\<close> and \<open>piperead\<close> may sleep in the middle; their loops are functions
  that end with \<open>Asleep\<close> and what the sleeping process remembers, and \<open>pipewrite_resume\<close> and
  \<open>piperead_resume\<close> are the code from the end of that sleep on.
\<close>

definition PIPESIZE :: nat where "PIPESIZE = 512"

abbreviation upd_pipe :: "addr \<Rightarrow> (pipe \<Rightarrow> pipe) \<Rightarrow> kstate \<Rightarrow> kstate" where
  "upd_pipe pi f s \<equiv> s\<lparr>pipes := (pipes s)(pi := f (pipes s pi))\<rparr>"

definition pipeclose :: "addr \<Rightarrow> bool \<Rightarrow> kstate \<Rightarrow> kstate option" where
  "pipeclose pi writable s = do {
     s \<leftarrow> acq (Lpipe pi) s;
     s \<leftarrow> (if writable then wakeup (Cpread pi) (upd_pipe pi (\<lambda>p. p\<lparr>pi_writeopen := False\<rparr>) s)
       else wakeup (Cpwrite pi) (upd_pipe pi (\<lambda>p. p\<lparr>pi_readopen := False\<rparr>) s));
     if \<not> pi_readopen (pipes s pi) \<and> \<not> pi_writeopen (pipes s pi) then do {
       s \<leftarrow> rel (Lpipe pi) s;
       kfree pi s
     }
     else rel (Lpipe pi) s
   }"

partial_function (option) pipewrite_loop :: "addr \<Rightarrow> addr \<Rightarrow> int \<Rightarrow> int \<Rightarrow> kstate \<Rightarrow> ((int, int) blk \<times> kstate) option" where
  "pipewrite_loop pi addr n i s = do {
     pr \<leftarrow> myproc s;
     if i < n then do {
       (k, s) \<leftarrow> (if pi_readopen (pipes s pi) then killed pr s else Some (1, s));
       if k \<noteq> 0 then do {
         s \<leftarrow> rel (Lpipe pi) s;
         Some (Done (-1), s)
       }
       else if pi_nwrite (pipes s pi) = pi_nread (pipes s pi) + of_nat PIPESIZE then do {
         s \<leftarrow> wakeup (Cpread pi) s;
         asleep i (sleep_out (Cpwrite pi) (Lpipe pi) s)
       }
       else do {
         ((r, bs), s) \<leftarrow> copyin (p_pagetable (procs s pr)) (addr + word_of_int i) 1 s;
         if r = -1 then do {
           s \<leftarrow> wakeup (Cpread pi) s;
           s \<leftarrow> rel (Lpipe pi) s;
           Some (Done i, s)
         }
         else do {
           let ch = bs ! 0;
           let s = upd_pipe pi (\<lambda>p. p\<lparr>pi_data := (pi_data p)(unat (pi_nwrite p) mod PIPESIZE := ch),
               pi_nwrite := pi_nwrite p + 1\<rparr>) s;
           pipewrite_loop pi addr n (i + 1) s
         }
       }
     }
     else do {
       s \<leftarrow> wakeup (Cpread pi) s;
       s \<leftarrow> rel (Lpipe pi) s;
       Some (Done i, s)
     }
   }"

definition pipewrite :: "addr \<Rightarrow> addr \<Rightarrow> int \<Rightarrow> kstate \<Rightarrow> ((int, int) blk \<times> kstate) option" where
  "pipewrite pi addr n s = do {
     s \<leftarrow> acq (Lpipe pi) s;
     pipewrite_loop pi addr n 0 s
   }"

definition pipewrite_resume :: "addr \<Rightarrow> addr \<Rightarrow> int \<Rightarrow> int \<Rightarrow> nat \<Rightarrow> bool \<Rightarrow> kstate \<Rightarrow> ((int, int) blk \<times> kstate) option" where
  "pipewrite_resume pi addr n i p intena s = do {
     s \<leftarrow> sleep_in p (Lpipe pi) intena s;
     pipewrite_loop pi addr n i s
   }"

text \<open>The copy loop of \<open>piperead\<close>.\<close>

partial_function (option) piperead_copy :: "addr \<Rightarrow> addr \<Rightarrow> int \<Rightarrow> int \<Rightarrow> kstate \<Rightarrow> (int \<times> kstate) option" where
  "piperead_copy pi addr n i s = do {
     pr \<leftarrow> myproc s;
     if i < n then
       if pi_nread (pipes s pi) = pi_nwrite (pipes s pi) then Some (i, s)
       else do {
         let ch = pi_data (pipes s pi) (unat (pi_nread (pipes s pi)) mod PIPESIZE);
         (r, s) \<leftarrow> copyout (p_pagetable (procs s pr)) (addr + word_of_int i) (\<lambda>_. ch) 1 s;
         if r = -1 then Some (if i = 0 then -1 else i, s)
         else piperead_copy pi addr n (i + 1) (upd_pipe pi (\<lambda>p. p\<lparr>pi_nread := pi_nread p + 1\<rparr>) s)
       }
     else Some (i, s)
   }"

definition piperead_loop :: "addr \<Rightarrow> addr \<Rightarrow> int \<Rightarrow> kstate \<Rightarrow> ((int, unit) blk \<times> kstate) option" where
  "piperead_loop pi addr n s = do {
     pr \<leftarrow> myproc s;
     if pi_nread (pipes s pi) = pi_nwrite (pipes s pi) \<and> pi_writeopen (pipes s pi) then do {
       (k, s) \<leftarrow> killed pr s;
       if k \<noteq> 0 then do {
         s \<leftarrow> rel (Lpipe pi) s;
         Some (Done (-1), s)
       }
       else asleep () (sleep_out (Cpread pi) (Lpipe pi) s)
     }
     else do {
       (i, s) \<leftarrow> piperead_copy pi addr n 0 s;
       s \<leftarrow> wakeup (Cpwrite pi) s;
       s \<leftarrow> rel (Lpipe pi) s;
       Some (Done i, s)
     }
   }"

definition piperead :: "addr \<Rightarrow> addr \<Rightarrow> int \<Rightarrow> kstate \<Rightarrow> ((int, unit) blk \<times> kstate) option" where
  "piperead pi addr n s = do {
     s \<leftarrow> acq (Lpipe pi) s;
     piperead_loop pi addr n s
   }"

definition piperead_resume :: "addr \<Rightarrow> addr \<Rightarrow> int \<Rightarrow> nat \<Rightarrow> bool \<Rightarrow> kstate \<Rightarrow> ((int, unit) blk \<times> kstate) option" where
  "piperead_resume pi addr n p intena s = do {
     s \<leftarrow> sleep_in p (Lpipe pi) intena s;
     piperead_loop pi addr n s
   }"

end
