(* ===== verification/File.thy ===== *)
theory File
  imports Pipe
begin

text \<open>
  Open files (\<open>kernel/file.c\<close>) and \<open>pipealloc\<close> (\<open>kernel/pipe.c\<close>).  A \<open>struct file *\<close> is an index of
  \<open>ftable\<close>.  The device switch \<open>devsw\<close> is the table of function pointers of the code: an argument that
  gives the read and the write function of a major number, or none.
\<close>

abbreviation upd_file :: "nat \<Rightarrow> (kfile \<Rightarrow> kfile) \<Rightarrow> kstate \<Rightarrow> kstate" where
  "upd_file i f s \<equiv> s\<lparr>ftable := (ftable s)(i := f (ftable s i))\<rparr>"

definition fileinit :: "kstate \<Rightarrow> kstate" where
  "fileinit s = s\<lparr>sync := initlock Lftable (sync s)\<rparr>"

definition filealloc :: "kstate \<Rightarrow> (nat option \<times> kstate) option" where
  "filealloc s = do {
     s \<leftarrow> acq Lftable s;
     case find (\<lambda>f. f_ref (ftable s f) = 0) [0..<NFILE] of
       Some f \<Rightarrow> do {
         s \<leftarrow> rel Lftable (upd_file f (\<lambda>f. f\<lparr>f_ref := 1\<rparr>) s);
         Some (Some f, s)
       }
     | None \<Rightarrow> do {
         s \<leftarrow> rel Lftable s;
         Some (None, s)
       }
   }"

definition filedup :: "nat \<Rightarrow> kstate \<Rightarrow> kstate option" where
  "filedup f s = do {
     s \<leftarrow> acq Lftable s;
     if f_ref (ftable s f) < 1 then None
     else rel Lftable (upd_file f (\<lambda>f. f\<lparr>f_ref := f_ref f + 1\<rparr>) s)
   }"

definition fileclose :: "nat \<Rightarrow> kstate \<Rightarrow> kstate option" where
  "fileclose f s = do {
     s \<leftarrow> acq Lftable s;
     if f_ref (ftable s f) < 1 then None
     else do {
       let s = upd_file f (\<lambda>f. f\<lparr>f_ref := f_ref f - 1\<rparr>) s;
       if f_ref (ftable s f) > 0 then rel Lftable s
       else do {
         let ff = ftable s f;
         s \<leftarrow> rel Lftable (upd_file f (\<lambda>f. f\<lparr>f_ref := 0, f_type := FD_NONE\<rparr>) s);
         if f_type ff = FD_PIPE then pipeclose (f_pipe ff) (f_writable ff) s
         else if f_type ff = FD_INODE \<or> f_type ff = FD_DEVICE then do {
           ip \<leftarrow> f_ip ff;
           s \<leftarrow> begin_op s;
           s \<leftarrow> iput ip s;
           end_op s
         }
         else Some s
       }
     }
   }"

definition pipealloc :: "kstate \<Rightarrow> ((nat \<times> nat) option \<times> kstate) option" where
  "pipealloc s = do {
     (f0, s) \<leftarrow> filealloc s;
     case f0 of
       None \<Rightarrow> Some (None, s)
     | Some f0 \<Rightarrow> do {
         (f1, s) \<leftarrow> filealloc s;
         case f1 of
           None \<Rightarrow> do { s \<leftarrow> fileclose f0 s; Some (None, s) }
         | Some f1 \<Rightarrow> do {
             (pi, s) \<leftarrow> kalloc s;
             if pi = 0 then do {
               s \<leftarrow> fileclose f0 s;
               s \<leftarrow> fileclose f1 s;
               Some (None, s)
             }
             else
               let s = upd_pipe pi (\<lambda>p. p\<lparr>pi_readopen := True, pi_writeopen := True, pi_nwrite := 0, pi_nread := 0\<rparr>) s;
                   s = s\<lparr>sync := initlock (Lpipe pi) (sync s)\<rparr>;
                   s = upd_file f0 (\<lambda>f. f\<lparr>f_type := FD_PIPE, f_readable := True, f_writable := False, f_pipe := pi\<rparr>) s;
                   s = upd_file f1 (\<lambda>f. f\<lparr>f_type := FD_PIPE, f_readable := False, f_writable := True, f_pipe := pi\<rparr>) s in
               Some (Some (f0, f1), s)
           }
       }
   }"

text \<open>
  \<open>struct stat\<close> as bytes: \<open>dev\<close>, \<open>ino\<close>, \<open>type\<close>, \<open>nlink\<close>, four bytes of padding (whatever the stack held),
  \<open>size\<close>.
\<close>

definition stat_bytes :: "nat \<times> nat \<times> int \<times> int \<times> 32 word \<Rightarrow> (nat \<Rightarrow> byte) \<Rightarrow> nat \<Rightarrow> byte" where
  "stat_bytes st pad k =
     (case st of (dev, ino, type, nlink, sz) \<Rightarrow>
        if k < 4 then ucast (drop_bit (8 * k) (of_nat dev :: 32 word))
        else if k < 8 then ucast (drop_bit (8 * (k - 4)) (of_nat ino :: 32 word))
        else if k < 10 then ucast (drop_bit (8 * (k - 8)) (word_of_int type :: 16 word))
        else if k < 12 then ucast (drop_bit (8 * (k - 10)) (word_of_int nlink :: 16 word))
        else if k < 16 then pad k
        else ucast (drop_bit (8 * (k - 16)) (ucast sz :: 64 word)))"

definition filestat :: "(nat \<Rightarrow> byte) \<Rightarrow> nat \<Rightarrow> addr \<Rightarrow> kstate \<Rightarrow> (int \<times> kstate) option" where
  "filestat pad f addr s = do {
     p \<leftarrow> myproc s;
     if f_type (ftable s f) = FD_INODE \<or> f_type (ftable s f) = FD_DEVICE then do {
       ip \<leftarrow> f_ip (ftable s f);
       s \<leftarrow> ilock ip s;
       let st = stati ip s;
       s \<leftarrow> iunlock ip s;
       (r, s) \<leftarrow> copyout (p_pagetable (procs s p)) addr (stat_bytes st pad) 24 s;
       Some (if r < 0 then -1 else 0, s)
     }
     else Some (-1, s)
   }"

type_synonym devop = "bool \<Rightarrow> addr \<Rightarrow> int \<Rightarrow> kstate \<Rightarrow> ((int, int) blk \<times> kstate) option"

definition fileread :: "(int \<Rightarrow> devop option) \<Rightarrow> nat \<Rightarrow> addr \<Rightarrow> int \<Rightarrow> kstate \<Rightarrow> ((int, int) blk \<times> kstate) option" where
  "fileread devread f addr n s =
     (let ff = ftable s f in
      if \<not> f_readable ff then Some (Done (-1), s)
      else case f_type ff of
        FD_PIPE \<Rightarrow> map_option (\<lambda>(r, s). (map_blk (\<lambda>v. v) (\<lambda>_. 0) r, s)) (piperead (f_pipe ff) addr n s)
      | FD_DEVICE \<Rightarrow>
          (if f_major ff < 0 \<or> f_major ff \<ge> NDEV then Some (Done (-1), s)
           else case devread (f_major ff) of None \<Rightarrow> Some (Done (-1), s) | Some rd \<Rightarrow> rd True addr n s)
      | FD_INODE \<Rightarrow> do {
          ip \<leftarrow> f_ip ff;
          s \<leftarrow> ilock ip s;
          ((r, _), s) \<leftarrow> readi ip True addr (f_off (ftable s f)) (word_of_int n) s;
          let s = (if r > 0 then upd_file f (\<lambda>x. x\<lparr>f_off := f_off x + word_of_int r\<rparr>) s else s);
          s \<leftarrow> iunlock ip s;
          Some (Done r, s)
        }
      | FD_NONE \<Rightarrow> None)"

text \<open>\<open>((MAXOPBLOCKS-1-1-2) / 2) * BSIZE\<close>: what one transaction may write.\<close>

definition write_max :: int where
  "write_max = (int MAXOPBLOCKS - 1 - 1 - 2) div 2 * int BSIZE"

partial_function (option) filewrite_loop :: "nat \<Rightarrow> nat \<Rightarrow> addr \<Rightarrow> int \<Rightarrow> int \<Rightarrow> kstate \<Rightarrow> (int \<times> kstate) option" where
  "filewrite_loop f ip addr n i s =
     (if i < n then do {
        let n1 = (if n - i > write_max then write_max else n - i);
        s \<leftarrow> begin_op s;
        s \<leftarrow> ilock ip s;
        (r, s) \<leftarrow> writei ip (User (addr + word_of_int i)) (f_off (ftable s f)) (word_of_int n1) s;
        let s = (if r > 0 then upd_file f (\<lambda>x. x\<lparr>f_off := f_off x + word_of_int r\<rparr>) s else s);
        s \<leftarrow> iunlock ip s;
        s \<leftarrow> end_op s;
        if r \<noteq> n1 then Some (i, s) else filewrite_loop f ip addr n (i + r) s
      }
      else Some (i, s))"

definition filewrite :: "(int \<Rightarrow> devop option) \<Rightarrow> nat \<Rightarrow> addr \<Rightarrow> int \<Rightarrow> kstate \<Rightarrow> ((int, int) blk \<times> kstate) option" where
  "filewrite devwrite f addr n s =
     (let ff = ftable s f in
      if \<not> f_writable ff then Some (Done (-1), s)
      else case f_type ff of
        FD_PIPE \<Rightarrow> pipewrite (f_pipe ff) addr n s
      | FD_DEVICE \<Rightarrow>
          (if f_major ff < 0 \<or> f_major ff \<ge> NDEV then Some (Done (-1), s)
           else case devwrite (f_major ff) of None \<Rightarrow> Some (Done (-1), s) | Some wr \<Rightarrow> wr True addr n s)
      | FD_INODE \<Rightarrow> do {
          ip \<leftarrow> f_ip ff;
          (i, s) \<leftarrow> filewrite_loop f ip addr n 0 s;
          Some (Done (if i = n then n else -1), s)
        }
      | FD_NONE \<Rightarrow> None)"

end
