(* ===== verification/Proc.thy ===== *)
theory Proc
  imports File
begin

text \<open>
  Creating, ending and waiting for processes (\<open>kernel/proc.c\<close>: \<open>allocproc\<close>, \<open>freeproc\<close>, \<open>kfork\<close>, \<open>kforkn\<close>,
  \<open>kthread_create\<close>, \<open>kexit\<close>, \<open>kwait\<close>, \<open>kwaitpid\<close>, \<open>growproc\<close> and their helpers).  The trapframe of a process is the
  page at \<open>p_trapframe\<close>, its registers double words at the offsets of \<open>struct trapframe\<close>.
\<close>

section \<open>Trapframe\<close>

definition TF_epc :: addr where "TF_epc = 24"
definition TF_ra :: addr where "TF_ra = 40"
definition TF_a0 :: addr where "TF_a0 = 112"
definition TF_a7 :: addr where "TF_a7 = 168"
definition TF_SIZE :: nat where "TF_SIZE = 288"

definition tf_get :: "addr \<Rightarrow> nat \<Rightarrow> kstate \<Rightarrow> 64 word" where
  "tf_get reg p s = ld64 (mem s) (p_trapframe (procs s p) + reg)"

definition tf_set :: "addr \<Rightarrow> 64 word \<Rightarrow> nat \<Rightarrow> kstate \<Rightarrow> kstate" where
  "tf_set reg v p s = s\<lparr>mem := st64 (mem s) (p_trapframe (procs s p) + reg) v\<rparr>"

section \<open>Page tables of processes\<close>

definition proc_pagetable :: "nat \<Rightarrow> kstate \<Rightarrow> (addr \<times> kstate) option" where
  "proc_pagetable p s = do {
     (pagetable, s) \<leftarrow> uvmcreate s;
     if pagetable = 0 then Some (0, s)
     else do {
       (r, s) \<leftarrow> mappages pagetable TRAMPOLINE PGSIZE (ktramp s) (PTE_R OR PTE_X) s;
       if r < 0 then do { s \<leftarrow> uvmfree pagetable 0 s; Some (0, s) }
       else do {
         (r, s) \<leftarrow> mappages pagetable TRAPFRAME PGSIZE (p_trapframe (procs s p)) (PTE_R OR PTE_W) s;
         if r < 0 then do {
           s \<leftarrow> uvmunmap pagetable TRAMPOLINE 1 False s;
           s \<leftarrow> uvmfree pagetable 0 s;
           Some (0, s)
         }
         else Some (pagetable, s)
       }
     }
   }"

definition proc_freepagetable :: "addr \<Rightarrow> addr \<Rightarrow> kstate \<Rightarrow> kstate option" where
  "proc_freepagetable pagetable sz s = do {
     s \<leftarrow> uvmunmap pagetable TRAMPOLINE 1 False s;
     s \<leftarrow> uvmunmap pagetable TRAPFRAME 1 False s;
     uvmfree pagetable sz s
   }"

definition growproc :: "int \<Rightarrow> kstate \<Rightarrow> (int \<times> kstate) option" where
  "growproc n s = do {
     p \<leftarrow> myproc s;
     let sz = p_sz (procs s p);
     if n > 0 then
       if sz + word_of_int n > TRAPFRAME then Some (-1, s)
       else do {
         (sz, s) \<leftarrow> uvmalloc (p_pagetable (procs s p)) sz (sz + word_of_int n) PTE_W s;
         if sz = 0 then Some (-1, s)
         else Some (0, upd_proc p (\<lambda>p. p\<lparr>p_sz := sz\<rparr>) s)
       }
     else if n < 0 then do {
       (sz, s) \<leftarrow> uvmdealloc (p_pagetable (procs s p)) sz (sz + word_of_int n) s;
       Some (0, upd_proc p (\<lambda>p. p\<lparr>p_sz := sz\<rparr>) s)
     }
     else Some (0, upd_proc p (\<lambda>p. p\<lparr>p_sz := sz\<rparr>) s)
   }"

section \<open>Process entries\<close>

text \<open>Giving up the pages and the slot of a shared memory segment that nobody is attached to.\<close>

abbreviation upd_shm :: "nat \<Rightarrow> (shmseg \<Rightarrow> shmseg) \<Rightarrow> kstate \<Rightarrow> kstate" where
  "upd_shm i f s \<equiv> s\<lparr>shmtable := (shmtable s)(i := f (shmtable s i))\<rparr>"

fun shm_free_pages :: "nat \<Rightarrow> nat list \<Rightarrow> kstate \<Rightarrow> kstate option" where
  "shm_free_pages i [] s = Some s"
| "shm_free_pages i (j # js) s = do {
     s \<leftarrow> kfree (sh_pa (shmtable s i) j) s;
     shm_free_pages i js (upd_shm i (\<lambda>g. g\<lparr>sh_pa := (sh_pa g)(j := 0)\<rparr>) s)
   }"

definition shm_release :: "nat \<Rightarrow> kstate \<Rightarrow> kstate option" where
  "shm_release i s =
     (if sh_refcount (shmtable s i) \<le> 0 then do {
        s \<leftarrow> shm_free_pages i [0..<sh_npages (shmtable s i)] s;
        Some (upd_shm i (\<lambda>g. g\<lparr>sh_used := False, sh_key := 0, sh_size := 0, sh_npages := 0, sh_refcount := 0\<rparr>) s)
      }
      else Some s)"

text \<open>Detaching segment \<open>i\<close> from process \<open>p\<close>: unmap, forget the address, drop the reference.\<close>

definition shm_detach :: "nat \<Rightarrow> nat \<Rightarrow> kstate \<Rightarrow> kstate option" where
  "shm_detach i p s = do {
     s \<leftarrow> uvmunmap (p_pagetable (procs s p)) (p_shm_va (procs s p) i) (of_nat (sh_npages (shmtable s i))) False s;
     let s = upd_proc p (\<lambda>p. p\<lparr>p_shm_va := (p_shm_va p)(i := 0)\<rparr>) s;
     shm_release i (upd_shm i (\<lambda>g. g\<lparr>sh_refcount := sh_refcount g - 1\<rparr>) s)
   }"

fun shm_detach_all :: "nat \<Rightarrow> nat list \<Rightarrow> kstate \<Rightarrow> kstate option" where
  "shm_detach_all p [] s = Some s"
| "shm_detach_all p (i # is) s =
     (if p_shm_va (procs s p) i \<noteq> 0 \<and> sh_used (shmtable s i) then do {
        s \<leftarrow> shm_detach i p s;
        shm_detach_all p is s
      }
      else shm_detach_all p is s)"

definition freeproc :: "nat \<Rightarrow> kstate \<Rightarrow> kstate option" where
  "freeproc p s = do {
     s \<leftarrow> acq Lshm s;
     s \<leftarrow> shm_detach_all p [0..<MAX_SHM] s;
     s \<leftarrow> rel Lshm s;
     s \<leftarrow> (if p_trapframe (procs s p) \<noteq> 0 then kfree (p_trapframe (procs s p)) s else Some s);
     let s = upd_proc p (\<lambda>p. p\<lparr>p_trapframe := 0\<rparr>) s;
     s \<leftarrow> (if p_pagetable (procs s p) \<noteq> 0 then proc_freepagetable (p_pagetable (procs s p)) (p_sz (procs s p)) s else Some s);
     Some (upd_proc p (\<lambda>p. p\<lparr>p_pagetable := 0, p_sz := 0, p_pid := 0, p_parent := None, p_name := [], p_chan := None,
       p_killed := 0, p_frozen := 0, p_xstate := 0, p_state := UNUSED\<rparr>) s)
   }"

text \<open>The search for an \<open>UNUSED\<close> entry, which stays locked.\<close>

fun alloc_scan :: "nat list \<Rightarrow> kstate \<Rightarrow> (nat option \<times> kstate) option" where
  "alloc_scan [] s = Some (None, s)"
| "alloc_scan (p # ps) s = do {
     s \<leftarrow> acq (Lproc p) s;
     if p_state (procs s p) = UNUSED then Some (Some p, s)
     else do {
       s \<leftarrow> rel (Lproc p) s;
       alloc_scan ps s
     }
   }"

definition allocproc :: "kstate \<Rightarrow> (nat option \<times> kstate) option" where
  "allocproc s = do {
     (r, s) \<leftarrow> alloc_scan [0..<NPROC] s;
     case r of
       None \<Rightarrow> Some (None, s)
     | Some p \<Rightarrow> do {
         (pid, s) \<leftarrow> allocpid s;
         let s = upd_proc p (\<lambda>x. x\<lparr>p_pid := pid, p_state := USED, p_frozen := 0,
             p_shm_va := \<lambda>i. if i < MAX_SHM then 0 else p_shm_va x i\<rparr>) s;
         (tf, s) \<leftarrow> kalloc s;
         let s = upd_proc p (\<lambda>p. p\<lparr>p_trapframe := tf\<rparr>) s;
         if tf = 0 then do {
           s \<leftarrow> freeproc p s;
           s \<leftarrow> rel (Lproc p) s;
           Some (None, s)
         }
         else do {
           (pagetable, s) \<leftarrow> proc_pagetable p s;
           let s = upd_proc p (\<lambda>p. p\<lparr>p_pagetable := pagetable\<rparr>) s;
           if pagetable = 0 then do {
             s \<leftarrow> freeproc p s;
             s \<leftarrow> rel (Lproc p) s;
             Some (None, s)
           }
           else Some (Some p, upd_proc p (\<lambda>x. x\<lparr>p_context := \<lparr>ctx_ra = kforkret s, ctx_sp = p_kstack x + PGSIZE, ctx_s = \<lambda>_. 0\<rparr>\<rparr>) s)
         }
       }
   }"

definition userinit :: "kstate \<Rightarrow> kstate option" where
  "userinit s = do {
     (r, s) \<leftarrow> allocproc s;
     p \<leftarrow> r;
     (ip, s) \<leftarrow> namei [47] (s\<lparr>initproc := Some p\<rparr>);
     let s = upd_proc p (\<lambda>p. p\<lparr>p_cwd := ip\<rparr>) s;
     rel (Lproc p) (upd_proc p (\<lambda>p. p\<lparr>p_state := RUNNABLE\<rparr>) s)
   }"

fun dup_files :: "nat \<Rightarrow> nat \<Rightarrow> nat list \<Rightarrow> kstate \<Rightarrow> kstate option" where
  "dup_files p np [] s = Some s"
| "dup_files p np (i # is) s =
     (case p_ofile (procs s p) i of
        None \<Rightarrow> dup_files p np is s
      | Some f \<Rightarrow> do {
          s \<leftarrow> filedup f s;
          dup_files p np is (upd_proc np (\<lambda>x. x\<lparr>p_ofile := (p_ofile x)(i \<mapsto> f)\<rparr>) s)
        })"

text \<open>
  What \<open>kfork\<close> and \<open>kthread_create\<close> share: a new process with a copy of the caller's memory, and, once its
  registers are set up by \<open>regs\<close>, of its open files, directory and name.
\<close>

definition clone_proc :: "(nat \<Rightarrow> kstate \<Rightarrow> kstate) \<Rightarrow> nat \<Rightarrow> kstate \<Rightarrow> (int \<times> kstate) option" where
  "clone_proc regs p s = do {
     (r, s) \<leftarrow> allocproc s;
     case r of
       None \<Rightarrow> Some (-1, s)
     | Some np \<Rightarrow> do {
         (r, s) \<leftarrow> uvmcopy (p_pagetable (procs s p)) (p_pagetable (procs s np)) (p_sz (procs s p)) s;
         if r < 0 then do {
           s \<leftarrow> freeproc np s;
           s \<leftarrow> rel (Lproc np) s;
           Some (-1, s)
         }
         else do {
           let s = upd_proc np (\<lambda>x. x\<lparr>p_sz := p_sz (procs s p)\<rparr>) s;
           let s = s\<lparr>mem := memmove (mem s) (p_trapframe (procs s np)) (p_trapframe (procs s p)) TF_SIZE\<rparr>;
           s \<leftarrow> dup_files p np [0..<NOFILE] (regs np s);
           cwd \<leftarrow> p_cwd (procs s p);
           s \<leftarrow> idup cwd s;
           let s = upd_proc np (\<lambda>x. x\<lparr>p_cwd := Some cwd, p_name := take 15 (p_name (procs s p))\<rparr>) s;
           let pid = p_pid (procs s np);
           s \<leftarrow> rel (Lproc np) s;
           s \<leftarrow> acq Lwait s;
           s \<leftarrow> rel Lwait (upd_proc np (\<lambda>x. x\<lparr>p_parent := Some p\<rparr>) s);
           s \<leftarrow> acq (Lproc np) s;
           s \<leftarrow> rel (Lproc np) (upd_proc np (\<lambda>x. x\<lparr>p_state := RUNNABLE\<rparr>) s);
           Some (pid, s)
         }
       }
   }"

definition kfork :: "kstate \<Rightarrow> (int \<times> kstate) option" where
  "kfork s = do {
     p \<leftarrow> myproc s;
     clone_proc (tf_set TF_a0 0) p s
   }"

fun kforkn_loop :: "nat \<Rightarrow> int \<Rightarrow> kstate \<Rightarrow> (int \<times> kstate) option" where
  "kforkn_loop 0 created s = Some (created, s)"
| "kforkn_loop (Suc n) created s = do {
     (rc, s) \<leftarrow> kfork s;
     if rc < 0 then Some (created, s)
     else if rc = 0 then Some (0, s)
     else kforkn_loop n (created + 1) s
   }"

definition kforkn :: "int \<Rightarrow> kstate \<Rightarrow> (int \<times> kstate) option" where
  "kforkn n s = kforkn_loop (nat n) 0 s"

definition kthread_create :: "addr \<Rightarrow> addr \<Rightarrow> kstate \<Rightarrow> (int \<times> kstate) option" where
  "kthread_create fn arg s = do {
     p \<leftarrow> myproc s;
     if fn \<ge> p_sz (procs s p) then Some (-1, s)
     else clone_proc (\<lambda>np s. tf_set TF_ra 0 np (tf_set TF_a0 arg np (tf_set TF_epc fn np s))) p s
   }"

section \<open>Exit and wait\<close>

fun reparent_loop :: "nat \<Rightarrow> nat list \<Rightarrow> kstate \<Rightarrow> kstate option" where
  "reparent_loop p [] s = Some s"
| "reparent_loop p (pp # pps) s =
     (if p_parent (procs s pp) = Some p then do {
        let s = upd_proc pp (\<lambda>x. x\<lparr>p_parent := initproc s\<rparr>) s;
        s \<leftarrow> wakeup_ptr (map_option Cproc (initproc s)) s;
        reparent_loop p pps s
      }
      else reparent_loop p pps s)"

definition reparent :: "nat \<Rightarrow> kstate \<Rightarrow> kstate option" where
  "reparent p s = reparent_loop p [0..<NPROC] s"

fun close_files :: "nat \<Rightarrow> nat list \<Rightarrow> kstate \<Rightarrow> kstate option" where
  "close_files p [] s = Some s"
| "close_files p (fd # fds) s =
     (case p_ofile (procs s p) fd of
        None \<Rightarrow> close_files p fds s
      | Some f \<Rightarrow> do {
          s \<leftarrow> fileclose f s;
          close_files p fds (upd_proc p (\<lambda>x. x\<lparr>p_ofile := (p_ofile x)(fd := None)\<rparr>) s)
        })"

text \<open>
  The end of \<open>kexit\<close>, from \<open>acquire(&wait_lock)\<close> on; the result is the state in which the scheduler goes on.
\<close>

definition exit_tail :: "int \<Rightarrow> nat \<Rightarrow> kstate \<Rightarrow> kstate option" where
  "exit_tail status p s = do {
     s \<leftarrow> acq Lwait s;
     s \<leftarrow> reparent p s;
     s \<leftarrow> wakeup_ptr (map_option Cproc (p_parent (procs s p))) s;
     s \<leftarrow> acq (Lproc p) s;
     s \<leftarrow> rel Lwait (upd_proc p (\<lambda>x. x\<lparr>p_xstate := status, p_state := ZOMBIE\<rparr>) s);
     (_, s) \<leftarrow> sched_out s;
     scheduler_back p s
   }"

definition kexit :: "int \<Rightarrow> kstate \<Rightarrow> kstate option" where
  "kexit status s = do {
     p \<leftarrow> myproc s;
     if Some p = initproc s then None
     else do {
       s \<leftarrow> close_files p [0..<NOFILE] s;
       s \<leftarrow> begin_op s;
       cwd \<leftarrow> p_cwd (procs s p);
       s \<leftarrow> iput cwd s;
       s \<leftarrow> end_op s;
       exit_tail status p (upd_proc p (\<lambda>x. x\<lparr>p_cwd := None\<rparr>) s)
     }
   }"

definition int_bytes :: "int \<Rightarrow> nat \<Rightarrow> byte" where
  "int_bytes v k = ucast (drop_bit (8 * k) (word_of_int v :: 32 word))"

text \<open>
  A child that has exited: store its status, free it, and return its pid with both locks released.
\<close>

definition reap :: "nat \<Rightarrow> nat \<Rightarrow> addr \<Rightarrow> kstate \<Rightarrow> (int \<times> kstate) option" where
  "reap p pp addr s = do {
     let pid = p_pid (procs s pp);
     (r, s) \<leftarrow> (if addr \<noteq> 0 then copyout (p_pagetable (procs s p)) addr (int_bytes (p_xstate (procs s pp))) 4 s else Some (0, s));
     if r < 0 then do {
       s \<leftarrow> rel (Lproc pp) s;
       s \<leftarrow> rel Lwait s;
       Some (-1, s)
     }
     else do {
       s \<leftarrow> freeproc pp s;
       s \<leftarrow> rel (Lproc pp) s;
       s \<leftarrow> rel Lwait s;
       Some (pid, s)
     }
   }"

text \<open>The scan of \<open>kwait\<close>: \<open>Inl\<close> is the value it returns, \<open>Inr\<close> whether there are children.\<close>

fun kwait_scan :: "nat \<Rightarrow> addr \<Rightarrow> nat list \<Rightarrow> bool \<Rightarrow> kstate \<Rightarrow> ((int + bool) \<times> kstate) option" where
  "kwait_scan p addr [] havekids s = Some (Inr havekids, s)"
| "kwait_scan p addr (pp # pps) havekids s =
     (if p_parent (procs s pp) = Some p then do {
        s \<leftarrow> acq (Lproc pp) s;
        if p_state (procs s pp) = ZOMBIE then do {
          (r, s) \<leftarrow> reap p pp addr s;
          Some (Inl r, s)
        }
        else do {
          s \<leftarrow> rel (Lproc pp) s;
          kwait_scan p addr pps True s
        }
      }
      else kwait_scan p addr pps havekids s)"

text \<open>The scan of \<open>kwaitpid\<close> stops at the requested child.\<close>

fun kwaitpid_scan :: "nat \<Rightarrow> int \<Rightarrow> addr \<Rightarrow> nat list \<Rightarrow> kstate \<Rightarrow> ((int + bool) \<times> kstate) option" where
  "kwaitpid_scan p target addr [] s = Some (Inr False, s)"
| "kwaitpid_scan p target addr (pp # pps) s =
     (if p_parent (procs s pp) = Some p \<and> p_pid (procs s pp) = target then do {
        s \<leftarrow> acq (Lproc pp) s;
        if p_state (procs s pp) = ZOMBIE then do {
          (r, s) \<leftarrow> reap p pp addr s;
          Some (Inl r, s)
        }
        else do {
          s \<leftarrow> rel (Lproc pp) s;
          Some (Inr True, s)
        }
      }
      else kwaitpid_scan p target addr pps s)"

text \<open>What both do after the scan: give up without a child or when killed, sleep otherwise.\<close>

definition wait_or_sleep :: "nat \<Rightarrow> (int + bool) \<times> kstate \<Rightarrow> ((int, unit) blk \<times> kstate) option" where
  "wait_or_sleep p = (\<lambda>(r, s). case r of
       Inl v \<Rightarrow> Some (Done v, s)
     | Inr havekids \<Rightarrow> do {
         (k, s) \<leftarrow> (if havekids then killed p s else Some (1, s));
         if k \<noteq> 0 then do {
           s \<leftarrow> rel Lwait s;
           Some (Done (-1), s)
         }
         else asleep () (sleep_out (Cproc p) Lwait s)
       })"

definition kwait_loop :: "nat \<Rightarrow> addr \<Rightarrow> kstate \<Rightarrow> ((int, unit) blk \<times> kstate) option" where
  "kwait_loop p addr s = Option.bind (kwait_scan p addr [0..<NPROC] False s) (wait_or_sleep p)"

definition kwait :: "addr \<Rightarrow> kstate \<Rightarrow> ((int, unit) blk \<times> kstate) option" where
  "kwait addr s = do {
     p \<leftarrow> myproc s;
     s \<leftarrow> acq Lwait s;
     kwait_loop p addr s
   }"

definition kwait_resume :: "addr \<Rightarrow> nat \<Rightarrow> bool \<Rightarrow> kstate \<Rightarrow> ((int, unit) blk \<times> kstate) option" where
  "kwait_resume addr p intena s = do {
     s \<leftarrow> sleep_in p Lwait intena s;
     kwait_loop p addr s
   }"

definition kwaitpid_loop :: "nat \<Rightarrow> int \<Rightarrow> addr \<Rightarrow> kstate \<Rightarrow> ((int, unit) blk \<times> kstate) option" where
  "kwaitpid_loop p target addr s = Option.bind (kwaitpid_scan p target addr [0..<NPROC] s) (wait_or_sleep p)"

definition kwaitpid :: "int \<Rightarrow> addr \<Rightarrow> kstate \<Rightarrow> ((int, unit) blk \<times> kstate) option" where
  "kwaitpid target addr s = do {
     p \<leftarrow> myproc s;
     if target \<le> 0 then Some (Done (-1), s)
     else do {
       s \<leftarrow> acq Lwait s;
       kwaitpid_loop p target addr s
     }
   }"

definition kwaitpid_resume :: "int \<Rightarrow> addr \<Rightarrow> nat \<Rightarrow> bool \<Rightarrow> kstate \<Rightarrow> ((int, unit) blk \<times> kstate) option" where
  "kwaitpid_resume target addr p intena s = do {
     s \<leftarrow> sleep_in p Lwait intena s;
     kwaitpid_loop p target addr s
   }"

end
