(* ===== verification/Args.thy ===== *)
theory Args
  imports Proc
begin

text \<open>
  Fetching system call arguments (\<open>kernel/syscall.c\<close>): the registers \<open>a0\<close> to \<open>a5\<close> of the trapframe, an \<open>int\<close>
  argument being the low 32 bits read as a signed number, and strings and words of user memory.
  A buffer that the code fills is the list of bytes it then holds.
\<close>

definition argraw :: "nat \<Rightarrow> kstate \<Rightarrow> addr option" where
  "argraw n s = do {
     p \<leftarrow> myproc s;
     if n < 6 then Some (tf_get (TF_a0 + 8 * of_nat n) p s) else None
   }"

definition argint :: "nat \<Rightarrow> kstate \<Rightarrow> int option" where
  "argint n s = do {
     v \<leftarrow> argraw n s;
     Some (sint (ucast v :: 32 word))
   }"

definition argaddr :: "nat \<Rightarrow> kstate \<Rightarrow> addr option" where
  "argaddr n s = argraw n s"

definition fetchaddr :: "addr \<Rightarrow> kstate \<Rightarrow> ((int \<times> addr) \<times> kstate) option" where
  "fetchaddr addr s = do {
     p \<leftarrow> myproc s;
     if addr \<ge> p_sz (procs s p) \<or> addr + 8 > p_sz (procs s p) then Some ((-1, 0), s)
     else do {
       ((r, bs), s) \<leftarrow> copyin (p_pagetable (procs s p)) addr 8 s;
       if r \<noteq> 0 then Some ((-1, 0), s) else Some ((0, ld64 (\<lambda>a. bs ! unat a) 0), s)
     }
   }"

text \<open>The string without its final 0, and its length or -1.\<close>

definition fetchstr :: "addr \<Rightarrow> nat \<Rightarrow> kstate \<Rightarrow> ((int \<times> byte list) \<times> kstate) option" where
  "fetchstr addr maxlen s = do {
     p \<leftarrow> myproc s;
     ((r, bs), s) \<leftarrow> copyinstr (p_pagetable (procs s p)) addr (of_nat maxlen) s;
     if r < 0 then Some ((-1, []), s) else Some ((int (length bs) - 1, butlast bs), s)
   }"

definition argstr :: "nat \<Rightarrow> nat \<Rightarrow> kstate \<Rightarrow> ((int \<times> byte list) \<times> kstate) option" where
  "argstr n maxlen s = do {
     addr \<leftarrow> argaddr n s;
     fetchstr addr maxlen s
   }"

text \<open>A C \<open>int\<close> result as the \<open>uint64\<close> a system call returns.\<close>

abbreviation ret64 :: "int \<Rightarrow> addr" where
  "ret64 r \<equiv> word_of_int r"

text \<open>What a sleeping system call has to remember.\<close>

datatype kcont =
  Kwait addr
| Kwaitpid int addr
| Kpause int "32 word"
| Kmutex int
| Kpipewrite addr addr int int
| Kpiperead addr addr int
| Kdevice int

end
