(* ===== verification/KMutex.thy ===== *)
theory KMutex
  imports Args
begin

text \<open>
  The kernel mutexes (\<open>kernel/sysproc.c\<close>: \<open>sys_mutex_create\<close>, \<open>sys_mutex_lock\<close>, \<open>sys_mutex_unlock\<close>,
  \<open>sys_mutex_trylock\<close>, \<open>sys_mutex_owner\<close>).  The body of each system call behind its \<open>argint\<close> is a function
  of the mutex number.  \<open>mutex_lock\<close> may sleep: \<open>mutex_lock_loop\<close> is one round of its loop, entered with
  \<open>wait_lock\<close> held, and \<open>mutex_lock_resume\<close> is the code from the end of a sleep on.
\<close>

definition mutex_create :: "kstate \<Rightarrow> (int \<times> kstate) option" where
  "mutex_create s = do {
     s \<leftarrow> acq Lwait s;
     case find_idx (\<lambda>m. \<not> mx_used m) (kmutex_table s) of
       Some i \<Rightarrow> do {
         s \<leftarrow> rel Lwait (s\<lparr>kmutex_table := (kmutex_table s)[i := \<lparr>mx_used = True, mx_locked = False, mx_owner_pid = -1\<rparr>]\<rparr>);
         Some (int i, s)
       }
     | None \<Rightarrow> do {
         s \<leftarrow> rel Lwait s;
         Some (-1, s)
       }
   }"

abbreviation bad_mutex :: "int \<Rightarrow> bool" where
  "bad_mutex mid \<equiv> mid < 0 \<or> mid \<ge> int NKMUTEX"

abbreviation mutex_of :: "int \<Rightarrow> kstate \<Rightarrow> kmutex_entry" where
  "mutex_of mid s \<equiv> kmutex_table s ! nat mid"

abbreviation upd_mutex :: "int \<Rightarrow> (kmutex_entry \<Rightarrow> kmutex_entry) \<Rightarrow> kstate \<Rightarrow> kstate" where
  "upd_mutex mid f s \<equiv> s\<lparr>kmutex_table := (kmutex_table s)[nat mid := f (kmutex_table s ! nat mid)]\<rparr>"

definition mutex_lock_loop :: "int \<Rightarrow> nat \<Rightarrow> kstate \<Rightarrow> ((int, int) blk \<times> kstate) option" where
  "mutex_lock_loop mid p s =
     (if \<not> mx_used (mutex_of mid s) then do {
        s \<leftarrow> rel Lwait s;
        Some (Done (-1), s)
      }
      else if \<not> mx_locked (mutex_of mid s) then do {
        s \<leftarrow> rel Lwait (upd_mutex mid (\<lambda>m. m\<lparr>mx_locked := True, mx_owner_pid := p_pid (procs s p)\<rparr>) s);
        Some (Done 0, s)
      }
      else if mx_owner_pid (mutex_of mid s) = p_pid (procs s p) then do {
        s \<leftarrow> rel Lwait s;
        Some (Done (-1), s)
      }
      else asleep mid (sleep_out (Cmutex (nat mid)) Lwait s))"

definition mutex_lock :: "int \<Rightarrow> kstate \<Rightarrow> ((int, int) blk \<times> kstate) option" where
  "mutex_lock mid s =
     (if bad_mutex mid then Some (Done (-1), s)
      else do {
        p \<leftarrow> myproc s;
        s \<leftarrow> acq Lwait s;
        mutex_lock_loop mid p s
      })"

definition mutex_lock_resume :: "int \<Rightarrow> nat \<Rightarrow> bool \<Rightarrow> kstate \<Rightarrow> ((int, int) blk \<times> kstate) option" where
  "mutex_lock_resume mid p intena s = do {
     s \<leftarrow> sleep_in p Lwait intena s;
     (k, s) \<leftarrow> killed p s;
     if k \<noteq> 0 then do {
       s \<leftarrow> rel Lwait s;
       Some (Done (-1), s)
     }
     else mutex_lock_loop mid p s
   }"

definition mutex_unlock :: "int \<Rightarrow> kstate \<Rightarrow> (int \<times> kstate) option" where
  "mutex_unlock mid s =
     (if bad_mutex mid then Some (-1, s)
      else do {
        p \<leftarrow> myproc s;
        s \<leftarrow> acq Lwait s;
        if \<not> mx_used (mutex_of mid s) \<or> \<not> mx_locked (mutex_of mid s) then do {
          s \<leftarrow> rel Lwait s;
          Some (-1, s)
        }
        else if mx_owner_pid (mutex_of mid s) \<noteq> p_pid (procs s p) then do {
          s \<leftarrow> rel Lwait s;
          Some (-1, s)
        }
        else do {
          let s = upd_mutex mid (\<lambda>m. m\<lparr>mx_locked := False, mx_owner_pid := -1\<rparr>) s;
          s \<leftarrow> wakeup (Cmutex (nat mid)) s;
          s \<leftarrow> rel Lwait s;
          Some (0, s)
        }
      })"

definition mutex_trylock :: "int \<Rightarrow> kstate \<Rightarrow> (int \<times> kstate) option" where
  "mutex_trylock mid s =
     (if bad_mutex mid then Some (-1, s)
      else do {
        p \<leftarrow> myproc s;
        s \<leftarrow> acq Lwait s;
        if \<not> mx_used (mutex_of mid s) then do {
          s \<leftarrow> rel Lwait s;
          Some (-1, s)
        }
        else if \<not> mx_locked (mutex_of mid s) then do {
          s \<leftarrow> rel Lwait (upd_mutex mid (\<lambda>m. m\<lparr>mx_locked := True, mx_owner_pid := p_pid (procs s p)\<rparr>) s);
          Some (0, s)
        }
        else do {
          s \<leftarrow> rel Lwait s;
          Some (-1, s)
        }
      })"

definition mutex_owner :: "int \<Rightarrow> kstate \<Rightarrow> (int \<times> kstate) option" where
  "mutex_owner mid s =
     (if bad_mutex mid then Some (-1, s)
      else do {
        s \<leftarrow> acq Lwait s;
        if \<not> mx_used (mutex_of mid s) then do {
          s \<leftarrow> rel Lwait s;
          Some (-1, s)
        }
        else do {
          let owner = (if \<not> mx_locked (mutex_of mid s) then 0 else mx_owner_pid (mutex_of mid s));
          s \<leftarrow> rel Lwait s;
          Some (owner, s)
        }
      })"

end
