(* ===== verification/Msg.thy ===== *)
theory Msg
  imports Args
begin

text \<open>
  Message queues (\<open>kernel/msg.c\<close>, \<open>kernel/msg.h\<close> and \<open>kernel/sysproc.c\<close>: \<open>sys_msgget\<close>, \<open>sys_sendmsg\<close>, \<open>sys_recvmsg\<close>,
  \<open>sys_msgcount\<close>).  The bodies of the system calls are functions of their arguments; a message keeps its
  bytes, of which the first \<open>m_len\<close> count.
\<close>

definition msginit :: "kstate \<Rightarrow> kstate" where
  "msginit s = s\<lparr>sync := initlock Lmsgq (sync s),
     msgq := map (\<lambda>q. q\<lparr>q_used := False, q_count := 0,
       q_msg := map (\<lambda>m. m\<lparr>m_valid := False, m_len := 0, m_type := 0\<rparr>) (q_msg q)\<rparr>) (msgq s)\<rparr>"

abbreviation upd_q :: "nat \<Rightarrow> (msgqueue \<Rightarrow> msgqueue) \<Rightarrow> kstate \<Rightarrow> kstate" where
  "upd_q i f s \<equiv> s\<lparr>msgq := (msgq s)[i := f (msgq s ! i)]\<rparr>"

abbreviation upd_m :: "nat \<Rightarrow> nat \<Rightarrow> (message \<Rightarrow> message) \<Rightarrow> kstate \<Rightarrow> kstate" where
  "upd_m i j f s \<equiv> upd_q i (\<lambda>q. q\<lparr>q_msg := (q_msg q)[j := f (q_msg q ! j)]\<rparr>) s"

definition msgget :: "int \<Rightarrow> kstate \<Rightarrow> (int \<times> kstate) option" where
  "msgget key s = do {
     s \<leftarrow> acq Lmsgq s;
     case find_idx (\<lambda>q. q_used q \<and> q_key q = key) (msgq s) of
       Some i \<Rightarrow> do {
         s \<leftarrow> rel Lmsgq s;
         Some (int i, s)
       }
     | None \<Rightarrow>
         (case find_idx (\<lambda>q. \<not> q_used q) (msgq s) of
            Some i \<Rightarrow> do {
              s \<leftarrow> rel Lmsgq (upd_q i (\<lambda>q. q\<lparr>q_used := True, q_key := key, q_count := 0\<rparr>) s);
              Some (int i, s)
            }
          | None \<Rightarrow> do {
              s \<leftarrow> rel Lmsgq s;
              Some (-1, s)
            })
   }"

abbreviation bad_queue :: "int \<Rightarrow> kstate \<Rightarrow> bool" where
  "bad_queue quid s \<equiv> quid < 0 \<or> quid \<ge> int MAX_Q \<or> \<not> q_used (msgq s ! nat quid)"

text \<open>\<open>return -1\<close> with the queue lock released.\<close>

definition msg_fail :: "kstate \<Rightarrow> (int \<times> kstate) option" where
  "msg_fail s = do {
     s \<leftarrow> rel Lmsgq s;
     Some (-1, s)
   }"

text \<open>The bytes of \<open>m->data\<close> after \<open>copyin\<close> stored \<open>bs\<close> at its start.\<close>

definition stored :: "byte list \<Rightarrow> (nat \<Rightarrow> byte) \<Rightarrow> nat \<Rightarrow> byte" where
  "stored bs d = (\<lambda>k. if k < length bs then bs ! k else d k)"

definition sendmsg :: "int \<Rightarrow> int \<Rightarrow> addr \<Rightarrow> int \<Rightarrow> kstate \<Rightarrow> (int \<times> kstate) option" where
  "sendmsg quid type msgptr len s = do {
     s \<leftarrow> acq Lmsgq s;
     if bad_queue quid s then msg_fail s
     else if len \<le> 0 \<or> len > int MAX_MSG_LEN then msg_fail s
     else
       let q = nat quid in
       if q_count (msgq s ! q) = int MAX_MSG then msg_fail s
       else case find_idx (\<lambda>m. \<not> m_valid m) (q_msg (msgq s ! q)) of
         None \<Rightarrow> msg_fail s
       | Some idx \<Rightarrow> do {
           let s = upd_m q idx (\<lambda>m. m\<lparr>m_type := type, m_len := len\<rparr>) s;
           p \<leftarrow> myproc s;
           ((r, bs), s) \<leftarrow> copyin (p_pagetable (procs s p)) msgptr (word_of_int len) s;
           let s = upd_m q idx (\<lambda>m. m\<lparr>m_data := stored bs (m_data m)\<rparr>) s;
           if r < 0 then msg_fail s
           else do {
             let s = upd_m q idx (\<lambda>m. m\<lparr>m_valid := True\<rparr>) s;
             s \<leftarrow> rel Lmsgq (upd_q q (\<lambda>q. q\<lparr>q_count := q_count q + 1\<rparr>) s);
             Some (0, s)
           }
         }
   }"

definition recvmsg :: "int \<Rightarrow> int \<Rightarrow> addr \<Rightarrow> int \<Rightarrow> kstate \<Rightarrow> (int \<times> kstate) option" where
  "recvmsg quid type msgptr bufflen s = do {
     s \<leftarrow> acq Lmsgq s;
     if bad_queue quid s then msg_fail s
     else
       let q = nat quid in
       case find_idx (\<lambda>m. m_valid m \<and> m_type m = type) (q_msg (msgq s ! q)) of
         None \<Rightarrow> msg_fail s
       | Some idx \<Rightarrow> do {
           let m = q_msg (msgq s ! q) ! idx;
           let copylen = (if m_len m < bufflen then m_len m else bufflen);
           p \<leftarrow> myproc s;
           (r, s) \<leftarrow> copyout (p_pagetable (procs s p)) msgptr (m_data m) (word_of_int copylen) s;
           if r < 0 then msg_fail s
           else do {
             let s = upd_m q idx (\<lambda>m. m\<lparr>m_valid := False\<rparr>) s;
             s \<leftarrow> rel Lmsgq (upd_q q (\<lambda>q. q\<lparr>q_count := q_count q - 1\<rparr>) s);
             Some (copylen, s)
           }
         }
   }"

definition msgcount :: "int \<Rightarrow> kstate \<Rightarrow> (int \<times> kstate) option" where
  "msgcount quid s = do {
     s \<leftarrow> acq Lmsgq s;
     if bad_queue quid s then msg_fail s
     else do {
       let count = q_count (msgq s ! nat quid);
       s \<leftarrow> rel Lmsgq s;
       Some (count, s)
     }
   }"

end
