(* ===== verification/Shm.thy ===== *)
theory Shm
  imports Args
begin

text \<open>
  Shared memory segments (\<open>kernel/shm.c\<close>, \<open>kernel/shm.h\<close> and \<open>kernel/sysproc.c\<close>: \<open>sys_shmget\<close>, \<open>sys_shmat\<close>, \<open>sys_shmdt\<close>).
  Detaching is shared with the end of a process and defined in \<open>Proc\<close>.
\<close>

definition shminit :: "kstate \<Rightarrow> kstate" where
  "shminit s = s\<lparr>sync := initlock Lshm (sync s)\<rparr>"

text \<open>The allocation loop of \<open>sys_shmget\<close>: whether all pages were found.\<close>

fun shm_undo :: "nat \<Rightarrow> nat list \<Rightarrow> kstate \<Rightarrow> kstate option" where
  "shm_undo i [] s = Some s"
| "shm_undo i (k # ks) s = do {
     s \<leftarrow> kfree (sh_pa (shmtable s i) k) s;
     shm_undo i ks s
   }"

fun shm_alloc :: "nat \<Rightarrow> nat list \<Rightarrow> kstate \<Rightarrow> (bool \<times> kstate) option" where
  "shm_alloc i [] s = Some (True, s)"
| "shm_alloc i (j # js) s = do {
     (memp, s) \<leftarrow> kalloc s;
     if memp = 0 then do {
       s \<leftarrow> shm_undo i [0..<j] s;
       Some (False, s)
     }
     else
       let s = s\<lparr>mem := memset (mem s) memp 0 4096\<rparr> in
       shm_alloc i js (upd_shm i (\<lambda>g. g\<lparr>sh_pa := (sh_pa g)(j := memp)\<rparr>) s)
   }"

definition shmget :: "int \<Rightarrow> int \<Rightarrow> kstate \<Rightarrow> (int \<times> kstate) option" where
  "shmget key sz s =
     (if sz \<le> 0 \<or> sz > int MAX_SHM_SIZE then Some (-1, s)
      else do {
        let npages = nat ((sz + 4096 - 1) div 4096);
        s \<leftarrow> acq Lshm s;
        case find (\<lambda>i. sh_used (shmtable s i) \<and> sh_key (shmtable s i) = key) [0..<MAX_SHM] of
          Some i \<Rightarrow> do {
            s \<leftarrow> rel Lshm s;
            Some (int i, s)
          }
        | None \<Rightarrow>
            (case find (\<lambda>i. \<not> sh_used (shmtable s i)) [0..<MAX_SHM] of
               None \<Rightarrow> do {
                 s \<leftarrow> rel Lshm s;
                 Some (-1, s)
               }
             | Some i \<Rightarrow> do {
                 let s = upd_shm i (\<lambda>g. g\<lparr>sh_used := True, sh_key := key, sh_size := sz, sh_npages := npages, sh_refcount := 0\<rparr>) s;
                 (ok, s) \<leftarrow> shm_alloc i [0..<npages] s;
                 if \<not> ok then do {
                   s \<leftarrow> rel Lshm (upd_shm i (\<lambda>g. g\<lparr>sh_used := False\<rparr>) s);
                   Some (-1, s)
                 }
                 else do {
                   s \<leftarrow> rel Lshm s;
                   Some (int i, s)
                 }
               })
      })"

text \<open>The fixed address of segment \<open>i\<close> in every process.\<close>

definition shm_base :: "nat \<Rightarrow> addr" where
  "shm_base i = TRAPFRAME - (of_nat i + 1) * of_nat MAX_SHM_SIZE"

fun shm_unmap :: "addr \<Rightarrow> addr \<Rightarrow> nat list \<Rightarrow> kstate \<Rightarrow> kstate option" where
  "shm_unmap pt va [] s = Some s"
| "shm_unmap pt va (k # ks) s = do {
     s \<leftarrow> uvmunmap pt (va + of_nat k * PGSIZE) 1 False s;
     shm_unmap pt va ks s
   }"

fun shm_map :: "addr \<Rightarrow> nat \<Rightarrow> addr \<Rightarrow> nat list \<Rightarrow> kstate \<Rightarrow> (bool \<times> kstate) option" where
  "shm_map pt i va [] s = Some (True, s)"
| "shm_map pt i va (j # js) s = do {
     (r, s) \<leftarrow> mappages pt (va + of_nat j * PGSIZE) PGSIZE (sh_pa (shmtable s i) j) (PTE_R OR PTE_W OR PTE_U) s;
     if r \<noteq> 0 then do {
       s \<leftarrow> shm_unmap pt va [0..<j] s;
       Some (False, s)
     }
     else shm_map pt i va js s
   }"

definition shmat :: "int \<Rightarrow> kstate \<Rightarrow> (addr \<times> kstate) option" where
  "shmat sid s =
     (if sid < 0 \<or> sid \<ge> int MAX_SHM then Some (-1, s)
      else do {
        let i = nat sid;
        p \<leftarrow> myproc s;
        s \<leftarrow> acq Lshm s;
        if \<not> sh_used (shmtable s i) then do {
          s \<leftarrow> rel Lshm s;
          Some (-1, s)
        }
        else if p_shm_va (procs s p) i \<noteq> 0 then do {
          s \<leftarrow> rel Lshm s;
          Some (p_shm_va (procs s p) i, s)
        }
        else do {
          (ok, s) \<leftarrow> shm_map (p_pagetable (procs s p)) i (shm_base i) [0..<sh_npages (shmtable s i)] s;
          if \<not> ok then do {
            s \<leftarrow> rel Lshm s;
            Some (-1, s)
          }
          else do {
            let s = upd_proc p (\<lambda>x. x\<lparr>p_shm_va := (p_shm_va x)(i := shm_base i)\<rparr>) s;
            s \<leftarrow> rel Lshm (upd_shm i (\<lambda>g. g\<lparr>sh_refcount := sh_refcount g + 1\<rparr>) s);
            Some (shm_base i, s)
          }
        }
      })"

definition shmdt :: "int \<Rightarrow> kstate \<Rightarrow> (int \<times> kstate) option" where
  "shmdt sid s =
     (if sid < 0 \<or> sid \<ge> int MAX_SHM then Some (-1, s)
      else do {
        let i = nat sid;
        p \<leftarrow> myproc s;
        s \<leftarrow> acq Lshm s;
        if \<not> sh_used (shmtable s i) \<or> p_shm_va (procs s p) i = 0 then do {
          s \<leftarrow> rel Lshm s;
          Some (-1, s)
        }
        else do {
          s \<leftarrow> shm_detach i p s;
          s \<leftarrow> rel Lshm s;
          Some (0, s)
        }
      })"

end
