(* ===== verification/SysProc.thy ===== *)
theory SysProc
  imports KMutex Msg Shm
begin

text \<open>
  The system calls of \<open>kernel/sysproc.c\<close>: each fetches its arguments from the registers of the caller's
  trapframe and runs the operation.  The result of a call is the \<open>uint64\<close> that \<open>syscall\<close> stores in \<open>a0\<close>,
  or that the process sleeps inside the call, with what it has to remember.
\<close>

type_synonym sysret = "((addr, kcont) blk \<times> kstate) option"

abbreviation returns :: "(int \<times> kstate) option \<Rightarrow> sysret" where
  "returns m \<equiv> map_option (\<lambda>(r, s). (Done (ret64 r), s)) m"

abbreviation blocks :: "('c \<Rightarrow> kcont) \<Rightarrow> ((int, 'c) blk \<times> kstate) option \<Rightarrow> sysret" where
  "blocks k m \<equiv> map_option (\<lambda>(r, s). (map_blk (\<lambda>v. ret64 v) k r, s)) m"

definition sys_exit :: "kstate \<Rightarrow> sysret" where
  "sys_exit s = do {
     n \<leftarrow> argint 0 s;
     s \<leftarrow> kexit n s;
     Some (Gone, s)
   }"

definition sys_getpid :: "kstate \<Rightarrow> sysret" where
  "sys_getpid s = do {
     p \<leftarrow> myproc s;
     Some (Done (ret64 (p_pid (procs s p))), s)
   }"

definition sys_getppid :: "kstate \<Rightarrow> sysret" where
  "sys_getppid s = do {
     p \<leftarrow> myproc s;
     s \<leftarrow> acq Lwait s;
     let ppid = (case p_parent (procs s p) of None \<Rightarrow> 0 | Some q \<Rightarrow> p_pid (procs s q));
     s \<leftarrow> rel Lwait s;
     Some (Done (ret64 ppid), s)
   }"

definition sys_fork :: "kstate \<Rightarrow> sysret" where
  "sys_fork s = returns (kfork s)"

definition sys_forkn :: "kstate \<Rightarrow> sysret" where
  "sys_forkn s = do {
     n \<leftarrow> argint 0 s;
     if n \<le> 0 then Some (Done (-1), s) else returns (kforkn n s)
   }"

definition sys_thread_create :: "kstate \<Rightarrow> sysret" where
  "sys_thread_create s = do {
     fn \<leftarrow> argaddr 0 s;
     arg \<leftarrow> argaddr 1 s;
     returns (kthread_create fn arg s)
   }"

definition sys_wait :: "kstate \<Rightarrow> sysret" where
  "sys_wait s = do {
     addr \<leftarrow> argaddr 0 s;
     blocks (\<lambda>_. Kwait addr) (kwait addr s)
   }"

definition sys_waitpid :: "kstate \<Rightarrow> sysret" where
  "sys_waitpid s = do {
     pid \<leftarrow> argint 0 s;
     addr \<leftarrow> argaddr 1 s;
     blocks (\<lambda>_. Kwaitpid pid addr) (kwaitpid pid addr s)
   }"

definition SBRK_EAGER :: int where "SBRK_EAGER = 1"

definition sys_sbrk :: "kstate \<Rightarrow> sysret" where
  "sys_sbrk s = do {
     n \<leftarrow> argint 0 s;
     t \<leftarrow> argint 1 s;
     p \<leftarrow> myproc s;
     let addr = p_sz (procs s p);
     if t = SBRK_EAGER \<or> n < 0 then do {
       (r, s) \<leftarrow> growproc n s;
       Some (Done (if r < 0 then -1 else addr), s)
     }
     else if addr + word_of_int n < addr then Some (Done (-1), s)
     else if addr + word_of_int n > TRAPFRAME then Some (Done (-1), s)
     else Some (Done addr, upd_proc p (\<lambda>p. p\<lparr>p_sz := p_sz p + word_of_int n\<rparr>) s)
   }"

text \<open>\<open>sys_pause\<close>: its loop is entered with \<open>tickslock\<close> held; tick counts wrap around at 32 bits.\<close>

definition pause_loop :: "int \<Rightarrow> 32 word \<Rightarrow> nat \<Rightarrow> kstate \<Rightarrow> sysret" where
  "pause_loop n ticks0 p s =
     (if ticks s - ticks0 < word_of_int n then do {
        (k, s) \<leftarrow> killed p s;
        if k \<noteq> 0 then do {
          s \<leftarrow> rel Lticks s;
          Some (Done (-1), s)
        }
        else asleep (Kpause n ticks0) (sleep_out Cticks Lticks s)
      }
      else do {
        s \<leftarrow> rel Lticks s;
        Some (Done 0, s)
      })"

definition sys_pause :: "kstate \<Rightarrow> sysret" where
  "sys_pause s = do {
     n \<leftarrow> argint 0 s;
     p \<leftarrow> myproc s;
     s \<leftarrow> acq Lticks s;
     pause_loop (if n < 0 then 0 else n) (ticks s) p s
   }"

definition pause_resume :: "int \<Rightarrow> 32 word \<Rightarrow> nat \<Rightarrow> bool \<Rightarrow> kstate \<Rightarrow> sysret" where
  "pause_resume n ticks0 p intena s = do {
     s \<leftarrow> sleep_in p Lticks intena s;
     pause_loop n ticks0 p s
   }"

definition sys_kill :: "kstate \<Rightarrow> sysret" where
  "sys_kill s = do {
     pid \<leftarrow> argint 0 s;
     returns (kkill pid s)
   }"

definition sys_uptime :: "kstate \<Rightarrow> sysret" where
  "sys_uptime s = do {
     s \<leftarrow> acq Lticks s;
     let xticks = ticks s;
     s \<leftarrow> rel Lticks s;
     Some (Done (ucast xticks), s)
   }"

definition sys_mutex_create :: "kstate \<Rightarrow> sysret" where
  "sys_mutex_create s = returns (mutex_create s)"

definition sys_mutex_lock :: "kstate \<Rightarrow> sysret" where
  "sys_mutex_lock s = do {
     mid \<leftarrow> argint 0 s;
     blocks Kmutex (mutex_lock mid s)
   }"

definition sys_mutex_unlock :: "kstate \<Rightarrow> sysret" where
  "sys_mutex_unlock s = do {
     mid \<leftarrow> argint 0 s;
     returns (mutex_unlock mid s)
   }"

definition sys_mutex_trylock :: "kstate \<Rightarrow> sysret" where
  "sys_mutex_trylock s = do {
     mid \<leftarrow> argint 0 s;
     returns (mutex_trylock mid s)
   }"

definition sys_mutex_owner :: "kstate \<Rightarrow> sysret" where
  "sys_mutex_owner s = do {
     mid \<leftarrow> argint 0 s;
     returns (mutex_owner mid s)
   }"

definition sys_freeze :: "kstate \<Rightarrow> sysret" where
  "sys_freeze s = do {
     pid \<leftarrow> argint 0 s;
     returns (kfreeze pid s)
   }"

definition sys_thaw :: "kstate \<Rightarrow> sysret" where
  "sys_thaw s = do {
     pid \<leftarrow> argint 0 s;
     returns (kthaw pid s)
   }"

definition sys_signal_send :: "kstate \<Rightarrow> sysret" where
  "sys_signal_send s = do {
     pid \<leftarrow> argint 0 s;
     sig \<leftarrow> argint 1 s;
     returns (ksignal_send pid sig s)
   }"

definition sys_getprocstate :: "kstate \<Rightarrow> sysret" where
  "sys_getprocstate s = do {
     pid \<leftarrow> argint 0 s;
     if pid \<le> 0 then Some (Done (-1), s) else returns (kgetprocstate pid s)
   }"

definition sys_msgget :: "kstate \<Rightarrow> sysret" where
  "sys_msgget s = do {
     key \<leftarrow> argint 0 s;
     returns (msgget key s)
   }"

definition sys_sendmsg :: "kstate \<Rightarrow> sysret" where
  "sys_sendmsg s = do {
     quid \<leftarrow> argint 0 s;
     type \<leftarrow> argint 1 s;
     msgptr \<leftarrow> argaddr 2 s;
     len \<leftarrow> argint 3 s;
     returns (sendmsg quid type msgptr len s)
   }"

definition sys_recvmsg :: "kstate \<Rightarrow> sysret" where
  "sys_recvmsg s = do {
     quid \<leftarrow> argint 0 s;
     type \<leftarrow> argint 1 s;
     msgptr \<leftarrow> argaddr 2 s;
     bufflen \<leftarrow> argint 3 s;
     returns (recvmsg quid type msgptr bufflen s)
   }"

definition sys_msgcount :: "kstate \<Rightarrow> sysret" where
  "sys_msgcount s = do {
     quid \<leftarrow> argint 0 s;
     returns (msgcount quid s)
   }"

definition sys_shmget :: "kstate \<Rightarrow> sysret" where
  "sys_shmget s = do {
     key \<leftarrow> argint 0 s;
     nbytes \<leftarrow> argint 1 s;
     returns (shmget key nbytes s)
   }"

definition sys_shmat :: "kstate \<Rightarrow> sysret" where
  "sys_shmat s = do {
     sid \<leftarrow> argint 0 s;
     (va, s) \<leftarrow> shmat sid s;
     Some (Done va, s)
   }"

definition sys_shmdt :: "kstate \<Rightarrow> sysret" where
  "sys_shmdt s = do {
     sid \<leftarrow> argint 0 s;
     returns (shmdt sid s)
   }"

end
