(* ===== verification/SysFile.thy ===== *)
theory SysFile
  imports SysProc
begin

text \<open>
  The system calls of \<open>kernel/sysfile.c\<close>, except \<open>sys_exec\<close>, which is in \<open>Exec\<close>.  Path names are the bytes that \<open>argstr\<close>
  fetched.
\<close>

definition T_FILE :: int where "T_FILE = 2"
definition T_DEVICE :: int where "T_DEVICE = 3"
definition MAXPATH :: nat where "MAXPATH = 128"
definition O_WRONLY :: "32 word" where "O_WRONLY = 0x001"
definition O_RDWR :: "32 word" where "O_RDWR = 0x002"
definition O_CREATE :: "32 word" where "O_CREATE = 0x200"
definition O_TRUNC :: "32 word" where "O_TRUNC = 0x400"

text \<open>A value stored in a \<open>short\<close>.\<close>

abbreviation short :: "int \<Rightarrow> int" where
  "short v \<equiv> sint (word_of_int v :: 16 word)"

section \<open>File descriptors\<close>

definition argfd :: "nat \<Rightarrow> kstate \<Rightarrow> (nat \<times> nat) option option" where
  "argfd n s = do {
     fd \<leftarrow> argint n s;
     p \<leftarrow> myproc s;
     Some (if fd < 0 \<or> fd \<ge> int NOFILE then None
       else map_option (\<lambda>f. (nat fd, f)) (p_ofile (procs s p) (nat fd)))
   }"

abbreviation set_ofile :: "nat \<Rightarrow> nat \<Rightarrow> nat option \<Rightarrow> kstate \<Rightarrow> kstate" where
  "set_ofile p fd v s \<equiv> upd_proc p (\<lambda>x. x\<lparr>p_ofile := (p_ofile x)(fd := v)\<rparr>) s"

definition fdalloc :: "nat \<Rightarrow> kstate \<Rightarrow> (int \<times> kstate) option" where
  "fdalloc f s = do {
     p \<leftarrow> myproc s;
     case find (\<lambda>fd. p_ofile (procs s p) fd = None) [0..<NOFILE] of
       Some fd \<Rightarrow> Some (int fd, set_ofile p fd (Some f) s)
     | None \<Rightarrow> Some (-1, s)
   }"

definition sys_dup :: "kstate \<Rightarrow> sysret" where
  "sys_dup s = do {
     r \<leftarrow> argfd 0 s;
     case r of
       None \<Rightarrow> Some (Done (-1), s)
     | Some (_, f) \<Rightarrow> do {
         (fd, s) \<leftarrow> fdalloc f s;
         if fd < 0 then Some (Done (-1), s)
         else do {
           s \<leftarrow> filedup f s;
           Some (Done (ret64 fd), s)
         }
       }
   }"

definition sys_read :: "(int \<Rightarrow> devop option) \<Rightarrow> kstate \<Rightarrow> sysret" where
  "sys_read devread s = do {
     p \<leftarrow> argaddr 1 s;
     n \<leftarrow> argint 2 s;
     r \<leftarrow> argfd 0 s;
     case r of
       None \<Rightarrow> Some (Done (-1), s)
     | Some (_, f) \<Rightarrow>
         blocks (\<lambda>c. if f_type (ftable s f) = FD_PIPE then Kpiperead (f_pipe (ftable s f)) p n else Kdevice c)
           (fileread devread f p n s)
   }"

definition sys_write :: "(int \<Rightarrow> devop option) \<Rightarrow> kstate \<Rightarrow> sysret" where
  "sys_write devwrite s = do {
     p \<leftarrow> argaddr 1 s;
     n \<leftarrow> argint 2 s;
     r \<leftarrow> argfd 0 s;
     case r of
       None \<Rightarrow> Some (Done (-1), s)
     | Some (_, f) \<Rightarrow>
         blocks (\<lambda>c. if f_type (ftable s f) = FD_PIPE then Kpipewrite (f_pipe (ftable s f)) p n c else Kdevice c)
           (filewrite devwrite f p n s)
   }"

definition sys_close :: "kstate \<Rightarrow> sysret" where
  "sys_close s = do {
     r \<leftarrow> argfd 0 s;
     case r of
       None \<Rightarrow> Some (Done (-1), s)
     | Some (fd, f) \<Rightarrow> do {
         p \<leftarrow> myproc s;
         s \<leftarrow> fileclose f (set_ofile p fd None s);
         Some (Done 0, s)
       }
   }"

definition sys_fstat :: "(nat \<Rightarrow> byte) \<Rightarrow> kstate \<Rightarrow> sysret" where
  "sys_fstat pad s = do {
     st \<leftarrow> argaddr 1 s;
     r \<leftarrow> argfd 0 s;
     case r of
       None \<Rightarrow> Some (Done (-1), s)
     | Some (_, f) \<Rightarrow> returns (filestat pad f st s)
   }"

section \<open>Directory entries\<close>

text \<open>\<open>end_op(); return -1;\<close>\<close>

definition op_fail :: "kstate \<Rightarrow> sysret" where
  "op_fail s = do {
     s \<leftarrow> end_op s;
     Some (Done (-1), s)
   }"

text \<open>The label \<open>bad\<close> of \<open>sys_link\<close>.\<close>

definition link_bad :: "nat \<Rightarrow> kstate \<Rightarrow> sysret" where
  "link_bad ip s = do {
     s \<leftarrow> ilock ip s;
     s \<leftarrow> iupdate ip (upd_inode ip (\<lambda>i. i\<lparr>i_nlink := short (i_nlink i - 1)\<rparr>) s);
     s \<leftarrow> iunlockput ip s;
     op_fail s
   }"

definition link_at :: "byte list \<Rightarrow> byte list \<Rightarrow> kstate \<Rightarrow> sysret" where
  "link_at old new s = do {
     s \<leftarrow> begin_op s;
     (ip, s) \<leftarrow> namei old s;
     case ip of
       None \<Rightarrow> op_fail s
     | Some ip \<Rightarrow> do {
         s \<leftarrow> ilock ip s;
         if i_type (itable s ip) = T_DIR then do {
           s \<leftarrow> iunlockput ip s;
           op_fail s
         }
         else do {
           s \<leftarrow> iupdate ip (upd_inode ip (\<lambda>i. i\<lparr>i_nlink := short (i_nlink i + 1)\<rparr>) s);
           s \<leftarrow> iunlock ip s;
           (r, s) \<leftarrow> nameiparent new s;
           case r of
             None \<Rightarrow> link_bad ip s
           | Some (dp, name) \<Rightarrow> do {
               s \<leftarrow> ilock dp s;
               (r, s) \<leftarrow> (if i_dev (itable s dp) \<noteq> i_dev (itable s ip) then Some (-1, s)
                 else dirlink dp name (i_inum (itable s ip)) s);
               s \<leftarrow> iunlockput dp s;
               if r < 0 then link_bad ip s
               else do {
                 s \<leftarrow> iput ip s;
                 s \<leftarrow> end_op s;
                 Some (Done 0, s)
               }
             }
         }
       }
   }"

definition sys_link :: "kstate \<Rightarrow> sysret" where
  "sys_link s = do {
     ((n, old), s) \<leftarrow> argstr 0 MAXPATH s;
     if n < 0 then Some (Done (-1), s)
     else do {
       ((n, new), s) \<leftarrow> argstr 1 MAXPATH s;
       if n < 0 then Some (Done (-1), s) else link_at old new s
     }
   }"

partial_function (option) isdirempty_loop :: "nat \<Rightarrow> 32 word \<Rightarrow> kstate \<Rightarrow> (bool \<times> kstate) option" where
  "isdirempty_loop dp off s =
     (if off < i_size (itable s dp) then do {
        ((r, de), s) \<leftarrow> readi dp False 0 off 16 s;
        if r \<noteq> 16 then None
        else if de_inum de \<noteq> 0 then Some (False, s)
        else isdirempty_loop dp (off + 16) s
      }
      else Some (True, s))"

definition isdirempty :: "nat \<Rightarrow> kstate \<Rightarrow> (bool \<times> kstate) option" where
  "isdirempty dp s = isdirempty_loop dp (2 * 16) s"

text \<open>The label \<open>bad\<close> of \<open>sys_unlink\<close>.\<close>

definition unlink_bad :: "nat \<Rightarrow> kstate \<Rightarrow> sysret" where
  "unlink_bad dp s = do {
     s \<leftarrow> iunlockput dp s;
     op_fail s
   }"

definition unlink_at :: "byte list \<Rightarrow> kstate \<Rightarrow> sysret" where
  "unlink_at path s = do {
     s \<leftarrow> begin_op s;
     (r, s) \<leftarrow> nameiparent path s;
     case r of
       None \<Rightarrow> op_fail s
     | Some (dp, name) \<Rightarrow> do {
         s \<leftarrow> ilock dp s;
         if namecmp name [46] = 0 \<or> namecmp name [46, 46] = 0 then unlink_bad dp s
         else do {
           (r, s) \<leftarrow> dirlookup dp name s;
           case r of
             None \<Rightarrow> unlink_bad dp s
           | Some (ip, off) \<Rightarrow> do {
               s \<leftarrow> ilock ip s;
               if i_nlink (itable s ip) < 1 then None
               else do {
                 (empty, s) \<leftarrow> (if i_type (itable s ip) = T_DIR then isdirempty ip s else Some (True, s));
                 if \<not> empty then do {
                   s \<leftarrow> iunlockput ip s;
                   unlink_bad dp s
                 }
                 else do {
                   (r, s) \<leftarrow> writei dp (Kernel (\<lambda>_. 0)) off 16 s;
                   if r \<noteq> 16 then None
                   else do {
                     s \<leftarrow> (if i_type (itable s ip) = T_DIR
                       then iupdate dp (upd_inode dp (\<lambda>i. i\<lparr>i_nlink := short (i_nlink i - 1)\<rparr>) s) else Some s);
                     s \<leftarrow> iunlockput dp s;
                     s \<leftarrow> iupdate ip (upd_inode ip (\<lambda>i. i\<lparr>i_nlink := short (i_nlink i - 1)\<rparr>) s);
                     s \<leftarrow> iunlockput ip s;
                     s \<leftarrow> end_op s;
                     Some (Done 0, s)
                   }
                 }
               }
             }
         }
       }
   }"

definition sys_unlink :: "kstate \<Rightarrow> sysret" where
  "sys_unlink s = do {
     ((n, path), s) \<leftarrow> argstr 0 MAXPATH s;
     if n < 0 then Some (Done (-1), s) else unlink_at path s
   }"

text \<open>The label \<open>fail\<close> of \<open>create\<close>.\<close>

definition create_fail :: "nat \<Rightarrow> nat \<Rightarrow> kstate \<Rightarrow> (nat option \<times> kstate) option" where
  "create_fail ip dp s = do {
     s \<leftarrow> iupdate ip (upd_inode ip (\<lambda>i. i\<lparr>i_nlink := 0\<rparr>) s);
     s \<leftarrow> iunlockput ip s;
     s \<leftarrow> iunlockput dp s;
     Some (None, s)
   }"

definition create :: "byte list \<Rightarrow> int \<Rightarrow> int \<Rightarrow> int \<Rightarrow> kstate \<Rightarrow> (nat option \<times> kstate) option" where
  "create path type major minor s = do {
     (r, s) \<leftarrow> nameiparent path s;
     case r of
       None \<Rightarrow> Some (None, s)
     | Some (dp, name) \<Rightarrow> do {
         s \<leftarrow> ilock dp s;
         (r, s) \<leftarrow> dirlookup dp name s;
         case r of
           Some (ip, _) \<Rightarrow> do {
             s \<leftarrow> iunlockput dp s;
             s \<leftarrow> ilock ip s;
             if type = T_FILE \<and> (i_type (itable s ip) = T_FILE \<or> i_type (itable s ip) = T_DEVICE) then Some (Some ip, s)
             else do {
               s \<leftarrow> iunlockput ip s;
               Some (None, s)
             }
           }
         | None \<Rightarrow> do {
             (r, s) \<leftarrow> ialloc (i_dev (itable s dp)) type s;
             case r of
               None \<Rightarrow> do {
                 s \<leftarrow> iunlockput dp s;
                 Some (None, s)
               }
             | Some ip \<Rightarrow> do {
                 s \<leftarrow> ilock ip s;
                 s \<leftarrow> iupdate ip (upd_inode ip (\<lambda>i. i\<lparr>i_major := short major, i_minor := short minor, i_nlink := 1\<rparr>) s);
                 (r, s) \<leftarrow> (if type = T_DIR then do {
                     (r, s) \<leftarrow> dirlink ip [46] (i_inum (itable s ip)) s;
                     if r < 0 then Some (r, s) else dirlink ip [46, 46] (i_inum (itable s dp)) s
                   } else Some (0, s));
                 if r < 0 then create_fail ip dp s
                 else do {
                   (r, s) \<leftarrow> dirlink dp name (i_inum (itable s ip)) s;
                   if r < 0 then create_fail ip dp s
                   else do {
                     s \<leftarrow> (if type = T_DIR
                       then iupdate dp (upd_inode dp (\<lambda>i. i\<lparr>i_nlink := short (i_nlink i + 1)\<rparr>) s) else Some s);
                     s \<leftarrow> iunlockput dp s;
                     Some (Some ip, s)
                   }
                 }
               }
           }
       }
   }"

section \<open>Opening\<close>

text \<open>\<open>iunlockput(ip); end_op(); return -1;\<close>\<close>

definition put_fail :: "nat \<Rightarrow> kstate \<Rightarrow> sysret" where
  "put_fail ip s = do {
     s \<leftarrow> iunlockput ip s;
     op_fail s
   }"

text \<open>\<open>sys_open\<close> from the device check on, with the inode locked.\<close>

definition open_inode :: "nat \<Rightarrow> 32 word \<Rightarrow> kstate \<Rightarrow> sysret" where
  "open_inode ip omode s =
     (let dev = (i_type (itable s ip) = T_DEVICE) in
      if dev \<and> (i_major (itable s ip) < 0 \<or> i_major (itable s ip) \<ge> NDEV) then put_fail ip s
      else do {
        (f, s) \<leftarrow> filealloc s;
        case f of
          None \<Rightarrow> put_fail ip s
        | Some f \<Rightarrow> do {
            (fd, s) \<leftarrow> fdalloc f s;
            if fd < 0 then do {
              s \<leftarrow> fileclose f s;
              put_fail ip s
            }
            else do {
              let s = upd_file f (\<lambda>x. if dev then x\<lparr>f_type := FD_DEVICE, f_major := i_major (itable s ip)\<rparr>
                else x\<lparr>f_type := FD_INODE, f_off := 0\<rparr>) s;
              let s = upd_file f (\<lambda>x. x\<lparr>f_ip := Some ip, f_readable := (omode AND O_WRONLY = 0),
                f_writable := (omode AND O_WRONLY \<noteq> 0 \<or> omode AND O_RDWR \<noteq> 0)\<rparr>) s;
              s \<leftarrow> (if omode AND O_TRUNC \<noteq> 0 \<and> i_type (itable s ip) = T_FILE then itrunc ip s else Some s);
              s \<leftarrow> iunlock ip s;
              s \<leftarrow> end_op s;
              Some (Done (ret64 fd), s)
            }
          }
      })"

definition open_at :: "byte list \<Rightarrow> 32 word \<Rightarrow> kstate \<Rightarrow> sysret" where
  "open_at path omode s = do {
     s \<leftarrow> begin_op s;
     if omode AND O_CREATE \<noteq> 0 then do {
       (r, s) \<leftarrow> create path T_FILE 0 0 s;
       case r of
         None \<Rightarrow> op_fail s
       | Some ip \<Rightarrow> open_inode ip omode s
     }
     else do {
       (r, s) \<leftarrow> namei path s;
       case r of
         None \<Rightarrow> op_fail s
       | Some ip \<Rightarrow> do {
           s \<leftarrow> ilock ip s;
           if i_type (itable s ip) = T_DIR \<and> omode \<noteq> 0 then put_fail ip s else open_inode ip omode s
         }
     }
   }"

definition sys_open :: "kstate \<Rightarrow> sysret" where
  "sys_open s = do {
     omode \<leftarrow> argint 1 s;
     ((n, path), s) \<leftarrow> argstr 0 MAXPATH s;
     if n < 0 then Some (Done (-1), s) else open_at path (word_of_int omode) s
   }"

text \<open>What \<open>sys_mkdir\<close> and \<open>sys_mknod\<close> do with the result of \<open>argstr\<close> inside their transaction.\<close>

definition create_op :: "int \<times> byte list \<Rightarrow> int \<Rightarrow> int \<Rightarrow> int \<Rightarrow> kstate \<Rightarrow> sysret" where
  "create_op path type major minor s =
     (if fst path < 0 then op_fail s
      else do {
        (r, s) \<leftarrow> create (snd path) type major minor s;
        case r of
          None \<Rightarrow> op_fail s
        | Some ip \<Rightarrow> do {
            s \<leftarrow> iunlockput ip s;
            s \<leftarrow> end_op s;
            Some (Done 0, s)
          }
      })"

definition sys_mkdir :: "kstate \<Rightarrow> sysret" where
  "sys_mkdir s = do {
     s \<leftarrow> begin_op s;
     (path, s) \<leftarrow> argstr 0 MAXPATH s;
     create_op path T_DIR 0 0 s
   }"

definition sys_mknod :: "kstate \<Rightarrow> sysret" where
  "sys_mknod s = do {
     s \<leftarrow> begin_op s;
     major \<leftarrow> argint 1 s;
     minor \<leftarrow> argint 2 s;
     (path, s) \<leftarrow> argstr 0 MAXPATH s;
     create_op path T_DEVICE major minor s
   }"

definition sys_chdir :: "kstate \<Rightarrow> sysret" where
  "sys_chdir s = do {
     p \<leftarrow> myproc s;
     s \<leftarrow> begin_op s;
     ((n, path), s) \<leftarrow> argstr 0 MAXPATH s;
     (r, s) \<leftarrow> (if n < 0 then Some (None, s) else namei path s);
     case r of
       None \<Rightarrow> op_fail s
     | Some ip \<Rightarrow> do {
         s \<leftarrow> ilock ip s;
         if i_type (itable s ip) \<noteq> T_DIR then put_fail ip s
         else do {
           s \<leftarrow> iunlock ip s;
           cwd \<leftarrow> p_cwd (procs s p);
           s \<leftarrow> iput cwd s;
           s \<leftarrow> end_op s;
           Some (Done 0, upd_proc p (\<lambda>x. x\<lparr>p_cwd := Some ip\<rparr>) s)
         }
       }
   }"

section \<open>Pipes\<close>

definition close_both :: "nat \<Rightarrow> nat \<Rightarrow> kstate \<Rightarrow> sysret" where
  "close_both rfile wfile s = do {
     s \<leftarrow> fileclose rfile s;
     s \<leftarrow> fileclose wfile s;
     Some (Done (-1), s)
   }"

definition sys_pipe :: "kstate \<Rightarrow> sysret" where
  "sys_pipe s = do {
     p \<leftarrow> myproc s;
     fdarray \<leftarrow> argaddr 0 s;
     (r, s) \<leftarrow> pipealloc s;
     case r of
       None \<Rightarrow> Some (Done (-1), s)
     | Some (rfile, wfile) \<Rightarrow> do {
         (fd0, s) \<leftarrow> fdalloc rfile s;
         (fd1, s) \<leftarrow> (if fd0 < 0 then Some (-1, s) else fdalloc wfile s);
         if fd1 < 0 then close_both rfile wfile (if fd0 \<ge> 0 then set_ofile p (nat fd0) None s else s)
         else do {
           (r, s) \<leftarrow> copyout (p_pagetable (procs s p)) fdarray (int_bytes fd0) 4 s;
           (r, s) \<leftarrow> (if r < 0 then Some (r, s) else copyout (p_pagetable (procs s p)) (fdarray + 4) (int_bytes fd1) 4 s);
           if r < 0 then close_both rfile wfile (set_ofile p (nat fd1) None (set_ofile p (nat fd0) None s))
           else Some (Done 0, s)
         }
       }
   }"

end
