(* ===== verification/Exec.thy ===== *)
theory Exec
  imports SysFile
begin

text \<open>
  \<open>exec\<close> (\<open>kernel/exec.c\<close>, with the layouts of \<open>kernel/elf.h\<close>, and \<open>sys_exec\<close> of \<open>kernel/sysfile.c\<close>).  The ELF headers are
  the bytes that \<open>readi\<close> copied.  The argument strings are values; \<open>sys_exec\<close> still takes a page for each
  from \<open>kalloc\<close> and gives it back.
\<close>

section \<open>ELF headers\<close>

text \<open>The little-endian number of \<open>n\<close> bytes at offset \<open>off\<close>.\<close>

definition le_bytes :: "nat \<Rightarrow> nat \<Rightarrow> byte list \<Rightarrow> 64 word" where
  "le_bytes off n bs = of_nat (foldr (\<lambda>b acc. unat b + 256 * acc) (take n (drop off bs)) 0)"

record elfhdr =
  e_magic :: "64 word"
  e_entry :: "64 word"
  e_phoff :: "64 word"
  e_phnum :: nat

definition get_elfhdr :: "byte list \<Rightarrow> elfhdr" where
  "get_elfhdr bs = \<lparr>e_magic = le_bytes 0 4 bs, e_entry = le_bytes 24 8 bs, e_phoff = le_bytes 32 8 bs,
     e_phnum = unat (le_bytes 56 2 bs)\<rparr>"

record proghdr =
  ph_type :: "64 word"
  ph_flags :: "64 word"
  ph_off :: "64 word"
  ph_vaddr :: "64 word"
  ph_filesz :: "64 word"
  ph_memsz :: "64 word"

definition get_proghdr :: "byte list \<Rightarrow> proghdr" where
  "get_proghdr bs = \<lparr>ph_type = le_bytes 0 4 bs, ph_flags = le_bytes 4 4 bs, ph_off = le_bytes 8 8 bs,
     ph_vaddr = le_bytes 16 8 bs, ph_filesz = le_bytes 32 8 bs, ph_memsz = le_bytes 40 8 bs\<rparr>"

definition ELF_MAGIC :: "64 word" where "ELF_MAGIC = 0x464C457F"
definition ELF_PROG_LOAD :: "64 word" where "ELF_PROG_LOAD = 1"
definition MAXARG :: nat where "MAXARG = 32"
definition USERSTACK :: addr where "USERSTACK = 1"
definition TF_sp :: addr where "TF_sp = 48"
definition TF_a1 :: addr where "TF_a1 = 120"

definition flags2perm :: "64 word \<Rightarrow> addr" where
  "flags2perm flags =
     (let perm = (if flags AND 1 \<noteq> 0 then PTE_X else 0) in
      if flags AND 2 \<noteq> 0 then perm OR PTE_W else perm)"

section \<open>Loading\<close>

partial_function (option) loadseg_loop ::
  "addr \<Rightarrow> addr \<Rightarrow> nat \<Rightarrow> 32 word \<Rightarrow> 32 word \<Rightarrow> 32 word \<Rightarrow> kstate \<Rightarrow> (int \<times> kstate) option" where
  "loadseg_loop pagetable va ip offset sz i s =
     (if i < sz then do {
        (pa, s) \<leftarrow> walkaddr pagetable (va + ucast i) s;
        if pa = 0 then None
        else do {
          let n = (if sz - i < 4096 then sz - i else 4096);
          ((r, bs), s) \<leftarrow> readi ip False pa (offset + i) n s;
          let s = s\<lparr>mem := poke (mem s) pa (\<lambda>k. bs ! k) 0 (length bs)\<rparr>;
          if word_of_int r \<noteq> n then Some (-1, s)
          else loadseg_loop pagetable va ip offset sz (i + 4096) s
        }
      }
      else Some (0, s))"

definition loadseg :: "addr \<Rightarrow> addr \<Rightarrow> nat \<Rightarrow> 32 word \<Rightarrow> 32 word \<Rightarrow> kstate \<Rightarrow> (int \<times> kstate) option" where
  "loadseg pagetable va ip offset sz s = loadseg_loop pagetable va ip offset sz 0 s"

text \<open>
  The loop over the \<open>n\<close> remaining program headers: whether all were loaded, and the size reached.
\<close>

fun load_segments :: "addr \<Rightarrow> nat \<Rightarrow> nat \<Rightarrow> 32 word \<Rightarrow> addr \<Rightarrow> kstate \<Rightarrow> ((bool \<times> addr) \<times> kstate) option" where
  "load_segments pagetable ip 0 off sz s = Some ((True, sz), s)"
| "load_segments pagetable ip (Suc n) off sz s = do {
     ((r, bs), s) \<leftarrow> readi ip False 0 off 56 s;
     if r \<noteq> 56 then Some ((False, sz), s)
     else
       let ph = get_proghdr bs in
       if ph_type ph \<noteq> ELF_PROG_LOAD then load_segments pagetable ip n (off + 56) sz s
       else if ph_memsz ph < ph_filesz ph then Some ((False, sz), s)
       else if ph_vaddr ph + ph_memsz ph < ph_vaddr ph then Some ((False, sz), s)
       else if ph_vaddr ph mod PGSIZE \<noteq> 0 then Some ((False, sz), s)
       else do {
         (sz1, s) \<leftarrow> uvmalloc pagetable sz (ph_vaddr ph + ph_memsz ph) (flags2perm (ph_flags ph)) s;
         if sz1 = 0 then Some ((False, sz), s)
         else do {
           (r, s) \<leftarrow> loadseg pagetable (ph_vaddr ph) ip (ucast (ph_off ph)) (ucast (ph_filesz ph)) s;
           if r < 0 then Some ((False, sz1), s)
           else load_segments pagetable ip n (off + 56) sz1 s
         }
       }
   }"

section \<open>The new stack\<close>

abbreviation align16 :: "addr \<Rightarrow> addr" where
  "align16 sp \<equiv> sp - sp mod 16"

text \<open>
  Copying the argument strings: the addresses they got and the stack pointer, or \<open>None\<close> for \<open>goto bad\<close>.
\<close>

fun push_args :: "addr \<Rightarrow> addr \<Rightarrow> byte list list \<Rightarrow> addr list \<Rightarrow> addr \<Rightarrow> kstate \<Rightarrow> ((addr list \<times> addr) option \<times> kstate) option" where
  "push_args pagetable stackbase [] ustack sp s = Some (Some (ustack, sp), s)"
| "push_args pagetable stackbase (arg # args) ustack sp s =
     (if length ustack \<ge> MAXARG then Some (None, s)
      else
        let n = of_nat (length arg) + 1; sp = align16 (sp - n) in
        if sp < stackbase then Some (None, s)
        else do {
          (r, s) \<leftarrow> copyout pagetable sp (\<lambda>k. (arg @ [0]) ! k) n s;
          if r < 0 then Some (None, s)
          else push_args pagetable stackbase args (ustack @ [sp]) sp s
        })"

definition ustack_bytes :: "addr list \<Rightarrow> nat \<Rightarrow> byte" where
  "ustack_bytes ustack k = ucast (drop_bit (8 * (k mod 8)) (ustack ! (k div 8)))"

text \<open>The part of a path behind its last slash, as the process name.\<close>

definition proc_name :: "byte list \<Rightarrow> string" where
  "proc_name path = map (\<lambda>b. char_of (unat b)) (take 15 (rev (takeWhile (\<lambda>c. c \<noteq> 47) (rev path))))"

text \<open>The label \<open>bad\<close> of \<open>kexec\<close>, once the inode has been put and before.\<close>

definition exec_bad :: "addr \<Rightarrow> addr \<Rightarrow> kstate \<Rightarrow> (int \<times> kstate) option" where
  "exec_bad pagetable sz s = do {
     s \<leftarrow> proc_freepagetable pagetable sz s;
     Some (-1, s)
   }"

definition exec_bad_ip :: "addr \<Rightarrow> addr \<Rightarrow> nat \<Rightarrow> kstate \<Rightarrow> (int \<times> kstate) option" where
  "exec_bad_ip pagetable sz ip s = do {
     s \<leftarrow> (if pagetable \<noteq> 0 then proc_freepagetable pagetable sz s else Some s);
     s \<leftarrow> iunlockput ip s;
     s \<leftarrow> end_op s;
     Some (-1, s)
   }"

text \<open>\<open>kexec\<close> from the second \<open>p = myproc()\<close> on: build the stack and commit to the new image.\<close>

definition exec_image :: "byte list \<Rightarrow> byte list list \<Rightarrow> addr \<Rightarrow> addr \<Rightarrow> addr \<Rightarrow> kstate \<Rightarrow> (int \<times> kstate) option" where
  "exec_image path argv entry pagetable sz s = do {
     p \<leftarrow> myproc s;
     let oldsz = p_sz (procs s p);
     let sz = PGROUNDUP sz;
     (sz1, s) \<leftarrow> uvmalloc pagetable sz (sz + (USERSTACK + 1) * PGSIZE) PTE_W s;
     if sz1 = 0 then exec_bad pagetable sz s
     else do {
       let sz = sz1;
       s \<leftarrow> uvmclear pagetable (sz - (USERSTACK + 1) * PGSIZE) s;
       let stackbase = sz - USERSTACK * PGSIZE;
       (r, s) \<leftarrow> push_args pagetable stackbase argv [] sz s;
       case r of
         None \<Rightarrow> exec_bad pagetable sz s
       | Some (ustack, sp) \<Rightarrow> do {
           let argc = length ustack;
           let sp = align16 (sp - of_nat (argc + 1) * 8);
           if sp < stackbase then exec_bad pagetable sz s
           else do {
             (r, s) \<leftarrow> copyout pagetable sp (ustack_bytes (ustack @ [0])) (of_nat (argc + 1) * 8) s;
             if r < 0 then exec_bad pagetable sz s
             else do {
               let s = tf_set TF_a1 sp p s;
               let oldpagetable = p_pagetable (procs s p);
               let s = upd_proc p (\<lambda>x. x\<lparr>p_name := proc_name path, p_pagetable := pagetable, p_sz := sz\<rparr>) s;
               s \<leftarrow> proc_freepagetable oldpagetable oldsz (tf_set TF_sp sp p (tf_set TF_epc entry p s));
               Some (int argc, s)
             }
           }
         }
     }
   }"

definition kexec :: "byte list \<Rightarrow> byte list list \<Rightarrow> kstate \<Rightarrow> (int \<times> kstate) option" where
  "kexec path argv s = do {
     p \<leftarrow> myproc s;
     s \<leftarrow> begin_op s;
     (r, s) \<leftarrow> namei path s;
     case r of
       None \<Rightarrow> do {
         s \<leftarrow> end_op s;
         Some (-1, s)
       }
     | Some ip \<Rightarrow> do {
         s \<leftarrow> ilock ip s;
         ((r, bs), s) \<leftarrow> readi ip False 0 0 64 s;
         let elf = get_elfhdr bs;
         if r \<noteq> 64 then exec_bad_ip 0 0 ip s
         else if e_magic elf \<noteq> ELF_MAGIC then exec_bad_ip 0 0 ip s
         else do {
           (pagetable, s) \<leftarrow> proc_pagetable p s;
           if pagetable = 0 then exec_bad_ip 0 0 ip s
           else do {
             ((ok, sz), s) \<leftarrow> load_segments pagetable ip (e_phnum elf) (ucast (e_phoff elf)) 0 s;
             if \<not> ok then exec_bad_ip pagetable sz ip s
             else do {
               s \<leftarrow> iunlockput ip s;
               s \<leftarrow> end_op s;
               exec_image path argv (e_entry elf) pagetable sz s
             }
           }
         }
       }
   }"

section \<open>The system call\<close>

fun kfree_all :: "addr list \<Rightarrow> kstate \<Rightarrow> kstate option" where
  "kfree_all [] s = Some s"
| "kfree_all (pa # pas) s = do {
     s \<leftarrow> kfree pa s;
     kfree_all pas s
   }"

text \<open>
  The loop of \<open>sys_exec\<close> for \<open>n\<close> remaining entries of \<open>argv\<close>, with the pages and strings so far; \<open>None\<close> is
  \<open>goto bad\<close>.
\<close>

fun fetch_args :: "nat \<Rightarrow> addr \<Rightarrow> addr list \<Rightarrow> byte list list \<Rightarrow> kstate \<Rightarrow> ((addr list \<times> byte list list option) \<times> kstate) option" where
  "fetch_args 0 uargv pages args s = Some ((pages, None), s)"
| "fetch_args (Suc n) uargv pages args s = do {
     ((r, uarg), s) \<leftarrow> fetchaddr (uargv + 8 * of_nat (length args)) s;
     if r < 0 then Some ((pages, None), s)
     else if uarg = 0 then Some ((pages, Some args), s)
     else do {
       (page, s) \<leftarrow> kalloc s;
       if page = 0 then Some ((pages, None), s)
       else do {
         ((r, str), s) \<leftarrow> fetchstr uarg 4096 s;
         if r < 0 then Some ((pages @ [page], None), s)
         else fetch_args n uargv (pages @ [page]) (args @ [str]) s
       }
     }
   }"

definition sys_exec :: "kstate \<Rightarrow> sysret" where
  "sys_exec s = do {
     uargv \<leftarrow> argaddr 1 s;
     ((n, path), s) \<leftarrow> argstr 0 MAXPATH s;
     if n < 0 then Some (Done (-1), s)
     else do {
       ((pages, r), s) \<leftarrow> fetch_args MAXARG uargv [] [] s;
       (ret, s) \<leftarrow> (case r of None \<Rightarrow> Some (-1, s) | Some argv \<Rightarrow> kexec path argv s);
       s \<leftarrow> kfree_all pages s;
       Some (Done (ret64 ret), s)
     }
   }"

end
