(* ===== verification/Syscall.thy ===== *)
theory Syscall
  imports Exec
begin

text \<open>
  System call dispatch (\<open>kernel/syscall.c\<close>) and the trap handling around it (\<open>kernel/trap.c\<close>).  The console is behind
  the device switch: \<open>devread\<close>, \<open>devwrite\<close> and \<open>devresume\<close> are its functions; \<open>pad\<close> is what the kernel stack
  held in the padding of \<open>struct stat\<close>.  A call that sleeps is continued by \<open>syscall_resume\<close>.
\<close>

record devices =
  devread :: "int \<Rightarrow> devop option"
  devwrite :: "int \<Rightarrow> devop option"
  devresume :: "int \<Rightarrow> nat \<Rightarrow> bool \<Rightarrow> kstate \<Rightarrow> ((int, int) blk \<times> kstate) option"
  statpad :: "nat \<Rightarrow> byte"

text \<open>\<open>None\<close> is an empty slot of the table.\<close>

definition syscalls :: "devices \<Rightarrow> int \<Rightarrow> (kstate \<Rightarrow> sysret) option" where
  "syscalls d num =
     (if 0 < num \<and> num < 42 then Some
        ([sys_fork, sys_exit, sys_wait, sys_pipe, sys_read (devread d), sys_kill, sys_exec, sys_fstat (statpad d), sys_chdir,
          sys_dup, sys_getpid, sys_sbrk, sys_pause, sys_uptime, sys_open, sys_write (devwrite d), sys_mknod, sys_unlink,
          sys_link, sys_mkdir, sys_close, sys_mutex_create, sys_mutex_lock, sys_mutex_unlock, sys_freeze, sys_thaw,
          sys_msgget, sys_sendmsg, sys_recvmsg, sys_shmget, sys_shmat, sys_shmdt, sys_waitpid, sys_getppid, sys_forkn,
          sys_thread_create, sys_mutex_trylock, sys_signal_send, sys_msgcount, sys_mutex_owner, sys_getprocstate]
         ! (nat num - 1))
      else None)"

text \<open>Storing the value of a call that has returned.\<close>

definition store_a0 :: "nat \<Rightarrow> (addr, kcont) blk \<times> kstate \<Rightarrow> (unit, kcont) blk \<times> kstate" where
  "store_a0 p = (\<lambda>(r, s). case r of
       Done v \<Rightarrow> (Done (), tf_set TF_a0 v p s)
     | Asleep k b \<Rightarrow> (Asleep k b, s)
     | Gone \<Rightarrow> (Gone, s))"

definition syscall :: "devices \<Rightarrow> kstate \<Rightarrow> ((unit, kcont) blk \<times> kstate) option" where
  "syscall d s = do {
     p \<leftarrow> myproc s;
     let num = sint (ucast (tf_get TF_a7 p s) :: 32 word);
     case syscalls d num of
       Some f \<Rightarrow> map_option (store_a0 p) (f s)
     | None \<Rightarrow>
         Some (store_a0 p (Done (-1),
           printk (fmt_lld (p_pid (procs s p)) @ '' '' @ p_name (procs s p) @ '': unknown sys call '' @ fmt_lld num @ [CHR 0x0A]) s))
   }"

text \<open>The rest of a system call of process \<open>p\<close> that slept.\<close>

fun resume_call :: "devices \<Rightarrow> kcont \<Rightarrow> nat \<Rightarrow> bool \<Rightarrow> kstate \<Rightarrow> sysret" where
  "resume_call d (Kwait addr) p b s = blocks (\<lambda>_. Kwait addr) (kwait_resume addr p b s)"
| "resume_call d (Kwaitpid pid addr) p b s = blocks (\<lambda>_. Kwaitpid pid addr) (kwaitpid_resume pid addr p b s)"
| "resume_call d (Kpause n ticks0) p b s = pause_resume n ticks0 p b s"
| "resume_call d (Kmutex mid) p b s = blocks Kmutex (mutex_lock_resume mid p b s)"
| "resume_call d (Kpipewrite pi addr n i) p b s = blocks (Kpipewrite pi addr n) (pipewrite_resume pi addr n i p b s)"
| "resume_call d (Kpiperead pi addr n) p b s = blocks (\<lambda>_. Kpiperead pi addr n) (piperead_resume pi addr n p b s)"
| "resume_call d (Kdevice c) p b s = blocks Kdevice (devresume d c p b s)"

definition syscall_resume :: "devices \<Rightarrow> kcont \<Rightarrow> nat \<Rightarrow> bool \<Rightarrow> kstate \<Rightarrow> ((unit, kcont) blk \<times> kstate) option" where
  "syscall_resume d k p b s = map_option (store_a0 p) (resume_call d k p b s)"

section \<open>Traps\<close>

definition clockintr :: "kstate \<Rightarrow> kstate option" where
  "clockintr s =
     (if cpuid (sync s) = 0 then do {
        s \<leftarrow> acq Lticks s;
        s \<leftarrow> wakeup Cticks (s\<lparr>ticks := ticks s + 1\<rparr>);
        rel Lticks s
      }
      else Some s)"

text \<open>
  The registers a trap leaves, and what an external interrupt does: \<open>extintr\<close> stands for the PLIC, the UART and
  the disk's interrupt handler.
\<close>

record trapregs =
  r_scause :: "64 word"
  r_sepc :: "64 word"
  r_stval :: "64 word"
  r_satp :: "64 word"
  r_usertrap :: "64 word"
  extintr :: "kstate \<Rightarrow> kstate option"

definition devintr :: "trapregs \<Rightarrow> kstate \<Rightarrow> (int \<times> kstate) option" where
  "devintr r s =
     (if r_scause r = 0x8000000000000009 then do {
        s \<leftarrow> extintr r s;
        Some (1, s)
      }
      else if r_scause r = 0x8000000000000005 then do {
        s \<leftarrow> clockintr s;
        Some (2, s)
      }
      else Some (0, s))"

definition prepare_return :: "trapregs \<Rightarrow> kstate \<Rightarrow> kstate option" where
  "prepare_return r s = do {
     p \<leftarrow> myproc s;
     let s = s\<lparr>sync := intr_off (sync s)\<rparr>;
     let s = tf_set 0 (r_satp r) p s;
     let s = tf_set 8 (p_kstack (procs s p) + PGSIZE) p s;
     let s = tf_set 16 (r_usertrap r) p s;
     Some (tf_set 32 (of_nat (cpuid (sync s))) p s)
   }"

text \<open>What becomes of a trap: back to user code, asleep in a system call, yielding, or the process exits.\<close>

datatype trapres = ToUser | Sleeps kcont bool | Yields bool | Exits

text \<open>\<open>usertrap\<close> behind the handling of its cause, and behind \<open>yield\<close>.\<close>

definition usertrap_tail :: "trapregs \<Rightarrow> nat \<Rightarrow> int \<Rightarrow> kstate \<Rightarrow> (trapres \<times> kstate) option" where
  "usertrap_tail r p which_dev s = do {
     (k, s) \<leftarrow> killed p s;
     if k \<noteq> 0 then do {
       s \<leftarrow> kexit (-1) s;
       Some (Exits, s)
     }
     else if which_dev = 2 then do {
       (b, s) \<leftarrow> yield_out s;
       Some (Yields b, s)
     }
     else do {
       s \<leftarrow> prepare_return r s;
       Some (ToUser, s)
     }
   }"

definition usertrap_yielded :: "trapregs \<Rightarrow> nat \<Rightarrow> bool \<Rightarrow> kstate \<Rightarrow> (trapres \<times> kstate) option" where
  "usertrap_yielded r p b s = do {
     s \<leftarrow> yield_in p b s;
     s \<leftarrow> prepare_return r s;
     Some (ToUser, s)
   }"

fun syscall_tail :: "trapregs \<Rightarrow> nat \<Rightarrow> (unit, kcont) blk \<times> kstate \<Rightarrow> (trapres \<times> kstate) option" where
  "syscall_tail r p (Done (), s) = usertrap_tail r p 0 s"
| "syscall_tail r p (Asleep k b, s) = Some (Sleeps k b, s)"
| "syscall_tail r p (Gone, s) = Some (Exits, s)"

text \<open>The output of the conversion \<open>%lx\<close>.\<close>

fun fmt_lx :: "nat \<Rightarrow> string" where
  "fmt_lx n = (let c = ''0123456789abcdef'' ! (n mod 16) in if n < 16 then [c] else fmt_lx (n div 16) @ [c])"

declare fmt_lx.simps [simp del]

definition unexpected_trap :: "trapregs \<Rightarrow> nat \<Rightarrow> kstate \<Rightarrow> (trapres \<times> kstate) option" where
  "unexpected_trap r p s = do {
     s \<leftarrow> setkilled p (printk (''usertrap(): unexpected scause 0x'' @ fmt_lx (unat (r_scause r)) @ '' pid='' @ fmt_lld (p_pid (procs s p)) @ [CHR 0x0A] @
       ''            sepc=0x'' @ fmt_lx (unat (r_sepc r)) @ '' stval=0x'' @ fmt_lx (unat (r_stval r)) @ [CHR 0x0A]) s);
     usertrap_tail r p 0 s
   }"

definition usertrap :: "devices \<Rightarrow> trapregs \<Rightarrow> kstate \<Rightarrow> (trapres \<times> kstate) option" where
  "usertrap d r s = do {
     p \<leftarrow> myproc s;
     let s = tf_set TF_epc (r_sepc r) p s;
     if r_scause r = 8 then do {
       (k, s) \<leftarrow> killed p s;
       if k \<noteq> 0 then do {
         s \<leftarrow> kexit (-1) s;
         Some (Exits, s)
       }
       else do {
         let s = tf_set TF_epc (tf_get TF_epc p s + 4) p s;
         res \<leftarrow> syscall d (s\<lparr>sync := intr_on (sync s)\<rparr>);
         syscall_tail r p res
       }
     }
     else do {
       (which_dev, s) \<leftarrow> devintr r s;
       if which_dev \<noteq> 0 then usertrap_tail r p which_dev s
       else if r_scause r = 15 \<or> r_scause r = 13 then do {
         (pa, s) \<leftarrow> vmfault (p_pagetable (procs s p)) (r_stval r) s;
         if pa \<noteq> 0 then usertrap_tail r p 0 s else unexpected_trap r p s
       }
       else unexpected_trap r p s
     }
   }"

definition usertrap_resumed :: "devices \<Rightarrow> trapregs \<Rightarrow> kcont \<Rightarrow> nat \<Rightarrow> bool \<Rightarrow> kstate \<Rightarrow> (trapres \<times> kstate) option" where
  "usertrap_resumed d r k p b s = Option.bind (syscall_resume d k p b s) (syscall_tail r p)"

end
