(* ===== verification/Switch.thy ===== *)
theory Switch
  imports Sched
begin

text \<open>
  What a context switch does to the locks: the two halves of \<open>yield\<close> and \<open>sleep\<close>, entered with the books in order,
  are total functions with closed results.
\<close>

section \<open>No lock held\<close>

definition idle :: "sync \<Rightarrow> bool" where
  "idle y \<longleftrightarrow> sync_ok y \<and> c_noff (mycpu y) = 0 \<and> (\<forall>lk. is_free lk y)"

text \<open>The CPU after process \<open>p\<close> got it, and after a process gave it up.\<close>

definition resumed :: "nat \<Rightarrow> bool \<Rightarrow> sync \<Rightarrow> sync" where
  "resumed p b y = (set_mycpu \<lparr>c_proc = Some p, c_noff = 0, c_intena = b\<rparr> y)\<lparr>sie := b\<rparr>"

definition parked :: "sync \<Rightarrow> sync" where
  "parked y = set_mycpu \<lparr>c_proc = None, c_noff = 0, c_intena = sie y\<rparr> y"

lemma idle_simps [simp]: "idle y \<Longrightarrow> idle (settle y)" "idle y \<Longrightarrow> idle (resumed p b y)" "idle y \<Longrightarrow> idle (parked y)"
  "idle y \<Longrightarrow> sync_ok y" "idle y \<Longrightarrow> is_free lk y" "idle y \<Longrightarrow> c_noff (mycpu y) = 0"
  by (auto simp: idle_def sync_defs resumed_def parked_def)

lemma cproc_simps [simp]: "c_proc (mycpu (resumed p b y)) = Some p" "c_proc (mycpu (parked y)) = None"
  by (simp_all add: resumed_def parked_def sync_defs)

lemma myproc_sync [simp]: "myproc (s\<lparr>sync := y\<rparr>) = c_proc (mycpu y)"
  by (simp add: myproc_def)

lemma fun_upd_congI: "v = w \<Longrightarrow> f(x := v) = f(x := w)"
  by simp

lemma release_resume:
  "idle y \<Longrightarrow> release (Lproc p) (let y' = set_mycpu ((mycpu (lockd (Lproc p) y))\<lparr>c_proc := Some p\<rparr>) (lockd (Lproc p) y) in
     set_mycpu ((mycpu y')\<lparr>c_intena := b\<rparr>) y') = Some (resumed p b y)"
  by (auto simp: idle_def sync_defs resumed_def fun_upd_idem intro!: sync.equality cpu.equality fun_upd_congI)

lemma release_park:
  "idle y \<Longrightarrow> release (Lproc p) (set_mycpu ((mycpu (lockd (Lproc p) y))\<lparr>c_proc := None\<rparr>) (lockd (Lproc p) y)) = Some (parked y)"
  by (auto simp: idle_def sync_defs parked_def fun_upd_idem intro!: sync.equality cpu.equality fun_upd_congI)

lemma sched_out_eq:
  assumes "idle y" "c_proc (mycpu y) = Some p" "p_state (procs s p) \<noteq> RUNNING"
  shows "sched_out (s\<lparr>sync := lockd (Lproc p) y\<rparr>) = Some (sie y, s\<lparr>sync := lockd (Lproc p) y\<rparr>)"
  using assms by (simp add: sched_out_def intr_get_def) (simp add: idle_def sync_defs)

lemma scheduler_back_eq: "idle y \<Longrightarrow> scheduler_back p (s\<lparr>sync := lockd (Lproc p) y\<rparr>) = Some (s\<lparr>sync := parked y\<rparr>)"
  by (simp add: scheduler_back_def rel_def release_park)

section \<open>The halves of \<open>yield\<close> and \<open>sleep\<close>\<close>

text \<open>The state in which the scheduler hands the CPU to \<open>p\<close>.\<close>

definition dispatched :: "nat \<Rightarrow> kstate \<Rightarrow> kstate" where
  "dispatched p s = set_cproc (Some p) (upd_proc p (\<lambda>p. p\<lparr>p_state := RUNNING\<rparr>) (s\<lparr>sync := lockd (Lproc p) (sync s)\<rparr>))"

lemma sched_in_dispatched:
  "idle (sync s) \<Longrightarrow> release (Lproc p) (sync (sched_in b (dispatched p s))) = Some (resumed p b (sync s))"
  using release_resume [of "sync s" p b] by (simp add: sched_in_def dispatched_def Let_def)

lemma dispatched_simps [simp]: "procs (dispatched p s) = (procs s)(p := (procs s p)\<lparr>p_state := RUNNING\<rparr>)"
  "kmutex_table (dispatched p s) = kmutex_table s" "myproc (dispatched p s) = Some p"
  by (simp_all add: dispatched_def upd_proc_def myproc_def mycpu_def cpuid_def)

lemma yield_in_eq:
  "idle (sync s) \<Longrightarrow> yield_in p b (dispatched p s) =
     Some ((upd_proc p (\<lambda>p. p\<lparr>p_state := RUNNING\<rparr>) s)\<lparr>sync := resumed p b (sync s)\<rparr>)"
  by (simp add: yield_in_def rel_def sched_in_dispatched) (simp add: sched_in_def dispatched_def upd_proc_def)

lemma sleep_in_eq:
  assumes "idle (sync s)"
  shows "sleep_in p lk b (dispatched p s) =
     Some ((upd_proc p (\<lambda>p. p\<lparr>p_state := RUNNING, p_chan := None\<rparr>) s)\<lparr>sync := lockd lk (resumed p b (sync s))\<rparr>)"
proof -
  have "rel (Lproc p) (upd_proc p (\<lambda>p. p\<lparr>p_chan := None\<rparr>) (sched_in b (dispatched p s))) =
      Some ((upd_proc p (\<lambda>p. p\<lparr>p_state := RUNNING, p_chan := None\<rparr>) s)\<lparr>sync := resumed p b (sync s)\<rparr>)"
    using assms by (simp add: rel_def sched_in_dispatched) (simp add: sched_in_def dispatched_def upd_proc_def)
  then show ?thesis using assms by (simp add: sleep_in_def)
qed

lemma yield_out_eq:
  assumes "idle (sync s)" "myproc s = Some p"
  shows "yield_out s = Some (sie (sync s), (upd_proc p (\<lambda>p. p\<lparr>p_state := RUNNABLE\<rparr>) s)\<lparr>sync := parked (sync s)\<rparr>)"
  using assms by (simp add: yield_out_def sched_out_eq scheduler_back_eq) (simp add: myproc_def sched_out_eq scheduler_back_eq)

lemma sleep_out_eq:
  assumes "idle y" "c_proc (mycpu y) = Some p" "lk \<noteq> Lproc p"
  shows "sleep_out ch lk (s\<lparr>sync := lockd lk y\<rparr>) =
     Some (sie y, (upd_proc p (\<lambda>p. p\<lparr>p_chan := Some ch, p_state := SLEEPING\<rparr>) s)\<lparr>sync := parked y\<rparr>)"
proof -
  have "release lk (lockd (Lproc p) (lockd lk y)) = Some (lockd (Lproc p) y)" using assms by simp
  then show ?thesis using assms by (simp add: sleep_out_def rel_def sched_out_eq scheduler_back_eq)
qed

end
