(* ===== verification/MutexMachine.thy ===== *)
theory MutexMachine
  imports KMutex Switch
begin

text \<open>
  Processes that use kernel mutexes, interleaved by the scheduler.  A configuration is the kernel state, where each
  process that is off the CPU continues, and (as a history variable) who holds which mutex by the results
  of the calls so far.  A step is a system call of the running process, a timer interrupt that makes it
  yield, or the scheduler dispatching a process, which then finishes the call it slept in.

  Shown for every reachable configuration: mutual exclusion, no process sleeps on an unlocked mutex, and
  every call returns or sleeps.
\<close>

section \<open>What the calls do\<close>

lemma mutex_create_eq:
  assumes "idle (sync s)"
  shows "mutex_create s = Some (case find_idx (\<lambda>m. \<not> mx_used m) (kmutex_table s) of
      Some i \<Rightarrow> (int i, settled (s\<lparr>kmutex_table := (kmutex_table s)[i := \<lparr>mx_used = True, mx_locked = False, mx_owner_pid = -1\<rparr>]\<rparr>))
    | None \<Rightarrow> (-1, settled s))"
  using assms by (simp add: mutex_create_def rel_def split: option.split)

definition lock_entry :: "int \<Rightarrow> nat \<Rightarrow> kstate \<Rightarrow> kstate" where
  "lock_entry mid p s = upd_mutex mid (\<lambda>m. m\<lparr>mx_locked := True, mx_owner_pid := p_pid (procs s p)\<rparr>) s"

definition put_asleep :: "int \<Rightarrow> nat \<Rightarrow> kstate \<Rightarrow> kstate" where
  "put_asleep mid p s = (upd_proc p (\<lambda>p. p\<lparr>p_chan := Some (Cmutex (nat mid)), p_state := SLEEPING\<rparr>) s)\<lparr>sync := parked (sync s)\<rparr>"

text \<open>One round of \<open>mutex_lock\<close>.\<close>

lemma mutex_lock_loop_eq:
  assumes "idle y" "c_proc (mycpu y) = Some p"
  shows "mutex_lock_loop mid p (s\<lparr>sync := lockd Lwait y\<rparr>) = Some (
     if \<not> mx_used (mutex_of mid s) then (Done (-1), s\<lparr>sync := settle y\<rparr>)
     else if \<not> mx_locked (mutex_of mid s) then (Done 0, lock_entry mid p (s\<lparr>sync := settle y\<rparr>))
     else if mx_owner_pid (mutex_of mid s) = p_pid (procs s p) then (Done (-1), s\<lparr>sync := settle y\<rparr>)
     else (Asleep mid (sie y), put_asleep mid p (s\<lparr>sync := y\<rparr>)))"
  using assms by (simp add: mutex_lock_loop_def rel_def asleep_def sleep_out_eq lock_entry_def put_asleep_def)

lemma mutex_lock_eq:
  assumes "idle (sync s)" "myproc s = Some p" "\<not> bad_mutex mid"
  shows "mutex_lock mid s = Some (
     if \<not> mx_used (mutex_of mid s) then (Done (-1), settled s)
     else if \<not> mx_locked (mutex_of mid s) then (Done 0, lock_entry mid p (settled s))
     else if mx_owner_pid (mutex_of mid s) = p_pid (procs s p) then (Done (-1), settled s)
     else (Asleep mid (sie (sync s)), put_asleep mid p s))"
  using assms mutex_lock_loop_eq [of "sync s" p mid s] by (simp add: mutex_lock_def myproc_def)

lemma killed_inside:
  assumes "idle y"
  shows "killed p (s\<lparr>sync := lockd Lwait y\<rparr>) = Some (p_killed (procs s p), s\<lparr>sync := lockd Lwait y\<rparr>)"
  using assms by (simp add: killed_def rel_def)

lemma mutex_lock_resume_eq:
  assumes "idle (sync s)"
  shows "mutex_lock_resume mid p b (dispatched p s) =
    (let s' = (upd_proc p (\<lambda>p. p\<lparr>p_state := RUNNING, p_chan := None\<rparr>) s)\<lparr>sync := resumed p b (sync s)\<rparr> in Some (
     if p_killed (procs s p) \<noteq> 0 then (Done (-1), settled s')
     else if \<not> mx_used (mutex_of mid s) then (Done (-1), settled s')
     else if \<not> mx_locked (mutex_of mid s) then (Done 0, lock_entry mid p (settled s'))
     else if mx_owner_pid (mutex_of mid s) = p_pid (procs s p) then (Done (-1), settled s')
     else (Asleep mid b, put_asleep mid p s')))"
proof -
  let ?s = "upd_proc p (\<lambda>p. p\<lparr>p_state := RUNNING, p_chan := None\<rparr>) s"
  let ?y = "resumed p b (sync s)"
  have i: "idle ?y" "c_proc (mycpu ?y) = Some p" using assms by simp_all
  have "sie ?y = b" by (simp add: resumed_def)
  have m: "kmutex_table ?s = kmutex_table s" by (simp add: upd_proc_def)
  show ?thesis
    using i \<open>sie ?y = b\<close> mutex_lock_loop_eq [OF i(1,2), of mid ?s] killed_inside [OF i(1), of p ?s] assms m
    by (simp add: mutex_lock_resume_def sleep_in_eq rel_def Let_def)
qed

definition unlock_entry :: "int \<Rightarrow> kstate \<Rightarrow> kstate" where
  "unlock_entry mid s = woken (Some (Cmutex (nat mid))) (upd_mutex mid (\<lambda>m. m\<lparr>mx_locked := False, mx_owner_pid := -1\<rparr>) s)"

lemma mutex_unlock_eq:
  assumes "idle (sync s)" "myproc s = Some p" "\<not> bad_mutex mid"
  shows "mutex_unlock mid s = Some (
     if mx_used (mutex_of mid s) \<and> mx_locked (mutex_of mid s) \<and> mx_owner_pid (mutex_of mid s) = p_pid (procs s p)
     then (0, settled (unlock_entry mid s)) else (-1, settled s))"
proof -
  have "wakeup ch t = Some (woken (Some ch) t)" if "sync t = lockd Lwait (sync s)" for ch t
    using assms(1) that by (intro wakeup_eq) (simp_all add: procs_free_def)
  then show ?thesis using assms
    by (simp add: mutex_unlock_def rel_def unlock_entry_def) (simp add: woken_def myproc_def cong: if_cong)
qed

lemma mutex_trylock_eq:
  assumes "idle (sync s)" "myproc s = Some p" "\<not> bad_mutex mid"
  shows "mutex_trylock mid s = Some (
     if mx_used (mutex_of mid s) \<and> \<not> mx_locked (mutex_of mid s) then (0, lock_entry mid p (settled s)) else (-1, settled s))"
  using assms by (simp add: mutex_trylock_def rel_def lock_entry_def)

lemma mutex_owner_eq:
  assumes "idle (sync s)" "\<not> bad_mutex mid"
  shows "mutex_owner mid s = Some (
     if \<not> mx_used (mutex_of mid s) then -1 else if \<not> mx_locked (mutex_of mid s) then 0 else mx_owner_pid (mutex_of mid s), settled s)"
  using assms by (simp add: mutex_owner_def rel_def)

lemma mutex_bad:
  assumes "bad_mutex mid"
  shows "mutex_lock mid s = Some (Done (-1), s)" "mutex_unlock mid s = Some (-1, s)" "mutex_trylock mid s = Some (-1, s)"
    "mutex_owner mid s = Some (-1, s)"
  using assms by (auto simp: mutex_lock_def mutex_unlock_def mutex_trylock_def mutex_owner_def)

lemma idle_procs_free [simp]: "idle (sync s) \<Longrightarrow> procs_free s"
  by (simp add: procs_free_def)

lemma entry_simps [simp]: "sync (lock_entry mid p s) = sync s" "procs (lock_entry mid p s) = procs s" "myproc (lock_entry mid p s) = myproc s"
  "sync (unlock_entry mid s) = sync s" "myproc (unlock_entry mid s) = myproc s"
  "sync (put_asleep mid p s) = parked (sync s)" "myproc (put_asleep mid p s) = None"
  by (simp_all add: lock_entry_def unlock_entry_def put_asleep_def myproc_def)

lemma unlock_entry_state: "p_state (procs s p) \<noteq> SLEEPING \<Longrightarrow> procs (unlock_entry mid s) p = procs s p"
  by (simp add: unlock_entry_def woken_def)

section \<open>The machine\<close>

datatype mloc = User bool | InLock int bool

record mconf =
  ks :: kstate
  loc :: "nat \<Rightarrow> mloc"
  held :: "(nat \<times> int) set"

abbreviation took :: "nat \<Rightarrow> int \<Rightarrow> int \<Rightarrow> mconf \<Rightarrow> mconf" where
  "took p mid v c \<equiv> (if v = 0 then c\<lparr>held := insert (p, mid) (held c)\<rparr> else c)"

inductive mstep :: "mconf \<Rightarrow> mconf \<Rightarrow> bool" where
  create: "myproc (ks c) = Some p \<Longrightarrow> mutex_create (ks c) = Some (v, s) \<Longrightarrow> mstep c (c\<lparr>ks := s\<rparr>)"
| lock: "myproc (ks c) = Some p \<Longrightarrow> mutex_lock mid (ks c) = Some (Done v, s) \<Longrightarrow> mstep c (took p mid v (c\<lparr>ks := s\<rparr>))"
| lock_sleep: "myproc (ks c) = Some p \<Longrightarrow> mutex_lock mid (ks c) = Some (Asleep m b, s) \<Longrightarrow>
    mstep c (c\<lparr>ks := s, loc := (loc c)(p := InLock m b)\<rparr>)"
| trylock: "myproc (ks c) = Some p \<Longrightarrow> mutex_trylock mid (ks c) = Some (v, s) \<Longrightarrow> mstep c (took p mid v (c\<lparr>ks := s\<rparr>))"
| unlock: "myproc (ks c) = Some p \<Longrightarrow> mutex_unlock mid (ks c) = Some (v, s) \<Longrightarrow>
    mstep c (c\<lparr>ks := s, held := if v = 0 then held c - {(p, mid)} else held c\<rparr>)"
| owner: "myproc (ks c) = Some p \<Longrightarrow> mutex_owner mid (ks c) = Some (v, s) \<Longrightarrow> mstep c (c\<lparr>ks := s\<rparr>)"
| kill: "myproc (ks c) = Some p \<Longrightarrow> ksignal_send pid sig (ks c) = Some (v, s) \<Longrightarrow> mstep c (c\<lparr>ks := s\<rparr>)"
| tick: "myproc (ks c) = Some p \<Longrightarrow> yield_out (ks c) = Some (b, s) \<Longrightarrow> mstep c (c\<lparr>ks := s, loc := (loc c)(p := User b)\<rparr>)"
| run: "myproc (ks c) = None \<Longrightarrow> set ps \<subseteq> {..<NPROC} \<Longrightarrow> scheduler_scan ps (ks c) = Some (Some (p, qs), s1) \<Longrightarrow>
    loc c p = User b \<Longrightarrow> yield_in p b s1 = Some s \<Longrightarrow> mstep c (c\<lparr>ks := s\<rparr>)"
| resume: "myproc (ks c) = None \<Longrightarrow> set ps \<subseteq> {..<NPROC} \<Longrightarrow> scheduler_scan ps (ks c) = Some (Some (p, qs), s1) \<Longrightarrow>
    loc c p = InLock mid b \<Longrightarrow> mutex_lock_resume mid p b s1 = Some (Done v, s) \<Longrightarrow> mstep c (took p mid v (c\<lparr>ks := s\<rparr>))"
| resume_sleep: "myproc (ks c) = None \<Longrightarrow> set ps \<subseteq> {..<NPROC} \<Longrightarrow> scheduler_scan ps (ks c) = Some (Some (p, qs), s1) \<Longrightarrow>
    loc c p = InLock mid b \<Longrightarrow> mutex_lock_resume mid p b s1 = Some (Asleep m b', s) \<Longrightarrow>
    mstep c (c\<lparr>ks := s, loc := (loc c)(p := InLock m b')\<rparr>)"

text \<open>Before any mutex call: no lock is held, no process sleeps on a mutex, the pids of the processes differ.\<close>

abbreviation live :: "kstate \<Rightarrow> nat \<Rightarrow> bool" where
  "live s p \<equiv> p < NPROC \<and> p_state (procs s p) \<noteq> UNUSED"

definition mutex_start :: "mconf \<Rightarrow> bool" where
  "mutex_start c \<longleftrightarrow> idle (sync (ks c)) \<and> length (kmutex_table (ks c)) = NKMUTEX \<and>
     (\<forall>p. myproc (ks c) = Some p \<longrightarrow> p < NPROC \<and> p_state (procs (ks c) p) = RUNNING) \<and>
     (\<forall>p<NPROC. p_state (procs (ks c) p) \<noteq> SLEEPING) \<and> inj_on (\<lambda>p. p_pid (procs (ks c) p)) {p. live (ks c) p} \<and>
     (\<forall>p. \<exists>b. loc c p = User b) \<and> held c = {}"

section \<open>The invariant\<close>

definition table_ok :: "kstate \<Rightarrow> (nat \<times> int) set \<Rightarrow> bool" where
  "table_ok s h \<longleftrightarrow> length (kmutex_table s) = NKMUTEX \<and>
     (\<forall>p<NPROC. \<forall>m. p_state (procs s p) = SLEEPING \<and> p_chan (procs s p) = Some (Cmutex m) \<longrightarrow>
        m < NKMUTEX \<and> mx_used (kmutex_table s ! m) \<and> mx_locked (kmutex_table s ! m)) \<and>
     (\<forall>(p, mid)\<in>h. live s p \<and> \<not> bad_mutex mid \<and> mx_used (mutex_of mid s) \<and> mx_locked (mutex_of mid s) \<and>
        mx_owner_pid (mutex_of mid s) = p_pid (procs s p)) \<and>
     inj_on (\<lambda>p. p_pid (procs s p)) {p. live s p}"

definition mutex_inv :: "mconf \<Rightarrow> bool" where
  "mutex_inv c \<longleftrightarrow> idle (sync (ks c)) \<and> table_ok (ks c) (held c) \<and>
     (\<forall>p. myproc (ks c) = Some p \<longrightarrow> p < NPROC \<and> p_state (procs (ks c) p) = RUNNING) \<and>
     (\<forall>p m b. loc c p = InLock m b \<longrightarrow> \<not> bad_mutex m)"

lemma mutex_start_inv: "mutex_start c \<Longrightarrow> mutex_inv c"
  unfolding mutex_start_def mutex_inv_def table_ok_def by (auto) (metis mloc.distinct(1))+

lemma table_ok_sync [simp]: "table_ok (s\<lparr>sync := y\<rparr>) h = table_ok s h"
  by (simp add: table_ok_def)

lemma table_ok_heldD:
  assumes "table_ok s h" "(p, mid) \<in> h"
  shows "live s p" "\<not> bad_mutex mid" "mx_used (mutex_of mid s)" "mx_locked (mutex_of mid s)" "mx_owner_pid (mutex_of mid s) = p_pid (procs s p)"
  using assms(1) bspec [OF _ assms(2)] unfolding table_ok_def by blast+

text \<open>Changes of process states that keep pids and that put nobody to sleep on an unlocked mutex.\<close>

lemma table_ok_procs:
  assumes "table_ok s h" "kmutex_table s' = kmutex_table s"
    "\<And>p. p < NPROC \<Longrightarrow> p_pid (procs s' p) = p_pid (procs s p) \<and> (p_state (procs s' p) = UNUSED \<longleftrightarrow> p_state (procs s p) = UNUSED) \<and>
      (p_state (procs s' p) = SLEEPING \<longrightarrow> p_state (procs s p) = SLEEPING \<and> p_chan (procs s' p) = p_chan (procs s p) \<or>
        (\<exists>m<NKMUTEX. p_chan (procs s' p) = Some (Cmutex m) \<and> mx_used (kmutex_table s ! m) \<and> mx_locked (kmutex_table s ! m)))"
  shows "table_ok s' h"
proof -
  have "{p. live s' p} = {p. live s p}" using assms(3) by auto
  moreover have "inj_on (\<lambda>p. p_pid (procs s' p)) {p. live s p} = inj_on (\<lambda>p. p_pid (procs s p)) {p. live s p}"
    using assms(3) by (intro inj_on_cong) auto
  ultimately show ?thesis using assms unfolding table_ok_def by (fastforce split: prod.splits)
qed

lemma table_ok_upd:
  assumes "table_ok s h" "p_pid (f (procs s p)) = p_pid (procs s p)" "p_state (f (procs s p)) \<noteq> UNUSED" "p_state (procs s p) \<noteq> UNUSED"
    "p_state (f (procs s p)) = SLEEPING \<Longrightarrow> p_state (procs s p) = SLEEPING \<and> p_chan (f (procs s p)) = p_chan (procs s p)"
  shows "table_ok (upd_proc p f s) h"
  by (rule table_ok_procs [OF assms(1)]) (use assms(2-) in \<open>auto simp: upd_proc_def\<close>)

lemma table_ok_asleep:
  assumes "table_ok s h" "\<not> bad_mutex mid" "mx_used (mutex_of mid s)" "mx_locked (mutex_of mid s)" "p_state (procs s p) \<noteq> UNUSED"
  shows "table_ok (put_asleep mid p s) h"
  unfolding put_asleep_def table_ok_sync
  by (rule table_ok_procs [OF assms(1)]) (use assms(2-) in \<open>auto simp: upd_proc_def\<close>)

lemma table_ok_lock:
  assumes "table_ok s h" "live s p" "\<not> bad_mutex mid" "mx_used (mutex_of mid s)" "\<not> mx_locked (mutex_of mid s)"
  shows "table_ok (lock_entry mid p s) (insert (p, mid) h)"
proof -
  have "nat mid < NKMUTEX" using assms(3) by auto
  then show ?thesis using assms unfolding table_ok_def lock_entry_def by (auto simp: nth_list_update split: if_splits)
qed

lemma table_ok_create:
  assumes "table_ok s h" "i < NKMUTEX" "\<not> mx_used (kmutex_table s ! i)"
  shows "table_ok (s\<lparr>kmutex_table := (kmutex_table s)[i := m]\<rparr>) h"
  using assms unfolding table_ok_def by (auto simp: nth_list_update split: if_splits)

lemma table_ok_unlock:
  assumes "table_ok s h" "live s p" "\<not> bad_mutex mid" "mx_owner_pid (mutex_of mid s) = p_pid (procs s p)"
    "myproc s = Some p" "p_state (procs s p) = RUNNING"
  shows "table_ok (unlock_entry mid s) (h - {(p, mid)})"
proof -
  let ?t = "upd_mutex mid (\<lambda>m. m\<lparr>mx_locked := False, mx_owner_pid := -1\<rparr>) s"
  let ?w = "unlock_entry mid s"
  have n: "nat mid < NKMUTEX" "length (kmutex_table s) = NKMUTEX" using assms(1,3) by (auto simp: table_ok_def)
  have other: "nat k \<noteq> nat mid" if "(q, k) \<in> h - {(p, mid)}" for q k
  proof
    assume "nat k = nat mid"
    moreover have "\<not> bad_mutex k" "live s q" "mx_owner_pid (mutex_of k s) = p_pid (procs s q)" using assms(1) that by (auto simp: table_ok_def)
    ultimately have "k = mid" "p_pid (procs s q) = p_pid (procs s p)" using assms(3,4) by auto
    moreover from this have "q = p" using assms(1,2) \<open>live s q\<close> by (auto simp: table_ok_def inj_on_def)
    ultimately show False using that by simp
  qed
  have pr: "p_pid (procs ?w q) = p_pid (procs s q)" "p_state (procs ?w q) = UNUSED \<longleftrightarrow> p_state (procs s q) = UNUSED"
    "q < NPROC \<Longrightarrow> p_state (procs ?w q) = SLEEPING \<Longrightarrow> p_state (procs s q) = SLEEPING \<and> p_chan (procs s q) \<noteq> Some (Cmutex (nat mid))"
    "p_chan (procs ?w q) = p_chan (procs s q)" for q
    using assms(5,6) by (auto simp: unlock_entry_def woken_def myproc_def split: if_splits)
  have tab: "kmutex_table ?w = (kmutex_table s)[nat mid := (mutex_of mid s)\<lparr>mx_locked := False, mx_owner_pid := -1\<rparr>]"
    by (simp add: unlock_entry_def)
  show ?thesis using assms(1) n other pr unfolding table_ok_def tab by (fastforce simp: nth_list_update)
qed

lemma scan_procs_ok:
  assumes "table_ok s h" "idle (sync s)" "scan_procs hit act ret ps s = Some (v, s')"
    "\<And>x. p_pid (act x) = p_pid x \<and> p_chan (act x) = p_chan x \<and> (p_state (act x) = p_state x \<or> p_state x = SLEEPING \<and> p_state (act x) = RUNNABLE)"
  shows "table_ok s' h \<and> idle (sync s') \<and> myproc s' = myproc s \<and>
    (\<forall>p. p_state (procs s p) = RUNNING \<longrightarrow> p_state (procs s' p) = RUNNING)"
proof -
  have "procs_free s" using assms(2) by simp
  then consider "s' = settled s" | "s' = s" | p where "s' = settled (upd_proc p act s)"
    using assms(3) scan_procs_eq [of s hit act ret ps] by (auto split: option.splits if_splits)
  then show ?thesis
  proof cases
    case (3 p)
    have "table_ok (upd_proc p act s) h"
      by (rule table_ok_procs [OF assms(1)]) (use assms(4) [of "procs s p"] in \<open>auto simp: upd_proc_def\<close>)
    then show ?thesis using 3 assms(2,4) by (auto simp: myproc_def) (metis procstate.distinct)
  qed (use assms in \<open>auto simp: myproc_def\<close>)
qed

lemma dispatch_eq:
  assumes "idle (sync s)" "scheduler_scan ps s = Some (Some (p, qs), s1)"
  shows "s1 = dispatched p s \<and> p \<in> set ps \<and> p_state (procs s p) = RUNNABLE \<and> p_frozen (procs s p) = 0"
  using assms(2) scheduler_scan_eq [of s ps] assms(1) by (auto simp: find_Some_iff dispatched_def split: option.splits)

lemma ksignal_ok:
  assumes "table_ok s h" "idle (sync s)" "ksignal_send pid sig s = Some (v, s')"
  shows "table_ok s' h \<and> idle (sync s') \<and> myproc s' = myproc s \<and>
    (\<forall>p. p_state (procs s p) = RUNNING \<longrightarrow> p_state (procs s' p) = RUNNING)"
  using assms unfolding ksignal_send_def kkill_def kfreeze_def kthaw_def
  by (auto split: if_splits simp: Let_def dest!: scan_procs_ok [OF assms(1,2)])

text \<open>A process dispatched inside \<open>mutex_lock\<close> always comes to one of three ends.\<close>

lemma resume_cases:
  assumes "mutex_inv c" "set ps \<subseteq> {..<NPROC}" "scheduler_scan ps (ks c) = Some (Some (p, qs), s1)" "loc c p = InLock mid b"
  obtains t where "table_ok t (held c)" "idle (sync t)" "myproc t = Some p" "live t p" "p_state (procs t p) = RUNNING" "\<not> bad_mutex mid"
    "mutex_lock_resume mid p b s1 = Some (Done (-1), settled t) \<or>
     mutex_lock_resume mid p b s1 = Some (Done 0, lock_entry mid p (settled t)) \<and> mx_used (mutex_of mid t) \<and> \<not> mx_locked (mutex_of mid t) \<or>
     mutex_lock_resume mid p b s1 = Some (Asleep mid b, put_asleep mid p t) \<and> mx_used (mutex_of mid t) \<and> mx_locked (mutex_of mid t)"
proof -
  have i: "idle (sync (ks c))" "\<not> bad_mutex mid" "table_ok (ks c) (held c)" using assms(1,4) by (auto simp: mutex_inv_def)
  note d = dispatch_eq [OF i(1) assms(3)]
  define t where "t = (upd_proc p (\<lambda>p. p\<lparr>p_state := RUNNING, p_chan := None\<rparr>) (ks c))\<lparr>sync := resumed p b (sync (ks c))\<rparr>"
  have t: "table_ok t (held c)" "live t p" "kmutex_table t = kmutex_table (ks c)" "idle (sync t)" "myproc t = Some p" "p_state (procs t p) = RUNNING"
    using assms(2) d i table_ok_upd [of "ks c" "held c" "\<lambda>p. p\<lparr>p_state := RUNNING, p_chan := None\<rparr>" p]
    by (auto simp: t_def upd_proc_def)
  show thesis
    by (rule that [OF t(1,4,5,2,6) i(2)]) (use d i(1) t(3) in \<open>auto simp: mutex_lock_resume_eq t_def [symmetric] Let_def\<close>)
qed

lemma mutex_inv_step: "mstep c c' \<Longrightarrow> mutex_inv c \<Longrightarrow> mutex_inv c'"
proof (induction rule: mstep.induct)
  case (create c p v s)
  then have "length (kmutex_table (ks c)) = NKMUTEX" by (simp add: mutex_inv_def table_ok_def)
  with create show ?case
    by (auto simp: mutex_inv_def mutex_create_eq myproc_def split: option.splits dest!: find_idx_SomeD intro: table_ok_create)
next
  case (kill c p pid sig v s)
  then show ?case using ksignal_ok [of "ks c" "held c" pid sig v s] by (auto simp: mutex_inv_def)
next
  case (owner c p mid v s)
  then show ?case by (cases "bad_mutex mid") (auto simp: mutex_inv_def mutex_owner_eq myproc_def mutex_bad)
next
  case (tick c p b s)
  then have "live (ks c) p" by (auto simp: mutex_inv_def)
  then show ?case using tick table_ok_upd [of "ks c" "held c" "\<lambda>p. p\<lparr>p_state := RUNNABLE\<rparr>" p] by (auto simp: mutex_inv_def yield_out_eq split: if_splits)
next
  case (run c ps p qs s1 b s)
  then have "idle (sync (ks c))" by (simp add: mutex_inv_def)
  note d = dispatch_eq [OF this run.hyps(3)]
  then show ?case using run table_ok_upd [of "ks c" "held c" "\<lambda>p. p\<lparr>p_state := RUNNING\<rparr>" p] by (auto simp: mutex_inv_def yield_in_eq split: if_splits)
next
  case (trylock c p mid v s)
  then have "live (ks c) p" by (auto simp: mutex_inv_def)
  then show ?case using trylock table_ok_lock [of "settled (ks c)" "held c" p mid]
    by (cases "bad_mutex mid") (auto simp: mutex_inv_def mutex_trylock_eq mutex_bad myproc_def split: if_splits)
next
  case (unlock c p mid v s)
  then have "live (ks c) p" by (auto simp: mutex_inv_def)
  then show ?case using unlock table_ok_unlock [of "ks c" "held c" p mid]
    by (cases "bad_mutex mid") (auto simp: mutex_inv_def mutex_unlock_eq mutex_bad unlock_entry_state myproc_def split: if_splits)
next
  case (lock c p mid v s)
  then have "live (ks c) p" by (auto simp: mutex_inv_def)
  then show ?case using lock table_ok_lock [of "settled (ks c)" "held c" p mid]
    by (cases "bad_mutex mid") (auto simp: mutex_inv_def mutex_lock_eq mutex_bad myproc_def split: if_splits)
next
  case (lock_sleep c p mid m b s)
  then have "live (ks c) p" by (auto simp: mutex_inv_def)
  then show ?case using lock_sleep table_ok_asleep [of "ks c" "held c" mid p]
    by (cases "bad_mutex mid") (auto simp: mutex_inv_def mutex_lock_eq mutex_bad split: if_splits)
next
  case (resume c ps p qs s1 mid b v s)
  obtain t where t: "table_ok t (held c)" "idle (sync t)" "myproc t = Some p" "live t p" "p_state (procs t p) = RUNNING" "\<not> bad_mutex mid"
    and s: "s = settled t \<and> v \<noteq> 0 \<or> s = lock_entry mid p (settled t) \<and> v = 0 \<and> mx_used (mutex_of mid t) \<and> \<not> mx_locked (mutex_of mid t)"
    by (rule resume_cases [OF resume.prems resume.hyps(2-4)]) (use resume.hyps(5) in auto)
  then show ?case using resume.prems table_ok_lock [of "settled t" "held c" p mid] by (auto simp: mutex_inv_def myproc_def)
next
  case (resume_sleep c ps p qs s1 mid b m b' s)
  obtain t where "table_ok t (held c)" "idle (sync t)" "myproc t = Some p" "live t p" "p_state (procs t p) = RUNNING" "\<not> bad_mutex mid"
    and "s = put_asleep mid p t \<and> m = mid \<and> mx_used (mutex_of mid t) \<and> mx_locked (mutex_of mid t)"
    by (rule resume_cases [OF resume_sleep.prems resume_sleep.hyps(2-4)]) (use resume_sleep.hyps(5) in auto)
  then show ?case using resume_sleep.prems table_ok_asleep [of t "held c" mid p] by (auto simp: mutex_inv_def)
qed

lemma mutex_inv_reachable: "mstep\<^sup>*\<^sup>* c0 c \<Longrightarrow> mutex_start c0 \<Longrightarrow> mutex_inv c"
  by (induction rule: rtranclp_induct) (auto intro: mutex_start_inv mutex_inv_step)

section \<open>Mutual exclusion and wake-ups\<close>

text \<open>
  (C5) Kernel mutexes exclude: in every interleaving of \<open>mutex_create\<close>, \<open>mutex_lock\<close>, \<open>mutex_trylock\<close>, \<open>mutex_unlock\<close>,
  \<open>mutex_owner\<close>, signals and timer interrupts, a process whose lock or trylock call returned 0 and that has not unlocked since is the only
  such process for that mutex, and the table names it as the owner.
\<close>

theorem mutex_exclusion:
  assumes "mutex_start c0" "mstep\<^sup>*\<^sup>* c0 c" "(p, mid) \<in> held c"
  shows "mx_locked (mutex_of mid (ks c)) \<and> mx_owner_pid (mutex_of mid (ks c)) = p_pid (procs (ks c) p) \<and>
    (\<forall>q. (q, mid) \<in> held c \<longrightarrow> q = p)"
proof -
  have t: "table_ok (ks c) (held c)" using mutex_inv_reachable [OF assms(2,1)] by (simp add: mutex_inv_def)
  have "q = p" if "(q, mid) \<in> held c" for q
  proof -
    have "live (ks c) q \<and> live (ks c) p \<and> p_pid (procs (ks c) q) = p_pid (procs (ks c) p)"
      using table_ok_heldD [OF t that] table_ok_heldD [OF t assms(3)] by simp
    moreover have "inj_on (\<lambda>p. p_pid (procs (ks c) p)) {p. live (ks c) p}" using t by (simp add: table_ok_def)
    ultimately show ?thesis by (auto dest: inj_onD)
  qed
  then show ?thesis using table_ok_heldD [OF t assms(3)] by simp
qed

text \<open>
  (C6) No wake-up is lost and nothing gets stuck: in every reachable configuration a process asleep on a mutex waits for a mutex that is
  locked; every call of a running process returns or puts it to sleep; and as long as some process is runnable and not frozen,
  the scheduler's pass leads to a further step.
\<close>

theorem mutex_no_lost_wakeup:
  assumes "mutex_start c0" "mstep\<^sup>*\<^sup>* c0 c"
  shows "(\<forall>p<NPROC. \<forall>m. p_state (procs (ks c) p) = SLEEPING \<and> p_chan (procs (ks c) p) = Some (Cmutex m) \<longrightarrow>
      m < NKMUTEX \<and> mx_locked (kmutex_table (ks c) ! m)) \<and>
    (myproc (ks c) \<noteq> None \<longrightarrow> mutex_create (ks c) \<noteq> None \<and> mutex_lock mid (ks c) \<noteq> None \<and> mutex_trylock mid (ks c) \<noteq> None \<and>
      mutex_unlock mid (ks c) \<noteq> None \<and> mutex_owner mid (ks c) \<noteq> None \<and> yield_out (ks c) \<noteq> None) \<and>
    (myproc (ks c) = None \<and> (\<exists>p<NPROC. p_state (procs (ks c) p) = RUNNABLE \<and> p_frozen (procs (ks c) p) = 0) \<longrightarrow> (\<exists>c'. mstep c c'))"
proof (intro conjI impI)
  have inv: "mutex_inv c" using mutex_inv_reachable [OF assms(2,1)] .
  then have i: "idle (sync (ks c))" by (simp add: mutex_inv_def)
  show "\<forall>p<NPROC. \<forall>m. p_state (procs (ks c) p) = SLEEPING \<and> p_chan (procs (ks c) p) = Some (Cmutex m) \<longrightarrow>
      m < NKMUTEX \<and> mx_locked (kmutex_table (ks c) ! m)"
    using inv by (auto simp: mutex_inv_def table_ok_def)
  { assume "myproc (ks c) \<noteq> None"
    then obtain p where p: "myproc (ks c) = Some p" by auto
    show "mutex_create (ks c) \<noteq> None" "yield_out (ks c) \<noteq> None" using i p by (simp_all add: mutex_create_eq yield_out_eq)
    show "mutex_lock mid (ks c) \<noteq> None" "mutex_trylock mid (ks c) \<noteq> None" "mutex_unlock mid (ks c) \<noteq> None" "mutex_owner mid (ks c) \<noteq> None"
      using i p by (cases "bad_mutex mid"; simp add: mutex_bad mutex_lock_eq mutex_trylock_eq mutex_unlock_eq mutex_owner_eq)+ }
  { assume c: "myproc (ks c) = None \<and> (\<exists>p<NPROC. p_state (procs (ks c) p) = RUNNABLE \<and> p_frozen (procs (ks c) p) = 0)"
    then have "find (\<lambda>p. p_state (procs (ks c) p) = RUNNABLE \<and> p_frozen (procs (ks c) p) = 0) [0..<NPROC] \<noteq> None"
      by (auto simp: find_None_iff)
    then obtain p qs s1 where r: "scheduler_scan [0..<NPROC] (ks c) = Some (Some (p, qs), s1)"
      using scheduler_scan_eq [of "ks c" "[0..<NPROC]"] i by auto
    have sub: "set [0..<NPROC] \<subseteq> {..<NPROC}" by auto
    show "\<exists>c'. mstep c c'"
    proof (cases "loc c p")
      case (User b)
      then show ?thesis using mstep.run [OF _ sub r] c i dispatch_eq [OF i r] by (auto simp: yield_in_eq)
    next
      case (InLock mid b)
      then show ?thesis using resume_cases [OF inv sub r InLock] c mstep.resume [OF _ sub r InLock] mstep.resume_sleep [OF _ sub r InLock]
        by (metis)
    qed }
qed

section \<open>An instance\<close>

text \<open>Two processes with pids 1 and 2, the first one running.\<close>

definition mconf0 :: mconf where
  "mconf0 = \<lparr>ks = kstate0\<lparr>sync := set_mycpu ((mycpu sync0)\<lparr>c_proc := Some 0\<rparr>) sync0,
     procs := \<lambda>i. (procs kstate0 i)\<lparr>p_state := if i = 0 then RUNNING else if i = 1 then RUNNABLE else UNUSED, p_pid := int i + 1\<rparr>\<rparr>,
     loc = \<lambda>_. User True, held = {}\<rparr>"

lemma mconf0_start: "mutex_start mconf0"
  by (auto simp: mutex_start_def mconf0_def kstate0_def sync0_def idle_def sync_defs myproc_def NPROC_def NKMUTEX_def inj_on_def)

definition mconf1 :: mconf where
  "mconf1 = mconf0\<lparr>ks := settled ((ks mconf0)\<lparr>kmutex_table := (kmutex_table (ks mconf0))[0 := \<lparr>mx_used = True, mx_locked = False, mx_owner_pid = -1\<rparr>]\<rparr>)\<rparr>"

lemma mconf0_facts: "idle (sync (ks mconf0))" "myproc (ks mconf0) = Some 0" "length (kmutex_table (ks mconf0)) = NKMUTEX"
  "find_idx (\<lambda>m. \<not> mx_used m) (kmutex_table (ks mconf0)) = Some 0" "p_pid (procs (ks mconf0) 0) = 1"
proof -
  show "idle (sync (ks mconf0))" "length (kmutex_table (ks mconf0)) = NKMUTEX" using mconf0_start by (simp_all add: mutex_start_def)
  show "myproc (ks mconf0) = Some 0" "p_pid (procs (ks mconf0) 0) = 1" by (simp_all add: mconf0_def kstate0_def sync0_def sync_defs myproc_def)
  show "find_idx (\<lambda>m. \<not> mx_used m) (kmutex_table (ks mconf0)) = Some 0" by (simp add: mconf0_def kstate0_def NKMUTEX_def numeral_eq_Suc)
qed

lemma mconf1_step: "mstep mconf0 mconf1"
  using mstep.create [OF mconf0_facts(2)] mconf0_facts(1,4) by (simp add: mutex_create_eq mconf1_def)

lemma mconf1_facts: "idle (sync (ks mconf1))" "myproc (ks mconf1) = Some 0" "held mconf1 = {}"
  "kmutex_table (ks mconf1) ! 0 = \<lparr>mx_used = True, mx_locked = False, mx_owner_pid = -1\<rparr>" "p_pid (procs (ks mconf1) 0) = 1"
  using mconf0_facts by (simp_all add: mconf1_def myproc_def NKMUTEX_def) (simp add: mconf0_def)

theorem mutex_exclusion_witness:
  "\<exists>c. mstep\<^sup>*\<^sup>* mconf0 c \<and> (0, 0) \<in> held c \<and> (1, 0) \<notin> held c \<and> mx_owner_pid (kmutex_table (ks c) ! 0) = p_pid (procs (ks c) 0)"
proof -
  have "mutex_lock 0 (ks mconf1) = Some (Done 0, lock_entry 0 0 (settled (ks mconf1)))"
    using mconf1_facts by (simp add: mutex_lock_eq NKMUTEX_def)
  from mstep.lock [OF mconf1_facts(2) this] obtain c where c: "mstep mconf1 c" "(0, 0) \<in> held c" by auto
  have r: "mstep\<^sup>*\<^sup>* mconf0 c" using mconf1_step c(1) by simp
  have "1 \<noteq> (0 :: nat)" by simp
  then show ?thesis using mutex_exclusion [OF mconf0_start r c(2)] r c(2) by auto
qed

theorem mutex_no_lost_wakeup_witness: "mutex_lock 0 (ks mconf1) \<noteq> None \<and> mutex_unlock 3 (ks mconf1) \<noteq> None"
proof -
  have r: "mstep\<^sup>*\<^sup>* mconf0 mconf1" using mconf1_step by simp
  have "myproc (ks mconf1) \<noteq> None" using mconf1_facts by simp
  then show ?thesis using mutex_no_lost_wakeup [OF mconf0_start r, of 0] mutex_no_lost_wakeup [OF mconf0_start r, of 3] by blast
qed

end
