(* ===== verification/VmFrame.thy ===== *)
theory VmFrame
  imports Sched
begin

text \<open>
  The frame of the memory functions: whatever \<open>kalloc\<close>, the page table functions and the copies between kernel and user
  memory do, they change nothing but the bytes of memory and the free list, and give back every lock they took.
\<close>

section \<open>Memory steps\<close>

definition mem_step :: "kstate \<Rightarrow> kstate \<Rightarrow> bool" where
  "mem_step s s' \<longleftrightarrow> s' = s\<lparr>mem := mem s', freelist := freelist s', sync := sync s'\<rparr> \<and>
     (ready s \<longrightarrow> sync s' = sync s \<or> sync s' = settle (sync s))"

text \<open>
  Each function has a rule of the form: what was reached from \<open>s0\<close> before the call is reached from \<open>s0\<close> after it.  A function body
  is then dealt with by chaining the rules of the calls in it.
\<close>

named_theorems mem_steps \<open>functions that only make memory steps\<close>

lemma mem_step_refl [simp, intro!]: "mem_step s s"
  by (simp add: mem_step_def)

lemma mem_step_mem [simp]: "mem_step s (s\<lparr>mem := m\<rparr>)"
  by (simp add: mem_step_def)

lemma mem_step_ready: "mem_step s s' \<Longrightarrow> ready s \<Longrightarrow> ready s'"
  by (auto simp: mem_step_def ready_def)

lemma mem_step_trans: "mem_step s t \<Longrightarrow> mem_step t u \<Longrightarrow> mem_step s u"
proof -
  assume a: "mem_step s t" "mem_step t u"
  have "sync u = sync s \<or> sync u = settle (sync s)" if r: "ready s"
    using a r mem_step_ready [OF a(1) r] by (auto simp: mem_step_def)
  moreover have "u = s\<lparr>mem := mem u, freelist := freelist u, sync := sync u\<rparr>"
  proof -
    have "t = s\<lparr>mem := mem t, freelist := freelist t, sync := sync t\<rparr>" using a(1) unfolding mem_step_def by blast
    then obtain m f y where t: "t = s\<lparr>mem := m, freelist := f, sync := y\<rparr>" by blast
    have "u = t\<lparr>mem := mem u, freelist := freelist u, sync := sync u\<rparr>" using a(2) unfolding mem_step_def by blast
    then show ?thesis unfolding t by simp
  qed
  ultimately show "mem_step s u" unfolding mem_step_def by blast
qed

lemma mem_step_updI [simp, intro!]: "mem_step s t \<Longrightarrow> mem_step s (t\<lparr>mem := m\<rparr>)"
  by (rule mem_step_trans [OF _ mem_step_mem])

lemma mem_step_then: "mem_step t u \<Longrightarrow> mem_step s t \<Longrightarrow> mem_step s u"
  by (rule mem_step_trans)

lemmas step_simps = Let_def bind_eq_Some_conv

text \<open>What a memory step leaves alone.\<close>

lemma mem_step_keeps:
  assumes "mem_step s s'"
  shows "procs s' = procs s" "msgq s' = msgq s" "pipes s' = pipes s" "kmutex_table s' = kmutex_table s" "shmtable s' = shmtable s"
    "ftable s' = ftable s" "itable s' = itable s" "bcache s' = bcache s" "log s' = log s" "disk s' = disk s" "kend s' = kend s"
    "ticks s' = ticks s" "ktramp s' = ktramp s" "kforkret s' = kforkret s" "initproc s' = initproc s" "nextpid s' = nextpid s"
proof -
  obtain m f y where t: "s' = s\<lparr>mem := m, freelist := f, sync := y\<rparr>" using assms unfolding mem_step_def by blast
  show "procs s' = procs s" "msgq s' = msgq s" "pipes s' = pipes s" "kmutex_table s' = kmutex_table s" "shmtable s' = shmtable s"
    "ftable s' = ftable s" "itable s' = itable s" "bcache s' = bcache s" "log s' = log s" "disk s' = disk s" "kend s' = kend s"
    "ticks s' = ticks s" "ktramp s' = ktramp s" "kforkret s' = kforkret s" "initproc s' = initproc s" "nextpid s' = nextpid s"
    unfolding t by simp_all
qed

text \<open>Inside a critical section the books are untouched.\<close>

lemma mem_step_sync: "mem_step s s' \<Longrightarrow> ready s \<Longrightarrow> c_noff (mycpu (sync s)) \<noteq> 0 \<Longrightarrow> sync s' = sync s"
  by (auto simp: mem_step_def)

lemma mem_step_myproc: "mem_step s s' \<Longrightarrow> ready s \<Longrightarrow> myproc s' = myproc s"
  by (auto simp: mem_step_def myproc_def)

section \<open>The functions\<close>

lemma kalloc_frame: "kalloc s = Some (r, s') \<Longrightarrow> mem_step s s'"
proof -
  assume k: "kalloc s = Some (r, s')"
  then have "s' = s\<lparr>mem := mem s', freelist := freelist s', sync := sync s'\<rparr>"
    by (auto simp: kalloc_def acq_def rel_def Let_def bind_eq_Some_conv split: if_splits)
  moreover have "sync s' = settle (sync s)" if "ready s"
    using k that by (auto simp: kalloc_def rel_def ready_def Let_def split: if_splits)
  ultimately show ?thesis unfolding mem_step_def by blast
qed

lemma kfree_frame: "kfree pa s = Some s' \<Longrightarrow> mem_step s s'"
proof -
  assume k: "kfree pa s = Some s'"
  then have "s' = s\<lparr>mem := mem s', freelist := freelist s', sync := sync s'\<rparr>"
    by (auto simp: kfree_def acq_def rel_def Let_def bind_eq_Some_conv split: if_splits)
  moreover have "sync s' = settle (sync s)" if "ready s"
    using k that by (auto simp: kfree_def rel_def ready_def Let_def split: if_splits)
  ultimately show ?thesis unfolding mem_step_def by blast
qed

lemmas kalloc_step [mem_steps] = mem_step_then [OF kalloc_frame]
lemmas kfree_step [mem_steps] = mem_step_then [OF kfree_frame]

lemma walk_loop_step [mem_steps]: "walk_loop l pt va al s = Some (r, s') \<Longrightarrow> mem_step s0 s \<Longrightarrow> mem_step s0 s'"
proof (induction l arbitrary: pt al s)
  case (Suc l)
  then show ?case by (auto simp: step_simps split: if_splits intro: mem_steps Suc.IH)
qed simp

lemma walk_step [mem_steps]: "walk pt va al s = Some (r, s') \<Longrightarrow> mem_step s0 s \<Longrightarrow> mem_step s0 s'"
  by (auto simp: walk_def intro: mem_steps split: if_splits)

lemma walkaddr_step [mem_steps]: "walkaddr pt va s = Some (r, s') \<Longrightarrow> mem_step s0 s \<Longrightarrow> mem_step s0 s'"
  by (auto simp: walkaddr_def step_simps intro: mem_steps split: if_splits)

lemma mappages_loop_step: "mappages_loop pt a l pa perm s = Some rs \<Longrightarrow> mem_step s (snd rs)"
proof (erule mappages_loop.raw_induct [rotated], goal_cases)
  case 1
  note IH = 1(1) [of _ _ _ _ _ _ "(r, s')" for r s', THEN mem_step_then, unfolded snd_conv]
  show ?case by (insert 1(2), auto simp: step_simps split: if_splits; (rule mem_step_refl mem_step_updI | erule mem_steps IH 1(1) [THEN mem_step_then])+)
qed

lemma mappages_step [mem_steps]: "mappages pt va n pa perm s = Some (r, s') \<Longrightarrow> mem_step s0 s \<Longrightarrow> mem_step s0 s'"
  by (auto simp: mappages_def step_simps split: if_splits; (assumption | rule mem_step_refl mem_step_updI | erule mem_steps mappages_loop_step [of _ _ _ _ _ _ "(r, s')", THEN mem_step_then, unfolded snd_conv])+)

lemma uvmunmap_loop_step: "uvmunmap_loop pt a l do_free s = Some s' \<Longrightarrow> mem_step s s'"
proof (erule uvmunmap_loop.raw_induct [rotated], goal_cases)
  case 1
  show ?case by (insert 1(2), auto simp: step_simps split: if_splits; (rule mem_step_refl mem_step_updI | erule mem_steps 1(1) [THEN mem_step_then])+)
qed

lemma uvmunmap_step [mem_steps]: "uvmunmap pt va n do_free s = Some s' \<Longrightarrow> mem_step s0 s \<Longrightarrow> mem_step s0 s'"
  by (auto simp: uvmunmap_def step_simps split: if_splits; (assumption | rule mem_step_refl mem_step_updI | erule mem_steps uvmunmap_loop_step [THEN mem_step_then])+)

lemma uvmdealloc_step [mem_steps]: "uvmdealloc pt a b s = Some (r, s') \<Longrightarrow> mem_step s0 s \<Longrightarrow> mem_step s0 s'"
  by (auto simp: uvmdealloc_def step_simps split: if_splits; (assumption | rule mem_step_refl mem_step_updI | erule mem_steps )+)

lemma uvmalloc_loop_step: "uvmalloc_loop pt a b c x s = Some rs \<Longrightarrow> mem_step s (snd rs)"
proof (erule uvmalloc_loop.raw_induct [rotated], goal_cases)
  case 1
  note IH = 1(1) [of _ _ _ _ _ _ "(r, s')" for r s', THEN mem_step_then, unfolded snd_conv]
  show ?case by (insert 1(2), auto simp: step_simps split: if_splits; (rule mem_step_refl mem_step_updI | erule mem_steps IH 1(1) [THEN mem_step_then])+)
qed

lemma uvmalloc_step [mem_steps]: "uvmalloc pt a b x s = Some (r, s') \<Longrightarrow> mem_step s0 s \<Longrightarrow> mem_step s0 s'"
  by (auto simp: uvmalloc_def step_simps split: if_splits; (assumption | rule mem_step_refl mem_step_updI | erule mem_steps uvmalloc_loop_step [of _ _ _ _ _ _ "(r, s')", THEN mem_step_then, unfolded snd_conv])+)

lemma freewalk_from_step: "freewalk_from pt i s = Some s' \<Longrightarrow> mem_step s s'"
proof (erule freewalk_from.raw_induct [rotated], goal_cases)
  case 1
  show ?case by (insert 1(2), auto simp: step_simps split: if_splits; (rule mem_step_refl mem_step_updI | erule mem_steps 1(1) [THEN mem_step_then])+)
qed

lemma uvmfree_step [mem_steps]: "uvmfree pt sz s = Some s' \<Longrightarrow> mem_step s0 s \<Longrightarrow> mem_step s0 s'"
  by (auto simp: uvmfree_def freewalk_def step_simps split: if_splits; (assumption | rule mem_step_refl mem_step_updI | erule mem_steps freewalk_from_step [THEN mem_step_then])+)

lemma uvmcopy_loop_step: "uvmcopy_loop pt pt2 i sz s = Some rs \<Longrightarrow> mem_step s (snd rs)"
proof (erule uvmcopy_loop.raw_induct [rotated], goal_cases)
  case 1
  note IH = 1(1) [of _ _ _ _ _ "(r, s')" for r s', THEN mem_step_then, unfolded snd_conv]
  show ?case by (insert 1(2), auto simp: step_simps split: if_splits; (rule mem_step_refl mem_step_updI | erule mem_steps IH 1(1) [THEN mem_step_then])+)
qed

lemma uvmcopy_step [mem_steps]: "uvmcopy pt pt2 sz s = Some (r, s') \<Longrightarrow> mem_step s0 s \<Longrightarrow> mem_step s0 s'"
  by (auto simp: uvmcopy_def step_simps split: if_splits; (assumption | rule mem_step_refl mem_step_updI | erule mem_steps uvmcopy_loop_step [of _ _ _ _ _ "(r, s')", THEN mem_step_then, unfolded snd_conv])+)

lemma vmfault_step [mem_steps]: "vmfault pt va s = Some (r, s') \<Longrightarrow> mem_step s0 s \<Longrightarrow> mem_step s0 s'"
  by (auto simp: vmfault_def ismapped_def step_simps split: if_splits; (assumption | rule mem_step_refl mem_step_updI | erule mem_steps )+)

lemma user_page_step [mem_steps]: "user_page pt va s = Some (r, s') \<Longrightarrow> mem_step s0 s \<Longrightarrow> mem_step s0 s'"
  by (auto simp: user_page_def step_simps split: if_splits; (assumption | rule mem_step_refl mem_step_updI | erule mem_steps )+)

lemma copyout_loop_step: "copyout_loop pt va src i n s = Some rs \<Longrightarrow> mem_step s (snd rs)"
proof (erule copyout_loop.raw_induct [rotated], goal_cases)
  case 1
  note IH = 1(1) [of _ _ _ _ _ _ "(r, s')" for r s', THEN mem_step_then, unfolded snd_conv]
  show ?case by (insert 1(2), auto simp: step_simps split: if_splits; (rule mem_step_refl mem_step_updI | erule mem_steps IH 1(1) [THEN mem_step_then])+)
qed

lemma copyout_step [mem_steps]: "copyout pt va src n s = Some (r, s') \<Longrightarrow> mem_step s0 s \<Longrightarrow> mem_step s0 s'"
  by (auto simp: copyout_def step_simps split: if_splits; (assumption | rule mem_step_refl mem_step_updI | erule mem_steps copyout_loop_step [of _ _ _ _ _ _ "(r, s')", THEN mem_step_then, unfolded snd_conv])+)

lemma copyin_loop_step: "copyin_loop pt dst va n s = Some rs \<Longrightarrow> mem_step s (snd rs)"
proof (erule copyin_loop.raw_induct [rotated], goal_cases)
  case 1
  note IH = 1(1) [of _ _ _ _ _ "(r, s')" for r s', THEN mem_step_then, unfolded snd_conv]
  show ?case by (insert 1(2), auto simp: step_simps split: if_splits; (rule mem_step_refl mem_step_updI | erule mem_steps IH 1(1) [THEN mem_step_then])+)
qed

lemma copyin_step [mem_steps]: "copyin pt va n s = Some (r, s') \<Longrightarrow> mem_step s0 s \<Longrightarrow> mem_step s0 s'"
  by (auto simp: copyin_def step_simps split: if_splits; (assumption | rule mem_step_refl mem_step_updI | erule mem_steps copyin_loop_step [of _ _ _ _ _ "(r, s')", THEN mem_step_then, unfolded snd_conv])+)

lemma copyinstr_loop_step: "copyinstr_loop pt dst va n s = Some rs \<Longrightarrow> mem_step s (snd rs)"
proof (erule copyinstr_loop.raw_induct [rotated], goal_cases)
  case 1
  note IH = 1(1) [of _ _ _ _ _ "(r, s')" for r s', THEN mem_step_then, unfolded snd_conv]
  show ?case by (insert 1(2), auto simp: step_simps split: if_splits prod.splits; (rule mem_step_refl mem_step_updI | erule mem_steps IH 1(1) [THEN mem_step_then])+)
qed

lemma copyinstr_step [mem_steps]: "copyinstr pt va n s = Some (r, s') \<Longrightarrow> mem_step s0 s \<Longrightarrow> mem_step s0 s'"
  by (auto simp: copyinstr_def step_simps split: if_splits; (assumption | rule mem_step_refl mem_step_updI | erule mem_steps copyinstr_loop_step [of _ _ _ _ _ "(r, s')", THEN mem_step_then, unfolded snd_conv])+)

end
