(* ===== verification/VmTab.thy ===== *)
theory VmTab
  imports VmFrame
begin

text \<open>
  Page tables as trees.  The lemmas of this theory describe the memory of a page table by its nodes: \<open>node m r p\<close> is the page that the
  path \<open>p\<close> of entry indices leads to.  A well-formed table is a tree of distinct pages, so that a store into one entry changes
  the nodes behind that entry and no others.  \<open>pte m r va\<close> is the entry that translates the page of \<open>va\<close>.
\<close>

section \<open>Entries\<close>

lemma PTE_bits: "PTE_V = 1" "PTE_R = 2" "PTE_W = 4" "PTE_X = 8" "PTE_U = 16"
  by (simp_all add: PTE_V_def PTE_R_def PTE_W_def PTE_X_def PTE_U_def push_bit_eq_mult)

lemma aligned_bit: "aligned p \<Longrightarrow> bit p n \<Longrightarrow> 12 \<le> n"
proof -
  assume a: "aligned p" and b: "bit p n"
  have "take_bit 12 p = 0" using a by (simp add: aligned_def PGSIZE_def take_bit_eq_mod)
  then have "bit (take_bit 12 p) n = False" by simp
  then show ?thesis using b by (auto simp: bit_simps not_less)
qed

definition perm_ok :: "addr \<Rightarrow> bool" where
  "perm_ok perm \<longleftrightarrow> perm AND 0x3FF = perm"

lemma mask10: "(0x3FF :: addr) = mask 10"
  by (simp add: mask_eq_exp_minus_1)

lemma perm_bit: "perm_ok perm \<Longrightarrow> bit perm n \<Longrightarrow> n < 10"
  unfolding perm_ok_def mask10 by (metis bit_and_iff bit_mask_iff)

lemma bit_PTE_V: "bit PTE_V n \<longleftrightarrow> n = 0"
  by (auto simp: PTE_V_def bit_simps)

lemma PTE2PA_make: "aligned pa \<Longrightarrow> perm_ok perm \<Longrightarrow> PTE2PA (PA2PTE pa OR perm OR PTE_V) = pa"
  unfolding PTE2PA_def PA2PTE_def
  by (rule bit_eqI) (auto simp: bit_simps bit_PTE_V dest: aligned_bit perm_bit)

lemma PTE2PA_table: "aligned pa \<Longrightarrow> PTE2PA (PA2PTE pa OR PTE_V) = pa"
  using PTE2PA_make [of pa 0] by (simp add: perm_ok_def)

lemma PTE_FLAGS_make: "perm_ok perm \<Longrightarrow> PTE_FLAGS (PA2PTE pa OR perm OR PTE_V) = perm OR PTE_V"
  unfolding PTE_FLAGS_def PA2PTE_def mask10
  by (rule bit_eqI) (auto simp: bit_simps bit_PTE_V dest: perm_bit)

lemma PTE2PA_aligned: "aligned (PTE2PA e)"
proof -
  have "take_bit 12 (PTE2PA e) = 0" unfolding PTE2PA_def by (rule bit_eqI) (auto simp: bit_simps)
  then show ?thesis by (simp add: aligned_def PGSIZE_def take_bit_eq_mod)
qed

lemma V_make: "(e OR PTE_V) AND PTE_V \<noteq> 0" "(a OR b OR PTE_V) AND PTE_V \<noteq> 0"
proof -
  have *: "(e OR PTE_V) AND PTE_V = PTE_V" for e by (rule bit_eqI) (auto simp: bit_simps)
  show "(e OR PTE_V) AND PTE_V \<noteq> 0" "(a OR b OR PTE_V) AND PTE_V \<noteq> 0"
    using * [of e] * [of "a OR b"] by (simp_all add: PTE_bits or.assoc)
qed

definition px :: "nat \<Rightarrow> addr \<Rightarrow> nat" where
  "px l va = unat va div 2 ^ (12 + 9 * l) mod 512"

lemma px_less [simp]: "px l va < 512"
  by (simp add: px_def)

lemma PX_px: "PX l va = of_nat (px l va)"
proof -
  have "(0x1FF :: addr) = mask 9" by (simp add: mask_eq_exp_minus_1)
  then have "PX l va = take_bit 9 (drop_bit (12 + 9 * l) va)" by (simp add: PX_def take_bit_eq_mask)
  then have "unat (PX l va) = take_bit 9 (drop_bit (12 + 9 * l) (unat va))"
    by (simp add: unsigned_take_bit_eq unat_drop_bit_eq)
  then have "unat (PX l va) = px l va" by (simp add: px_def take_bit_eq_mod drop_bit_eq_div)
  then show ?thesis by (simp add: word_unat_eq_iff px_def unat_of_nat)
qed

section \<open>Trees of pages\<close>

definition entry :: "mem \<Rightarrow> addr \<Rightarrow> nat \<Rightarrow> addr" where
  "entry m t i = ld64 m (t + 8 * of_nat i)"

fun node :: "mem \<Rightarrow> addr \<Rightarrow> nat list \<Rightarrow> addr option" where
  "node m t [] = Some t"
| "node m t (i # p) = (if entry m t i AND PTE_V \<noteq> 0 then node m (PTE2PA (entry m t i)) p else None)"

lemma node_append: "node m r (p @ q) = (case node m r p of None \<Rightarrow> None | Some t \<Rightarrow> node m t q)"
  by (induction p arbitrary: r) auto

text \<open>The paths to the pages of the table itself: the root, 512 middle tables, 512 leaf tables in each of them.\<close>

definition tpath :: "nat list \<Rightarrow> bool" where
  "tpath p \<longleftrightarrow> length p \<le> 2 \<and> (\<forall>i\<in>set p. i < 512)"

definition tabs :: "mem \<Rightarrow> addr \<Rightarrow> addr set" where
  "tabs m r = {t. \<exists>p. tpath p \<and> node m r p = Some t}"

definition pt_ok :: "mem \<Rightarrow> addr \<Rightarrow> bool" where
  "pt_ok m r \<longleftrightarrow> (\<forall>t\<in>tabs m r. aligned t \<and> t \<noteq> 0) \<and>
     (\<forall>p q t. tpath p \<and> tpath q \<and> node m r p = Some t \<and> node m r q = Some t \<longrightarrow> p = q)"

text \<open>The leaf table and the entry of an address.\<close>

definition ltab :: "mem \<Rightarrow> addr \<Rightarrow> addr \<Rightarrow> addr option" where
  "ltab m r va = node m r [px 2 va, px 1 va]"

definition pte :: "mem \<Rightarrow> addr \<Rightarrow> addr \<Rightarrow> addr" where
  "pte m r va = (case ltab m r va of None \<Rightarrow> 0 | Some t \<Rightarrow> entry m t (px 0 va))"

lemma tabsI: "tpath p \<Longrightarrow> node m r p = Some t \<Longrightarrow> t \<in> tabs m r"
  by (auto simp: tabs_def)

lemma tpath_simps [simp]: "tpath []" "tpath [i] \<longleftrightarrow> i < 512" "tpath [i, j] \<longleftrightarrow> i < 512 \<and> j < 512"
  by (auto simp: tpath_def)

lemma tpath_prefix: "tpath (p @ q) \<Longrightarrow> tpath p"
  by (auto simp: tpath_def)

lemma root_in_tabs [simp]: "r \<in> tabs m r"
  by (rule tabsI [of "[]"]) simp_all

lemma ltab_in_tabs: "ltab m r va = Some t \<Longrightarrow> t \<in> tabs m r"
  unfolding ltab_def by (rule tabsI [of "[px 2 va, px 1 va]"]) auto

text \<open>The bytes of an entry lie in its page, those of different entries apart.\<close>

lemma entry_in_page: "i < 512 \<Longrightarrow> k < 8 \<Longrightarrow> in_page t (t + 8 * of_nat i + of_nat k)"
  using in_page_off [of "8 * i + k" t] by (simp add: algebra_simps)

lemma entry_cong: "i < 512 \<Longrightarrow> (\<And>a. in_page t a \<Longrightarrow> m' a = m a) \<Longrightarrow> entry m' t i = entry m t i"
  unfolding entry_def by (rule ld64_cong) (simp add: entry_in_page)

lemma st64_entry_outside: "i < 512 \<Longrightarrow> \<not> in_page t a \<Longrightarrow> st64 m (t + 8 * of_nat i) v a = m a"
  using st64_page [of "8 * i" t a m v] by simp

lemma ld64_st64_apart:
  assumes "i < 512" "j < 512" "i \<noteq> j"
  shows "ld64 (st64 m (t + 8 * of_nat i) v) (t + 8 * of_nat j) = ld64 m (t + 8 * of_nat j)"
proof (rule ld64_cong)
  fix k :: nat assume k: "k < 8"
  have "unat (of_nat (8 * j + k) :: addr) = 8 * j + k" "unat (of_nat (8 * i) :: addr) = 8 * i"
    using assms k by (intro unat_of_nat_64; simp)+
  then have "unat (of_nat (8 * j + k) - of_nat (8 * i) :: addr) \<ge> 8"
    using assms k by (cases "i < j") (simp_all only: unat_sub_if', auto)
  then have "\<not> unat (t + 8 * of_nat j + of_nat k - (t + 8 * of_nat i)) < 8"
    by (simp add: algebra_simps)
  then show "st64 m (t + 8 * of_nat i) v (t + 8 * of_nat j + of_nat k) = m (t + 8 * of_nat j + of_nat k)"
    unfolding st64_def by (simp only: if_False)
qed

lemma entry_st64:
  assumes "aligned t" "aligned t'" "i < 512" "j < 512"
  shows "entry (st64 m (t + 8 * of_nat i) v) t' j = (if t' = t \<and> j = i then v else entry m t' j)"
proof (cases "t' = t")
  case True
  then show ?thesis using ld64_st64_apart [of i j m t v] assms by (auto simp: entry_def)
next
  case False
  have "entry (st64 m (t + 8 * of_nat i) v) t' j = entry m t' j"
    by (rule entry_cong) (use assms False page_disjoint st64_entry_outside in blast)+
  then show ?thesis using False by simp
qed

text \<open>Two memories that agree on some pages.\<close>

definition agree :: "addr set \<Rightarrow> mem \<Rightarrow> mem \<Rightarrow> bool" where
  "agree P m m' \<longleftrightarrow> (\<forall>p\<in>P. \<forall>a. in_page p a \<longrightarrow> m' a = m a)"

lemma agreeI: "(\<And>p a. p \<in> P \<Longrightarrow> in_page p a \<Longrightarrow> m' a = m a) \<Longrightarrow> agree P m m'"
  by (simp add: agree_def)

lemma agreeD: "agree P m m' \<Longrightarrow> p \<in> P \<Longrightarrow> in_page p a \<Longrightarrow> m' a = m a"
  by (simp add: agree_def)

lemma agree_refl [simp, intro!]: "agree P m m"
  by (simp add: agree_def)

lemma agree_trans: "agree P m m' \<Longrightarrow> agree P m' m'' \<Longrightarrow> agree P m m''"
  by (simp add: agree_def)

lemma agree_mono: "agree P m m' \<Longrightarrow> Q \<subseteq> P \<Longrightarrow> agree Q m m'"
  by (auto simp: agree_def)

lemma agree_memset: "aligned f \<Longrightarrow> f \<notin> P \<Longrightarrow> \<forall>p\<in>P. aligned p \<Longrightarrow> agree P m (memset m f c 4096)"
  using page_disjoint [of f] by (auto simp: agree_def memset_page)

lemma agree_st64: "aligned t \<Longrightarrow> t \<notin> P \<Longrightarrow> \<forall>p\<in>P. aligned p \<Longrightarrow> i < 512 \<Longrightarrow> agree P m (st64 m (t + 8 * of_nat i) v)"
  using page_disjoint [of t] st64_entry_outside [of i t] unfolding agree_def by blast

text \<open>Stores outside the pages of a table do not change it.\<close>

lemma node_frame:
  assumes "agree (tabs m r) m m'" "length p \<le> 3" "\<forall>i\<in>set p. i < 512"
  shows "node m' r p = node m r p"
  using assms(2,3)
proof (induction p rule: rev_induct)
  case (snoc i p)
  then have p: "node m' r p = node m r p" "tpath p" by (simp_all add: tpath_def)
  have "entry m' t i = entry m t i" if "node m r p = Some t" for t
    by (rule entry_cong) (use snoc.prems agreeD [OF assms(1) tabsI [OF p(2) that]] in auto)
  then show ?case using p(1) by (auto simp: node_append split: option.splits)
qed simp

lemma node_frame_tpath: "agree (tabs m r) m m' \<Longrightarrow> tpath p \<Longrightarrow> node m' r p = node m r p"
  using node_frame [of m r m' p] by (simp add: tpath_def)

lemma tabs_nodes: "(\<And>q. tpath q \<Longrightarrow> node m' r q = node m r q) \<Longrightarrow> tabs m' r = tabs m r"
  by (auto simp: tabs_def)

lemma pt_ok_nodes: "(\<And>q. tpath q \<Longrightarrow> node m' r q = node m r q) \<Longrightarrow> pt_ok m' r = pt_ok m r"
  using tabs_nodes [of m' r m] by (auto simp: pt_ok_def)

lemma tabs_frame: "agree (tabs m r) m m' \<Longrightarrow> tabs m' r = tabs m r"
  by (rule tabs_nodes) (rule node_frame_tpath)

lemma pt_ok_frame: "agree (tabs m r) m m' \<Longrightarrow> pt_ok m' r = pt_ok m r"
  by (rule pt_ok_nodes) (rule node_frame_tpath)

lemma pte_frame: "agree (tabs m r) m m' \<Longrightarrow> pte m' r va = pte m r va"
proof -
  assume h: "agree (tabs m r) m m'"
  have "entry m' t (px 0 va) = entry m t (px 0 va)" if "ltab m r va = Some t" for t
    by (rule entry_cong) (use agreeD [OF h ltab_in_tabs [OF that]] in simp_all)
  moreover have "ltab m' r va = ltab m r va" unfolding ltab_def by (rule node_frame [OF h]) auto
  ultimately show ?thesis by (auto simp: pte_def split: option.split)
qed

section \<open>Stores into a table\<close>

lemma pt_okD:
  assumes "pt_ok m r"
  shows "t \<in> tabs m r \<Longrightarrow> aligned t" "t \<in> tabs m r \<Longrightarrow> t \<noteq> 0"
    "tpath p \<Longrightarrow> tpath q \<Longrightarrow> node m r p = Some t \<Longrightarrow> node m r q = Some t \<Longrightarrow> p = q"
  using assms by (auto simp: pt_ok_def)

text \<open>A store into the entry \<open>i\<close> of the table at \<open>p\<close> keeps every node that is not behind that entry.\<close>

lemma node_store:
  assumes ok: "pt_ok m r" and p: "tpath p" "node m r p = Some t" and i: "i < 512"
    and q: "length q \<le> 3" "\<forall>j\<in>set q. j < 512" "\<nexists>z. q = p @ i # z"
  shows "node (st64 m (t + 8 * of_nat i) v) r q = node m r q"
  using q
proof (induction q rule: rev_induct)
  case (snoc j q)
  let ?m = "st64 m (t + 8 * of_nat i) v"
  have "\<nexists>z. q = p @ i # z" using snoc.prems(3) by (metis append_Cons append_assoc)
  then have IH: "node ?m r q = node m r q" using snoc.IH snoc.prems(1,2) by simp
  have tq: "tpath q" using snoc.prems by (auto simp: tpath_def)
  have "entry ?m u j = entry m u j" if u: "node m r q = Some u" for u
  proof -
    have "u = t \<Longrightarrow> j \<noteq> i" using pt_okD(3) [OF ok tq p(1) u] p(2) snoc.prems(3) by auto
    moreover have "aligned t" "aligned u" using ok p u tq by (auto intro: pt_okD(1) tabsI)
    ultimately show ?thesis using entry_st64 [of t u i j m v] i snoc.prems(2) by auto
  qed
  then show ?case using IH by (auto simp: node_append split: option.splits)
qed simp

lemma ltab_inj: "pt_ok m r \<Longrightarrow> ltab m r va = Some t \<Longrightarrow> ltab m r vb = Some t \<Longrightarrow> px 2 vb = px 2 va \<and> px 1 vb = px 1 va"
  using pt_okD(3) [of m r "[px 2 vb, px 1 vb]" "[px 2 va, px 1 va]" t] unfolding ltab_def by simp

lemma ltab_store: "pt_ok m r \<Longrightarrow> ltab m r va = Some t \<Longrightarrow> tpath q \<Longrightarrow> node (st64 m (t + 8 * of_nat (px 0 va)) v) r q = node m r q"
  by (rule node_store [of m r "[px 2 va, px 1 va]"]) (auto simp: tpath_def ltab_def)

lemma pte_store:
  assumes ok: "pt_ok m r" and t: "ltab m r va = Some t"
  shows "pte (st64 m (t + 8 * of_nat (px 0 va)) v) r vb =
      (if px 2 vb = px 2 va \<and> px 1 vb = px 1 va \<and> px 0 vb = px 0 va then v else pte m r vb)"
proof -
  let ?m = "st64 m (t + 8 * of_nat (px 0 va)) v"
  have l: "ltab ?m r vb = ltab m r vb" using ltab_store [OF ok t] by (simp only: ltab_def tpath_simps px_less)
  show ?thesis
  proof (cases "ltab m r vb")
    case None
    then have "\<not> (px 2 vb = px 2 va \<and> px 1 vb = px 1 va)" using t by (auto simp only: ltab_def)
    then show ?thesis using None l unfolding pte_def by auto
  next
    case (Some u)
    have "entry ?m u (px 0 vb) = (if u = t \<and> px 0 vb = px 0 va then v else entry m u (px 0 vb))"
      by (rule entry_st64) (use ok ltab_in_tabs [OF Some] ltab_in_tabs [OF t] in \<open>auto intro: pt_okD(1)\<close>)
    moreover have "u = t \<longleftrightarrow> px 2 vb = px 2 va \<and> px 1 vb = px 1 va"
      using ltab_inj [OF ok t, of vb] Some t by (auto simp only: ltab_def)
    ultimately show ?thesis using l Some unfolding pte_def by simp
  qed
qed

text \<open>A fresh page of zeros hung into an empty entry.\<close>

lemma entry_zero: "i < 512 \<Longrightarrow> entry (memset m f 0 4096) f i = 0"
proof -
  assume "i < 512"
  then have "entry (memset m f 0 4096) f i = entry (\<lambda>_. 0) f i" by (intro entry_cong) (simp_all add: memset_page)
  then show ?thesis by (simp add: entry_def ld64_def)
qed

lemma node_hang:
  assumes ok: "pt_ok m r" and p: "length p \<le> 1" "\<forall>j\<in>set p. j < 512" "node m r p = Some t"
    and i: "i < 512" "entry m t i AND PTE_V = 0" and f: "aligned f" "f \<notin> tabs m r"
    and q: "length q \<le> 3" "\<forall>j\<in>set q. j < 512"
  shows "node (st64 (memset m f 0 4096) (t + 8 * of_nat i) (PA2PTE f OR PTE_V)) r q =
    (if q = p @ [i] then Some f else if \<exists>z. q = p @ i # z then None else node m r q)"
proof -
  let ?mz = "memset m f 0 4096"
  let ?m = "st64 ?mz (t + 8 * of_nat i) (PA2PTE f OR PTE_V)"
  have tp: "tpath p" using p by (simp add: tpath_def)
  have keep: "agree (tabs m r) m ?mz" using ok f by (intro agree_memset) (auto intro: pt_okD)
  have ok0: "pt_ok ?mz r" using ok pt_ok_frame [OF keep] by blast
  have t: "node ?mz r p = Some t" using node_frame [OF keep, of p] p by simp
  have al: "aligned t" using ok p tp by (auto intro: pt_okD(1) tabsI)
  have other: "node ?m r q = node m r q" if "length q \<le> 3" "\<forall>j\<in>set q. j < 512" "\<nexists>z. q = p @ i # z" for q
    using node_store [OF ok0 tp t i(1) that] node_frame [OF keep that(1,2)] by simp
  have "node ?m r p = Some t" using other [of p] p by auto
  then have hang: "node ?m r (p @ [i]) = Some f"
    using entry_st64 [OF al al i(1,1)] f V_make(1) by (simp add: node_append PTE2PA_table)
  have behind: "node ?m r (p @ i # j # z) = None" if "j < 512" for j z
  proof -
    have "f \<noteq> t" using f(2) tabsI [OF tp p(3)] by auto
    then have "entry ?m f j = 0" using entry_st64 [OF al f(1) i(1) that] entry_zero [OF that] by simp
    then show ?thesis using hang node_append [of ?m r "p @ [i]" "j # z"] by simp
  qed
  show ?thesis
  proof (cases "\<exists>z. q = p @ i # z")
    case True
    then obtain z where "q = p @ i # z" by blast
    then show ?thesis using hang behind q(2) by (cases z) auto
  next
    case False
    then show ?thesis using other [OF q] by auto
  qed
qed

lemma hang_ok:
  assumes ok: "pt_ok m r" and p: "length p \<le> 1" "\<forall>j\<in>set p. j < 512" "node m r p = Some t"
    and i: "i < 512" "entry m t i AND PTE_V = 0" and f: "aligned f" "f \<noteq> 0" "f \<notin> tabs m r"
    and m': "m' = st64 (memset m f 0 4096) (t + 8 * of_nat i) (PA2PTE f OR PTE_V)"
  shows "pt_ok m' r" "tabs m' r = insert f (tabs m r)" "pte m' r va = pte m r va"
proof -
  have tp: "tpath p" "tpath (p @ [i])" using p i by (auto simp: tpath_def)
  have old: "node m r (p @ i # z) = None" for z using p i by (simp add: node_append)
  have n: "node m' r q = (if q = p @ [i] then Some f else node m r q)" if "length q \<le> 3" "\<forall>j\<in>set q. j < 512" for q
    using node_hang [OF ok p i f(1,3) that] old unfolding m' by auto
  then have n2: "node m' r q = (if q = p @ [i] then Some f else node m r q)" if "tpath q" for q using that by (simp add: tpath_def)
  have nf: "node m r q \<noteq> Some f" if "tpath q" for q using f(3) tabsI [OF that] by auto
  have "node m' r q = node m r q" if "tpath q" "node m r q = Some u" for q u using n2 [OF that(1)] that old [of "[]"] by auto
  then have "tabs m r \<subseteq> tabs m' r" unfolding tabs_def by (smt (verit) mem_Collect_eq subsetI)
  moreover have "f \<in> tabs m' r" using n2 [OF tp(2)] tabsI [OF tp(2)] by simp
  moreover have "tabs m' r \<subseteq> insert f (tabs m r)" using n2 by (auto simp: tabs_def split: if_splits)
  ultimately show tabs: "tabs m' r = insert f (tabs m r)" by blast
  have "p1 = p2" if h: "tpath p1" "tpath p2" "node m' r p1 = Some u" "node m' r p2 = Some u" for p1 p2 u
    using n2 [OF h(1)] n2 [OF h(2)] nf [OF h(1)] nf [OF h(2)] h(3,4) pt_okD(3) [OF ok h(1,2), of u] by (metis (full_types))
  then show "pt_ok m' r" using tabs ok f by (auto simp: pt_ok_def)
  have l: "ltab m' r va = (if [px 2 va, px 1 va] = p @ [i] then Some f else ltab m r va)"
    using n2 [of "[px 2 va, px 1 va]"] by (simp only: ltab_def tpath_simps px_less)
  have al: "aligned t" using ok p tp by (auto intro: pt_okD(1) tabsI)
  have e: "entry m' u j = (if u = t \<and> j = i then PA2PTE f OR PTE_V else if u = f then 0 else entry m u j)"
    if "aligned u" "j < 512" for u j
  proof -
    have "u \<noteq> f \<Longrightarrow> entry (memset m f 0 4096) u j = entry m u j"
      by (rule entry_cong) (use that page_disjoint [of u f] f in \<open>auto simp: memset_page\<close>)
    then show ?thesis using entry_st64 [OF al that(1) i(1) that(2)] entry_zero [OF that(2)] unfolding m' by simp
  qed
  have "entry m' u (px 0 va) = entry m u (px 0 va)" if u: "ltab m r va = Some u" for u
  proof -
    have "u \<noteq> t"
    proof
      assume "u = t"
      then have "p = [px 2 va, px 1 va]" using p(3) u unfolding ltab_def by (intro pt_okD(3) [OF ok tp(1)]) auto
      then show False using p(1) by simp
    qed
    moreover have "u \<noteq> f" "aligned u" using ltab_in_tabs [OF u] f(3) ok by (auto intro: pt_okD)
    ultimately show ?thesis using e by simp
  qed
  moreover have "f \<noteq> t" using f(3) tabsI [OF tp(1) p(3)] by auto
  moreover have "ltab m r va = None" if "[px 2 va, px 1 va] = p @ [i]" using old [of "[]"] unfolding ltab_def that by simp
  ultimately show "pte m' r va = pte m r va" using l e [OF f(1)] by (auto simp: pte_def split: option.split)
qed

end
