(* ===== verification/VmSpec.thy ===== *)
theory VmSpec
  imports VmTab
begin

text \<open>
  What the functions of \<open>kernel/vm.c\<close> do to the translation of a page table.
\<close>

section \<open>Growing a table\<close>

definition vm_ok :: "kstate \<Rightarrow> addr \<Rightarrow> addr list \<Rightarrow> bool" where
  "vm_ok s r fs \<longleftrightarrow> ready s \<and> free_pages s fs \<and> pt_ok (mem s) r \<and> tabs (mem s) r \<inter> set fs = {}"

text \<open>A change to one table: some free pages may have become tables of it, and nothing outside the table changed.\<close>

definition vm_step :: "addr \<Rightarrow> kstate \<Rightarrow> addr list \<Rightarrow> kstate \<Rightarrow> addr list \<Rightarrow> bool" where
  "vm_step r s fs s' fs' \<longleftrightarrow> vm_ok s' r fs' \<and> mem_step s s' \<and> tabs (mem s') r \<union> set fs' = tabs (mem s) r \<union> set fs \<and>
     (\<exists>ts. fs = ts @ fs') \<and> (\<forall>a. (\<forall>t\<in>tabs (mem s') r. \<not> in_page t a) \<longrightarrow> mem s' a = mem s a)"

text \<open>A step that keeps the translation.\<close>

definition vm_grow :: "addr \<Rightarrow> kstate \<Rightarrow> addr list \<Rightarrow> kstate \<Rightarrow> addr list \<Rightarrow> bool" where
  "vm_grow r s fs s' fs' \<longleftrightarrow> vm_step r s fs s' fs' \<and> (\<forall>va. pte (mem s') r va = pte (mem s) r va)"

lemma vm_step_refl: "vm_ok s r fs \<Longrightarrow> vm_step r s fs s fs"
  by (simp add: vm_step_def)

lemma vm_step_trans:
  assumes a: "vm_step r s fs s' fs'" and b: "vm_step r s' fs' s'' fs''"
  shows "vm_step r s fs s'' fs''"
proof -
  have "tabs (mem s') r \<subseteq> tabs (mem s'') r"
  proof -
    have "tabs (mem s') r \<inter> set fs'' = {}" using a b by (auto simp: vm_step_def vm_ok_def)
    then show ?thesis using b by (auto simp: vm_step_def)
  qed
  then have "\<forall>x. (\<forall>t\<in>tabs (mem s'') r. \<not> in_page t x) \<longrightarrow> mem s'' x = mem s x"
    using a b unfolding vm_step_def by (metis subsetD)
  moreover have "mem_step s s''" using a b mem_step_trans by (auto simp: vm_step_def)
  moreover have "\<exists>ts. fs = ts @ fs''" using a b unfolding vm_step_def by (metis append_assoc)
  ultimately show ?thesis using a b unfolding vm_step_def by simp
qed

lemma vm_grow_refl: "vm_ok s r fs \<Longrightarrow> vm_grow r s fs s fs"
  by (simp add: vm_grow_def vm_step_refl)

lemma vm_grow_trans: "vm_grow r s fs s' fs' \<Longrightarrow> vm_grow r s' fs' s'' fs'' \<Longrightarrow> vm_grow r s fs s'' fs''"
  using vm_step_trans unfolding vm_grow_def by auto

lemma memset_memset: "memset (memset m p c 4096) p d 4096 = memset m p d 4096"
  by (simp add: memset_page fun_eq_iff)

lemma kalloc_zeroed:
  assumes "ready s" "free_pages s (f # fs)"
  shows "\<exists>s'. kalloc s = Some (f, s') \<and> mem_step s s' \<and> ready s' \<and> memset (mem s') f 0 4096 = memset (mem s) f 0 4096 \<and>
    (\<forall>m. agree (set fs) (memset (mem s) f 0 4096) m \<longrightarrow> free_pages (s'\<lparr>mem := m\<rparr>) fs)"
proof -
  let ?s = "s\<lparr>sync := settle (sync s), freelist := ld64 (mem s) f, mem := memset (mem s) f 5 4096\<rparr>"
  have k: "kalloc s = Some (f, ?s)" by (rule kalloc_pop [OF assms])
  have "free_pages (?s\<lparr>mem := memset (mem s) f 0 4096\<rparr>) fs" using kalloc_pages [OF assms(2), where y = "settle (sync s)" and c = 0] by simp
  then have "free_pages (?s\<lparr>mem := m\<rparr>) fs" if "agree (set fs) (memset (mem s) f 0 4096) m" for m
    by (rule free_pages_frame) (use that in \<open>simp_all add: agree_def\<close>)
  moreover have "ready ?s" using assms(1) by (simp add: ready_def)
  ultimately show ?thesis using k kalloc_frame [OF k] by (auto simp: memset_memset)
qed

text \<open>One step of \<open>walk\<close> that makes a new table.\<close>

lemma hang_grow:
  assumes ok: "vm_ok s r (f # fs)" and p: "length p \<le> 1" "\<forall>j\<in>set p. j < 512" "node (mem s) r p = Some t"
    and i: "i < 512" "entry (mem s) t i AND PTE_V = 0"
    and m': "m' = st64 (memset (mem s) f 0 4096) (t + 8 * of_nat i) (PA2PTE f OR PTE_V)"
  shows "\<exists>s'. kalloc s = Some (f, s') \<and> memset (mem s') f 0 4096 = memset (mem s) f 0 4096 \<and> vm_grow r s (f # fs) (s'\<lparr>mem := m'\<rparr>) fs"
proof -
  have fp: "free_pages s (f # fs)" "ready s" "pt_ok (mem s) r" "f \<notin> tabs (mem s) r" using ok by (auto simp: vm_ok_def)
  then have f: "aligned f" "f \<noteq> 0" "f \<notin> set fs" "\<forall>q\<in>set fs. aligned q" by (auto simp: free_pages_def is_page_def)
  note h = hang_ok [OF fp(3) p i f(1,2) fp(4) m']
  obtain s' where k: "kalloc s = Some (f, s')" "mem_step s s'" "ready s'" "memset (mem s') f 0 4096 = memset (mem s) f 0 4096"
    "\<And>m. agree (set fs) (memset (mem s) f 0 4096) m \<Longrightarrow> free_pages (s'\<lparr>mem := m\<rparr>) fs"
    using kalloc_zeroed [OF fp(2,1)] by blast
  have t: "t \<in> tabs (mem s) r" "aligned t" "t \<notin> set fs"
    using p ok tabsI [of p "mem s" r t] pt_okD(1) [OF fp(3)] by (auto simp: tpath_def vm_ok_def)
  have "agree (set fs) (memset (mem s) f 0 4096) m'" unfolding m' by (rule agree_st64) (use t f i in auto)
  then have "free_pages (s'\<lparr>mem := m'\<rparr>) fs" by (rule k(5))
  then have "vm_ok (s'\<lparr>mem := m'\<rparr>) r fs" using k(3) h(1,2) f ok by (auto simp: vm_ok_def ready_def)
  moreover have "m' a = mem s a" if "\<forall>u\<in>tabs m' r. \<not> in_page u a" for a
    using that h(2) t st64_entry_outside [OF i(1), of t a] unfolding m' by (simp add: memset_page)
  ultimately have "vm_grow r s (f # fs) (s'\<lparr>mem := m'\<rparr>) fs" using k(2) h by (auto simp: vm_grow_def vm_step_def)
  then show ?thesis using k by blast
qed

lemma entry_addr_nonzero: "aligned t \<Longrightarrow> t \<noteq> 0 \<Longrightarrow> i < 512 \<Longrightarrow> t + 8 * of_nat i \<noteq> 0"
proof
  assume a: "aligned t" "t \<noteq> 0" "i < 512" "t + 8 * of_nat i = 0"
  have "in_page t (t + of_nat (8 * i))" using a(3) by (intro in_page_off) simp
  moreover have "t + of_nat (8 * i) = 0" using a(4) by simp
  ultimately have "unat t \<le> 0" using in_page_unat [OF a(1), of 0] by simp
  then show False using a(2) by (simp add: unat_eq_0)
qed

text \<open>\<open>walk\<close> without allocation only looks.\<close>

lemma walk_loop_looks:
  "l \<le> 2 \<Longrightarrow> walk_loop l t va False s = Some (case node (mem s) t (drop (2 - l) [px 2 va, px 1 va]) of
      None \<Rightarrow> 0 | Some u \<Rightarrow> u + 8 * of_nat (px 0 va), s)"
proof (induction l arbitrary: t)
  case (Suc l)
  then have "l = 0 \<or> l = 1" by auto
  then show ?case using Suc.IH by (auto simp: PX_px entry_def Let_def numeral_2_eq_2)
qed (simp add: PX_px)

lemma walk_looks: "va < MAXVA \<Longrightarrow> walk r va False s = Some (case ltab (mem s) r va of None \<Rightarrow> 0 | Some u \<Rightarrow> u + 8 * of_nat (px 0 va), s)"
  using walk_loop_looks [of 2 r va s] by (simp add: walk_def ltab_def not_le [symmetric])

lemma path_take: "l \<le> 1 \<Longrightarrow> take (2 - Suc l) [px 2 va, px 1 va] @ [px (Suc l) va] = take (2 - l) [px 2 va, px 1 va]"
  by (cases l) (auto simp: numeral_2_eq_2)

text \<open>\<open>walk\<close> with allocation finds the entry, or memory is exhausted.\<close>

lemma walk_loop_allocs:
  "vm_ok s r fs \<Longrightarrow> node (mem s) r (take (2 - l) [px 2 va, px 1 va]) = Some t \<Longrightarrow> l \<le> 2 \<Longrightarrow>
   \<exists>a s' fs'. walk_loop l t va True s = Some (a, s') \<and> vm_grow r s fs s' fs' \<and> length fs \<le> length fs' + l \<and>
     (a = 0 \<longrightarrow> fs' = [] \<and> length fs < l) \<and> (a \<noteq> 0 \<longrightarrow> (\<exists>u. ltab (mem s') r va = Some u \<and> a = u + 8 * of_nat (px 0 va)))"
proof (induction l arbitrary: s fs t)
  case 0
  then have l: "ltab (mem s) r va = Some t" by (simp add: ltab_def)
  then have "t + 8 * of_nat (px 0 va) \<noteq> 0"
    using 0(1) ltab_in_tabs [OF l] pt_okD(1,2) [of "mem s" r] by (intro entry_addr_nonzero) (auto simp: vm_ok_def)
  then show ?case using 0 l vm_grow_refl by (auto simp: PX_px)
next
  case (Suc l)
  let ?i = "px (Suc l) va" and ?p = "take (2 - Suc l) [px 2 va, px 1 va]" and ?q = "take (2 - l) [px 2 va, px 1 va]"
  have pq: "?p @ [?i] = ?q" using Suc.prems(3) by (intro path_take) simp
  have nq: "node m r ?q = (case node m r ?p of None \<Rightarrow> None | Some t \<Rightarrow> node m t [?i])" for m
    using node_append [of m r ?p "[?i]"] unfolding pq .
  show ?case
  proof (cases "entry (mem s) t ?i AND PTE_V = 0")
    case False
    then have "node (mem s) r ?q = Some (PTE2PA (entry (mem s) t ?i))" using nq [of "mem s"] Suc.prems(2) by simp
    from Suc.IH [OF Suc.prems(1) this] show ?thesis using False Suc.prems(3) by (fastforce simp: PX_px entry_def [symmetric] Let_def)
  next
    case True
    show ?thesis
    proof (cases fs)
      case Nil
      then have "kalloc s = Some (0, s\<lparr>sync := settle (sync s)\<rparr>)" using Suc.prems(1) by (intro kalloc_empty) (auto simp: vm_ok_def)
      moreover from this have "vm_grow r s fs (s\<lparr>sync := settle (sync s)\<rparr>) fs"
        using Suc.prems(1) kalloc_frame by (auto simp: vm_grow_def vm_step_def vm_ok_def ready_def free_pages_def is_page_def)
      ultimately show ?thesis using True Nil by (auto simp: PX_px entry_def [symmetric] Let_def)
    next
      case (Cons f gs)
      define m' where "m' = st64 (memset (mem s) f 0 4096) (t + 8 * of_nat ?i) (PA2PTE f OR PTE_V)"
      have p: "length ?p \<le> 1" "\<forall>j\<in>set ?p. j < 512" "length ?q \<le> 3" "\<forall>j\<in>set ?q. j < 512" by (auto dest!: in_set_takeD)
      obtain s' where k: "kalloc s = Some (f, s')" "memset (mem s') f 0 4096 = memset (mem s) f 0 4096"
          "vm_grow r s (f # gs) (s'\<lparr>mem := m'\<rparr>) gs"
        using hang_grow [OF Suc.prems(1) [unfolded Cons] p(1,2) Suc.prems(2) px_less True m'_def] by blast
      have f: "f \<noteq> 0" "aligned f" "f \<notin> tabs (mem s) r" "pt_ok (mem s) r"
        using Suc.prems(1) Cons by (auto simp: vm_ok_def free_pages_def is_page_def)
      have "node m' r ?q = Some f"
        using node_hang [OF f(4) p(1,2) Suc.prems(2) px_less True f(2,3) p(3,4)] unfolding m'_def pq by simp
      moreover have "vm_ok (s'\<lparr>mem := m'\<rparr>) r gs" using k(3) by (simp add: vm_grow_def vm_step_def)
      ultimately obtain a s'' fs' where w: "walk_loop l f va True (s'\<lparr>mem := m'\<rparr>) = Some (a, s'')" "vm_grow r (s'\<lparr>mem := m'\<rparr>) gs s'' fs'"
          "length gs \<le> length fs' + l" "a = 0 \<longrightarrow> fs' = [] \<and> length gs < l"
          "a \<noteq> 0 \<longrightarrow> (\<exists>u. ltab (mem s'') r va = Some u \<and> a = u + 8 * of_nat (px 0 va))"
        using Suc.IH [of "s'\<lparr>mem := m'\<rparr>" gs f] Suc.prems(3) by auto
      have "walk_loop (Suc l) t va True s = Some (a, s'')"
        using True k(1,2) f w(1) by (simp add: PX_px entry_def [symmetric] Let_def m'_def)
      moreover have "vm_grow r s fs s'' fs'" using vm_grow_trans k(3) w(2) unfolding Cons by blast
      ultimately show ?thesis using w(3-5) Cons by auto
    qed
  qed
qed

lemma walk_allocs:
  assumes "vm_ok s r fs" "va < MAXVA"
  shows "\<exists>a s' fs'. walk r va True s = Some (a, s') \<and> vm_grow r s fs s' fs' \<and> length fs \<le> length fs' + 2 \<and>
     (a = 0 \<longrightarrow> fs' = [] \<and> length fs < 2) \<and> (a \<noteq> 0 \<longrightarrow> (\<exists>u. ltab (mem s') r va = Some u \<and> a = u + 8 * of_nat (px 0 va)))"
  using walk_loop_allocs [OF assms(1), of 2 va r] assms(2) by (simp add: walk_def not_le [symmetric])

section \<open>Mapping pages\<close>

definition pg :: "addr \<Rightarrow> nat" where
  "pg va = unat va div 4096"

lemma MAXVA_unat: "unat MAXVA = 2 ^ 38"
  by (simp add: MAXVA_def)

lemma below_MAXVA: "va < MAXVA \<longleftrightarrow> unat va < 2 ^ 38"
  using MAXVA_unat by (simp add: word_less_nat_alt)

lemma px_pg: "px 0 va = pg va mod 512" "px 1 va = pg va div 512 mod 512" "px 2 va = pg va div 262144 mod 512"
  by (simp_all add: px_def pg_def div_mult2_eq [symmetric])

lemma same_page: "va < MAXVA \<Longrightarrow> vb < MAXVA \<Longrightarrow> px 2 vb = px 2 va \<and> px 1 vb = px 1 va \<and> px 0 vb = px 0 va \<longleftrightarrow> pg vb = pg va"
proof
  assume h: "va < MAXVA" "vb < MAXVA" "px 2 vb = px 2 va \<and> px 1 vb = px 1 va \<and> px 0 vb = px 0 va"
  have e: "pg v = (pg v div 262144 mod 512) * 262144 + (pg v div 512 mod 512) * 512 + pg v mod 512" if "v < MAXVA" for v
  proof -
    define a b c d where "a = pg v div 262144" "b = pg v div 512 mod 512" "c = pg v mod 512" "d = pg v div 512"
    have "a < 512" using that by (simp add: below_MAXVA pg_def a_b_c_d_def)
    moreover have "b < 512" by (simp add: a_b_c_d_def)
    moreover have "d = a * 512 + b"
      using div_mult_mod_eq [of "pg v div 512" 512] by (simp add: div_mult2_eq [symmetric] a_b_c_d_def)
    moreover have "pg v = d * 512 + c" by (simp add: div_mult_mod_eq a_b_c_d_def)
    ultimately show ?thesis unfolding a_b_c_d_def [symmetric] by simp
  qed
  show "pg vb = pg va" using e [OF h(1)] e [OF h(2)] h(3) unfolding px_pg by metis
qed (simp add: px_pg del: One_nat_def)

lemma store_step:
  assumes ok: "vm_ok s r fs" and va: "va < MAXVA" "ltab (mem s) r va = Some u"
    and s': "s' = s\<lparr>mem := st64 (mem s) (u + 8 * of_nat (px 0 va)) v\<rparr>"
  shows "vm_step r s fs s' fs" "vb < MAXVA \<Longrightarrow> pte (mem s') r vb = (if pg vb = pg va then v else pte (mem s) r vb)"
proof -
  have p: "pt_ok (mem s) r" using ok by (simp add: vm_ok_def)
  let ?m = "st64 (mem s) (u + 8 * of_nat (px 0 va)) v"
  have n: "node ?m r q = node (mem s) r q" if "tpath q" for q by (rule ltab_store [OF p va(2) that])
  have u: "u \<in> tabs (mem s) r" "aligned u" using ltab_in_tabs [OF va(2)] p by (auto intro: pt_okD)
  have "agree (set fs) (mem s) ?m" using u ok by (intro agree_st64) (auto simp: vm_ok_def free_pages_def is_page_def)
  then have "mem s' a = mem s a" if "p \<in> set fs" "in_page p a" for p a using agreeD that by (simp add: s')
  then have "free_pages s' fs" by (rule free_pages_frame [of s, rotated -1]) (use ok in \<open>simp_all add: s' vm_ok_def\<close>)
  then have "vm_ok s' r fs" using ok pt_ok_nodes [of ?m r, OF n] tabs_nodes [of ?m r, OF n] by (simp add: s' vm_ok_def ready_def)
  then show "vm_step r s fs s' fs" using tabs_nodes [of ?m r, OF n] u(1) st64_entry_outside [OF px_less, of u] by (auto simp: vm_step_def s')
  show "pte (mem s') r vb = (if pg vb = pg va then v else pte (mem s) r vb)" if "vb < MAXVA"
    using pte_store [OF p va(2), of v vb] same_page [OF va(1) that] by (simp add: s')
qed

text \<open>The translation after \<open>n\<close> pages from \<open>va\<close> on are mapped to those from \<open>pa\<close> on.\<close>

definition map_range :: "addr \<Rightarrow> nat \<Rightarrow> addr \<Rightarrow> addr \<Rightarrow> (addr \<Rightarrow> addr) \<Rightarrow> addr \<Rightarrow> addr" where
  "map_range va n pa perm g vb =
     (if pg va \<le> pg vb \<and> pg vb < pg va + n then PA2PTE (pa + of_nat (pg vb - pg va) * PGSIZE) OR perm OR PTE_V else g vb)"

definition unmapped :: "mem \<Rightarrow> addr \<Rightarrow> addr \<Rightarrow> nat \<Rightarrow> bool" where
  "unmapped m r va n \<longleftrightarrow> (\<forall>vb<MAXVA. pg va \<le> pg vb \<and> pg vb < pg va + n \<longrightarrow> pte m r vb AND PTE_V = 0)"

lemma next_page: "unat va + Suc (Suc n) * 4096 \<le> 2 ^ 38 \<Longrightarrow> aligned va \<Longrightarrow>
   unat (va + PGSIZE) = unat va + 4096 \<and> pg (va + PGSIZE) = Suc (pg va) \<and> aligned (va + PGSIZE)"
  by (simp add: pg_def PGSIZE_def unat_plus_if' aligned_unat)

lemma walk_entry: "ltab m r va = Some u \<Longrightarrow> ld64 m (u + 8 * of_nat (px 0 va)) = pte m r va"
  by (simp add: pte_def entry_def)

text \<open>The body of the loop of \<open>mappages\<close>.\<close>

lemma map_one:
  assumes "vm_ok s r fs" "va < MAXVA"
  obtains s1 fs1 where "walk r va True s = Some (0, s1)" "vm_grow r s fs s1 fs1" "fs1 = []" "length fs < 2"
  | a s1 fs1 where "walk r va True s = Some (a, s1)" "a \<noteq> 0" "length fs \<le> length fs1 + 2" "ld64 (mem s1) a = pte (mem s) r va"
      "\<And>v. vm_step r s fs (s1\<lparr>mem := st64 (mem s1) a v\<rparr>) fs1"
      "\<And>v vb. vb < MAXVA \<Longrightarrow> pte (st64 (mem s1) a v) r vb = (if pg vb = pg va then v else pte (mem s) r vb)"
proof -
  obtain a s1 fs1 where w: "walk r va True s = Some (a, s1)" "vm_grow r s fs s1 fs1" "length fs \<le> length fs1 + 2" "a = 0 \<longrightarrow> fs1 = [] \<and> length fs < 2"
      "a \<noteq> 0 \<longrightarrow> (\<exists>u. ltab (mem s1) r va = Some u \<and> a = u + 8 * of_nat (px 0 va))"
    using walk_allocs [OF assms] by blast
  show thesis
  proof (cases "a = 0")
    case True
    then show thesis using w that(1) by blast
  next
    case False
    then obtain u where u: "ltab (mem s1) r va = Some u" "a = u + 8 * of_nat (px 0 va)" using w(5) by blast
    have ok: "vm_ok s1 r fs1" and st: "vm_step r s fs s1 fs1" and p: "\<And>va. pte (mem s1) r va = pte (mem s) r va"
      using w(2) by (auto simp: vm_grow_def vm_step_def)
    show thesis
    proof (rule that(2) [OF w(1) False w(3)])
      show "ld64 (mem s1) a = pte (mem s) r va" using walk_entry [OF u(1)] p u(2) by simp
      show "vm_step r s fs (s1\<lparr>mem := st64 (mem s1) a v\<rparr>) fs1" for v
        using vm_step_trans [OF st store_step(1) [OF ok assms(2) u(1) refl]] u(2) by simp
      show "pte (st64 (mem s1) a v) r vb = (if pg vb = pg va then v else pte (mem s) r vb)" if "vb < MAXVA" for v vb
        using store_step(2) [OF ok assms(2) u(1) refl that, of v] p u(2) by simp
    qed
  qed
qed

lemma mappages_loop_maps:
  assumes "vm_ok s r fs" "aligned va" "unat va + Suc n * 4096 \<le> 2 ^ 38" "unmapped (mem s) r va (Suc n)"
  shows "\<exists>k s' fs'. mappages_loop r va (va + of_nat n * PGSIZE) pa perm s = Some (if k = Suc n then 0 else -1, s') \<and> k \<le> Suc n \<and>
     vm_step r s fs s' fs' \<and> (k \<le> n \<longrightarrow> fs' = [] \<and> length fs < 2 * Suc n) \<and> length fs \<le> length fs' + 2 * Suc n \<and>
     (\<forall>vb<MAXVA. pte (mem s') r vb = map_range va k pa perm (pte (mem s) r) vb)"
  using assms
proof (induction n arbitrary: va pa s fs)
  case 0
  then have va: "va < MAXVA" by (simp add: below_MAXVA)
  have n: "pte (mem s) r va AND PTE_V = 0" using 0(4) va by (simp add: unmapped_def)
  show ?case
  proof (rule map_one [OF 0(1) va])
    fix s1 fs1 assume "walk r va True s = Some (0, s1)" "vm_grow r s fs s1 fs1" "fs1 = []" "length fs < 2"
    then show ?thesis by (intro exI [of _ 0] exI [of _ s1] exI [of _ fs1], subst mappages_loop.simps) (auto simp: map_range_def vm_grow_def)
  next
    fix a s1 fs1 assume "walk r va True s = Some (a, s1)" "a \<noteq> 0" "length fs \<le> length fs1 + 2" "ld64 (mem s1) a = pte (mem s) r va"
      "\<And>v. vm_step r s fs (s1\<lparr>mem := st64 (mem s1) a v\<rparr>) fs1"
      "\<And>v vb. vb < MAXVA \<Longrightarrow> pte (st64 (mem s1) a v) r vb = (if pg vb = pg va then v else pte (mem s) r vb)"
    then show ?thesis using n
      by (intro exI [of _ 1] exI [of _ "s1\<lparr>mem := st64 (mem s1) a (PA2PTE pa OR perm OR PTE_V)\<rparr>"] exI [of _ fs1], subst mappages_loop.simps)
        (auto simp: map_range_def Let_def)
  qed
next
  case (Suc n)
  then have va: "va < MAXVA" by (simp add: below_MAXVA)
  note nx = next_page [OF Suc.prems(3,2)]
  have n: "pte (mem s) r va AND PTE_V = 0" using Suc.prems(4) va by (simp add: unmapped_def)
  have ne: "va \<noteq> va + of_nat (Suc n) * PGSIZE"
  proof -
    have "unat (of_nat (Suc n) * PGSIZE) = Suc n * 4096" using Suc.prems(3) by (simp add: PGSIZE_def unat_word_ariths unat_of_nat)
    then show ?thesis by (metis add_cancel_right_right mult_eq_0_iff nat.distinct(1) unat_0 zero_neq_numeral)
  qed
  show ?case
  proof (rule map_one [OF Suc.prems(1) va])
    fix s1 fs1 assume "walk r va True s = Some (0, s1)" "vm_grow r s fs s1 fs1" "fs1 = []" "length fs < 2"
    then show ?thesis by (intro exI [of _ 0] exI [of _ s1] exI [of _ fs1], subst mappages_loop.simps) (auto simp: map_range_def vm_grow_def)
  next
    fix a s1 fs1 assume w: "walk r va True s = Some (a, s1)" "a \<noteq> 0" "length fs \<le> length fs1 + 2" "ld64 (mem s1) a = pte (mem s) r va"
      "\<And>v. vm_step r s fs (s1\<lparr>mem := st64 (mem s1) a v\<rparr>) fs1"
      "\<And>v vb. vb < MAXVA \<Longrightarrow> pte (st64 (mem s1) a v) r vb = (if pg vb = pg va then v else pte (mem s) r vb)"
    define s2 where "s2 = s1\<lparr>mem := st64 (mem s1) a (PA2PTE pa OR perm OR PTE_V)\<rparr>"
    have st: "vm_step r s fs s2 fs1" using w(5) by (simp add: s2_def)
    have p2: "pte (mem s2) r vb = (if pg vb = pg va then PA2PTE pa OR perm OR PTE_V else pte (mem s) r vb)" if "vb < MAXVA" for vb
      using w(6) [OF that] by (simp add: s2_def)
    obtain k s' fs' where IH: "mappages_loop r (va + PGSIZE) (va + PGSIZE + of_nat n * PGSIZE) (pa + PGSIZE) perm s2 = Some (if k = Suc n then 0 else -1, s')"
        "k \<le> Suc n" "vm_step r s2 fs1 s' fs'" "k \<le> n \<longrightarrow> fs' = [] \<and> length fs1 < 2 * Suc n" "length fs1 \<le> length fs' + 2 * Suc n"
        "\<forall>vb<MAXVA. pte (mem s') r vb = map_range (va + PGSIZE) k (pa + PGSIZE) perm (pte (mem s2) r) vb"
    proof -
      have "unmapped (mem s2) r (va + PGSIZE) (Suc n)" using Suc.prems(4) nx by (auto simp: unmapped_def p2)
      moreover have "vm_ok s2 r fs1" using st by (simp add: vm_step_def)
      ultimately show thesis using Suc.IH [of s2 fs1 "va + PGSIZE" "pa + PGSIZE"] Suc.prems(3) nx that by auto
    qed
    have "mappages_loop r va (va + of_nat (Suc n) * PGSIZE) pa perm s = Some (if Suc k = Suc (Suc n) then 0 else -1, s')"
      using w(1,2,4) n ne IH(1) by (subst mappages_loop.simps) (simp add: Let_def s2_def algebra_simps)
    moreover have "vm_step r s fs s' fs'" by (rule vm_step_trans [OF st IH(3)])
    moreover have "pte (mem s') r vb = map_range va (Suc k) pa perm (pte (mem s) r) vb" if "vb < MAXVA" for vb
      using IH(6) that nx by (auto simp: map_range_def p2 algebra_simps)
    ultimately show ?thesis using IH(2,4,5) w(3) by (intro exI [of _ "Suc k"] exI [of _ s'] exI [of _ fs']) auto
  qed
qed

section \<open>Looking up pages\<close>

lemma PGSIZE_one: "PGSIZE mod PGSIZE = 0" "PGSIZE \<noteq> 0" "va + PGSIZE - PGSIZE = va"
  by (simp_all add: PGSIZE_def)

definition valid :: "addr \<Rightarrow> bool" where
  "valid e \<longleftrightarrow> e AND PTE_V \<noteq> 0"

definition user :: "addr \<Rightarrow> bool" where
  "user e \<longleftrightarrow> valid e \<and> e AND PTE_U \<noteq> 0"

lemma not_valid_0 [simp]: "\<not> valid 0" "\<not> user 0"
  by (simp_all add: valid_def user_def)

lemma ltab_addr_nonzero: "pt_ok m r \<Longrightarrow> ltab m r va = Some u \<Longrightarrow> u + 8 * of_nat (px 0 va) \<noteq> 0"
  using pt_okD(1,2) [of m r u] ltab_in_tabs [of m r va u] entry_addr_nonzero [of u "px 0 va"] by simp

lemma walkaddr_eq: "pt_ok (mem s) r \<Longrightarrow> va < MAXVA \<Longrightarrow> walkaddr r va s = Some (if user (pte (mem s) r va) then PTE2PA (pte (mem s) r va) else 0, s)"
  using ltab_addr_nonzero [of "mem s" r va] walk_entry [of "mem s" r va]
  by (auto simp: walkaddr_def walk_looks Let_def user_def valid_def not_le [symmetric] pte_def split: option.split)

lemma ismapped_eq: "pt_ok (mem s) r \<Longrightarrow> va < MAXVA \<Longrightarrow> ismapped r va s = Some (valid (pte (mem s) r va), s)"
  using ltab_addr_nonzero [of "mem s" r va] walk_entry [of "mem s" r va]
  by (auto simp: ismapped_def walk_looks valid_def pte_def split: option.split)

lemma vm_ok_touch:
  assumes "vm_ok s r fs" "agree (tabs (mem s) r \<union> set fs) (mem s) m"
  shows "vm_ok (s\<lparr>mem := m\<rparr>) r fs" "tabs m r = tabs (mem s) r" "pte m r va = pte (mem s) r va"
proof -
  have t: "agree (tabs (mem s) r) (mem s) m" using assms(2) by (rule agree_mono) simp
  show "tabs m r = tabs (mem s) r" "pte m r va = pte (mem s) r va" using tabs_frame [OF t] pte_frame [OF t] by simp_all
  have "free_pages (s\<lparr>mem := m\<rparr>) fs"
    by (rule free_pages_frame [of s]) (use assms in \<open>auto simp: vm_ok_def agree_def\<close>)
  then show "vm_ok (s\<lparr>mem := m\<rparr>) r fs" using assms(1) tabs_frame [OF t] pt_ok_frame [OF t] by (simp add: vm_ok_def ready_def)
qed

text \<open>A fresh page, filled with zeros.\<close>

lemma kalloc_user:
  assumes "vm_ok s r (f # fs)"
  obtains s' where "kalloc s = Some (f, s')" "mem_step s s'" "vm_ok (s'\<lparr>mem := memset (mem s') f 0 4096\<rparr>) r fs"
    "memset (mem s') f 0 4096 = memset (mem s) f 0 4096" "tabs (memset (mem s) f 0 4096) r = tabs (mem s) r"
    "\<And>va. pte (memset (mem s) f 0 4096) r va = pte (mem s) r va"
proof -
  let ?m = "memset (mem s) f 0 4096"
  have f: "free_pages s (f # fs)" "ready s" "f \<notin> tabs (mem s) r" "aligned f" "f \<notin> set fs" "tabs (mem s) r \<inter> set fs = {}"
    "\<forall>p\<in>tabs (mem s) r. aligned p" "pt_ok (mem s) r"
    using assms by (auto simp: vm_ok_def free_pages_def is_page_def intro: pt_okD)
  obtain s' where k: "kalloc s = Some (f, s')" "mem_step s s'" "ready s'" "memset (mem s') f 0 4096 = ?m"
    "\<And>m. agree (set fs) ?m m \<Longrightarrow> free_pages (s'\<lparr>mem := m\<rparr>) fs" using kalloc_zeroed [OF f(2,1)] by blast
  have t: "agree (tabs (mem s) r) (mem s) ?m" by (rule agree_memset) (use f in auto)
  have "vm_ok (s'\<lparr>mem := ?m\<rparr>) r fs"
    using k(3) k(5) [of ?m] f pt_ok_frame [OF t] tabs_frame [OF t] by (simp add: vm_ok_def ready_def)
  then show thesis using that k tabs_frame [OF t] pte_frame [OF t] by simp
qed

lemma aligned_add: "aligned p \<Longrightarrow> aligned (p + of_nat i * PGSIZE)"
proof -
  assume p: "aligned p"
  have d: "4096 dvd x mod 18446744073709551616 \<longleftrightarrow> 4096 dvd x" for x :: nat by (rule dvd_mod_iff) simp
  have "4096 dvd unat (of_nat i * PGSIZE)" by (simp add: unat_word_ariths(2) PGSIZE_def d)
  then show "aligned (p + of_nat i * PGSIZE)" using p d by (simp add: aligned_unat unat_word_ariths(1))
qed

text \<open>
  (C12) \<open>mappages\<close> refines the update of the translation.  For a well-formed table and a range of \<open>n\<close> pages that is
  not mapped, it returns; it maps the pages of the range in order, page \<open>i\<close> to the physical page \<open>pa + i * 4096\<close> with the given
  permissions, so that \<open>walkaddr\<close> finds them there, leaves every other translation as it is, and changes no byte outside the pages of the table.  It fails
  only when memory is exhausted, having mapped the first pages of the range, and never if \<open>2 * n\<close> pages are free.
\<close>

theorem mappages_refines_map:
  assumes "vm_ok s r fs" "aligned va" "0 < n" "unat va + n * 4096 \<le> 2 ^ 38" "unmapped (mem s) r va n" "aligned pa" "perm_ok perm"
  shows "\<exists>k s' fs'. mappages r va (of_nat n * PGSIZE) pa perm s = Some (if k = n then 0 else -1, s') \<and> k \<le> n \<and> vm_ok s' r fs' \<and>
     (k < n \<longrightarrow> fs' = [] \<and> length fs < 2 * n) \<and>
     (\<forall>vb<MAXVA. pte (mem s') r vb = map_range va k pa perm (pte (mem s) r) vb) \<and>
     (\<forall>vb<MAXVA. pg va \<le> pg vb \<and> pg vb < pg va + k \<and> perm AND PTE_U \<noteq> 0 \<longrightarrow>
        walkaddr r vb s' = Some (pa + of_nat (pg vb - pg va) * PGSIZE, s')) \<and>
     (\<forall>a. (\<forall>t\<in>tabs (mem s') r. \<not> in_page t a) \<longrightarrow> mem s' a = mem s a)"
proof -
  obtain j where j: "n = Suc j" using assms(3) by (cases n) auto
  have "of_nat n * PGSIZE \<noteq> 0" "of_nat n * PGSIZE mod PGSIZE = 0"
  proof -
    have u: "unat (of_nat n * PGSIZE) = n * 4096" using assms(4) by (simp add: PGSIZE_def unat_word_ariths unat_of_nat)
    show "of_nat n * PGSIZE \<noteq> 0" using u assms(3) by (metis mult_eq_0_iff not_less_zero unat_0 zero_neq_numeral)
    show "of_nat n * PGSIZE mod PGSIZE = 0" using u by (simp add: word_unat_eq_iff unat_mod) (simp add: PGSIZE_def)
  qed
  then have m: "mappages r va (of_nat n * PGSIZE) pa perm s = mappages_loop r va (va + of_nat j * PGSIZE) pa perm s"
    using assms(2) j by (simp add: mappages_def aligned_def algebra_simps)
  obtain k s' fs' where l: "mappages_loop r va (va + of_nat j * PGSIZE) pa perm s = Some (if k = Suc j then 0 else -1, s')" "k \<le> Suc j"
      "vm_step r s fs s' fs'" "k \<le> j \<longrightarrow> fs' = [] \<and> length fs < 2 * Suc j"
      "\<forall>vb<MAXVA. pte (mem s') r vb = map_range va k pa perm (pte (mem s) r) vb"
    using mappages_loop_maps [OF assms(1,2), of j pa perm] assms(4,5) j by auto
  have ok: "pt_ok (mem s') r" using l(3) by (simp add: vm_step_def vm_ok_def)
  have "walkaddr r vb s' = Some (pa + of_nat (pg vb - pg va) * PGSIZE, s')"
    if "vb < MAXVA" "pg va \<le> pg vb \<and> pg vb < pg va + k" "perm AND PTE_U \<noteq> 0" for vb
  proof -
    let ?q = "pa + of_nat (pg vb - pg va) * PGSIZE"
    have "aligned ?q" by (rule aligned_add [OF assms(6)])
    then have "user (PA2PTE ?q OR perm OR PTE_V)" "PTE2PA (PA2PTE ?q OR perm OR PTE_V) = ?q"
      using that(3) V_make(2) PTE2PA_make [OF _ assms(7)] by (auto simp: user_def valid_def bit.conj_disj_distrib2 or_eq_0_iff)
    then show ?thesis using walkaddr_eq [OF ok that(1)] l(5) that by (simp add: map_range_def)
  qed
  then show ?thesis using l m j by (intro exI [of _ k] exI [of _ s'] exI [of _ fs']) (auto simp: vm_step_def)
qed

section \<open>Instances\<close>

text \<open>Free pages linked in the order of a list, in a memory of zeros.\<close>

fun linked :: "addr list \<Rightarrow> mem" where
  "linked [] = (\<lambda>_. 0)"
| "linked (p # ps) = st64 (linked ps) p (case ps of [] \<Rightarrow> 0 | q # _ \<Rightarrow> q)"

lemma linked_outside: "\<forall>p\<in>set ps. \<not> in_page p a \<Longrightarrow> linked ps a = 0"
  using st64_page [of 0] by (induction ps) auto

lemma chain_linked: "distinct ps \<Longrightarrow> \<forall>p\<in>set ps. aligned p \<and> p \<noteq> 0 \<Longrightarrow> chain (linked ps) (case ps of [] \<Rightarrow> 0 | q # _ \<Rightarrow> q) ps"
proof (induction ps)
  case (Cons p ps)
  have "chain (st64 (linked ps) p v) h ps = chain (linked ps) h ps" for v h
  proof (rule chain_cong)
    fix q k assume q: "q \<in> set ps" "k < (8 :: nat)"
    then have "\<not> in_page p (q + of_nat k)" using Cons.prems page_disjoint [of p q "q + of_nat k"] in_page_off [of k q] by auto
    then show "st64 (linked ps) p v (q + of_nat k) = linked ps (q + of_nat k)" using st64_page [of 0 p] by simp
  qed
  then show ?case using Cons by (cases ps) auto
qed simp

text \<open>A machine with a process whose page table is empty, and eight free pages.\<close>

definition frees0 :: "addr list" where
  "frees0 = [0x87ff1000, 0x87ff2000, 0x87ff3000, 0x87ff4000, 0x87ff5000, 0x87ff6000, 0x87ff7000, 0x87ff8000]"

definition vmstate0 :: kstate where
  "vmstate0 = kstate0\<lparr>mem := linked frees0, freelist := 0x87ff1000, kend := 0x87ff0000,
     sync := set_mycpu ((mycpu sync0)\<lparr>c_proc := Some 0\<rparr>) sync0,
     procs := (procs kstate0)(0 := (procs kstate0 0)\<lparr>p_pid := 1, p_state := RUNNING, p_pagetable := 0x87ff0000, p_sz := 8192\<rparr>)\<rparr>"

lemma frees0_pages: "\<forall>p\<in>set frees0. aligned p \<and> p \<noteq> 0 \<and> 0x87ff0000 < p \<and> p < PHYSTOP" "distinct frees0"
  by (simp_all add: frees0_def aligned_def PGSIZE_def PHYSTOP_def KERNBASE_def)

text \<open>Every other page is a table without entries.\<close>

lemma vmstate0_entry: "aligned t \<Longrightarrow> t \<notin> set frees0 \<Longrightarrow> i < 512 \<Longrightarrow> entry (mem vmstate0) t i = 0"
proof -
  assume t: "aligned t" "t \<notin> set frees0" and i: "i < 512"
  have "entry (mem vmstate0) t i = entry (\<lambda>_. 0) t i"
  proof (rule entry_cong [OF i])
    fix a assume a: "in_page t a"
    have "p = t" if "p \<in> set frees0" "in_page p a" for p using page_disjoint [OF _ t(1) that(2) a] frees0_pages(1) that(1) by blast
    then have "\<forall>p\<in>set frees0. \<not> in_page p a" using t(2) by blast
    then show "mem vmstate0 a = 0" using linked_outside by (simp add: vmstate0_def)
  qed
  then show ?thesis by (simp add: entry_def ld64_def)
qed

lemma vmstate0_table:
  assumes t: "aligned t" "t \<notin> set frees0" "t \<noteq> 0"
  shows "pt_ok (mem vmstate0) t" "tabs (mem vmstate0) t = {t}" "pte (mem vmstate0) t va = 0"
proof -
  have n: "node (mem vmstate0) t p = (if p = [] then Some t else None)" if "tpath p" for p
    using that vmstate0_entry [OF t(1,2)] by (cases p) (auto simp: tpath_def)
  show ts: "tabs (mem vmstate0) t = {t}" using n by (auto simp: tabs_def split: if_splits) (metis tpath_simps(1))
  show "pt_ok (mem vmstate0) t" using ts n t by (auto simp: pt_ok_def split: if_splits)
  show "pte (mem vmstate0) t va = 0" using vmstate0_entry [OF t(1,2), of "px 2 va"] by (simp add: pte_def ltab_def)
qed

lemma root0: "aligned 0x87ff0000" "0x87ff0000 \<notin> set frees0"
  by (simp_all add: aligned_def PGSIZE_def frees0_def)

lemma vmstate0_facts: "vm_ok vmstate0 0x87ff0000 frees0" "tabs (mem vmstate0) 0x87ff0000 = {0x87ff0000}" "pte (mem vmstate0) 0x87ff0000 va = 0"
proof -
  note t = vmstate0_table [OF root0]
  show "tabs (mem vmstate0) 0x87ff0000 = {0x87ff0000}" "pte (mem vmstate0) 0x87ff0000 va = 0" using t by simp_all
  have "chain (mem vmstate0) (freelist vmstate0) frees0" using chain_linked [of frees0] frees0_pages by (simp add: vmstate0_def frees0_def)
  then have "free_pages vmstate0 frees0" using frees0_pages by (auto simp: free_pages_def is_page_def vmstate0_def)
  moreover have "ready vmstate0" by (simp add: ready_def vmstate0_def sync0_def sync_defs)
  ultimately show "vm_ok vmstate0 0x87ff0000 frees0" using t root0(2) by (simp add: vm_ok_def)
qed

theorem mappages_refines_map_witness:
  "\<exists>s'. mappages 0x87ff0000 0x4000 (of_nat 2 * PGSIZE) 0x80000000 (PTE_R OR PTE_U) vmstate0 = Some (0, s') \<and>
     walkaddr 0x87ff0000 0x5000 s' = Some (0x80001000, s')"
proof -
  have h: "aligned 0x4000" "0 < (2 :: nat)" "unat (0x4000 :: addr) + 2 * 4096 \<le> 2 ^ 38" "unmapped (mem vmstate0) 0x87ff0000 0x4000 2"
    "aligned 0x80000000" "perm_ok (PTE_R OR PTE_U)"
    by (simp_all add: aligned_def PGSIZE_def unmapped_def vmstate0_facts(3) perm_ok_def PTE_bits)
  obtain k s' where k: "mappages 0x87ff0000 0x4000 (of_nat 2 * PGSIZE) 0x80000000 (PTE_R OR PTE_U) vmstate0 = Some (if k = 2 then 0 else -1, s')"
      "k \<le> 2" "k < 2 \<longrightarrow> length frees0 < 2 * 2"
      "\<forall>vb<MAXVA. pg 0x4000 \<le> pg vb \<and> pg vb < pg 0x4000 + k \<and> (PTE_R OR PTE_U) AND PTE_U \<noteq> 0 \<longrightarrow>
        walkaddr 0x87ff0000 vb s' = Some (0x80000000 + of_nat (pg vb - pg 0x4000) * PGSIZE, s')"
    using mappages_refines_map [OF vmstate0_facts(1) h] by metis
  then have "k = 2" by (simp add: frees0_def)
  then have "walkaddr 0x87ff0000 0x5000 s' = Some (0x80000000 + of_nat (pg 0x5000 - pg 0x4000) * PGSIZE, s')"
    using k(4) by (simp add: pg_def below_MAXVA PTE_bits)
  then show ?thesis using k(1) \<open>k = 2\<close> by (simp add: pg_def PGSIZE_def)
qed

end
