(* ===== verification/UserMem.thy ===== *)
theory UserMem
  imports VmSpec
begin

text \<open>
  User memory.  \<open>uview\<close> is the memory of a user program as the kernel's copies see it through the page table: pages that begin below
  the size of the process and are not mapped yet read as zeros.  \<open>vmfault\<close> leaves this view as it is.
\<close>

section \<open>The view\<close>

definition uview :: "mem \<Rightarrow> addr \<Rightarrow> addr \<Rightarrow> addr \<Rightarrow> byte option" where
  "uview m r sz va =
     (if \<not> va < MAXVA then None
      else if user (pte m r va) then Some (m (PTE2PA (pte m r va) + va mod PGSIZE))
      else if \<not> valid (pte m r va) \<and> PGROUNDDOWN va < sz then Some 0
      else None)"

definition uwritable :: "mem \<Rightarrow> addr \<Rightarrow> addr \<Rightarrow> addr \<Rightarrow> bool" where
  "uwritable m r sz va \<longleftrightarrow> va < MAXVA \<and>
     (if valid (pte m r va) then user (pte m r va) \<and> pte m r va AND PTE_W \<noteq> 0 else PGROUNDDOWN va < sz)"

text \<open>The mapped pages are apart from the tables and the free pages, and no page is mapped twice.\<close>

definition pages_ok :: "mem \<Rightarrow> addr \<Rightarrow> addr set \<Rightarrow> bool" where
  "pages_ok m r P \<longleftrightarrow>
     (\<forall>va<MAXVA. valid (pte m r va) \<longrightarrow> PTE2PA (pte m r va) \<noteq> 0 \<and> PTE2PA (pte m r va) \<notin> tabs m r \<union> P) \<and>
     (\<forall>va<MAXVA. \<forall>vb<MAXVA. valid (pte m r va) \<and> valid (pte m r vb) \<and> PTE2PA (pte m r va) = PTE2PA (pte m r vb) \<longrightarrow> pg va = pg vb)"

lemma pages_okD:
  assumes "pages_ok m r P"
  shows "va < MAXVA \<Longrightarrow> valid (pte m r va) \<Longrightarrow> PTE2PA (pte m r va) \<noteq> 0"
    "va < MAXVA \<Longrightarrow> valid (pte m r va) \<Longrightarrow> PTE2PA (pte m r va) \<notin> tabs m r \<union> P"
    "va < MAXVA \<Longrightarrow> vb < MAXVA \<Longrightarrow> valid (pte m r va) \<Longrightarrow> valid (pte m r vb) \<Longrightarrow> PTE2PA (pte m r va) = PTE2PA (pte m r vb) \<Longrightarrow> pg va = pg vb"
  using assms unfolding pages_ok_def by blast+

lemma pages_ok_cong:
  assumes "pages_ok m r P" "\<And>va. va < MAXVA \<Longrightarrow> pte m' r va = pte m r va" "tabs m' r \<union> P' \<subseteq> tabs m r \<union> P"
  shows "pages_ok m' r P'"
  unfolding pages_ok_def
proof (intro conjI allI impI)
  fix va assume "va < MAXVA" "valid (pte m' r va)"
  then show "PTE2PA (pte m' r va) \<noteq> 0" "PTE2PA (pte m' r va) \<notin> tabs m' r \<union> P'"
    using pages_okD(1,2) [OF assms(1), of va] assms(2,3) by auto
next
  fix va vb assume "va < MAXVA" "vb < MAXVA" "valid (pte m' r va) \<and> valid (pte m' r vb) \<and> PTE2PA (pte m' r va) = PTE2PA (pte m' r vb)"
  then show "pg va = pg vb" using pages_okD(3) [OF assms(1), of va vb] assms(2) by simp
qed

abbreviation csz :: "kstate \<Rightarrow> addr" where
  "csz s \<equiv> p_sz (procs s (curproc s))"

definition um_ok :: "kstate \<Rightarrow> addr \<Rightarrow> addr list \<Rightarrow> bool" where
  "um_ok s r fs \<longleftrightarrow> vm_ok s r fs \<and> pages_ok (mem s) r (set fs) \<and>
     (\<exists>p. myproc s = Some p \<and> p_pagetable (procs s p) = r \<and> p_sz (procs s p) \<le> MAXVA)"

text \<open>The pages that a process can reach, and the free ones.\<close>

definition owned :: "mem \<Rightarrow> addr \<Rightarrow> addr set \<Rightarrow> addr set" where
  "owned m r P = tabs m r \<union> P \<union> {PTE2PA (pte m r va) |va. va < MAXVA \<and> user (pte m r va)}"

text \<open>A step that the user program cannot see.\<close>

definition um_step :: "addr \<Rightarrow> kstate \<Rightarrow> addr list \<Rightarrow> kstate \<Rightarrow> addr list \<Rightarrow> bool" where
  "um_step r s fs s' fs' \<longleftrightarrow> um_ok s' r fs' \<and> mem_step s s' \<and> (\<forall>va. uview (mem s') r (csz s) va = uview (mem s) r (csz s) va) \<and>
     (\<forall>va. uwritable (mem s') r (csz s) va = uwritable (mem s) r (csz s) va) \<and>
     (\<forall>a. (\<forall>q\<in>tabs (mem s) r \<union> set fs. \<not> in_page q a) \<longrightarrow> mem s' a = mem s a) \<and>
     tabs (mem s') r \<union> set fs' \<subseteq> tabs (mem s) r \<union> set fs \<and> owned (mem s') r (set fs') \<subseteq> owned (mem s) r (set fs) \<and>
     (\<forall>b<MAXVA. valid (pte (mem s) r b) \<longrightarrow> pte (mem s') r b = pte (mem s) r b)"

lemma um_keep:
  assumes "um_ok s r fs" "mem_step s s'"
  shows "myproc s' = myproc s" "procs s' = procs s" "csz s' = csz s"
    "\<exists>p. myproc s' = Some p \<and> p_pagetable (procs s' p) = r \<and> p_sz (procs s' p) \<le> MAXVA"
proof -
  have "ready s" using assms(1) by (simp add: um_ok_def vm_ok_def)
  then show "myproc s' = myproc s" "procs s' = procs s" using mem_step_myproc [OF assms(2)] mem_step_keeps(1) [OF assms(2)] by simp_all
  then show "csz s' = csz s" "\<exists>p. myproc s' = Some p \<and> p_pagetable (procs s' p) = r \<and> p_sz (procs s' p) \<le> MAXVA"
    using assms(1) by (simp_all add: um_ok_def)
qed

lemma off_in_page: "in_page p (p + va mod PGSIZE)"
  by (simp add: in_page_def PGSIZE_def unat_mod)

lemma uview_cong:
  assumes "\<And>va. va < MAXVA \<Longrightarrow> pte m' r va = pte m r va"
    "\<And>va a. va < MAXVA \<Longrightarrow> user (pte m r va) \<Longrightarrow> in_page (PTE2PA (pte m r va)) a \<Longrightarrow> m' a = m a"
  shows "uview m' r sz va = uview m r sz va" "uwritable m' r sz va = uwritable m r sz va"
  using assms(1) [of va] assms(2) [of va "PTE2PA (pte m r va) + va mod PGSIZE"] off_in_page [of "PTE2PA (pte m r va)" va]
  by (auto simp: uview_def uwritable_def)

lemma user_valid: "user e \<Longrightarrow> valid e"
  by (simp add: user_def)

text \<open>The pages that a table translates to are neither its own nor free.\<close>

lemma user_page_apart:
  assumes "vm_ok s r fs" "pages_ok (mem s) r (set fs)" "va < MAXVA" "valid (pte (mem s) r va)" "in_page (PTE2PA (pte (mem s) r va)) a"
  shows "\<forall>q\<in>tabs (mem s) r \<union> set fs. \<not> in_page q a"
proof (intro ballI notI)
  fix t assume t: "t \<in> tabs (mem s) r \<union> set fs" "in_page t a"
  have "aligned t" using assms(1) t by (auto simp: vm_ok_def free_pages_def is_page_def intro: pt_okD)
  then have "PTE2PA (pte (mem s) r va) = t" using page_disjoint [OF PTE2PA_aligned _ assms(5) t(2)] by blast
  then show False using pages_okD(2) [OF assms(2-4)] t(1) by blast
qed

text \<open>Growing the tables is such a step.\<close>

lemma um_stepI:
  assumes ok: "um_ok s r fs" and st: "mem_step s s'" and vm: "vm_ok s' r fs'" and sub: "tabs (mem s') r \<union> set fs' \<subseteq> tabs (mem s) r \<union> set fs"
    and fr: "\<And>a. (\<forall>t\<in>tabs (mem s) r \<union> set fs. \<not> in_page t a) \<Longrightarrow> mem s' a = mem s a"
    and p: "\<And>va. va < MAXVA \<Longrightarrow> pte (mem s') r va = pte (mem s) r va"
  shows "um_step r s fs s' fs'"
proof -
  have po: "pages_ok (mem s) r (set fs)" "vm_ok s r fs" using ok by (auto simp: um_ok_def)
  have up: "mem s' a = mem s a" if "va < MAXVA" "user (pte (mem s) r va)" "in_page (PTE2PA (pte (mem s) r va)) a" for va a
    using user_page_apart [OF po(2,1) that(1) user_valid [OF that(2)] that(3)] by (rule fr)
  have v: "uview (mem s') r sz va = uview (mem s) r sz va" "uwritable (mem s') r sz va = uwritable (mem s) r sz va" for sz va
    by (rule uview_cong [where m = "mem s"]; use p up in blast)+
  have "pages_ok (mem s') r (set fs')" by (rule pages_ok_cong [OF po(1) p sub])
  then have "um_ok s' r fs'" using vm um_keep [OF ok st] by (simp add: um_ok_def)
  moreover have "owned (mem s') r (set fs') \<subseteq> owned (mem s) r (set fs)" using sub p by (auto simp: owned_def)
  ultimately show ?thesis using v st sub fr p by (simp add: um_step_def)
qed

lemma um_step_trans: "um_step r s fs s' fs' \<Longrightarrow> um_step r s' fs' s'' fs'' \<Longrightarrow> um_ok s r fs \<Longrightarrow> um_step r s fs s'' fs''"
proof -
  assume a: "um_step r s fs s' fs'" and b: "um_step r s' fs' s'' fs''" and ok: "um_ok s r fs"
  have "mem_step s s'" using a by (simp add: um_step_def)
  then have c: "csz s' = csz s" by (rule um_keep(3) [OF ok])
  have "mem_step s s''" using a b mem_step_trans by (auto simp: um_step_def)
  moreover have "mem s'' x = mem s x" if h: "\<forall>q\<in>tabs (mem s) r \<union> set fs. \<not> in_page q x" for x
  proof -
    have "\<forall>q\<in>tabs (mem s') r \<union> set fs'. \<not> in_page q x" using a h unfolding um_step_def by blast
    then show ?thesis using a b h unfolding um_step_def by simp
  qed
  moreover have "uview (mem s'') r (csz s) va = uview (mem s) r (csz s) va" "uwritable (mem s'') r (csz s) va = uwritable (mem s) r (csz s) va" for va
    using a b unfolding um_step_def c by simp_all
  moreover have "tabs (mem s'') r \<union> set fs'' \<subseteq> tabs (mem s) r \<union> set fs" using a b unfolding um_step_def by blast
  moreover have "owned (mem s'') r (set fs'') \<subseteq> owned (mem s) r (set fs)" using a b unfolding um_step_def by blast
  moreover have "\<forall>b<MAXVA. valid (pte (mem s) r b) \<longrightarrow> pte (mem s'') r b = pte (mem s) r b" using a b unfolding um_step_def by simp
  moreover have "um_ok s'' r fs''" using b by (simp add: um_step_def)
  ultimately show ?thesis unfolding um_step_def by blast
qed

section \<open>Faulting pages in\<close>

lemma pte_same_page: "va < MAXVA \<Longrightarrow> vb < MAXVA \<Longrightarrow> pg vb = pg va \<Longrightarrow> pte m r vb = pte m r va"
  using same_page [of va vb] by (simp add: pte_def ltab_def)

lemma PGROUNDDOWN_pg: "unat (PGROUNDDOWN a) = pg a * 4096"
  by (simp add: PGROUNDDOWN_unat pg_def)

lemma PGROUNDDOWN_props: "aligned (PGROUNDDOWN a)" "PGROUNDDOWN a \<le> a" "pg (PGROUNDDOWN a) = pg a"
  "aligned a \<Longrightarrow> PGROUNDDOWN a = a"
  by (auto simp: aligned_unat PGROUNDDOWN_pg word_le_nat_alt word_unat_eq_iff) (auto simp: pg_def PGROUNDDOWN_pg [unfolded pg_def])

definition RWU :: addr where
  "RWU = (PTE_W OR PTE_U OR PTE_R)"

lemma RWU_make: "perm_ok RWU" "user (PA2PTE f OR RWU OR PTE_V)" "(PA2PTE f OR RWU OR PTE_V) AND PTE_W \<noteq> 0"
proof -
  let ?e = "PA2PTE f OR RWU OR PTE_V"
  show "perm_ok RWU" by (simp add: perm_ok_def RWU_def PTE_bits)
  have "?e AND PTE_U = PTE_U" "?e AND PTE_W = PTE_W" by (rule bit_eqI; auto simp: RWU_def bit_simps)+
  then show "user ?e" "?e AND PTE_W \<noteq> 0" using V_make(2) [of "PA2PTE f" RWU] by (simp_all add: user_def valid_def PTE_bits)
qed

text \<open>A fresh page of zeros mapped where nothing was.\<close>

lemma fault_in_view:
  assumes po: "pages_ok m r P" and va: "va < MAXVA" "\<not> valid (pte m r va)" "PGROUNDDOWN va < sz"
    and f: "aligned f" "f \<noteq> 0" "f \<in> P" "f \<notin> tabs m' r \<union> P'" "\<And>a. in_page f a \<Longrightarrow> m' a = 0"
    and sub: "tabs m' r \<union> P' \<subseteq> tabs m r \<union> P"
    and keep: "\<And>vb a. vb < MAXVA \<Longrightarrow> valid (pte m r vb) \<Longrightarrow> in_page (PTE2PA (pte m r vb)) a \<Longrightarrow> m' a = m a"
    and p: "\<And>vb. vb < MAXVA \<Longrightarrow> pte m' r vb = (if pg vb = pg va then PA2PTE f OR RWU OR PTE_V else pte m r vb)"
  shows "pages_ok m' r P'" "uview m' r sz vb = uview m r sz vb" "uwritable m' r sz vb = uwritable m r sz vb"
proof -
  have pa: "PTE2PA (PA2PTE f OR RWU OR PTE_V) = f" using PTE2PA_make [OF f(1) RWU_make(1)] .
  have nf: "PTE2PA (pte m r vb) \<noteq> f" if "vb < MAXVA" "valid (pte m r vb)" for vb using pages_okD(2) [OF po that] f(3) by auto
  note same = pte_same_page [OF va(1)]
  show "pages_ok m' r P'"
    unfolding pages_ok_def
  proof (intro conjI allI impI)
    fix v assume v: "v < MAXVA" "valid (pte m' r v)"
    then show "PTE2PA (pte m' r v) \<noteq> 0" "PTE2PA (pte m' r v) \<notin> tabs m' r \<union> P'"
      using p [OF v(1)] pa f(2,4) pages_okD(1,2) [OF po v(1)] sub by (auto split: if_splits)
  next
    fix v w assume "v < MAXVA" "w < MAXVA" "valid (pte m' r v) \<and> valid (pte m' r w) \<and> PTE2PA (pte m' r v) = PTE2PA (pte m' r w)"
    then show "pg v = pg w" using p pa nf pages_okD(3) [OF po, of v w] by (auto split: if_splits)
  qed
  have gd: "PGROUNDDOWN vb = PGROUNDDOWN va" if "pg vb = pg va" using that by (simp add: word_unat_eq_iff PGROUNDDOWN_pg)
  show "uview m' r sz vb = uview m r sz vb"
    using p [of vb] same [of vb] va(2,3) gd pa RWU_make(2) f(5) off_in_page [of f vb] keep [of vb] user_valid off_in_page [of "PTE2PA (pte m r vb)" vb]
    by (auto simp: uview_def)
  show "uwritable m' r sz vb = uwritable m r sz vb"
    using p [of vb] same [of vb] va(2,3) gd RWU_make(2,3) [of f] user_valid [of "PA2PTE f OR RWU OR PTE_V"]
    by (cases "pg vb = pg va") (auto simp: uwritable_def)
qed

lemma mappages_page: "aligned va \<Longrightarrow> mappages r va PGSIZE pa perm s = mappages_loop r va va pa perm s"
  by (simp add: mappages_def aligned_def PGSIZE_one)

text \<open>The outcomes of \<open>mappages\<close> for a page \<open>f\<close> from \<open>kalloc\<close>: the page is mapped, or memory is exhausted and the page goes back.\<close>

lemma fresh_page_frame:
  assumes ok: "um_ok s r (f # fs1)" and m2: "mem s2 = memset (mem s) f 0 4096" and st: "vm_step r s2 fs1 s3 fs3"
  shows "f \<notin> tabs (mem s3) r \<union> set fs3" "tabs (mem s3) r \<union> set fs3 \<subseteq> tabs (mem s) r \<union> set (f # fs1)" "in_page f a \<Longrightarrow> mem s3 a = 0"
    "\<forall>t\<in>tabs (mem s) r \<union> set (f # fs1). \<not> in_page t a \<Longrightarrow> mem s3 a = mem s a"
proof -
  have vm: "vm_ok s r (f # fs1)" using ok by (simp add: um_ok_def)
  then have f: "aligned f" "f \<notin> set fs1" "f \<notin> tabs (mem s) r" "pt_ok (mem s) r" by (auto simp: vm_ok_def free_pages_def is_page_def)
  have "agree (tabs (mem s) r) (mem s) (mem s2)" unfolding m2 by (rule agree_memset) (use f in \<open>auto intro: pt_okD\<close>)
  then have t: "tabs (mem s3) r \<union> set fs3 = tabs (mem s) r \<union> set fs1" using tabs_frame st by (auto simp: vm_step_def)
  then show nt: "f \<notin> tabs (mem s3) r \<union> set fs3" and "tabs (mem s3) r \<union> set fs3 \<subseteq> tabs (mem s) r \<union> set (f # fs1)" using f by auto
  have al: "aligned t" if "t \<in> tabs (mem s3) r" for t using st that by (auto simp: vm_step_def vm_ok_def intro: pt_okD)
  have fr: "mem s3 a = mem s2 a" if "\<forall>t\<in>tabs (mem s3) r. \<not> in_page t a" for a using st that by (simp add: vm_step_def)
  show "mem s3 a = 0" if a: "in_page f a"
  proof -
    have "\<forall>t\<in>tabs (mem s3) r. \<not> in_page t a" using page_disjoint [OF f(1) al a] nt by blast
    then show ?thesis using fr a by (simp add: m2 memset_page)
  qed
  show "mem s3 a = mem s a" if "\<forall>t\<in>tabs (mem s) r \<union> set (f # fs1). \<not> in_page t a"
    using fr [of a] that t by (auto simp: m2 memset_page)
qed

lemma fault_mapped:
  assumes ok: "um_ok s r (f # fs1)" and m2: "mem s2 = memset (mem s) f 0 4096" "mem_step s s2" and st: "vm_step r s2 fs1 s3 fs3"
    and va: "va < MAXVA" "\<not> valid (pte (mem s) r va)" "PGROUNDDOWN va < csz s"
    and p: "\<And>vb. vb < MAXVA \<Longrightarrow> pte (mem s3) r vb = (if pg vb = pg va then PA2PTE f OR RWU OR PTE_V else pte (mem s) r vb)"
  shows "um_step r s (f # fs1) s3 fs3"
proof -
  note fr = fresh_page_frame [OF ok m2(1) st]
  have vm: "vm_ok s r (f # fs1)" "pages_ok (mem s) r (set (f # fs1))" using ok by (auto simp: um_ok_def)
  have f: "aligned f" "f \<noteq> 0" "f \<in> set (f # fs1)" using vm(1) by (auto simp: vm_ok_def free_pages_def is_page_def)
  have keep: "mem s3 a = mem s a" if "vb < MAXVA" "valid (pte (mem s) r vb)" "in_page (PTE2PA (pte (mem s) r vb)) a" for vb a
    by (rule fr(4)) (rule user_page_apart [OF vm that])
  note v = fault_in_view [OF vm(2) va f fr(1,3,2) keep p]
  have ms: "mem_step s s3" using m2(2) st mem_step_trans by (auto simp: vm_step_def)
  have "um_ok s3 r fs3" using st v(1) um_keep [OF ok ms] by (simp add: um_ok_def vm_step_def)
  moreover have "owned (mem s3) r (set fs3) \<subseteq> owned (mem s) r (set (f # fs1))"
    using fr(2) p PTE2PA_make [OF f(1) RWU_make(1)] by (auto simp: owned_def split: if_splits)
  moreover have "\<forall>b<MAXVA. valid (pte (mem s) r b) \<longrightarrow> pte (mem s3) r b = pte (mem s) r b"
    using p pte_same_page [OF va(1)] va(2) by auto
  ultimately show ?thesis using v(2,3) ms fr(2,4) by (simp add: um_step_def)
qed

lemma fault_failed:
  assumes ok: "um_ok s r (f # fs1)" and m2: "mem s2 = memset (mem s) f 0 4096" "mem_step s s2" and st: "vm_step r s2 fs1 s3 fs3"
    and p: "\<And>vb. vb < MAXVA \<Longrightarrow> pte (mem s3) r vb = pte (mem s) r vb"
  obtains s4 where "kfree f s3 = Some s4" "um_step r s (f # fs1) s4 (f # fs3)"
proof -
  note fr = fresh_page_frame [OF ok m2(1) st]
  have ms: "mem_step s s3" using m2(2) st mem_step_trans by (auto simp: vm_step_def)
  have vm3: "vm_ok s3 r fs3" using st by (simp add: vm_step_def)
  have f: "is_page s3 f" "aligned f" using ok mem_step_keeps(11) [OF ms] by (auto simp: um_ok_def vm_ok_def free_pages_def is_page_def)
  define m4 where "m4 = st64 (memset (mem s3) f 1 4096) f (freelist s3)"
  define s4 where "s4 = s3\<lparr>sync := settle (sync s3), mem := m4, freelist := f\<rparr>"
  have k: "kfree f s3 = Some s4" using kfree_push [OF _ f(1)] vm3 by (simp add: vm_ok_def s4_def m4_def)
  have fp: "free_pages s4 (f # fs3)" using kfree_pages [OF _ f(1), of fs3 "settle (sync s3)"] vm3 fr(1) by (simp add: s4_def m4_def vm_ok_def)
  have out: "m4 a = mem s3 a" if "\<not> in_page f a" for a using st64_page [of 0 f a] that by (simp add: m4_def memset_page)
  have t: "agree (tabs (mem s3) r) (mem s3) m4"
    using out page_disjoint [OF f(2)] fr(1) vm3 by (auto simp: agree_def vm_ok_def dest: pt_okD(1))
  have vm4: "vm_ok s4 r (f # fs3)"
    using fp vm3 fr(1) tabs_frame [OF t] pt_ok_frame [OF t] by (auto simp: vm_ok_def s4_def ready_def)
  have "mem_step s s4" using kfree_frame [OF k] ms mem_step_trans by blast
  then have "um_step r s (f # fs1) s4 (f # fs3)"
  proof (rule um_stepI [OF ok _ vm4])
    show "tabs (mem s4) r \<union> set (f # fs3) \<subseteq> tabs (mem s) r \<union> set (f # fs1)" using fr(2) tabs_frame [OF t] by (auto simp: s4_def)
    show "mem s4 a = mem s a" if "\<forall>t\<in>tabs (mem s) r \<union> set (f # fs1). \<not> in_page t a" for a
      using fr(4) [OF that] out [of a] that by (simp add: s4_def)
    show "pte (mem s4) r va = pte (mem s) r va" if "va < MAXVA" for va using p [OF that] pte_frame [OF t] by (simp add: s4_def)
  qed
  then show thesis using that k by blast
qed

lemma vmfault_spec:
  assumes ok: "um_ok s r fs" and va: "va < MAXVA" "aligned va"
  obtains (none) s' fs' where "vmfault r va s = Some (0, s')" "um_step r s fs s' fs'" "csz s \<le> va \<or> valid (pte (mem s) r va) \<or> length fs' \<le> 1"
      "length fs \<le> length fs' + 3"
  | (page) f s' fs' where "vmfault r va s = Some (f, s')" "um_step r s fs s' fs'" "length fs \<le> length fs' + 3" "f \<noteq> 0" "pte (mem s') r va = PA2PTE f OR RWU OR PTE_V" "aligned f"
proof -
  obtain p where p: "myproc s = Some p" "p_pagetable (procs s p) = r" using ok by (auto simp: um_ok_def)
  have vm: "vm_ok s r fs" "pt_ok (mem s) r" "pages_ok (mem s) r (set fs)" "ready s" "free_pages s fs" using ok by (auto simp: um_ok_def vm_ok_def)
  have refl: "um_step r s fs s fs" by (rule um_stepI [OF ok]) (use vm in auto)
  note eqs = p ismapped_eq [OF vm(2) va(1)] PGROUNDDOWN_props(4) [OF va(2)]
  show thesis
  proof (cases "csz s \<le> va \<or> valid (pte (mem s) r va)")
    case True
    then have "vmfault r va s = Some (0, s)" using eqs by (auto simp: vmfault_def Let_def)
    then show thesis using True by (intro none [OF _ refl]) auto
  next
    case False
    then have nv: "va < csz s" "\<not> valid (pte (mem s) r va)" by auto
    note run = vmfault_def Let_def RWU_def [symmetric] mappages_page [OF va(2)] eqs
    show thesis
    proof (cases fs)
      case Nil
      then have k: "kalloc s = Some (0, s\<lparr>sync := settle (sync s)\<rparr>)" using vm by (intro kalloc_empty) auto
      have "um_step r s fs (s\<lparr>sync := settle (sync s)\<rparr>) fs"
        by (rule um_stepI [OF ok kalloc_frame [OF k]]) (use vm in \<open>auto simp: vm_ok_def ready_def free_pages_def is_page_def\<close>)
      moreover have "vmfault r va s = Some (0, s\<lparr>sync := settle (sync s)\<rparr>)" using nv k by (simp add: run not_le [symmetric])
      ultimately show thesis using none Nil by simp
    next
      case (Cons f fs1)
      have f: "f \<noteq> 0" "aligned f" "f \<notin> set fs1" "f \<notin> tabs (mem s) r" "is_page s f" "f \<in> set fs"
        using vm(1) Cons by (auto simp: vm_ok_def free_pages_def is_page_def)
      obtain s1 where k: "kalloc s = Some (f, s1)" "mem_step s s1" "vm_ok (s1\<lparr>mem := memset (mem s1) f 0 4096\<rparr>) r fs1"
          "memset (mem s1) f 0 4096 = memset (mem s) f 0 4096" "tabs (memset (mem s) f 0 4096) r = tabs (mem s) r"
          "\<And>va. pte (memset (mem s) f 0 4096) r va = pte (mem s) r va"
        using kalloc_user [of s r f fs1] vm(1) Cons by blast
      define s2 where "s2 = s1\<lparr>mem := memset (mem s) f 0 4096\<rparr>"
      have vm2: "vm_ok s2 r fs1" "mem_step s s2" using k by (auto simp: s2_def)
      have b: "unat va + Suc 0 * 4096 \<le> 2 ^ 38" using va by (auto simp: below_MAXVA aligned_unat)
      have un: "unmapped (mem s2) r va (Suc 0)"
        using nv(2) pte_same_page [OF va(1), of _ "mem s" r] by (auto simp: unmapped_def s2_def valid_def k(6) le_antisym less_Suc_eq_le)
      obtain k0 s3 fs3 where mp: "mappages_loop r va va f RWU s2 = Some (if k0 = Suc 0 then 0 else -1, s3)" "k0 \<le> Suc 0"
          "vm_step r s2 fs1 s3 fs3" "k0 \<le> 0 \<longrightarrow> fs3 = []" "length fs1 \<le> length fs3 + 2" "\<And>vb. vb < MAXVA \<Longrightarrow> pte (mem s3) r vb = map_range va k0 f RWU (pte (mem s2) r) vb"
        using mappages_loop_maps [OF vm2(1) va(2) b un, of f RWU] by auto
      note c = ok [unfolded Cons]
      have m2: "mem s2 = memset (mem s) f 0 4096" by (simp add: s2_def)
      show thesis
      proof (cases "k0 = Suc 0")
        case True
        have "um_step r s (f # fs1) s3 fs3"
          by (rule fault_mapped [OF c m2 vm2(2) mp(3) va(1) nv(2)])
            (use nv(1) eqs(4) mp(6) True k(6) in \<open>auto simp: map_range_def m2 le_antisym less_Suc_eq_le\<close>)
        moreover have "vmfault r va s = Some (f, s3)" using nv k(1,4) f(1) mp(1) True by (simp add: run s2_def not_le [symmetric])
        moreover have "pte (mem s3) r va = PA2PTE f OR RWU OR PTE_V" using mp(6) [OF va(1)] True by (simp add: map_range_def)
        ultimately show thesis using page [of f s3 fs3] f Cons mp(5) by simp
      next
        case False
        then have z: "k0 = 0" "fs3 = []" using mp by auto
        obtain s4 where s4: "kfree f s3 = Some s4" "um_step r s (f # fs1) s4 (f # fs3)"
          by (rule fault_failed [OF c m2 vm2(2) mp(3)]) (use mp(6) z k(6) in \<open>auto simp: map_range_def m2\<close>)
        then have "vmfault r va s = Some (0, s4)" using nv k(1,4) f(1) mp(1) False by (simp add: run s2_def not_le [symmetric])
        then show thesis using none [of s4 "f # fs3"] s4(2) z Cons mp(5) by simp
      qed
    qed
  qed
qed

section \<open>Pages of user memory\<close>

lemma word_off: "unat (va - PGROUNDDOWN va) = unat va mod 4096" "va mod PGSIZE = va - PGROUNDDOWN va"
proof -
  have "PGROUNDDOWN va \<le> va" by (rule PGROUNDDOWN_props)
  then have "unat (va - PGROUNDDOWN va) = unat va - pg va * 4096" by (simp add: unat_sub PGROUNDDOWN_pg)
  then show u: "unat (va - PGROUNDDOWN va) = unat va mod 4096" by (simp add: pg_def minus_div_mult_eq_mod)
  show "va mod PGSIZE = va - PGROUNDDOWN va" unfolding word_unat_eq_iff u by (simp add: unat_mod PGSIZE_def)
qed

lemma PGROUNDDOWN_cong: "pg va = pg vb \<Longrightarrow> PGROUNDDOWN va = PGROUNDDOWN vb"
  by (simp add: word_unat_eq_iff PGROUNDDOWN_pg)

lemma page_off:
  assumes "va < MAXVA" "k < 4096 - unat va mod 4096"
  shows "unat (va + of_nat k) = unat va + k" "va + of_nat k < MAXVA" "pg (va + of_nat k) = pg va"
    "(va + of_nat k) mod PGSIZE = va - PGROUNDDOWN va + of_nat k"
proof -
  define d e where "d = unat va div 4096" "e = unat va mod 4096"
  have de: "unat va = d * 4096 + e" "e < 4096" "k < 4096 - e" using assms(2) by (simp_all add: d_e_def div_mult_mod_eq)
  have u: "unat va < 2 ^ 38" using assms by (simp add: below_MAXVA)
  then have d: "d < 2 ^ 26" using de by simp
  show a: "unat (va + of_nat k) = unat va + k" using u de by (simp add: unat_plus_if' unat_of_nat)
  show "va + of_nat k < MAXVA" using a de d by (simp add: below_MAXVA)
  show g: "pg (va + of_nat k) = pg va" using a de by (simp add: pg_def)
  show "(va + of_nat k) mod PGSIZE = va - PGROUNDDOWN va + of_nat k"
    unfolding word_off(2) PGROUNDDOWN_cong [OF g] by simp
qed

lemma PGROUNDDOWN_MAXVA: "PGROUNDDOWN va < MAXVA \<longleftrightarrow> va < MAXVA"
proof -
  have "unat va div 4096 * 4096 < 2 ^ 38 \<longleftrightarrow> unat va div 4096 < 2 ^ 26" by simp
  also have "\<dots> \<longleftrightarrow> unat va < 2 ^ 38" by (simp add: div_less_iff_less_mult)
  finally show ?thesis by (simp add: below_MAXVA PGROUNDDOWN_unat)
qed

text \<open>The bytes of the view in one page.\<close>

lemma chunk_view:
  assumes "va < MAXVA" "user (pte m r (PGROUNDDOWN va))" "k < 4096 - unat va mod 4096"
  shows "uview m r sz (va + of_nat k) = Some (m (PTE2PA (pte m r (PGROUNDDOWN va)) + (va - PGROUNDDOWN va) + of_nat k))"
proof -
  note o = page_off [OF assms(1,3)]
  have "pte m r (va + of_nat k) = pte m r (PGROUNDDOWN va)"
    using assms(1) o PGROUNDDOWN_MAXVA PGROUNDDOWN_props(3) by (intro pte_same_page) auto
  then show ?thesis using o assms(2) by (simp add: uview_def add.assoc)
qed

text \<open>The page of a user address, faulted in when necessary.\<close>

lemma user_page_spec:
  assumes ok: "um_ok s r fs"
  obtains (none) s' fs' where "user_page r (PGROUNDDOWN va) s = Some (0, s')" "um_step r s fs s' fs'"
      "uview (mem s) r (csz s) va = None \<and> \<not> uwritable (mem s) r (csz s) va \<or> \<not> valid (pte (mem s) r va) \<and> length fs' \<le> 1" "length fs \<le> length fs' + 3"
  | (page) s' fs' where "user_page r (PGROUNDDOWN va) s = Some (PTE2PA (pte (mem s') r (PGROUNDDOWN va)), s')" "um_step r s fs s' fs'" "length fs \<le> length fs' + 3"
      "user (pte (mem s') r (PGROUNDDOWN va))" "PTE2PA (pte (mem s') r (PGROUNDDOWN va)) \<noteq> 0" "va < MAXVA"
proof -
  let ?va = "PGROUNDDOWN va"
  have vm: "pt_ok (mem s) r" "pages_ok (mem s) r (set fs)" "vm_ok s r fs" using ok by (auto simp: um_ok_def vm_ok_def)
  have refl: "um_step r s fs s fs" by (rule um_stepI [OF ok]) (use vm in auto)
  obtain p where p: "myproc s = Some p" "p_sz (procs s p) \<le> MAXVA" using ok by (auto simp: um_ok_def)
  show thesis
  proof (cases "va < MAXVA")
    case False
    then have "walkaddr r ?va s = Some (0, s)" by (simp add: walkaddr_def PGROUNDDOWN_MAXVA not_less [symmetric])
    moreover have "p_sz (procs s p) \<le> ?va" using p(2) False PGROUNDDOWN_MAXVA [of va] by (meson not_less order_trans)
    then have "vmfault r ?va s = Some (0, s)" using p(1) by (simp add: vmfault_def Let_def)
    ultimately have "user_page r ?va s = Some (0, s)" by (simp add: user_page_def)
    then show thesis using none refl False by (simp add: uview_def uwritable_def)
  next
    case True
    then have va: "?va < MAXVA" "aligned ?va" "pte (mem s) r va = pte (mem s) r ?va"
      using PGROUNDDOWN_MAXVA PGROUNDDOWN_props(1,3) by (auto intro: pte_same_page)
    show thesis
    proof (cases "user (pte (mem s) r ?va)")
      case u: True
      have "PTE2PA (pte (mem s) r ?va) \<noteq> 0" by (rule pages_okD(1) [OF vm(2) va(1) user_valid [OF u]])
      then show thesis using page [of s fs] u True refl walkaddr_eq [OF vm(1) va(1)] by (simp add: user_page_def)
    next
      case nu: False
      then have up: "user_page r ?va s = vmfault r ?va s" using walkaddr_eq [OF vm(1) va(1)] by (simp add: user_page_def)
      show thesis
      proof (rule vmfault_spec [OF ok va(1,2)])
        fix s' fs' assume a: "vmfault r ?va s = Some (0, s')" "um_step r s fs s' fs'" "csz s \<le> ?va \<or> valid (pte (mem s) r ?va) \<or> length fs' \<le> 1"
          "length fs \<le> length fs' + 3"
        have "uview (mem s) r (csz s) va = None \<and> \<not> uwritable (mem s) r (csz s) va \<or> \<not> valid (pte (mem s) r va) \<and> length fs' \<le> 1"
          using a(3) nu unfolding uview_def uwritable_def va(3) by (simp add: not_less [symmetric]) blast
        then show thesis using none a(1,2,4) up by simp
      next
        fix f s' fs' assume "vmfault r ?va s = Some (f, s')" "um_step r s fs s' fs'" "length fs \<le> length fs' + 3" "f \<noteq> 0" "pte (mem s') r ?va = PA2PTE f OR RWU OR PTE_V" "aligned f"
        then show thesis using page [of s' fs'] up True RWU_make(1,2) PTE2PA_make by simp
      qed
    qed
  qed
qed

end
