(* ===== verification/UserCopy.thy ===== *)
theory UserCopy
  imports UserMem
begin

text \<open>
  Copies between the kernel and user memory (\<open>copyin\<close> and \<open>copyout\<close> of \<open>kernel/vm.c\<close>): \<open>copyout\<close> changes exactly the bytes of the view
  it is asked to change, \<open>copyin\<close> returns bytes of the view, and neither touches the memory of other processes.  The loops are
  dealt with round by round, one page at a time.
\<close>

section \<open>\<open>copyin\<close>\<close>

definition chunk :: "addr \<Rightarrow> addr \<Rightarrow> addr" where
  "chunk va len = (let n = PGSIZE - (va - PGROUNDDOWN va) in if n > len then len else n)"

lemma chunk_unat: "unat (chunk va len) = min (4096 - unat va mod 4096) (unat len)" "unat (len - chunk va len) = unat len - unat (chunk va len)"
proof -
  have o: "unat (PGSIZE - (va - PGROUNDDOWN va)) = 4096 - unat va mod 4096"
    by (subst unat_sub) (simp_all add: word_le_nat_alt word_off PGSIZE_def)
  then show c: "unat (chunk va len) = min (4096 - unat va mod 4096) (unat len)"
    by (auto simp: chunk_def Let_def word_less_nat_alt min_def)
  show "unat (len - chunk va len) = unat len - unat (chunk va len)"
    by (rule unat_sub) (simp add: word_le_nat_alt c)
qed

lemma next_chunk: "unat (chunk va len) < unat len \<Longrightarrow> PGROUNDDOWN va + PGSIZE = va + of_nat (unat (chunk va len))"
proof -
  assume "unat (chunk va len) < unat len"
  then have "unat (chunk va len) = 4096 - unat va mod 4096" by (simp add: chunk_unat)
  then have "va + of_nat (unat (chunk va len)) = va + (of_nat 4096 - of_nat (unat va mod 4096))" by (subst of_nat_diff [symmetric]) simp_all
  also have "of_nat (unat va mod 4096) = va - PGROUNDDOWN va" 
    using arg_cong [OF word_off(1) [of va], of "of_nat :: nat \<Rightarrow> addr"] by simp
  finally show ?thesis by (simp add: PGSIZE_def)
qed

text \<open>The number of pages that a range of addresses meets.\<close>

definition span :: "addr \<Rightarrow> addr \<Rightarrow> nat" where
  "span va len = (unat va mod 4096 + unat len + 4095) div 4096"

lemma span_arith: "e < 4096 \<Longrightarrow> 0 < n \<Longrightarrow> (e + n + 4095) div 4096 = Suc ((n - min (4096 - e) n + 4095) div (4096 :: nat))"
proof (cases "n \<le> 4096 - e")
  case False
  then obtain n' where "n = n' + (4096 - e)" by (metis le_add_diff_inverse2 nat_le_linear)
  moreover assume "e < 4096" "0 < n"
  ultimately show ?thesis by simp
qed simp

lemma span_next: "0 < unat len \<Longrightarrow> span va len = Suc (span (PGROUNDDOWN va + PGSIZE) (len - chunk va len))"
proof -
  assume pos: "0 < unat len"
  have "unat (PGROUNDDOWN va + PGSIZE) mod 4096 = 0"
    by (simp add: PGSIZE_def unat_word_ariths PGROUNDDOWN_pg mod_mod_cancel)
  then have s: "span (PGROUNDDOWN va + PGSIZE) (len - chunk va len) = (unat len - unat (chunk va len) + 4095) div 4096"
    by (simp add: span_def chunk_unat(2))
  show ?thesis unfolding s unfolding span_def chunk_unat by (rule span_arith [OF _ pos]) simp
qed

text \<open>What a copy that stopped after \<open>k\<close> of \<open>n\<close> bytes returns, and why.\<close>

definition copied :: "nat \<Rightarrow> nat \<Rightarrow> int \<Rightarrow> bool \<Rightarrow> bool" where
  "copied n k x why \<longleftrightarrow> x = 0 \<and> k = n \<or> x = -1 \<and> k < n \<and> why"

lemma copied_add: "copied (n - c) k x why \<Longrightarrow> c \<le> n \<Longrightarrow> (x \<noteq> 0 \<Longrightarrow> why \<Longrightarrow> why') \<Longrightarrow> copied n (c + k) x why'"
  by (auto simp: copied_def)

definition cant_read :: "kstate \<Rightarrow> addr \<Rightarrow> addr \<Rightarrow> addr list \<Rightarrow> bool" where
  "cant_read s r b fs \<longleftrightarrow> uview (mem s) r (csz s) b = None \<or> \<not> valid (pte (mem s) r b) \<and> length fs \<le> 1"

definition cant_write :: "kstate \<Rightarrow> addr \<Rightarrow> addr \<Rightarrow> addr list \<Rightarrow> bool" where
  "cant_write s r b fs \<longleftrightarrow> \<not> uwritable (mem s) r (csz s) b \<or> \<not> valid (pte (mem s) r b) \<and> length fs \<le> 1"

lemma cant_read_back: "um_step r s fs s1 fs1 \<Longrightarrow> csz s1 = csz s \<Longrightarrow> cant_read s1 r b gs \<Longrightarrow> cant_read s r b gs"
proof -
  assume a: "um_step r s fs s1 fs1" "csz s1 = csz s" "cant_read s1 r b gs"
  have "uview (mem s1) r (csz s) b = uview (mem s) r (csz s) b" using a(1) by (simp add: um_step_def)
  moreover have "\<not> valid (pte (mem s) r b)" if "b < MAXVA" "\<not> valid (pte (mem s1) r b)" using a(1) that by (auto simp: um_step_def)
  moreover have "uview (mem s) r (csz s) b = None" if "\<not> b < MAXVA" using that by (simp add: uview_def)
  ultimately show ?thesis using a(2,3) unfolding cant_read_def by metis
qed

lemma copyin_round:
  assumes ok: "um_ok s r fs" and len: "0 < len"
  obtains (stop) s' fs' where "copyin_loop r dst va len s = Some ((-1, dst), s')" "um_step r s fs s' fs'" "cant_read s r va fs'"
      "length fs \<le> length fs' + 3"
  | (go) bs s' fs' where "copyin_loop r dst va len s = copyin_loop r (dst @ bs) (PGROUNDDOWN va + PGSIZE) (len - chunk va len) s'"
      "um_step r s fs s' fs'" "length bs = unat (chunk va len)" "\<And>k. k < length bs \<Longrightarrow> uview (mem s) r (csz s) (va + of_nat k) = Some (bs ! k)"
      "length fs \<le> length fs' + 3"
proof (rule user_page_spec [OF ok, of va])
  fix s' fs' assume a: "user_page r (PGROUNDDOWN va) s = Some (0, s')" "um_step r s fs s' fs'"
    "uview (mem s) r (csz s) va = None \<and> \<not> uwritable (mem s) r (csz s) va \<or> \<not> valid (pte (mem s) r va) \<and> length fs' \<le> 1"
    "length fs \<le> length fs' + 3"
  have "copyin_loop r dst va len s = Some ((-1, dst), s')" using len a(1) by (subst copyin_loop.simps) (simp add: Let_def)
  moreover have "cant_read s r va fs'" using a(3) by (auto simp: cant_read_def)
  ultimately show thesis using stop a(2,4) by blast
next
  fix s1 fs1 assume a: "user_page r (PGROUNDDOWN va) s = Some (PTE2PA (pte (mem s1) r (PGROUNDDOWN va)), s1)" "um_step r s fs s1 fs1"
    "length fs \<le> length fs1 + 3" "user (pte (mem s1) r (PGROUNDDOWN va))" "PTE2PA (pte (mem s1) r (PGROUNDDOWN va)) \<noteq> 0" "va < MAXVA"
  define bs where "bs = peek (mem s1) (PTE2PA (pte (mem s1) r (PGROUNDDOWN va)) + (va - PGROUNDDOWN va)) (unat (chunk va len))"
  have "uview (mem s) r (csz s) (va + of_nat k) = Some (bs ! k)" if "k < length bs" for k
  proof -
    have k: "k < 4096 - unat va mod 4096" "k < unat (chunk va len)" using that by (simp_all add: bs_def peek_def chunk_unat)
    have "uview (mem s) r (csz s) (va + of_nat k) = uview (mem s1) r (csz s) (va + of_nat k)" using a(2) by (simp add: um_step_def)
    then show ?thesis using chunk_view [OF a(6,4) k(1)] k(2) by (simp add: bs_def peek_def)
  qed
  moreover have "copyin_loop r dst va len s = copyin_loop r (dst @ bs) (PGROUNDDOWN va + PGSIZE) (len - chunk va len) s1"
    using len a(1,5) by (subst copyin_loop.simps) (simp add: Let_def bs_def chunk_def)
  ultimately show thesis using go a(2,3) by (simp add: bs_def peek_def)
qed

lemma copyin_loop_view:
  "um_ok s r fs \<Longrightarrow>
   \<exists>x bs s' fs'. copyin_loop r dst va len s = Some ((x, dst @ bs), s') \<and> um_step r s fs s' fs' \<and>
     copied (unat len) (length bs) x (cant_read s r (va + of_nat (length bs)) fs') \<and>
     (\<forall>k<length bs. uview (mem s) r (csz s) (va + of_nat k) = Some (bs ! k)) \<and> length fs \<le> length fs' + 3 * span va len"
proof (induction "unat len" arbitrary: dst va len s fs rule: less_induct)
  case less
  note ok = less.prems
  show ?case
  proof (cases "len = 0")
    case True
    have "um_step r s fs s fs" by (rule um_stepI [OF ok]) (use ok in \<open>auto simp: um_ok_def\<close>)
    moreover have "copyin_loop r dst va len s = Some ((0, dst), s)" using True by (subst copyin_loop.simps) simp
    ultimately show ?thesis using True by (intro exI [of _ 0] exI [of _ "[]"] exI [of _ s] exI [of _ fs]) (simp add: copied_def)
  next
    case False
    then have pos: "0 < unat len" "0 < len" by (simp_all add: unat_gt_0 word_neq_0_conv)
    note sp = span_next [OF pos(1), of va]
    show ?thesis
    proof (rule copyin_round [OF ok pos(2), of dst va])
      fix s' fs' assume "copyin_loop r dst va len s = Some ((-1, dst), s')" "um_step r s fs s' fs'" "cant_read s r va fs'" "length fs \<le> length fs' + 3"
      then show ?thesis using pos sp by (intro exI [of _ "-1"] exI [of _ "[]"] exI [of _ s'] exI [of _ fs']) (simp add: copied_def)
    next
      let ?n = "unat (chunk va len)" and ?va = "PGROUNDDOWN va + PGSIZE"
      fix bs s1 fs1 assume a: "copyin_loop r dst va len s = copyin_loop r (dst @ bs) ?va (len - chunk va len) s1"
        "um_step r s fs s1 fs1" "length bs = ?n" "\<And>k. k < length bs \<Longrightarrow> uview (mem s) r (csz s) (va + of_nat k) = Some (bs ! k)" "length fs \<le> length fs1 + 3"
      have n: "0 < ?n" "?n \<le> unat len" using pos by (simp_all add: chunk_unat)
      have c: "csz s1 = csz s" and ok1: "um_ok s1 r fs1" and v: "\<And>b. uview (mem s) r (csz s) b = uview (mem s1) r (csz s) b"
        using a(2) um_keep(3) [OF ok, of s1] by (auto simp: um_step_def)
      obtain x bs' s' fs' where IH: "copyin_loop r (dst @ bs) ?va (len - chunk va len) s1 = Some ((x, (dst @ bs) @ bs'), s')"
          "um_step r s1 fs1 s' fs'" "copied (unat len - ?n) (length bs') x (cant_read s1 r (?va + of_nat (length bs')) fs')"
          "\<forall>k<length bs'. uview (mem s1) r (csz s1) (?va + of_nat k) = Some (bs' ! k)" "length fs1 \<le> length fs' + 3 * span ?va (len - chunk va len)"
        using less.hyps [OF _ ok1, of "len - chunk va len" "dst @ bs" ?va] n pos by (auto simp: chunk_unat(2))
      have nx: "?va + of_nat k = va + of_nat (?n + k)" if "k < length bs' \<or> x \<noteq> 0" for k
      proof -
        have "?n < unat len" using that IH(3) by (auto simp: copied_def)
        then show ?thesis using next_chunk by (simp add: add.assoc)
      qed
      have "cant_read s r (va + of_nat (?n + length bs')) fs'" if "x \<noteq> 0" "cant_read s1 r (?va + of_nat (length bs')) fs'"
        using cant_read_back [OF a(2) c that(2)] nx [of "length bs'"] that(1) by (simp only:) simp
      then have "copied (unat len) (length (bs @ bs')) x (cant_read s r (va + of_nat (length (bs @ bs'))) fs')"
        using copied_add [OF IH(3) n(2)] a(3) by simp
      moreover have "uview (mem s) r (csz s) (va + of_nat k) = Some ((bs @ bs') ! k)" if "k < length (bs @ bs')" for k
      proof (cases "k < ?n")
        case False
        then have j: "k - ?n < length bs'" "?n + (k - ?n) = k" using that a(3) by auto
        then have "?va + of_nat (k - ?n) = va + of_nat k" using nx [of "k - ?n"] by simp
        then show ?thesis using IH(4) [rule_format, OF j(1)] False a(3) by (simp only: nth_append v c if_False)
      qed (use a(3,4) in \<open>simp add: nth_append\<close>)
      moreover have "um_step r s fs s' fs'" by (rule um_step_trans [OF a(2) IH(2) ok])
      ultimately show ?thesis using a(1,5) IH(1,5) sp by (intro exI [of _ x] exI [of _ "bs @ bs'"] exI [of _ s'] exI [of _ fs']) simp
    qed
  qed
qed

section \<open>\<open>copyout\<close>\<close>

lemma offset_add: "unat (x - y) = j \<Longrightarrow> unat y' + j < 2 ^ 64 \<Longrightarrow> unat (x - y + y') = unat y' + j" for x y y' :: addr
  by (simp add: unat_plus_if')

lemma poke_in_page:
  assumes "unat off + n \<le> 4096" "unat (a - (p + off)) < n"
  shows "in_page p a"
proof -
  have "unat (a - (p + off) + off) = unat off + unat (a - (p + off))" by (rule offset_add) (use assms in auto)
  then show ?thesis using assms by (simp add: in_page_def)
qed

lemma in_chunk:
  assumes "va < MAXVA" "n \<le> 4096 - unat va mod 4096" "unat (b - va) < n"
  shows "b < MAXVA" "pg b = pg va"
proof -
  have "b = va + of_nat (unat (b - va))" by simp
  then show "b < MAXVA" "pg b = pg va" using page_off(2,3) [OF assms(1), of "unat (b - va)"] assms(2,3) by auto
qed

lemma poke_view:
  assumes ok: "um_ok s r fs" and va: "va < MAXVA" and e: "e = pte (mem s) r (PGROUNDDOWN va)" "user e"
    and n: "n \<le> 4096 - unat va mod 4096"
    and m': "m' = poke (mem s) (PTE2PA e + (va - PGROUNDDOWN va)) src i n"
  shows "um_ok (s\<lparr>mem := m'\<rparr>) r fs" "uview m' r sz b = (if unat (b - va) < n then Some (src (i + unat (b - va))) else uview (mem s) r sz b)"
    "uwritable m' r sz b = uwritable (mem s) r sz b" "\<not> in_page (PTE2PA e) a \<Longrightarrow> m' a = mem s a"
    "tabs m' r = tabs (mem s) r" "pte m' r b = pte (mem s) r b"
proof -
  have vm: "vm_ok s r fs" "pages_ok (mem s) r (set fs)" using ok by (auto simp: um_ok_def)
  have va0: "PGROUNDDOWN va < MAXVA" using va PGROUNDDOWN_MAXVA by blast
  have same: "pte (mem s) r b = e \<longleftrightarrow> pg b = pg va" if "b < MAXVA" "valid (pte (mem s) r b)" for b
    using pages_okD(3) [OF vm(2) that(1) va0 that(2)] user_valid [OF e(2)] pte_same_page [OF va0 that(1)] PGROUNDDOWN_props(3) [of va] e(1) by auto
  have off: "unat (va - PGROUNDDOWN va) + n \<le> 4096" using n word_off(1) [of va] by simp
  show out: "m' a = mem s a" if "\<not> in_page (PTE2PA e) a" for a
    using poke_in_page [OF off] that by (auto simp: m' poke_def)
  have ag: "agree (tabs (mem s) r \<union> set fs) (mem s) m'"
    using out user_page_apart [OF vm va0] e user_valid by (auto simp: agree_def)
  note t = vm_ok_touch [OF vm(1) ag]
  show "tabs m' r = tabs (mem s) r" and p: "\<And>b. pte m' r b = pte (mem s) r b" using t(2,3) by auto
  have "pages_ok m' r (set fs)" by (rule pages_ok_cong [OF vm(2) p]) (simp add: t(2))
  then show "um_ok (s\<lparr>mem := m'\<rparr>) r fs" using t(1) ok by (simp add: um_ok_def myproc_def)
  show "uwritable m' r sz b = uwritable (mem s) r sz b" by (simp add: uwritable_def p)
  show "uview m' r sz b = (if unat (b - va) < n then Some (src (i + unat (b - va))) else uview (mem s) r sz b)"
  proof (cases "b < MAXVA \<and> pg b = pg va")
    case True
    then have b: "pte (mem s) r b = e" using pte_same_page [OF va0] PGROUNDDOWN_props(3) e(1) by simp
    have "b mod PGSIZE = b - PGROUNDDOWN va" using word_off(2) [of b] PGROUNDDOWN_cong [of b va] True by simp
    then have "PTE2PA e + b mod PGSIZE - (PTE2PA e + (va - PGROUNDDOWN va)) = b - va" by simp
    then have "m' (PTE2PA e + b mod PGSIZE) = (if unat (b - va) < n then src (i + unat (b - va)) else mem s (PTE2PA e + b mod PGSIZE))"
      by (simp only: m' poke_def)
    then show ?thesis using True b e(2) by (simp add: uview_def p)
  next
    case False
    then have nc: "\<not> unat (b - va) < n" using in_chunk [OF va n] by auto
    have "m' (PTE2PA (pte (mem s) r b) + b mod PGSIZE) = mem s (PTE2PA (pte (mem s) r b) + b mod PGSIZE)" if "b < MAXVA" "user (pte (mem s) r b)"
    proof (rule out, rule notI)
      assume "in_page (PTE2PA e) (PTE2PA (pte (mem s) r b) + b mod PGSIZE)"
      then have "PTE2PA e = PTE2PA (pte (mem s) r b)" by (rule page_disjoint [OF PTE2PA_aligned PTE2PA_aligned _ off_in_page])
      then have "pg (PGROUNDDOWN va) = pg b" using pages_okD(3) [OF vm(2) va0 that(1)] user_valid that(2) e by auto
      then show False using False that(1) PGROUNDDOWN_props(3) by simp
    qed
    then show ?thesis using nc by (simp add: uview_def p)
  qed
qed

text \<open>The first \<open>k\<close> bytes of \<open>src\<close> were stored at \<open>va\<close>; nothing else of the view changed, and no byte outside the pages of the process.\<close>

definition um_write :: "addr \<Rightarrow> kstate \<Rightarrow> addr list \<Rightarrow> addr \<Rightarrow> (nat \<Rightarrow> byte) \<Rightarrow> nat \<Rightarrow> kstate \<Rightarrow> addr list \<Rightarrow> bool" where
  "um_write r s fs va src k s' fs' \<longleftrightarrow> um_ok s' r fs' \<and> mem_step s s' \<and>
     (\<forall>b. uview (mem s') r (csz s) b = (if unat (b - va) < k then Some (src (unat (b - va))) else uview (mem s) r (csz s) b)) \<and>
     (\<forall>b. uwritable (mem s') r (csz s) b = uwritable (mem s) r (csz s) b) \<and>
     (\<forall>a. (\<forall>q\<in>owned (mem s) r (set fs). \<not> in_page q a) \<longrightarrow> mem s' a = mem s a) \<and>
     owned (mem s') r (set fs') \<subseteq> owned (mem s) r (set fs) \<and>
     (\<forall>b<MAXVA. valid (pte (mem s) r b) \<longrightarrow> pte (mem s') r b = pte (mem s) r b) \<and>
     (\<forall>b. unat (b - va) < k \<longrightarrow> b < MAXVA \<and> user (pte (mem s') r b))"

lemma um_step_write: "um_step r s fs s' fs' \<Longrightarrow> um_write r s fs va src 0 s' fs'"
  by (auto simp: um_step_def um_write_def owned_def)

lemma um_write_trans:
  assumes a: "um_write r s fs va src n s' fs'" and b: "um_write r s' fs' (va + of_nat n) (\<lambda>j. src (n + j)) k s'' fs''"
    and ok: "um_ok s r fs" and k: "n + k < 2 ^ 64"
  shows "um_write r s fs va src (n + k) s'' fs''"
proof -
  have ms: "mem_step s s'" using a by (simp add: um_write_def)
  then have c: "csz s' = csz s" by (rule um_keep(3) [OF ok])
  have sh: "unat (x - (va + of_nat n)) = (if n \<le> unat (x - va) then unat (x - va) - n else unat (x - va) + 2 ^ 64 - n)" for x
  proof -
    have "unat (of_nat n :: addr) = n" using k by (intro unat_of_nat_64) simp
    then show ?thesis unfolding diff_diff_eq [symmetric] unat_sub_if' [of "x - va"] by simp
  qed
  have v: "uview (mem s'') r (csz s) x = (if unat (x - va) < n + k then Some (src (unat (x - va))) else uview (mem s) r (csz s) x)" for x
  proof -
    have "uview (mem s') r (csz s) x = (if unat (x - va) < n then Some (src (unat (x - va))) else uview (mem s) r (csz s) x)"
      using a unfolding um_write_def by blast
    moreover have "uview (mem s'') r (csz s) x =
        (if unat (x - (va + of_nat n)) < k then Some (src (n + unat (x - (va + of_nat n)))) else uview (mem s') r (csz s) x)"
      using b unfolding um_write_def c by blast
    ultimately show ?thesis using k sh [of x] by (cases "n \<le> unat (x - va)") auto
  qed
  have kept: "\<forall>b<MAXVA. valid (pte (mem s) r b) \<longrightarrow> pte (mem s'') r b = pte (mem s) r b" using a b unfolding um_write_def by simp
  have us: "x < MAXVA \<and> user (pte (mem s'') r x)" if "unat (x - va) < n + k" for x
  proof (cases "n \<le> unat (x - va)")
    case True
    then have "unat (x - (va + of_nat n)) < k" using that sh [of x] by simp
    then show ?thesis using b unfolding um_write_def by blast
  next
    case False
    then have "x < MAXVA" "user (pte (mem s') r x)" using a by (simp_all add: um_write_def)
    then show ?thesis using b user_valid unfolding um_write_def by simp
  qed
  have f: "mem s'' x = mem s x" if h: "\<forall>q\<in>owned (mem s) r (set fs). \<not> in_page q x" for x
  proof -
    have "\<forall>q\<in>owned (mem s') r (set fs'). \<not> in_page q x" using a h unfolding um_write_def by blast
    then show ?thesis using a b h unfolding um_write_def by simp
  qed
  have w: "uwritable (mem s'') r (csz s) x = uwritable (mem s) r (csz s) x" for x using a b unfolding um_write_def c by simp
  have o: "owned (mem s'') r (set fs'') \<subseteq> owned (mem s) r (set fs)" using a b unfolding um_write_def by blast
  have "mem_step s s''" using ms b mem_step_trans by (auto simp: um_write_def)
  moreover have "um_ok s'' r fs''" using b by (simp add: um_write_def)
  ultimately show ?thesis using v f w o kept us unfolding um_write_def by blast
qed

lemma poke_write:
  assumes ok: "um_ok s r fs" and va: "va < MAXVA" "user (pte (mem s) r (PGROUNDDOWN va))" "n \<le> 4096 - unat va mod 4096"
  shows "um_write r s fs va (\<lambda>j. src (i + j)) n
    (s\<lparr>mem := poke (mem s) (PTE2PA (pte (mem s) r (PGROUNDDOWN va)) + (va - PGROUNDDOWN va)) src i n\<rparr>) fs"
proof -
  note p = poke_view [OF ok va(1) refl va(2,3) refl, where src = src and i = i]
  have "PTE2PA (pte (mem s) r (PGROUNDDOWN va)) \<in> owned (mem s) r (set fs)" using va PGROUNDDOWN_MAXVA by (auto simp: owned_def)
  moreover have "b < MAXVA \<and> user (pte (mem s) r b)" if "unat (b - va) < n" for b
    using in_chunk [OF va(1,3) that] va(2) pte_same_page [of "PGROUNDDOWN va" b "mem s" r] PGROUNDDOWN_MAXVA [of va] PGROUNDDOWN_props(3) [of va] va(1) by simp
  ultimately show ?thesis using p by (auto simp: um_write_def owned_def)
qed

lemma cant_write_back: "um_write r s fs va src k s1 fs1 \<Longrightarrow> csz s1 = csz s \<Longrightarrow> cant_write s1 r b gs \<Longrightarrow> cant_write s r b gs"
proof -
  assume a: "um_write r s fs va src k s1 fs1" "csz s1 = csz s" "cant_write s1 r b gs"
  have "uwritable (mem s1) r (csz s) b = uwritable (mem s) r (csz s) b" using a(1) by (simp add: um_write_def)
  moreover have "\<not> valid (pte (mem s) r b)" if "b < MAXVA" "\<not> valid (pte (mem s1) r b)" using a(1) that by (auto simp: um_write_def)
  moreover have "\<not> uwritable (mem s) r (csz s) b" if "\<not> b < MAXVA" using that by (simp add: uwritable_def)
  ultimately show ?thesis using a(2,3) unfolding cant_write_def by metis
qed

lemma walk_finds:
  assumes "pt_ok (mem s) r" "va < MAXVA" "valid (pte (mem s) r va)"
  obtains a where "walk r va False s = Some (a, s)" "a \<noteq> 0" "ld64 (mem s) a = pte (mem s) r va"
proof -
  obtain u where u: "ltab (mem s) r va = Some u" using assms(3) by (cases "ltab (mem s) r va") (auto simp: pte_def)
  show thesis using that walk_looks [OF assms(2)] u ltab_addr_nonzero [OF assms(1) u] walk_entry [OF u] by auto
qed

lemma chunk_end: "va < MAXVA \<Longrightarrow> unat va + unat (chunk va len) \<le> 2 ^ 38"
proof -
  assume "va < MAXVA"
  then have u: "unat va < 2 ^ 38" by (simp add: below_MAXVA)
  define d e where "d = unat va div 4096" "e = unat va mod 4096"
  have de: "unat va = d * 4096 + e" "e < 4096" by (simp_all add: d_e_def div_mult_mod_eq)
  then have "d < 2 ^ 26" using u by simp
  moreover have "unat (chunk va len) \<le> 4096 - e" by (simp add: chunk_unat d_e_def)
  ultimately show ?thesis using de by simp
qed

lemma uwritable_page: "va < MAXVA \<Longrightarrow> user (pte m r (PGROUNDDOWN va)) \<Longrightarrow> uwritable m r sz va \<longleftrightarrow> pte m r (PGROUNDDOWN va) AND PTE_W \<noteq> 0"
  using pte_same_page [of "PGROUNDDOWN va" va m r] PGROUNDDOWN_MAXVA [of va] PGROUNDDOWN_props(3) [of va] user_valid
  by (auto simp: uwritable_def)

text \<open>One round of the loop of \<open>copyout\<close>.\<close>

lemma copyout_round:
  assumes ok: "um_ok s r fs" and len: "0 < len"
  obtains (stop) s' fs' where "copyout_loop r va src i len s = Some (-1, s')" "um_step r s fs s' fs'"
      "cant_write s r va fs'" "length fs \<le> length fs' + 3"
  | (go) s' fs' where "copyout_loop r va src i len s = copyout_loop r (PGROUNDDOWN va + PGSIZE) src (i + unat (chunk va len)) (len - chunk va len) s'"
      "um_write r s fs va (\<lambda>j. src (i + j)) (unat (chunk va len)) s' fs'" "va < MAXVA" "length fs \<le> length fs' + 3"
proof (cases "va < MAXVA")
  case mv: False
  have "um_step r s fs s fs" by (rule um_stepI [OF ok]) (use ok in \<open>auto simp: um_ok_def\<close>)
  moreover have "MAXVA \<le> PGROUNDDOWN va" using mv PGROUNDDOWN_MAXVA by (meson not_less)
  then have "copyout_loop r va src i len s = Some (-1, s)" using len by (subst copyout_loop.simps) (simp add: Let_def)
  moreover have "cant_write s r va fs" using mv by (simp add: uwritable_def cant_write_def)
  ultimately show thesis using stop [of s fs] by simp
next
  case mv: True
  then have mv0: "\<not> MAXVA \<le> PGROUNDDOWN va" "PGROUNDDOWN va < MAXVA" using PGROUNDDOWN_MAXVA [of va] by auto
  show thesis
  proof (rule user_page_spec [OF ok, of va])
    fix s' fs' assume a: "user_page r (PGROUNDDOWN va) s = Some (0, s')" "um_step r s fs s' fs'"
      "uview (mem s) r (csz s) va = None \<and> \<not> uwritable (mem s) r (csz s) va \<or> \<not> valid (pte (mem s) r va) \<and> length fs' \<le> 1"
      "length fs \<le> length fs' + 3"
    have "copyout_loop r va src i len s = Some (-1, s')" using len a(1) mv0 by (subst copyout_loop.simps) (simp add: Let_def)
    moreover have "cant_write s r va fs'" using a(3) by (auto simp: cant_write_def)
    ultimately show thesis using stop a(2,4) by blast
  next
    fix s1 fs1 assume a: "user_page r (PGROUNDDOWN va) s = Some (PTE2PA (pte (mem s1) r (PGROUNDDOWN va)), s1)" "um_step r s fs s1 fs1"
      "length fs \<le> length fs1 + 3" "user (pte (mem s1) r (PGROUNDDOWN va))" "PTE2PA (pte (mem s1) r (PGROUNDDOWN va)) \<noteq> 0" "va < MAXVA"
    have ok1: "um_ok s1 r fs1" and w1: "\<And>b. uwritable (mem s1) r (csz s) b = uwritable (mem s) r (csz s) b"
      using a(2) by (auto simp: um_step_def)
    have "pt_ok (mem s1) r" using ok1 by (simp add: um_ok_def vm_ok_def)
    then obtain pa where w: "walk r (PGROUNDDOWN va) False s1 = Some (pa, s1)" "pa \<noteq> 0" "ld64 (mem s1) pa = pte (mem s1) r (PGROUNDDOWN va)"
      using walk_finds [OF _ mv0(2) user_valid [OF a(4)]] by blast
    note wr = uwritable_page [OF a(6,4), of "csz s"] w1 [of va]
    let ?n = "unat (chunk va len)"
    define s2 where "s2 = s1\<lparr>mem := poke (mem s1) (PTE2PA (pte (mem s1) r (PGROUNDDOWN va)) + (va - PGROUNDDOWN va)) src i ?n\<rparr>"
    show thesis
    proof (cases "uwritable (mem s) r (csz s) va")
      case False
      then have "pte (mem s1) r (PGROUNDDOWN va) AND PTE_W = 0" using wr by blast
      then have "copyout_loop r va src i len s = Some (-1, s1)" using len a(1,5) w mv0 by (subst copyout_loop.simps) (simp add: Let_def)
      moreover have "cant_write s r va fs1" using False by (simp add: cant_write_def)
      ultimately show thesis using stop a(2,3) by blast
    next
      case True
      then have nz: "pte (mem s1) r (PGROUNDDOWN va) AND PTE_W \<noteq> 0" using wr by blast
      have step: "copyout_loop r va src i len s = copyout_loop r (PGROUNDDOWN va + PGSIZE) src (i + ?n) (len - chunk va len) s2"
        using len a(1,5) w mv0 nz by (subst copyout_loop.simps) (simp add: Let_def s2_def chunk_def)
      have "um_write r s1 fs1 va (\<lambda>j. src (i + j)) ?n s2 fs1" unfolding s2_def by (rule poke_write [OF ok1 a(6,4)]) (simp add: chunk_unat)
      then have "um_write r s fs va (\<lambda>j. src (i + j)) ?n s2 fs1"
        using um_write_trans [OF um_step_write [OF a(2)], of va "\<lambda>j. src (i + j)" ?n s2 fs1] ok unat_less_64 [of "chunk va len"] by simp
      then show thesis using go step a(3,6) by blast
    qed
  qed
qed

text \<open>The rounds add up.\<close>

lemma um_write_next:
  assumes w: "um_write r s fs va (\<lambda>j. src (i + j)) n s2 fs1" "um_ok s r fs" and n: "n = unat (chunk va len)" and va: "va < MAXVA"
    and c: "copied (unat len - n) k x (cant_write s2 r (PGROUNDDOWN va + PGSIZE + of_nat k) fs')"
    and w2: "um_write r s2 fs1 (PGROUNDDOWN va + PGSIZE) (\<lambda>j. src (i + n + j)) k s' fs'"
    and bd: "k = 0 \<or> unat (PGROUNDDOWN va + PGSIZE) + k \<le> 2 ^ 38"
  shows "um_write r s fs va (\<lambda>j. src (i + j)) (n + k) s' fs'" "unat va + (n + k) \<le> 2 ^ 38"
    "copied (unat len) (n + k) x (cant_write s r (va + of_nat (n + k)) fs')"
proof -
  have le: "n \<le> unat len" by (simp add: n chunk_unat)
  have nx: "PGROUNDDOWN va + PGSIZE = va + of_nat n" if "k \<noteq> 0 \<or> x \<noteq> 0"
    unfolding n by (rule next_chunk) (use that c le in \<open>auto simp: copied_def n\<close>)
  have "unat (va + of_nat n) = unat va + n" using chunk_end [OF va, of len] by (simp add: n unat_plus_if')
  then show b: "unat va + (n + k) \<le> 2 ^ 38" using bd nx chunk_end [OF va, of len] by (cases "k = 0") (simp_all add: n)
  have "um_write r s2 fs1 (va + of_nat n) (\<lambda>j. src (i + (n + j))) k s' fs'"
  proof (cases "k = 0")
    case True
    then show ?thesis using w2 by (simp add: um_write_def)
  next
    case False
    then show ?thesis using w2 nx by (simp add: add.assoc)
  qed
  then show "um_write r s fs va (\<lambda>j. src (i + j)) (n + k) s' fs'" by (rule um_write_trans [OF w(1) _ w(2)]) (use b in simp)
  have cz: "csz s2 = csz s" using um_keep(3) [OF w(2), of s2] w(1) by (simp add: um_write_def)
  have "cant_write s r (va + of_nat (n + k)) fs'" if "x \<noteq> 0" "cant_write s2 r (PGROUNDDOWN va + PGSIZE + of_nat k) fs'"
    using cant_write_back [OF w(1) cz that(2)] nx that(1) by (simp add: add.assoc)
  then show "copied (unat len) (n + k) x (cant_write s r (va + of_nat (n + k)) fs')"
    by (rule copied_add [OF c le])
qed

lemma copyout_loop_view:
  "um_ok s r fs \<Longrightarrow>
   \<exists>x k s' fs'. copyout_loop r va src i len s = Some (x, s') \<and> um_write r s fs va (\<lambda>j. src (i + j)) k s' fs' \<and>
     copied (unat len) k x (cant_write s r (va + of_nat k) fs') \<and> (k = 0 \<or> unat va + k \<le> 2 ^ 38) \<and>
     length fs \<le> length fs' + 3 * span va len"
proof (induction "unat len" arbitrary: va i len s fs rule: less_induct)
  case less
  note ok = less.prems
  show ?case
  proof (cases "len = 0")
    case True
    have "um_step r s fs s fs" by (rule um_stepI [OF ok]) (use ok in \<open>auto simp: um_ok_def\<close>)
    moreover have "copyout_loop r va src i len s = Some (0, s)" using True by (subst copyout_loop.simps) simp
    ultimately show ?thesis using True um_step_write by (intro exI [of _ 0] exI [of _ s] exI [of _ fs]) (auto simp: copied_def)
  next
    case False
    then have pos: "0 < unat len" "0 < len" by (simp_all add: unat_gt_0 word_neq_0_conv)
    note sp = span_next [OF pos(1), of va]
    show ?thesis
    proof (rule copyout_round [OF ok pos(2), of va src i])
      fix s' fs' assume "copyout_loop r va src i len s = Some (-1, s')" "um_step r s fs s' fs'" "cant_write s r va fs'" "length fs \<le> length fs' + 3"
      then show ?thesis using um_step_write pos sp by (intro exI [of _ "-1"] exI [of _ 0] exI [of _ s'] exI [of _ fs']) (auto simp: copied_def)
    next
      let ?n = "unat (chunk va len)"
      fix s2 fs1 assume a: "copyout_loop r va src i len s = copyout_loop r (PGROUNDDOWN va + PGSIZE) src (i + ?n) (len - chunk va len) s2"
        "um_write r s fs va (\<lambda>j. src (i + j)) ?n s2 fs1" "va < MAXVA" "length fs \<le> length fs1 + 3"
      have "0 < ?n" using pos by (simp add: chunk_unat)
      moreover have "um_ok s2 r fs1" using a(2) by (simp add: um_write_def)
      ultimately obtain x k s' fs' where IH: "copyout_loop r (PGROUNDDOWN va + PGSIZE) src (i + ?n) (len - chunk va len) s2 = Some (x, s')"
          "um_write r s2 fs1 (PGROUNDDOWN va + PGSIZE) (\<lambda>j. src (i + ?n + j)) k s' fs'"
          "copied (unat len - ?n) k x (cant_write s2 r (PGROUNDDOWN va + PGSIZE + of_nat k) fs')"
          "k = 0 \<or> unat (PGROUNDDOWN va + PGSIZE) + k \<le> 2 ^ 38" "length fs1 \<le> length fs' + 3 * span (PGROUNDDOWN va + PGSIZE) (len - chunk va len)"
        using less.hyps [of "len - chunk va len" s2 fs1 "PGROUNDDOWN va + PGSIZE" "i + ?n"] pos by (auto simp: chunk_unat(2))
      note n = um_write_next [OF a(2) ok refl a(3) IH(3,2,4)]
      show ?thesis using a(1,4) IH(1,5) n sp by (intro exI [of _ x] exI [of _ "?n + k"] exI [of _ s'] exI [of _ fs']) simp
    qed
  qed
qed

section \<open>Copies inside a critical section\<close>

lemma um_ok_lockd: "um_ok s r fs \<Longrightarrow> lk \<noteq> Lkmem \<Longrightarrow> um_ok (s\<lparr>sync := lockd lk (sync s)\<rparr>) r fs"
  by (simp add: um_ok_def vm_ok_def ready_def free_pages_def is_page_def myproc_def)

lemma um_ok_settle: "um_ok s r fs \<Longrightarrow> sync s = lockd lk y \<Longrightarrow> is_free Lkmem y \<Longrightarrow> sync_ok y \<Longrightarrow> um_ok (s\<lparr>sync := settle y\<rparr>) r fs"
  by (simp add: um_ok_def vm_ok_def ready_def free_pages_def is_page_def myproc_def)

lemma um_ok_ready: "um_ok s r fs \<Longrightarrow> sync_ok (sync s) \<and> is_free Lkmem (sync s)"
  by (simp add: um_ok_def vm_ok_def ready_def)

lemma um_ok_proc: "um_ok s r fs \<Longrightarrow> \<exists>p. myproc s = Some p \<and> p_pagetable (procs s p) = r"
  by (auto simp: um_ok_def)

text \<open>With a lock held, a copy gives back the books as they were.\<close>

lemma copyin_locked:
  assumes "um_ok s r fs" "c_noff (mycpu (sync s)) \<noteq> 0"
  obtains x bs s' fs' where "copyin r va len s = Some ((x, bs), s')" "um_step r s fs s' fs'" "sync s' = sync s"
    "copied (unat len) (length bs) x (cant_read s r (va + of_nat (length bs)) fs')"
    "\<And>k. k < length bs \<Longrightarrow> uview (mem s) r (csz s) (va + of_nat k) = Some (bs ! k)" "length fs \<le> length fs' + 3 * span va len"
proof -
  obtain x bs s' fs' where c: "copyin_loop r [] va len s = Some ((x, bs), s')" "um_step r s fs s' fs'"
      "copied (unat len) (length bs) x (cant_read s r (va + of_nat (length bs)) fs')"
      "\<forall>k<length bs. uview (mem s) r (csz s) (va + of_nat k) = Some (bs ! k)" "length fs \<le> length fs' + 3 * span va len"
    using copyin_loop_view [OF assms(1), of "[]" va len] by auto
  moreover have "sync s' = sync s" using c(2) assms by (intro mem_step_sync) (auto simp: um_step_def um_ok_def vm_ok_def)
  ultimately show thesis using that by (simp add: copyin_def)
qed

lemma copyout_locked:
  assumes "um_ok s r fs" "c_noff (mycpu (sync s)) \<noteq> 0"
  obtains x k s' fs' where "copyout r va src len s = Some (x, s')" "um_write r s fs va src k s' fs'" "sync s' = sync s"
    "copied (unat len) k x (cant_write s r (va + of_nat k) fs')" "k = 0 \<or> unat va + k \<le> 2 ^ 38" "length fs \<le> length fs' + 3 * span va len"
proof -
  obtain x k s' fs' where c: "copyout_loop r va src 0 len s = Some (x, s')" "um_write r s fs va (\<lambda>j. src (0 + j)) k s' fs'"
      "copied (unat len) k x (cant_write s r (va + of_nat k) fs')" "k = 0 \<or> unat va + k \<le> 2 ^ 38" "length fs \<le> length fs' + 3 * span va len"
    using copyout_loop_view [OF assms(1), of va src 0 len] by blast
  moreover have "sync s' = sync s" using c(2) assms by (intro mem_step_sync) (auto simp: um_write_def um_ok_def vm_ok_def)
  ultimately show thesis using that by (simp add: copyout_def)
qed

section \<open>The contracts\<close>

text \<open>
  (C7) \<open>copyout\<close> refines a write to the memory of the user program, page faults included.  Called for the current process with its memory in
  order, it returns; there is a number \<open>k\<close> of bytes, all of them if it returns 0, such that afterwards the program
  sees the first \<open>k\<close> source bytes at the destination and everything else as before, although pages may have been
  allocated and mapped on the way.  It returns -1 exactly when it stopped earlier, and then the next byte is not writable for
  the program, or needs a new page while memory is exhausted.
\<close>

theorem copyout_refines_write:
  assumes "um_ok s r fs"
  shows "\<exists>x k s' fs'. copyout r va src len s = Some (x, s') \<and> um_ok s' r fs' \<and>
     (\<forall>b. uview (mem s') r (csz s) b = (if unat (b - va) < k then Some (src (unat (b - va))) else uview (mem s) r (csz s) b)) \<and>
     (x = 0 \<and> k = unat len \<or>
      x = -1 \<and> k < unat len \<and> (\<not> uwritable (mem s) r (csz s) (va + of_nat k) \<or> \<not> valid (pte (mem s) r (va + of_nat k)) \<and> length fs' \<le> 1)) \<and>
     length fs \<le> length fs' + 3 * span va len"
proof -
  obtain x k s' fs' where c: "copyout_loop r va src 0 len s = Some (x, s')" "um_write r s fs va (\<lambda>j. src (0 + j)) k s' fs'"
      "copied (unat len) k x (cant_write s r (va + of_nat k) fs')" "length fs \<le> length fs' + 3 * span va len"
    using copyout_loop_view [OF assms, of va src 0 len] by blast
  then show ?thesis
    by (intro exI [of _ x] exI [of _ k] exI [of _ s'] exI [of _ fs']) (auto simp: copyout_def um_write_def copied_def cant_write_def)
qed

text \<open>
  (C13) What \<open>copyout\<close> stored, \<open>copyin\<close> reads back: after a successful \<open>copyout\<close> of \<open>len\<close> bytes, \<open>copyin\<close> from the same place succeeds,
  whatever memory is left, and delivers these bytes; and if the destination is writable and three pages for each page of it and two more are free,
  \<open>copyout\<close> does succeed.
\<close>

theorem copyin_copyout_roundtrip:
  assumes "um_ok s r fs"
  shows "\<exists>x s'. copyout r va src len s = Some (x, s') \<and>
     (x = 0 \<longrightarrow> (\<exists>s''. copyin r va len s' = Some ((0, map src [0..<unat len]), s''))) \<and>
     ((\<forall>k<unat len. uwritable (mem s) r (csz s) (va + of_nat k)) \<and> 3 * span va len + 2 \<le> length fs \<longrightarrow> x = 0)"
proof -
  obtain x k s' fs' where c: "copyout_loop r va src 0 len s = Some (x, s')" "um_write r s fs va (\<lambda>j. src (0 + j)) k s' fs'"
      "copied (unat len) k x (cant_write s r (va + of_nat k) fs')" "length fs \<le> length fs' + 3 * span va len"
    using copyout_loop_view [OF assms, of va src 0 len] by blast
  have ok: "um_ok s' r fs'" and cz: "csz s' = csz s" using c(2) um_keep(3) [OF assms, of s'] by (auto simp: um_write_def)
  have "\<exists>s''. copyin r va len s' = Some ((0, map src [0..<unat len]), s'')" if "x = 0"
  proof -
    have k: "k = unat len" using c(3) that by (simp add: copied_def)
    have w: "uview (mem s') r (csz s) (va + of_nat j) = Some (src j)" "valid (pte (mem s') r (va + of_nat j))" if "j < unat len" for j
    proof -
      have "unat (va + of_nat j - va) = j" using that unat_less_64 [of len] by simp
      then show "uview (mem s') r (csz s) (va + of_nat j) = Some (src j)" "valid (pte (mem s') r (va + of_nat j))"
        using c(2) that user_valid k by (auto simp: um_write_def)
    qed
    obtain y bs s'' gs where i: "copyin_loop r [] va len s' = Some ((y, bs), s'')" "copied (unat len) (length bs) y (cant_read s' r (va + of_nat (length bs)) gs)"
        "\<forall>k<length bs. uview (mem s') r (csz s') (va + of_nat k) = Some (bs ! k)"
      using copyin_loop_view [OF ok, of "[]" va len] by auto
    have y: "y = 0" "length bs = unat len" using i(2) w [of "length bs"] by (auto simp: copied_def cant_read_def cz)
    have "bs = map src [0..<unat len]" using i(3) w(1) y(2) by (intro nth_equalityI) (auto simp: cz)
    then show ?thesis using i(1) y(1) by (simp add: copyin_def)
  qed
  moreover have "x = 0" if "\<forall>k<unat len. uwritable (mem s) r (csz s) (va + of_nat k)" "3 * span va len + 2 \<le> length fs"
    using c(3,4) that by (auto simp: copied_def cant_write_def)
  ultimately show ?thesis using c(1) by (auto simp: copyout_def)
qed

text \<open>
  (C14) Isolation.  A copy into the memory of the current process changes nothing that another process sees: if the pages that the
  other process can reach through its table are neither free nor reachable through the table of the current process, its view and what it may write
  are the same after \<open>copyout\<close>, whether it succeeded or not.
\<close>

theorem copyout_isolated:
  assumes "um_ok s r fs" "pt_ok (mem s) q" "owned (mem s) q {} \<inter> owned (mem s) r (set fs) = {}"
    "copyout r va src len s = Some (x, s')"
  shows "uview (mem s') q sz b = uview (mem s) q sz b \<and> uwritable (mem s') q sz b = uwritable (mem s) q sz b"
proof -
  obtain k fs' where "um_write r s fs va (\<lambda>j. src (0 + j)) k s' fs'"
    using copyout_loop_view [OF assms(1), of va src 0 len] assms(4) by (auto simp: copyout_def)
  then have f: "mem s' a = mem s a" if "\<forall>t\<in>owned (mem s) r (set fs). \<not> in_page t a" for a using that by (simp add: um_write_def)
  have al: "aligned t" if "t \<in> owned (mem s) r (set fs) \<union> owned (mem s) q {}" for t
    using that assms(1,2) PTE2PA_aligned by (auto simp: owned_def um_ok_def vm_ok_def free_pages_def is_page_def intro: pt_okD)
  have g: "mem s' a = mem s a" if "t \<in> owned (mem s) q {}" "in_page t a" for t a
  proof (rule f, intro ballI notI)
    fix u assume "u \<in> owned (mem s) r (set fs)" "in_page u a"
    then show False using page_disjoint [of t u a] al that assms(3) by blast
  qed
  have t: "agree (tabs (mem s) q) (mem s) (mem s')" by (rule agreeI) (rule g, auto simp: owned_def)
  have u: "mem s' a = mem s a" if "v < MAXVA" "user (pte (mem s) q v)" "in_page (PTE2PA (pte (mem s) q v)) a" for v a
    by (rule g [OF _ that(3)]) (use that in \<open>auto simp: owned_def\<close>)
  show ?thesis by (rule conjI; rule uview_cong [where m = "mem s"]; use pte_frame [OF t] u in blast)
qed

section \<open>Instances\<close>

lemma um_ok_vmstate0: "um_ok vmstate0 0x87ff0000 frees0"
  using vmstate0_facts
  by (simp add: um_ok_def pages_ok_def) (simp add: vmstate0_def myproc_def sync_defs word_le_nat_alt MAXVA_unat)

lemma vmstate0_view:
  "csz vmstate0 = 8192" "va < MAXVA \<Longrightarrow> uwritable (mem vmstate0) 0x87ff0000 8192 va \<longleftrightarrow> PGROUNDDOWN va < 8192"
  by (simp add: vmstate0_def myproc_def sync_defs) (simp add: uwritable_def vmstate0_facts(3))

theorem copyout_refines_write_witness:
  "\<exists>s'. copyout 0x87ff0000 0x1000 (\<lambda>j. of_nat (7 + j)) 2 vmstate0 = Some (0, s') \<and> uview (mem s') 0x87ff0000 8192 0x1001 = Some 8"
proof -
  have w: "uwritable (mem vmstate0) 0x87ff0000 8192 (0x1000 + of_nat k)" if "k < 2" for k
    using that by (subst vmstate0_view(2)) (auto simp: MAXVA_unat word_less_nat_alt PGROUNDDOWN_unat less_2_cases_iff)
  have sp: "span 0x1000 2 = 1" by (simp add: span_def)
  obtain x k s' fs' where c: "copyout 0x87ff0000 0x1000 (\<lambda>j. of_nat (7 + j)) 2 vmstate0 = Some (x, s')"
      "\<forall>b. uview (mem s') 0x87ff0000 8192 b = (if unat (b - 0x1000) < k then Some (of_nat (7 + unat (b - 0x1000))) else uview (mem vmstate0) 0x87ff0000 8192 b)"
      "x = 0 \<and> k = unat (2 :: addr) \<or> x = -1 \<and> k < unat (2 :: addr) \<and> (\<not> uwritable (mem vmstate0) 0x87ff0000 8192 (0x1000 + of_nat k) \<or>
        \<not> valid (pte (mem vmstate0) 0x87ff0000 (0x1000 + of_nat k)) \<and> length fs' \<le> 1)"
      "length frees0 \<le> length fs' + 3 * 1" "um_ok s' 0x87ff0000 fs'"
    using copyout_refines_write [OF um_ok_vmstate0, of "0x1000" "\<lambda>j. of_nat (7 + j)" 2] unfolding vmstate0_view(1) sp by blast
  then have "x = 0" "k = 2" using w by (auto simp: frees0_def)
  then show ?thesis using c(1,2) by simp
qed

theorem copyin_copyout_roundtrip_witness:
  "\<exists>s' s''. copyout 0x87ff0000 0x1000 (\<lambda>j. of_nat (7 + j)) 2 vmstate0 = Some (0, s') \<and>
     copyin 0x87ff0000 0x1000 2 s' = Some ((0, [7, 8]), s'')"
proof -
  have w: "\<forall>k<unat (2 :: addr). uwritable (mem vmstate0) 0x87ff0000 8192 (0x1000 + of_nat k)"
    by (auto simp: vmstate0_view(2) MAXVA_unat word_less_nat_alt PGROUNDDOWN_unat less_2_cases_iff)
  have sp: "3 * span 0x1000 2 + 2 \<le> length frees0" by (simp add: span_def frees0_def)
  have bs: "map (\<lambda>j. of_nat (7 + j)) [0..<unat (2 :: addr)] = [7, 8 :: byte]" by (simp add: upt_rec)
  show ?thesis
    using copyin_copyout_roundtrip [OF um_ok_vmstate0, of "0x1000" "\<lambda>j. of_nat (7 + j)" 2] w sp
    unfolding vmstate0_view(1) bs by blast
qed

theorem copyout_isolated_witness:
  "\<exists>x s'. copyout 0x87ff0000 0x1000 (\<lambda>j. 7) 2 vmstate0 = Some (x, s') \<and> uview (mem s') 0x87ff9000 8192 0 = uview (mem vmstate0) 0x87ff9000 8192 0"
proof -
  have q: "aligned 0x87ff9000" "0x87ff9000 \<notin> set frees0" "(0x87ff9000 :: addr) \<noteq> 0" by (simp_all add: aligned_def PGSIZE_def frees0_def)
  have "owned (mem vmstate0) 0x87ff9000 {} \<inter> owned (mem vmstate0) 0x87ff0000 (set frees0) = {}"
    using q(2) by (simp add: owned_def vmstate0_facts(2,3) vmstate0_table [OF q])
  moreover obtain x s' where "copyout 0x87ff0000 0x1000 (\<lambda>j. 7) 2 vmstate0 = Some (x, s')"
    using copyout_loop_view [OF um_ok_vmstate0] by (metis copyout_def)
  ultimately show ?thesis using copyout_isolated [OF um_ok_vmstate0 vmstate0_table(1) [OF q]] by blast
qed

end
