(* ===== verification/MsgSpec.thy ===== *)
theory MsgSpec
  imports Msg UserCopy
begin

text \<open>
  What the message queue system calls do.  The slots of a queue are seen as a list of optional messages, a message as its type and its bytes.
  \<open>sendmsg\<close> fills the first free slot with the bytes the sender sees, \<open>recvmsg\<close> empties the first slot with the
  wanted type and hands its bytes to the receiver.
\<close>

section \<open>The table\<close>

definition queue_ok :: "msgqueue \<Rightarrow> bool" where
  "queue_ok q \<longleftrightarrow> length (q_msg q) = MAX_MSG \<and> q_count q = int (count_where m_valid (q_msg q)) \<and>
     (\<forall>m\<in>set (q_msg q). m_valid m \<longrightarrow> 0 < m_len m \<and> m_len m \<le> int MAX_MSG_LEN) \<and> (\<not> q_used q \<longrightarrow> q_count q = 0)"

definition msgq_ok :: "msgqueue list \<Rightarrow> bool" where
  "msgq_ok qs \<longleftrightarrow> length qs = MAX_Q \<and> (\<forall>q\<in>set qs. queue_ok q) \<and>
     (\<forall>i<MAX_Q. \<forall>j<MAX_Q. q_used (qs ! i) \<and> q_used (qs ! j) \<and> q_key (qs ! i) = q_key (qs ! j) \<longrightarrow> i = j)"

definition msg_of :: "message \<Rightarrow> (int \<times> byte list) option" where
  "msg_of m = (if m_valid m then Some (m_type m, map (m_data m) [0..<nat (m_len m)]) else None)"

definition slots :: "msgqueue \<Rightarrow> (int \<times> byte list) option list" where
  "slots q = map msg_of (q_msg q)"

section \<open>The process between its locks\<close>

text \<open>A process that runs with its memory in order and the queue lock free.\<close>

definition msg_ready :: "kstate \<Rightarrow> addr \<Rightarrow> addr list \<Rightarrow> bool" where
  "msg_ready s r fs \<longleftrightarrow> um_ok s r fs \<and> is_free Lmsgq (sync s) \<and> msgq_ok (msgq s)"

lemma um_ok_msgq: "um_ok (s\<lparr>msgq := x\<rparr>) r fs = um_ok s r fs"
  by (simp add: um_ok_def vm_ok_def ready_def free_pages_def is_page_def myproc_def)

lemma msg_fail_eq: "sync_ok y \<Longrightarrow> is_free Lmsgq y \<Longrightarrow> sync s = lockd Lmsgq y \<Longrightarrow> msg_fail s = Some (-1, s\<lparr>sync := settle y\<rparr>)"
  by (simp add: msg_fail_def rel_def)

lemma len_unat: "0 \<le> len \<Longrightarrow> len \<le> int MAX_MSG_LEN \<Longrightarrow> unat (word_of_int len :: addr) = nat len"
  by (cases len) (simp_all add: MAX_MSG_LEN_def)

lemma span_small: "unat len \<le> 4096 \<Longrightarrow> span va len \<le> 2"
proof -
  assume "unat len \<le> 4096"
  moreover have "unat va mod 4096 < 4096" by simp
  ultimately have "unat va mod 4096 + unat len + 4095 < 3 * 4096" by linarith
  then show "span va len \<le> 2" unfolding span_def by (simp add: less_mult_imp_div_less flip: less_Suc_eq_le)
qed

lemma msgq_ok_nth: "msgq_ok qs \<Longrightarrow> 0 \<le> quid \<Longrightarrow> quid < int MAX_Q \<Longrightarrow> nat quid < length qs \<and> queue_ok (qs ! nat quid)"
  by (auto simp: msgq_ok_def MAX_Q_def)

text \<open>A change to one slot of a used queue.\<close>

lemma msgq_ok_update:
  assumes ok: "msgq_ok qs" and i: "i < length qs" and q': "queue_ok q'" "q_used q' = q_used (qs ! i)" "q_key q' = q_key (qs ! i)"
  shows "msgq_ok (qs[i := q'])"
proof -
  have "\<forall>q\<in>set (qs[i := q']). queue_ok q" using ok q'(1) by (auto simp: msgq_ok_def dest!: subsetD [OF set_update_subset_insert])
  moreover have "q_used (qs[i := q'] ! j) = q_used (qs ! j) \<and> q_key (qs[i := q'] ! j) = q_key (qs ! j)" for j
    using i q'(2,3) by (cases "i = j") auto
  ultimately show ?thesis using ok by (auto simp: msgq_ok_def)
qed

section \<open>\<open>sendmsg\<close>\<close>

lemma msg_of_simps [simp]: "\<not> m_valid m \<Longrightarrow> msg_of m = None" "m_valid m \<Longrightarrow> msg_of m = Some (m_type m, map (m_data m) [0..<nat (m_len m)])"
  by (simp_all add: msg_of_def)

lemma msg_of_None: "msg_of m = None \<longleftrightarrow> \<not> m_valid m"
  by (simp add: msg_of_def)

lemma find_idx_map: "find_idx P (map f xs) = find_idx (\<lambda>x. P (f x)) xs"
  by (induction xs) auto

lemma find_free: "find_idx (\<lambda>x. x = None) (slots q) = find_idx (\<lambda>m. \<not> m_valid m) (q_msg q)"
  by (simp add: slots_def find_idx_map msg_of_None)

text \<open>The queue after a slot was filled, or half filled and left invalid.\<close>

lemma queue_ok_fill:
  assumes "queue_ok q" "q_used q" "i < length (q_msg q)" "\<not> m_valid (q_msg q ! i)" "0 < m_len m" "m_len m \<le> int MAX_MSG_LEN" "m_valid m"
  shows "queue_ok (q\<lparr>q_msg := (q_msg q)[i := m], q_count := q_count q + 1\<rparr>)"
  using assms count_where_update [OF assms(3), of m_valid m]
  by (auto simp: queue_ok_def dest!: subsetD [OF set_update_subset_insert])

lemma queue_ok_half:
  assumes "queue_ok q" "i < length (q_msg q)" "\<not> m_valid (q_msg q ! i)" "\<not> m_valid m"
  shows "queue_ok (q\<lparr>q_msg := (q_msg q)[i := m]\<rparr>)" "slots (q\<lparr>q_msg := (q_msg q)[i := m]\<rparr>) = slots q"
proof -
  show "queue_ok (q\<lparr>q_msg := (q_msg q)[i := m]\<rparr>)"
    using assms count_where_update [OF assms(2), of m_valid m] by (auto simp: queue_ok_def dest!: subsetD [OF set_update_subset_insert])
  have "map msg_of (q_msg q) ! i = None" using assms(2,3) by simp
  then show "slots (q\<lparr>q_msg := (q_msg q)[i := m]\<rparr>) = slots q"
    using assms(4) by (simp add: slots_def map_update) (metis list_update_id)
qed

definition sent :: "kstate \<Rightarrow> addr \<Rightarrow> int \<Rightarrow> int \<Rightarrow> addr \<Rightarrow> int \<Rightarrow> kstate \<Rightarrow> bool" where
  "sent s r quid type ptr len s' \<longleftrightarrow> 0 \<le> quid \<and> quid < int MAX_Q \<and> q_used (msgq s ! nat quid) \<and> q_used (msgq s' ! nat quid) \<and> 0 < len \<and> len \<le> int MAX_MSG_LEN \<and>
     (\<exists>i bs. find_idx (\<lambda>x. x = None) (slots (msgq s ! nat quid)) = Some i \<and> length bs = nat len \<and>
        (\<forall>k<nat len. uview (mem s) r (csz s) (ptr + of_nat k) = Some (bs ! k)) \<and>
        map slots (msgq s') = (map slots (msgq s))[nat quid := (slots (msgq s ! nat quid))[i := Some (type, bs)]])"

text \<open>The run of \<open>sendmsg\<close> once a free slot is found.\<close>

lemma sendmsg_run:
  assumes rd: "msg_ready s r fs" and g: "\<not> bad_queue quid s" "q_count (msgq s ! nat quid) \<noteq> int MAX_MSG" and ln: "0 < len" "len \<le> int MAX_MSG_LEN"
    and i: "find_idx (\<lambda>m. \<not> m_valid m) (q_msg (msgq s ! nat quid)) = Some i"
  obtains x :: int and bs s3 fs' m where
    "sendmsg quid type ptr len s =
      (if x < 0 then msg_fail (s3\<lparr>msgq := (msgq s)[nat quid := (msgq s ! nat quid)\<lparr>q_msg := (q_msg (msgq s ! nat quid))[i := m]\<rparr>]\<rparr>)
       else do {
         s \<leftarrow> rel Lmsgq (s3\<lparr>msgq := (msgq s)[nat quid := (msgq s ! nat quid)\<lparr>q_msg := (q_msg (msgq s ! nat quid))[i := m\<lparr>m_valid := True\<rparr>],
            q_count := q_count (msgq s ! nat quid) + 1\<rparr>]\<rparr>);
         Some (0, s)
       })"
    "um_ok s3 r fs'" "sync s3 = lockd Lmsgq (sync s)" "\<not> m_valid m" "m_type m = type" "m_len m = len" "x = 0 \<or> x = -1"
    "x = 0 \<Longrightarrow> length bs = nat len \<and> map (m_data m) [0..<nat len] = bs"
    "\<And>k. k < length bs \<Longrightarrow> uview (mem s) r (csz s) (ptr + of_nat k) = Some (bs ! k)"
    "x \<noteq> 0 \<Longrightarrow> \<exists>k. int k < len \<and> cant_read s r (ptr + of_nat k) fs'" "length fs \<le> length fs' + 3 * span ptr (word_of_int len)"
proof -
  have um: "um_ok s r fs" and fr: "is_free Lmsgq (sync s)" and ok: "msgq_ok (msgq s)" using rd by (auto simp: msg_ready_def)
  let ?s = "s\<lparr>sync := lockd Lmsgq (sync s)\<rparr>" and ?q = "nat quid" and ?Q = "msgq s ! nat quid"
  have q: "?q < length (msgq s)" using g(1) msgq_ok_nth [OF ok, of quid] by auto
  have il: "i < length (q_msg ?Q)" "\<not> m_valid (q_msg ?Q ! i)" using find_idx_SomeD [OF i] by auto
  define m1 where "m1 = (q_msg ?Q ! i)\<lparr>m_type := type, m_len := len\<rparr>"
  define s2 where "s2 = ?s\<lparr>msgq := (msgq s)[?q := ?Q\<lparr>q_msg := (q_msg ?Q)[i := m1]\<rparr>]\<rparr>"
  have um2: "um_ok s2 r fs" using um_ok_lockd [OF um, of Lmsgq] um_ok_msgq by (simp add: s2_def)
  obtain p where p: "myproc s2 = Some p" "p_pagetable (procs s2 p) = r" using um_ok_proc [OF um2] by blast
  have n0: "c_noff (mycpu (sync s2)) \<noteq> 0" using um_ok_ready [OF um] by (simp add: s2_def sync_ok_def)
  obtain x bs s3 fs' where c: "copyin r ptr (word_of_int len) s2 = Some ((x, bs), s3)" "um_step r s2 fs s3 fs'" "sync s3 = sync s2"
      "copied (unat (word_of_int len :: addr)) (length bs) x (cant_read s2 r (ptr + of_nat (length bs)) fs')"
      "\<And>k. k < length bs \<Longrightarrow> uview (mem s2) r (csz s2) (ptr + of_nat k) = Some (bs ! k)" "length fs \<le> length fs' + 3 * span ptr (word_of_int len)"
    by (rule copyin_locked [OF um2 n0, of ptr "word_of_int len"]) (rule that, assumption+)
  have st: "mem_step s2 s3" "um_ok s3 r fs'" using c(2) by (auto simp: um_step_def)
  have keep: "msgq s3 = msgq s2" using mem_step_keeps(2) [OF st(1)] .
  define m where "m = m1\<lparr>m_data := stored bs (m_data m1)\<rparr>"
  have "map (m_data m) [0..<nat len] = bs" if "length bs = nat len"
    using that by (intro nth_equalityI) (auto simp: m_def stored_def)
  then have bs: "x = 0 \<Longrightarrow> length bs = nat len \<and> map (m_data m) [0..<nat len] = bs" "x = 0 \<or> x = -1"
    using c(4) ln len_unat [of len] by (auto simp: copied_def)
  have cz: "csz s2 = csz s" by (simp add: s2_def myproc_def)
  have why: "\<exists>k. int k < len \<and> cant_read s r (ptr + of_nat k) fs'" if "x \<noteq> 0"
  proof -
    have "int (length bs) < len" "cant_read s2 r (ptr + of_nat (length bs)) fs'" using c(4) ln len_unat [of len] that by (auto simp: copied_def)
    moreover from this(2) have "cant_read s r (ptr + of_nat (length bs)) fs'" unfolding cant_read_def cz by (simp add: s2_def)
    ultimately show ?thesis by blast
  qed
  have vw: "uview (mem s) r (csz s) (ptr + of_nat k) = Some (bs ! k)" if "k < length bs" for k
    using c(5) [OF that] by (simp add: s2_def myproc_def)
  have run: "sendmsg quid type ptr len s =
        (if x < 0 then msg_fail (s3\<lparr>msgq := (msgq s)[?q := ?Q\<lparr>q_msg := (q_msg ?Q)[i := m]\<rparr>]\<rparr>)
         else do {
           s \<leftarrow> rel Lmsgq (s3\<lparr>msgq := (msgq s)[?q := ?Q\<lparr>q_msg := (q_msg ?Q)[i := m\<lparr>m_valid := True\<rparr>], q_count := q_count ?Q + 1\<rparr>]\<rparr>);
           Some (0, s)
         })"
    using fr g ln i q il(1) p c(1) keep by (simp add: sendmsg_def Let_def s2_def m1_def m_def)
  show thesis by (rule that [OF run st(2) _ _ _ _ bs(2,1) vw why c(6)]) (use c(3) il(2) in \<open>simp_all add: s2_def m1_def m_def\<close>)
qed

lemma sendmsg_spec:
  assumes rd: "msg_ready s r fs"
  shows "\<exists>x s' fs'. sendmsg quid type ptr len s = Some (x, s') \<and> msg_ready s' r fs' \<and>
     (x = 0 \<and> sent s r quid type ptr len s' \<or>
      x = -1 \<and> map slots (msgq s') = map slots (msgq s) \<and>
      (bad_queue quid s \<or> len \<le> 0 \<or> int MAX_MSG_LEN < len \<or> None \<notin> set (slots (msgq s ! nat quid)) \<or>
       (\<exists>k. int k < len \<and> cant_read s r (ptr + of_nat k) fs'))) \<and>
     length fs \<le> length fs' + 3 * span ptr (word_of_int len)"
proof -
  have um: "um_ok s r fs" and fr: "is_free Lmsgq (sync s)" and ok: "msgq_ok (msgq s)" using rd by (auto simp: msg_ready_def)
  have y: "sync_ok (sync s)" "is_free Lkmem (sync s)" using um_ok_ready [OF um] by auto
  let ?s = "s\<lparr>sync := lockd Lmsgq (sync s)\<rparr>" and ?q = "nat quid" and ?Q = "msgq s ! nat quid"
  show ?thesis
  proof (cases "bad_queue quid s \<or> len \<le> 0 \<or> len > int MAX_MSG_LEN \<or> find_idx (\<lambda>m. \<not> m_valid m) (q_msg ?Q) = None \<or> q_count ?Q = int MAX_MSG")
    case True
    then have "sendmsg quid type ptr len s = msg_fail ?s" using fr by (auto simp: sendmsg_def Let_def)
    moreover have "msg_fail ?s = Some (-1, s\<lparr>sync := settle (sync s)\<rparr>)" using msg_fail_eq [OF y(1) fr, of ?s] by simp
    moreover have "msg_ready (s\<lparr>sync := settle (sync s)\<rparr>) r fs"
      using rd um_ok_settle [OF um_ok_lockd [OF um, of Lmsgq] _ y(2,1), of Lmsgq] by (simp add: msg_ready_def)
    moreover have "None \<notin> set (slots ?Q)" if "\<not> bad_queue quid s" "find_idx (\<lambda>m. \<not> m_valid m) (q_msg ?Q) = None \<or> q_count ?Q = int MAX_MSG"
      using that msgq_ok_nth [OF ok, of quid] count_where_full [of m_valid "q_msg ?Q"]
      by (auto simp: slots_def find_idx_None_iff queue_ok_def)
    ultimately show ?thesis using True
      by (intro exI [of _ "-1"] exI [of _ "s\<lparr>sync := settle (sync s)\<rparr>"] exI [of _ fs]) (auto simp del: not_less)
  next
    case False
    then obtain i where i: "find_idx (\<lambda>m. \<not> m_valid m) (q_msg ?Q) = Some i" and ln: "0 < len" "len \<le> int MAX_MSG_LEN"
      and g: "\<not> bad_queue quid s" "q_count ?Q \<noteq> int MAX_MSG" by auto
    obtain x :: int and bs s3 fs' m where r: "sendmsg quid type ptr len s =
          (if x < 0 then msg_fail (s3\<lparr>msgq := (msgq s)[?q := ?Q\<lparr>q_msg := (q_msg ?Q)[i := m]\<rparr>]\<rparr>)
           else do {
             s \<leftarrow> rel Lmsgq (s3\<lparr>msgq := (msgq s)[?q := ?Q\<lparr>q_msg := (q_msg ?Q)[i := m\<lparr>m_valid := True\<rparr>], q_count := q_count ?Q + 1\<rparr>]\<rparr>);
             Some (0, s)
           })"
        "um_ok s3 r fs'" "sync s3 = lockd Lmsgq (sync s)" "\<not> m_valid m" "m_type m = type" "m_len m = len" "x = 0 \<or> x = -1"
        "x = 0 \<Longrightarrow> length bs = nat len \<and> map (m_data m) [0..<nat len] = bs"
        "\<And>k. k < length bs \<Longrightarrow> uview (mem s) r (csz s) (ptr + of_nat k) = Some (bs ! k)"
        "x \<noteq> 0 \<Longrightarrow> \<exists>k. int k < len \<and> cant_read s r (ptr + of_nat k) fs'" "length fs \<le> length fs' + 3 * span ptr (word_of_int len)"
      by (rule sendmsg_run [OF rd g ln i, of type ptr]) (rule that, assumption+)
    have q: "?q < length (msgq s)" "queue_ok ?Q" using g(1) msgq_ok_nth [OF ok, of quid] by auto
    have il: "i < length (q_msg ?Q)" "\<not> m_valid (q_msg ?Q ! i)" using find_idx_SomeD [OF i] by auto
    have rd': "msg_ready (s3\<lparr>msgq := (msgq s)[?q := q'], sync := settle (sync s)\<rparr>) r fs'"
      if "queue_ok q'" "q_used q' = q_used ?Q" "q_key q' = q_key ?Q" for q'
      using msgq_ok_update [OF ok q(1) that] um_ok_settle [of "s3\<lparr>msgq := (msgq s)[?q := q']\<rparr>" r fs' Lmsgq "sync s"] r(2,3) y fr
      by (simp add: msg_ready_def um_ok_msgq)
    from r(7) show ?thesis
    proof
      assume x: "x = 0"
      let ?q' = "?Q\<lparr>q_msg := (q_msg ?Q)[i := m\<lparr>m_valid := True\<rparr>], q_count := q_count ?Q + 1\<rparr>"
      have "queue_ok ?q'" using queue_ok_fill [OF q(2) _ il] g(1) ln r(6) by simp
      moreover have "slots ?q' = (slots ?Q)[i := Some (type, bs)]" using r(5,6,8) x by (simp add: slots_def map_update)
      ultimately show ?thesis using r(1,3,8,9) x y(1) fr rd' [of ?q'] q(1) ln g i
        by (intro exI [of _ 0] exI [of _ "s3\<lparr>msgq := (msgq s)[?q := ?q'], sync := settle (sync s)\<rparr>"] exI [of _ fs'])
          (auto simp: rel_def sent_def map_update find_free r(11) intro!: exI [of _ i] exI [of _ bs])
    next
      assume x: "x = -1"
      let ?q' = "?Q\<lparr>q_msg := (q_msg ?Q)[i := m]\<rparr>"
      note h = queue_ok_half [OF q(2) il r(4)]
      have "(map slots (msgq s))[?q := slots ?Q] = map slots (msgq s)" using q(1) by (metis list_update_id nth_map)
      then show ?thesis using r(1,3) x y(1) fr rd' [of ?q'] h msg_fail_eq [of "sync s"] r(10,11)
        by (intro exI [of _ "-1"] exI [of _ "s3\<lparr>msgq := (msgq s)[?q := ?q'], sync := settle (sync s)\<rparr>"] exI [of _ fs']) (simp add: map_update)
    qed
  qed
qed

section \<open>\<open>recvmsg\<close>\<close>

lemma find_typed: "find_idx (\<lambda>x. \<exists>bs. x = Some (type, bs)) (slots q) = find_idx (\<lambda>m. m_valid m \<and> m_type m = type) (q_msg q)"
  by (auto simp: slots_def find_idx_map msg_of_def intro!: arg_cong [where f = "\<lambda>P. find_idx P _"])

lemma queue_ok_clear:
  assumes "queue_ok q" "i < length (q_msg q)" "m_valid (q_msg q ! i)" "\<not> m_valid m"
  shows "queue_ok (q\<lparr>q_msg := (q_msg q)[i := m], q_count := q_count q - 1\<rparr>)"
proof -
  note c = count_where_update [OF assms(2), of m_valid m]
  have "q_used q" using assms(1,3,4) c by (auto simp: queue_ok_def)
  then show ?thesis using assms c by (auto simp: queue_ok_def dest!: subsetD [OF set_update_subset_insert])
qed

definition received :: "kstate \<Rightarrow> addr \<Rightarrow> int \<Rightarrow> int \<Rightarrow> addr \<Rightarrow> int \<Rightarrow> int \<Rightarrow> kstate \<Rightarrow> bool" where
  "received s r quid type ptr bufflen x s' \<longleftrightarrow>
     (\<exists>i bs. find_idx (\<lambda>x. \<exists>bs. x = Some (type, bs)) (slots (msgq s ! nat quid)) = Some i \<and> slots (msgq s ! nat quid) ! i = Some (type, bs) \<and>
        0 \<le> bufflen \<and> x = min (int (length bs)) bufflen \<and>
        map slots (msgq s') = (map slots (msgq s))[nat quid := (slots (msgq s ! nat quid))[i := None]] \<and>
        (\<forall>b. uview (mem s') r (csz s) b = (if unat (b - ptr) < nat x then Some (bs ! unat (b - ptr)) else uview (mem s) r (csz s) b)))"

lemma word_of_neg: "- (2 ^ 31) \<le> n \<Longrightarrow> n < 0 \<Longrightarrow> 2 ^ 38 < unat (word_of_int n :: addr)"
proof -
  assume n: "- (2 ^ 31) \<le> n" "n < 0"
  have "n mod 2 ^ 64 = n + 2 ^ 64" using n by (subst mod_add_self2 [symmetric], intro mod_pos_pos_trivial) auto
  then have "uint (word_of_int n :: addr) = n + 2 ^ 64" by (simp add: uint_word_of_int)
  then show ?thesis using n by (simp add: unat_eq_nat_uint)
qed

text \<open>The run of \<open>recvmsg\<close> once a message is found.\<close>

lemma recvmsg_run:
  assumes rd: "msg_ready s r fs" and g: "\<not> bad_queue quid s"
    and i: "find_idx (\<lambda>m. m_valid m \<and> m_type m = type) (q_msg (msgq s ! nat quid)) = Some i"
    and n: "n = min (m_len (q_msg (msgq s ! nat quid) ! i)) bufflen"
  obtains x :: int and k s3 fs' where
    "recvmsg quid type ptr bufflen s =
      (if x < 0 then msg_fail s3
       else do {
         s \<leftarrow> rel Lmsgq (s3\<lparr>msgq := (msgq s)[nat quid := (msgq s ! nat quid)\<lparr>q_msg := (q_msg (msgq s ! nat quid))
            [i := (q_msg (msgq s ! nat quid) ! i)\<lparr>m_valid := False\<rparr>], q_count := q_count (msgq s ! nat quid) - 1\<rparr>]\<rparr>);
         Some (n, s)
       })"
    "um_ok s3 r fs'" "sync s3 = lockd Lmsgq (sync s)" "msgq s3 = msgq s"
    "\<And>b. uview (mem s3) r (csz s) b = (if unat (b - ptr) < k then Some (m_data (q_msg (msgq s ! nat quid) ! i) (unat (b - ptr))) else uview (mem s) r (csz s) b)"
    "copied (unat (word_of_int n :: addr)) k x (cant_write s r (ptr + of_nat k) fs')" "k = 0 \<or> k \<le> 2 ^ 38" "length fs \<le> length fs' + 3 * span ptr (word_of_int n)"
proof -
  have um: "um_ok s r fs" and fr: "is_free Lmsgq (sync s)" and ok: "msgq_ok (msgq s)" using rd by (auto simp: msg_ready_def)
  let ?s = "s\<lparr>sync := lockd Lmsgq (sync s)\<rparr>" and ?q = "nat quid" and ?Q = "msgq s ! nat quid"
  let ?m = "q_msg ?Q ! i"
  have q: "?q < length (msgq s)" using g msgq_ok_nth [OF ok, of quid] by auto
  have il: "i < length (q_msg ?Q)" using find_idx_SomeD [OF i] by auto
  have um1: "um_ok ?s r fs" by (rule um_ok_lockd [OF um]) simp
  obtain p where p: "myproc ?s = Some p" "p_pagetable (procs ?s p) = r" using um_ok_proc [OF um1] by blast
  have n0: "c_noff (mycpu (sync ?s)) \<noteq> 0" using um_ok_ready [OF um] by (simp add: sync_ok_def)
  obtain x k s3 fs' where c: "copyout r ptr (m_data ?m) (word_of_int n) ?s = Some (x, s3)" "um_write r ?s fs ptr (m_data ?m) k s3 fs'" "sync s3 = sync ?s"
      "copied (unat (word_of_int n :: addr)) k x (cant_write ?s r (ptr + of_nat k) fs')" "k = 0 \<or> unat ptr + k \<le> 2 ^ 38" "length fs \<le> length fs' + 3 * span ptr (word_of_int n)"
    by (rule copyout_locked [OF um1 n0, of ptr "m_data ?m" "word_of_int n"]) (rule that, assumption+)
  have st: "mem_step ?s s3" "um_ok s3 r fs'" using c(2) by (auto simp: um_write_def)
  have keep: "msgq s3 = msgq s" using mem_step_keeps(2) [OF st(1)] by simp
  have cz: "csz ?s = csz s" by (simp add: myproc_def)
  have v: "uview (mem s3) r (csz s) b = (if unat (b - ptr) < k then Some (m_data ?m (unat (b - ptr))) else uview (mem s) r (csz s) b)" for b
    using c(2) unfolding um_write_def cz by simp
  have cp: "copied (unat (word_of_int n :: addr)) k x (cant_write s r (ptr + of_nat k) fs')" using c(4) unfolding cant_write_def cz by simp
  have len: "(if m_len ?m < bufflen then m_len ?m else bufflen) = n" by (simp add: n)
  have run: "recvmsg quid type ptr bufflen s =
      (if x < 0 then msg_fail s3
       else do {
         s \<leftarrow> rel Lmsgq (s3\<lparr>msgq := (msgq s)[?q := ?Q\<lparr>q_msg := (q_msg ?Q)[i := ?m\<lparr>m_valid := False\<rparr>], q_count := q_count ?Q - 1\<rparr>]\<rparr>);
         Some (n, s)
       })"
    using fr g i q il p c(1) keep len by (simp add: recvmsg_def Let_def)
  show thesis by (rule that [OF run st(2) _ keep v cp _ c(6)]) (use c(3,5) in auto)
qed

lemma recvmsg_spec:
  assumes rd: "msg_ready s r fs" and bl: "- (2 ^ 31) \<le> bufflen"
  shows "\<exists>x s' fs'. recvmsg quid type ptr bufflen s = Some (x, s') \<and> msg_ready s' r fs' \<and>
     (0 \<le> x \<and> received s r quid type ptr bufflen x s' \<or>
      x = -1 \<and> map slots (msgq s') = map slots (msgq s) \<and>
      (bad_queue quid s \<or> (\<forall>bs. Some (type, bs) \<notin> set (slots (msgq s ! nat quid))) \<or> bufflen < 0 \<or>
       (\<exists>k. int k < bufflen \<and> k < MAX_MSG_LEN \<and> cant_write s r (ptr + of_nat k) fs' \<and> length fs \<le> length fs' + 6)))"
proof -
  have um: "um_ok s r fs" and fr: "is_free Lmsgq (sync s)" and ok: "msgq_ok (msgq s)" using rd by (auto simp: msg_ready_def)
  have y: "sync_ok (sync s)" "is_free Lkmem (sync s)" using um_ok_ready [OF um] by auto
  let ?s = "s\<lparr>sync := lockd Lmsgq (sync s)\<rparr>" and ?q = "nat quid" and ?Q = "msgq s ! nat quid"
  show ?thesis
  proof (cases "bad_queue quid s \<or> find_idx (\<lambda>m. m_valid m \<and> m_type m = type) (q_msg ?Q) = None")
    case True
    then have "recvmsg quid type ptr bufflen s = msg_fail ?s" using fr by (auto simp: recvmsg_def Let_def)
    moreover have "msg_fail ?s = Some (-1, s\<lparr>sync := settle (sync s)\<rparr>)" using msg_fail_eq [OF y(1) fr, of ?s] by simp
    moreover have "msg_ready (s\<lparr>sync := settle (sync s)\<rparr>) r fs"
      using rd um_ok_settle [OF um_ok_lockd [OF um, of Lmsgq] _ y(2,1), of Lmsgq] by (simp add: msg_ready_def)
    moreover have "\<forall>bs. Some (type, bs) \<notin> set (slots ?Q)" if "find_idx (\<lambda>m. m_valid m \<and> m_type m = type) (q_msg ?Q) = None"
      using that unfolding find_typed [symmetric] find_idx_None_iff by blast
    ultimately show ?thesis using True by auto
  next
    case False
    then obtain i where i: "find_idx (\<lambda>m. m_valid m \<and> m_type m = type) (q_msg ?Q) = Some i" and g: "\<not> bad_queue quid s" by auto
    let ?m = "q_msg ?Q ! i"
    define n where "n = min (m_len ?m) bufflen"
    have q: "?q < length (msgq s)" "queue_ok ?Q" using g msgq_ok_nth [OF ok, of quid] by auto
    have il: "i < length (q_msg ?Q)" "m_valid ?m" "m_type ?m = type" using find_idx_SomeD [OF i] by auto
    then have ml: "0 < m_len ?m" "m_len ?m \<le> int MAX_MSG_LEN" using q(2) by (auto simp: queue_ok_def)
    let ?q' = "?Q\<lparr>q_msg := (q_msg ?Q)[i := ?m\<lparr>m_valid := False\<rparr>], q_count := q_count ?Q - 1\<rparr>"
    show ?thesis
    proof (rule recvmsg_run [OF rd g i n_def, of ptr])
      fix x :: int and k s3 fs'
      assume r: "recvmsg quid type ptr bufflen s =
          (if x < 0 then msg_fail s3 else do { s \<leftarrow> rel Lmsgq (s3\<lparr>msgq := (msgq s)[?q := ?q']\<rparr>); Some (n, s) })"
        "um_ok s3 r fs'" "sync s3 = lockd Lmsgq (sync s)" "msgq s3 = msgq s"
        "\<And>b. uview (mem s3) r (csz s) b = (if unat (b - ptr) < k then Some (m_data ?m (unat (b - ptr))) else uview (mem s) r (csz s) b)"
        "copied (unat (word_of_int n :: addr)) k x (cant_write s r (ptr + of_nat k) fs')" "k = 0 \<or> k \<le> 2 ^ 38" "length fs \<le> length fs' + 3 * span ptr (word_of_int n)"
      have rd': "msg_ready (s3\<lparr>msgq := qs, sync := settle (sync s)\<rparr>) r fs'" if "msgq_ok qs" for qs
        using um_ok_settle [of "s3\<lparr>msgq := qs\<rparr>" r fs' Lmsgq "sync s"] r(2,3) y fr that by (simp add: msg_ready_def um_ok_msgq)
      have neg: "x = -1" if "bufflen < 0" using r(6,7) word_of_neg [OF bl that] that ml by (auto simp: copied_def n_def)
      show ?thesis
      proof (cases "x = 0")
        case True
        then have b0: "0 \<le> bufflen" using neg by (cases "bufflen < 0") auto
        then have n: "0 \<le> n" "n \<le> int MAX_MSG_LEN" using ml by (auto simp: n_def)
        have b: "0 \<le> bufflen" "k = nat n" using b0 r(6) len_unat [OF n] True by (simp_all add: copied_def)
        have sl: "slots ?q' = (slots ?Q)[i := None]" by (simp add: slots_def map_update)
        have "msgq_ok ((msgq s)[?q := ?q'])" by (rule msgq_ok_update [OF ok q(1) queue_ok_clear [OF q(2) il(1,2)]]) simp_all
        then have m: "msg_ready (s3\<lparr>msgq := (msgq s)[?q := ?q'], sync := settle (sync s)\<rparr>) r fs'" by (rule rd')
        have "received s r quid type ptr bufflen n (s3\<lparr>msgq := (msgq s)[?q := ?q'], sync := settle (sync s)\<rparr>)"
          unfolding received_def find_typed
        proof (intro exI [of _ i] exI [of _ "map (m_data ?m) [0..<nat (m_len ?m)]"] conjI allI)
          show "uview (mem (s3\<lparr>msgq := (msgq s)[?q := ?q'], sync := settle (sync s)\<rparr>)) r (csz s) a =
              (if unat (a - ptr) < nat n then Some (map (m_data ?m) [0..<nat (m_len ?m)] ! unat (a - ptr)) else uview (mem s) r (csz s) a)" for a
            using r(5) [of a] b(2) by (simp add: n_def)
        qed (use i il b(1) ml sl in \<open>auto simp: slots_def map_update n_def\<close>)
        then show ?thesis using r(1,3) True y(1) fr m b(1) ml by (auto simp: rel_def n_def)
      next
        case False
        then have "x = -1" "k < unat (word_of_int n :: addr)" "cant_write s r (ptr + of_nat k) fs'" using r(6) by (auto simp: copied_def)
        moreover have "int k < bufflen \<and> k < MAX_MSG_LEN \<and> length fs \<le> length fs' + 6" if "0 \<le> bufflen"
        proof -
          have n: "0 \<le> n" "n \<le> int MAX_MSG_LEN" "n \<le> bufflen" using ml that by (auto simp: n_def)
          have "int k < n" using calculation(2) len_unat [OF n(1,2)] n(1) by simp
          moreover have "span ptr (word_of_int n) \<le> 2" using len_unat [OF n(1,2)] n(1,2) by (intro span_small) (simp add: MAX_MSG_LEN_def)
          ultimately show ?thesis using n(2,3) r(8) by simp
        qed
        moreover have "msg_fail s3 = Some (-1, s3\<lparr>sync := settle (sync s)\<rparr>)" by (rule msg_fail_eq [OF y(1) fr r(3)])
        moreover have "msg_ready (s3\<lparr>sync := settle (sync s)\<rparr>) r fs'" using rd' [OF ok] unfolding r(4) [symmetric] by simp
        ultimately show ?thesis using r(1,4) by (intro exI [of _ "-1"] exI [of _ "s3\<lparr>sync := settle (sync s)\<rparr>"] exI [of _ fs']) (auto simp: not_less)
      qed
    qed
  qed
qed

section \<open>\<open>msgget\<close>, \<open>msgcount\<close> and the start\<close>

lemma um_settled: "um_ok s r fs \<Longrightarrow> um_ok (s\<lparr>sync := settle (sync s)\<rparr>) r fs"
  using um_ok_settle [OF um_ok_lockd [of s r fs Lmsgq], of Lmsgq "sync s"] um_ok_ready [of s r fs] by simp

lemma msgget_spec:
  assumes rd: "msg_ready s r fs"
  shows "\<exists>x s'. msgget key s = Some (x, s') \<and> msg_ready s' r fs \<and> map slots (msgq s') = map slots (msgq s) \<and>
     (x = -1 \<and> (\<forall>q\<in>set (msgq s). q_used q \<and> q_key q \<noteq> key) \<or>
      0 \<le> x \<and> x < int MAX_Q \<and> q_used (msgq s' ! nat x) \<and> q_key (msgq s' ! nat x) = key)"
proof -
  have um: "um_ok s r fs" and fr: "is_free Lmsgq (sync s)" and ok: "msgq_ok (msgq s)" using rd by (auto simp: msg_ready_def)
  have y: "sync_ok (sync s)" using um_ok_ready [OF um] by auto
  let ?t = "s\<lparr>sync := settle (sync s)\<rparr>"
  have rd': "msg_ready ?t r fs" using rd um_settled by (simp add: msg_ready_def)
  have len: "length (msgq s) = MAX_Q" using ok by (simp add: msgq_ok_def)
  show ?thesis
  proof (cases "find_idx (\<lambda>q. q_used q \<and> q_key q = key) (msgq s)")
    case (Some i)
    then have "msgget key s = Some (int i, ?t)" using fr y by (simp add: msgget_def)
    then show ?thesis using find_idx_SomeD [OF Some] rd' len by auto
  next
    case none: None
    show ?thesis
    proof (cases "find_idx (\<lambda>q. \<not> q_used q) (msgq s)")
      case None
      then have "msgget key s = Some (-1, ?t)" using fr y none by (simp add: msgget_def)
      then show ?thesis using None none rd' by (auto simp: find_idx_None_iff)
    next
      case (Some i)
      let ?q = "(msgq s ! i)\<lparr>q_used := True, q_key := key, q_count := 0\<rparr>"
      let ?u = "?t\<lparr>msgq := (msgq s)[i := ?q]\<rparr>"
      have i: "i < length (msgq s)" "\<not> q_used (msgq s ! i)" using find_idx_SomeD [OF Some] by auto
      have run: "msgget key s = Some (int i, ?u)" using fr y none Some by (simp add: msgget_def rel_def)
      have "queue_ok ?q" using ok i by (auto simp: msgq_ok_def queue_ok_def)
      moreover have "\<forall>j<MAX_Q. q_used (msgq s ! j) \<longrightarrow> q_key (msgq s ! j) \<noteq> key" using none len by (auto simp: find_idx_None_iff all_set_conv_all_nth)
      ultimately have "msgq_ok ((msgq s)[i := ?q])" using ok i
        by (auto simp: msgq_ok_def nth_list_update dest!: subsetD [OF set_update_subset_insert])
      then have "msg_ready ?u r fs" using rd' um_ok_msgq [where s = ?t and x = "(msgq s)[i := ?q]"] by (simp add: msg_ready_def)
      moreover have "map slots ((msgq s)[i := ?q]) = map slots (msgq s)"
        using i by (simp add: map_update slots_def) (metis (no_types, lifting) list_update_id nth_map slots_def)
      ultimately show ?thesis using run i len by auto
    qed
  qed
qed

lemma msgcount_spec:
  assumes rd: "msg_ready s r fs"
  shows "\<exists>x s'. msgcount quid s = Some (x, s') \<and> msg_ready s' r fs \<and> msgq s' = msgq s \<and>
    x = (if bad_queue quid s then -1 else int (count_where (\<lambda>m. m \<noteq> None) (slots (msgq s ! nat quid))))"
proof -
  have um: "um_ok s r fs" and fr: "is_free Lmsgq (sync s)" and ok: "msgq_ok (msgq s)" using rd by (auto simp: msg_ready_def)
  have y: "sync_ok (sync s)" using um_ok_ready [OF um] by auto
  let ?t = "s\<lparr>sync := settle (sync s)\<rparr>"
  have rd': "msg_ready ?t r fs" using rd um_settled by (simp add: msg_ready_def)
  have "count_where (\<lambda>m. m \<noteq> None) (slots q) = count_where m_valid (q_msg q)" for q
    by (simp add: count_where_def slots_def filter_map o_def msg_of_None del: not_None_eq)
  then have "msgcount quid s = Some (if bad_queue quid s then -1 else int (count_where (\<lambda>m. m \<noteq> None) (slots (msgq s ! nat quid))), ?t)"
    using fr y msgq_ok_nth [OF ok, of quid] by (auto simp: msgcount_def msg_fail_def Let_def queue_ok_def)
  then show ?thesis using rd' by simp
qed

lemma msginit_ok:
  assumes "length (msgq s) = MAX_Q" "\<forall>q\<in>set (msgq s). length (q_msg q) = MAX_MSG"
  shows "msgq_ok (msgq (msginit s))" "is_free Lmsgq (sync (msginit s))"
  using assms by (auto simp: msgq_ok_def msginit_def queue_ok_def count_where_def sync_defs filter_empty_conv)

section \<open>The contracts\<close>

text \<open>
  (C19) The message queue table stays well formed.  Ten queues of ten slots, each slot that is in use holding between 1 and 128
  bytes, the counter of each queue equal to the number of its messages, unused queues empty, and no two used queues with the same key:
  \<open>msginit\<close> establishes this, and each of the four system calls, whatever its arguments, returns and keeps it, with the
  lock released and the memory of the process in order; \<open>msgget\<close> returns the queue with the key unless all ten belong to other keys, and
  \<open>msgcount\<close> the number of messages.
\<close>

theorem msgq_well_formed:
  "(length (msgq s) = MAX_Q \<and> (\<forall>q\<in>set (msgq s). length (q_msg q) = MAX_MSG) \<longrightarrow> msgq_ok (msgq (msginit s))) \<and>
   (msg_ready s r fs \<longrightarrow>
     (\<exists>x s'. msgget key s = Some (x, s') \<and> msg_ready s' r fs \<and>
        (x = -1 \<and> (\<forall>q\<in>set (msgq s). q_used q \<and> q_key q \<noteq> key) \<or>
         0 \<le> x \<and> x < int MAX_Q \<and> q_used (msgq s' ! nat x) \<and> q_key (msgq s' ! nat x) = key)) \<and>
     (\<exists>x s' fs'. sendmsg quid type ptr len s = Some (x, s') \<and> msg_ready s' r fs') \<and>
     (- (2 ^ 31) \<le> bufflen \<longrightarrow> (\<exists>x s' fs'. recvmsg quid type ptr bufflen s = Some (x, s') \<and> msg_ready s' r fs')) \<and>
     (\<exists>x s'. msgcount quid s = Some (x, s') \<and> msg_ready s' r fs \<and>
        x = (if bad_queue quid s then -1 else int (count_where (\<lambda>m. m \<noteq> None) (slots (msgq s ! nat quid))))))"
proof (intro conjI impI)
  assume "msg_ready s r fs"
  note rd = this
  show "\<exists>x s'. msgget key s = Some (x, s') \<and> msg_ready s' r fs \<and>
        (x = -1 \<and> (\<forall>q\<in>set (msgq s). q_used q \<and> q_key q \<noteq> key) \<or>
         0 \<le> x \<and> x < int MAX_Q \<and> q_used (msgq s' ! nat x) \<and> q_key (msgq s' ! nat x) = key)"
    using msgget_spec [OF rd, of key] by blast
  show "\<exists>x s' fs'. sendmsg quid type ptr len s = Some (x, s') \<and> msg_ready s' r fs'" using sendmsg_spec [OF rd] by blast
  show "\<exists>x s' fs'. recvmsg quid type ptr bufflen s = Some (x, s') \<and> msg_ready s' r fs'" if "- (2 ^ 31) \<le> bufflen"
    using recvmsg_spec [OF rd that] by blast
  show "\<exists>x s'. msgcount quid s = Some (x, s') \<and> msg_ready s' r fs \<and>
        x = (if bad_queue quid s then -1 else int (count_where (\<lambda>m. m \<noteq> None) (slots (msgq s ! nat quid))))"
    using msgcount_spec [OF rd] by blast
qed (use msginit_ok in blast)

text \<open>
  (C18) A message that was sent is received.  If \<open>sendmsg\<close> reports success and no other message of the type was in
  the queue, then the next \<open>recvmsg\<close> for that type, by whichever process and however the memory changed meanwhile, gives the receiver, at its
  buffer, exactly the bytes the sender saw when it sent them, cut to the size of the buffer, and empties the slot again; it fails only if the
  buffer is not writable or memory runs out.
\<close>

theorem message_roundtrip:
  assumes "msg_ready s r fs" "sendmsg quid type p len s = Some (0, s1)" "\<forall>bs. Some (type, bs) \<notin> set (slots (msgq s ! nat quid))"
    and "msg_ready s2 r2 fs2" "msgq s2 = msgq s1" "0 \<le> bufflen"
  shows "\<exists>x s3. recvmsg quid type q bufflen s2 = Some (x, s3) \<and>
    (x = min len bufflen \<and> (\<forall>k<nat x. uview (mem s3) r2 (csz s2) (q + of_nat k) = uview (mem s) r (csz s) (p + of_nat k)) \<and>
       map slots (msgq s3) = map slots (msgq s) \<or>
     x = -1 \<and> (\<exists>k fs3. int k < bufflen \<and> k < MAX_MSG_LEN \<and> cant_write s2 r2 (q + of_nat k) fs3 \<and> length fs2 \<le> length fs3 + 6))"
proof -
  let ?Q = "msgq s ! nat quid"
  have sn: "sent s r quid type p len s1" using sendmsg_spec [OF assms(1), of quid type p len] assms(2) by auto
  then obtain i bs where i: "find_idx (\<lambda>x. x = None) (slots ?Q) = Some i" "length bs = nat len" "0 < len"
      "\<forall>k<nat len. uview (mem s) r (csz s) (p + of_nat k) = Some (bs ! k)"
      "map slots (msgq s1) = (map slots (msgq s))[nat quid := (slots ?Q)[i := Some (type, bs)]]"
      "0 \<le> quid" "quid < int MAX_Q" "q_used (msgq s1 ! nat quid)"
    unfolding sent_def by blast
  have ok: "msgq_ok (msgq s)" using assms(1) by (simp add: msg_ready_def)
  have q: "nat quid < length (msgq s)" using msgq_ok_nth [OF ok i(6,7)] by simp
  have il: "i < length (slots ?Q)" "slots ?Q ! i = None" using find_idx_SomeD [OF i(1)] by auto
  have l1: "length (msgq s1) = length (msgq s)" using arg_cong [OF i(5), of length] by simp
  have s1: "slots (msgq s1 ! nat quid) = (slots ?Q)[i := Some (type, bs)]"
    using arg_cong [OF i(5), of "\<lambda>xs. xs ! nat quid"] q l1 by simp
  have u1: "\<not> bad_queue quid s2" using i(6-8) assms(5) by simp
  have f: "find_idx (\<lambda>x. \<exists>bs. x = Some (type, bs)) (slots (msgq s1 ! nat quid)) = Some i"
    unfolding s1 using il assms(3) by (intro find_idx_unique) (auto simp: nth_list_update in_set_conv_nth split: if_splits)
  have bk: "(map slots (msgq s1))[nat quid := (slots (msgq s1 ! nat quid))[i := None]] = map slots (msgq s)"
    using il q unfolding i(5) s1 by (simp add: nth_list_update) (metis list_update_id nth_map)
  have "- (2 ^ 31) \<le> bufflen" using assms(6) by simp
  then obtain x s3 fs3 where x: "recvmsg quid type q bufflen s2 = Some (x, s3)"
      "0 \<le> x \<and> received s2 r2 quid type q bufflen x s3 \<or>
       x = -1 \<and> (bad_queue quid s2 \<or> (\<forall>bs. Some (type, bs) \<notin> set (slots (msgq s2 ! nat quid))) \<or> bufflen < 0 \<or>
       (\<exists>k. int k < bufflen \<and> k < MAX_MSG_LEN \<and> cant_write s2 r2 (q + of_nat k) fs3 \<and> length fs2 \<le> length fs3 + 6))"
    using recvmsg_spec [OF assms(4), of bufflen quid type q] by blast
  have "Some (type, bs) \<in> set (slots (msgq s2 ! nat quid))" using il(1) by (simp add: assms(5) s1 set_update_memI)
  moreover have "x = min len bufflen \<and> (\<forall>k<nat x. uview (mem s3) r2 (csz s2) (q + of_nat k) = uview (mem s) r (csz s) (p + of_nat k)) \<and>
       map slots (msgq s3) = map slots (msgq s)" if r: "received s2 r2 quid type q bufflen x s3"
  proof -
    have at: "slots (msgq s2 ! nat quid) ! i = Some (type, bs)" using il(1) by (simp add: assms(5) s1)
    have e: "x = min (int (length bs)) bufflen" "map slots (msgq s3) = map slots (msgq s)"
        "\<And>b. uview (mem s3) r2 (csz s2) b = (if unat (b - q) < nat x then Some (bs ! unat (b - q)) else uview (mem s2) r2 (csz s2) b)"
      using r f at bk unfolding received_def assms(5) by auto
    have xl: "nat x \<le> nat len" "x = min len bufflen" using e(1) i(2,3) by auto
    have "uview (mem s3) r2 (csz s2) (q + of_nat k) = uview (mem s) r (csz s) (p + of_nat k)" if "k < nat x" for k
    proof -
      have "nat len \<le> 128" using sn by (auto simp: sent_def MAX_MSG_LEN_def)
      then have "unat (q + of_nat k - q) = k" using that xl(1) by simp
      then show ?thesis using e(3) i(4) that xl(1) by simp
    qed
    then show ?thesis using xl(2) e(2) by blast
  qed
  moreover have "\<not> bufflen < 0" using assms(6) by simp
  ultimately show ?thesis using x u1 by (intro exI [of _ x] exI [of _ s3] conjI) blast+
qed

section \<open>Instances\<close>

text \<open>The machine of \<open>vmstate0\<close> with one queue in use.\<close>

definition msgstate0 :: kstate where
  "msgstate0 = vmstate0\<lparr>msgq := (msgq kstate0)[0 := (msgq kstate0 ! 0)\<lparr>q_used := True, q_key := 5\<rparr>]\<rparr>"

lemma msgstate0_facts: "msg_ready msgstate0 0x87ff0000 frees0" "csz msgstate0 = 8192" "mem msgstate0 = mem vmstate0"
  "slots (msgq msgstate0 ! 0) = replicate 10 None" "q_used (msgq msgstate0 ! 0)"
proof -
  have "msgq_ok (msgq msgstate0)"
    by (auto simp: msgstate0_def vmstate0_def kstate0_def msgq_ok_def queue_ok_def count_where_def MAX_Q_def MAX_MSG_def nth_list_update
        nth_replicate dest!: subsetD [OF set_update_subset_insert])
  moreover have "is_free Lmsgq (sync msgstate0)" by (simp add: msgstate0_def vmstate0_def sync0_def sync_defs)
  ultimately show "msg_ready msgstate0 0x87ff0000 frees0" using um_ok_vmstate0 by (simp add: msg_ready_def msgstate0_def um_ok_msgq)
  show "csz msgstate0 = 8192" "mem msgstate0 = mem vmstate0" using vmstate0_view(1) by (simp_all add: msgstate0_def myproc_def)
  show "slots (msgq msgstate0 ! 0) = replicate 10 None" "q_used (msgq msgstate0 ! 0)"
    by (simp_all add: msgstate0_def vmstate0_def kstate0_def slots_def MAX_Q_def MAX_MSG_def)
qed

text \<open>The program can read and write its memory there.\<close>

lemma msgstate0_access:
  assumes "k < 2" "1 < length fs"
  shows "\<not> cant_read msgstate0 0x87ff0000 (0x1000 + of_nat k) fs" "\<not> cant_write msgstate0 0x87ff0000 (0x1000 + of_nat k) fs"
proof -
  have p: "0x1000 + of_nat k < MAXVA" "PGROUNDDOWN (0x1000 + of_nat k) < 8192"
    using assms(1) by (auto simp: MAXVA_unat word_less_nat_alt PGROUNDDOWN_unat less_2_cases_iff)
  show "\<not> cant_read msgstate0 0x87ff0000 (0x1000 + of_nat k) fs" "\<not> cant_write msgstate0 0x87ff0000 (0x1000 + of_nat k) fs"
    using p assms(2) by (simp_all add: cant_read_def cant_write_def uview_def uwritable_def msgstate0_facts(2,3) vmstate0_facts(3))
qed

theorem msgq_well_formed_witness:
  "\<exists>x s' fs'. sendmsg 0 7 0x1000 2 msgstate0 = Some (x, s') \<and> msg_ready s' 0x87ff0000 fs'"
  using msgq_well_formed [of msgstate0 "0x87ff0000" frees0 5 0 7 "0x1000" 2 10] msgstate0_facts(1) by blast

theorem message_roundtrip_witness:
  "\<exists>s1 s3. sendmsg 0 7 0x1000 2 msgstate0 = Some (0, s1) \<and> recvmsg 0 7 0x1000 2 (msgstate0\<lparr>msgq := msgq s1\<rparr>) = Some (2, s3) \<and>
     uview (mem s3) 0x87ff0000 8192 0x1001 = uview (mem msgstate0) 0x87ff0000 8192 0x1001"
proof -
  have sp: "span 0x1000 2 = 1" by (simp add: span_def)
  obtain x s1 fs1 where s: "sendmsg 0 7 0x1000 2 msgstate0 = Some (x, s1)" "msg_ready s1 0x87ff0000 fs1"
      "x = 0 \<or> x = -1 \<and> (\<exists>k. int k < 2 \<and> cant_read msgstate0 0x87ff0000 (0x1000 + of_nat k) fs1)" "length frees0 \<le> length fs1 + 3 * 1"
    using sendmsg_spec [OF msgstate0_facts(1), of 0 7 "0x1000" 2] msgstate0_facts(4,5) sp by (auto simp: MAX_Q_def MAX_MSG_LEN_def)
  have "x = 0" using s(3,4) msgstate0_access(1) by (fastforce simp: frees0_def)
  let ?s2 = "msgstate0\<lparr>msgq := msgq s1\<rparr>"
  have rd: "msg_ready ?s2 0x87ff0000 frees0" using msgstate0_facts(1) s(2) by (simp add: msg_ready_def um_ok_msgq)
  have no: "\<forall>bs. Some (7, bs) \<notin> set (slots (msgq msgstate0 ! nat 0))" using msgstate0_facts(4) by simp
  have cz: "csz ?s2 = 8192" using msgstate0_facts(2) by (simp add: myproc_def)
  have cw: "cant_write ?s2 r b fs = cant_write msgstate0 r b fs" for r b fs using cz msgstate0_facts(2) unfolding cant_write_def by simp
  obtain y s3 where r: "recvmsg 0 7 0x1000 2 ?s2 = Some (y, s3)"
    "y = min 2 2 \<and> (\<forall>k<nat y. uview (mem s3) 0x87ff0000 8192 (0x1000 + of_nat k) = uview (mem msgstate0) 0x87ff0000 8192 (0x1000 + of_nat k)) \<or>
     (\<exists>k fs3. int k < 2 \<and> cant_write msgstate0 0x87ff0000 (0x1000 + of_nat k) fs3 \<and> length frees0 \<le> length fs3 + 6)"
    using message_roundtrip [OF msgstate0_facts(1), of 0 7 "0x1000" 2 s1 ?s2 "0x87ff0000" frees0 2 "0x1000"] s(1) \<open>x = 0\<close> no rd
    unfolding cz cw msgstate0_facts(2) by auto
  then have y: "y = min 2 2" "\<forall>k<nat y. uview (mem s3) 0x87ff0000 8192 (0x1000 + of_nat k) = uview (mem msgstate0) 0x87ff0000 8192 (0x1000 + of_nat k)"
    using msgstate0_access(2) by (fastforce simp: frees0_def)+
  show ?thesis using s(1) \<open>x = 0\<close> r(1) y(1) spec [OF y(2), of 1] by simp
qed

end
