(* ===== verification/PipeSpec.thy ===== *)
theory PipeSpec
  imports Pipe Switch UserCopy
begin

text \<open>
  Pipes are bounded queues of bytes.  The ring buffer with its two free-running 32-bit counters implements a list of at most 512
  bytes, also when the counters wrap around; \<open>pipewrite\<close> appends bytes of the writer's memory, \<open>piperead\<close> takes bytes from the front
  into the reader's.
\<close>

section \<open>Bounded queues\<close>

locale fifo =
  fixes ok :: "'q \<Rightarrow> bool" and contents :: "'q \<Rightarrow> 'a list" and cap :: nat
    and full :: "'q \<Rightarrow> bool" and empty :: "'q \<Rightarrow> bool" and push :: "'a \<Rightarrow> 'q \<Rightarrow> 'q" and front :: "'q \<Rightarrow> 'a" and pop :: "'q \<Rightarrow> 'q"
  assumes bounded: "ok q \<Longrightarrow> length (contents q) \<le> cap"
    and full_iff: "ok q \<Longrightarrow> full q \<longleftrightarrow> length (contents q) = cap"
    and empty_iff: "ok q \<Longrightarrow> empty q \<longleftrightarrow> contents q = []"
    and push_ok: "ok q \<Longrightarrow> \<not> full q \<Longrightarrow> ok (push x q) \<and> contents (push x q) = contents q @ [x]"
    and front_hd: "ok q \<Longrightarrow> \<not> empty q \<Longrightarrow> front q = hd (contents q)"
    and pop_ok: "ok q \<Longrightarrow> \<not> empty q \<Longrightarrow> ok (pop q) \<and> contents (pop q) = tl (contents q)"
begin

lemma pop_front: "ok q \<Longrightarrow> \<not> empty q \<Longrightarrow> contents q = front q # contents (pop q)"
  using front_hd [of q] pop_ok [of q] empty_iff [of q] by simp

lemma push_all: "ok q \<Longrightarrow> length (contents q) + length xs \<le> cap \<Longrightarrow> ok (fold push xs q) \<and> contents (fold push xs q) = contents q @ xs"
proof (induction xs arbitrary: q)
  case (Cons x xs)
  then have "\<not> full q" using full_iff by simp
  then show ?case using Cons.IH [of "push x q"] Cons.prems push_ok [of q x] by simp
qed simp

text \<open>What goes in comes out in order.\<close>

lemma fifo_order: "ok q \<Longrightarrow> contents q = [] \<Longrightarrow> length xs \<le> cap \<Longrightarrow> xs \<noteq> [] \<Longrightarrow> front (fold push xs q) = hd xs \<and> contents (pop (fold push xs q)) = tl xs"
  using push_all [of q xs] front_hd [of "fold push xs q"] pop_ok [of "fold push xs q"] empty_iff [of "fold push xs q"] by simp

end

section \<open>The ring buffer\<close>

definition pipe_len :: "pipe \<Rightarrow> nat" where
  "pipe_len p = unat (pi_nwrite p - pi_nread p)"

definition pipe_ok :: "pipe \<Rightarrow> bool" where
  "pipe_ok p \<longleftrightarrow> pipe_len p \<le> PIPESIZE"

definition pipe_bytes :: "pipe \<Rightarrow> byte list" where
  "pipe_bytes p = map (\<lambda>k. pi_data p ((unat (pi_nread p) + k) mod PIPESIZE)) [0..<pipe_len p]"

definition pipe_push :: "byte \<Rightarrow> pipe \<Rightarrow> pipe" where
  "pipe_push ch p = p\<lparr>pi_data := (pi_data p)(unat (pi_nwrite p) mod PIPESIZE := ch), pi_nwrite := pi_nwrite p + 1\<rparr>"

definition pipe_pop :: "pipe \<Rightarrow> pipe" where
  "pipe_pop p = p\<lparr>pi_nread := pi_nread p + 1\<rparr>"

definition pipe_front :: "pipe \<Rightarrow> byte" where
  "pipe_front p = pi_data p (unat (pi_nread p) mod PIPESIZE)"

text \<open>The size of the buffer divides \<open>2 ^ 32\<close>, so that the wrap-around of the counters does not disturb the positions.\<close>

lemma pos_add: "unat (a + of_nat k :: 32 word) mod PIPESIZE = (unat a + k) mod PIPESIZE"
proof -
  have d: "x mod 4294967296 mod 512 = x mod 512" for x :: nat by (rule mod_mod_cancel) simp
  show ?thesis by (simp add: PIPESIZE_def unat_word_ariths unat_of_nat d mod_add_right_eq)
qed

lemma ring_positions: "k < l \<Longrightarrow> l < n \<Longrightarrow> (a + k) mod n \<noteq> (a + l) mod (n :: nat)"
proof
  assume k: "k < l" and l: "l < n" and e: "(a + k) mod n = (a + l) mod n"
  have "n dvd (a + l) - (a + k)" using e k by (metis add_le_mono1 add.commute less_imp_le_nat mod_eq_dvd_iff_nat)
  then have "n dvd l - k" by simp
  then show False using k l by (auto dest: dvd_imp_le)
qed

lemma pipe_len_push: "pipe_len p < PIPESIZE \<Longrightarrow> pipe_len (pipe_push ch p) = Suc (pipe_len p)"
proof -
  assume a: "pipe_len p < PIPESIZE"
  have "unat (pi_nwrite p - pi_nread p + 1) = Suc (unat (pi_nwrite p - pi_nread p))"
    using a by (simp add: pipe_len_def PIPESIZE_def unat_plus_if')
  then show ?thesis by (simp add: pipe_len_def pipe_push_def algebra_simps)
qed

lemma pipe_len_pop: "pipe_len p \<noteq> 0 \<Longrightarrow> pipe_len (pipe_pop p) = pipe_len p - 1"
proof -
  assume "pipe_len p \<noteq> 0"
  then have "unat (pi_nwrite p - pi_nread p - 1) = unat (pi_nwrite p - pi_nread p) - 1" by (intro unat_minus_one) (auto simp: pipe_len_def)
  then show ?thesis by (simp add: pipe_len_def pipe_pop_def algebra_simps)
qed

lemma pipe_bytes_push: "pipe_len p < PIPESIZE \<Longrightarrow> pipe_bytes (pipe_push ch p) = pipe_bytes p @ [ch]"
proof -
  assume a: "pipe_len p < PIPESIZE"
  have w: "unat (pi_nwrite p) mod PIPESIZE = (unat (pi_nread p) + pipe_len p) mod PIPESIZE"
    using pos_add [of "pi_nread p" "pipe_len p"] by (simp add: pipe_len_def)
  have "(unat (pi_nread p) + k) mod PIPESIZE \<noteq> (unat (pi_nread p) + pipe_len p) mod PIPESIZE" if "k < pipe_len p" for k
    using that a by (rule ring_positions)
  then have "map (\<lambda>k. pi_data (pipe_push ch p) ((unat (pi_nread p) + k) mod PIPESIZE)) [0..<pipe_len p] = pipe_bytes p"
    by (simp add: pipe_push_def w pipe_bytes_def)
  moreover have "pi_data (pipe_push ch p) ((unat (pi_nread p) + pipe_len p) mod PIPESIZE) = ch" by (simp add: pipe_push_def w)
  moreover have "pi_nread (pipe_push ch p) = pi_nread p" by (simp add: pipe_push_def)
  ultimately show ?thesis using pipe_len_push [OF a] by (simp add: pipe_bytes_def)
qed

lemma pipe_bytes_pop: "pipe_len p \<noteq> 0 \<Longrightarrow> pipe_bytes (pipe_pop p) = tl (pipe_bytes p) \<and> pipe_front p = hd (pipe_bytes p)"
proof -
  assume a: "pipe_len p \<noteq> 0"
  then obtain l where l: "pipe_len p = Suc l" by (cases "pipe_len p") auto
  have "pi_data p ((unat (pi_nread p + 1) + k) mod PIPESIZE) = pi_data p ((unat (pi_nread p) + Suc k) mod PIPESIZE)" for k
    using pos_add [of "pi_nread p + 1" k] pos_add [of "pi_nread p" "Suc k"] by (simp add: algebra_simps)
  then have "pipe_bytes (pipe_pop p) = map (\<lambda>k. pi_data p ((unat (pi_nread p) + Suc k) mod PIPESIZE)) [0..<l]"
    using pipe_len_pop [OF a] l by (simp add: pipe_bytes_def pipe_pop_def)
  moreover have "pipe_bytes p = pipe_front p # map (\<lambda>k. pi_data p ((unat (pi_nread p) + Suc k) mod PIPESIZE)) [0..<l]"
    unfolding pipe_bytes_def l upt_conv_Cons [OF zero_less_Suc] map_Suc_upt [symmetric] by (simp add: pipe_front_def)
  ultimately show ?thesis by simp
qed

interpretation pq: fifo pipe_ok pipe_bytes PIPESIZE "\<lambda>p. pi_nwrite p = pi_nread p + of_nat PIPESIZE" "\<lambda>p. pi_nread p = pi_nwrite p" pipe_push pipe_front pipe_pop
proof
  fix q x
  assume ok: "pipe_ok q"
  have l: "length (pipe_bytes q) = pipe_len q" by (simp add: pipe_bytes_def)
  show "length (pipe_bytes q) \<le> PIPESIZE" using ok l by (simp add: pipe_ok_def)
  show f: "(pi_nwrite q = pi_nread q + of_nat PIPESIZE) = (length (pipe_bytes q) = PIPESIZE)"
  proof -
    have "pi_nwrite q = pi_nread q + of_nat PIPESIZE \<longleftrightarrow> pi_nwrite q - pi_nread q = 512" by (auto simp: PIPESIZE_def algebra_simps)
    also have "\<dots> \<longleftrightarrow> pipe_len q = 512" by (simp add: pipe_len_def word_unat_eq_iff)
    finally show ?thesis by (simp add: l PIPESIZE_def)
  qed
  show e: "(pi_nread q = pi_nwrite q) = (pipe_bytes q = [])"
    using l by (metis length_0_conv pipe_len_def right_minus_eq unat_eq_0)
  show "pipe_ok (pipe_push x q) \<and> pipe_bytes (pipe_push x q) = pipe_bytes q @ [x]" if "pi_nwrite q \<noteq> pi_nread q + of_nat PIPESIZE"
    using that f ok l pipe_len_push [of q x] pipe_bytes_push [of q x] by (auto simp: pipe_ok_def)
  assume "pi_nread q \<noteq> pi_nwrite q"
  then have n: "pipe_len q \<noteq> 0" using e l by (metis length_0_conv)
  show "pipe_front q = hd (pipe_bytes q)" using pipe_bytes_pop [OF n] by simp
  show "pipe_ok (pipe_pop q) \<and> pipe_bytes (pipe_pop q) = tl (pipe_bytes q)"
    using pipe_bytes_pop [OF n] pipe_len_pop [OF n] ok by (simp add: pipe_ok_def)
qed

section \<open>The pipe in memory\<close>

text \<open>Pipes are apart from the memory: the same steps are possible whatever they hold.\<close>

lemma um_ok_pipes [simp]: "um_ok (s\<lparr>pipes := x\<rparr>) r fs = um_ok s r fs"
  by (simp add: um_ok_def vm_ok_def ready_def free_pages_def is_page_def myproc_def)

lemma mem_step_pipes: "mem_step s s' \<Longrightarrow> mem_step (s\<lparr>pipes := x\<rparr>) (s'\<lparr>pipes := x\<rparr>)"
proof -
  assume a: "mem_step s s'"
  then obtain m f y where t: "s' = s\<lparr>mem := m, freelist := f, sync := y\<rparr>" unfolding mem_step_def by blast
  show ?thesis using a unfolding t by (simp add: mem_step_def ready_def)
qed

lemma um_write_pipes: "um_write r s fs va src k s' fs' \<Longrightarrow> um_write r (s\<lparr>pipes := x\<rparr>) fs va src k (s'\<lparr>pipes := x\<rparr>) fs'"
  using mem_step_pipes [of s s' x] by (simp add: um_write_def myproc_def)

lemma um_step_pipes: "um_step r s fs s' fs' \<Longrightarrow> um_step r (s\<lparr>pipes := x\<rparr>) fs (s'\<lparr>pipes := x\<rparr>) fs'"
  using mem_step_pipes [of s s' x] by (simp add: um_step_def myproc_def)

lemma um_write_cong: "(\<And>j. j < k \<Longrightarrow> src j = src' j) \<Longrightarrow> um_write r s fs va src k s' fs' = um_write r s fs va src' k s' fs'"
  by (simp add: um_write_def cong: if_cong)

section \<open>Reading\<close>

lemma killed_eq: "sync_ok (sync s) \<Longrightarrow> is_free (Lproc p) (sync s) \<Longrightarrow> c_noff (mycpu (sync s)) \<noteq> 0 \<Longrightarrow> killed p s = Some (p_killed (procs s p), s)"
  by (simp add: killed_def)

text \<open>What holds inside the critical section of a pipe.\<close>

definition pipe_in :: "addr \<Rightarrow> sync \<Rightarrow> addr \<Rightarrow> addr list \<Rightarrow> kstate \<Rightarrow> bool" where
  "pipe_in pi y r fs s \<longleftrightarrow> um_ok s r fs \<and> sync s = lockd (Lpipe pi) y \<and> idle y \<and> pipe_ok (pipes s pi)"

lemma pipe_in_facts:
  assumes "pipe_in pi y r fs s"
  obtains p where "myproc s = Some p" "p_pagetable (procs s p) = r" "procs_free s" "c_noff (mycpu (sync s)) \<noteq> 0" "c_proc (mycpu y) = Some p"
    "killed p s = Some (p_killed (procs s p), s)"
proof -
  have a: "um_ok s r fs" "sync s = lockd (Lpipe pi) y" "idle y" using assms by (auto simp: pipe_in_def)
  obtain p where p: "myproc s = Some p" "p_pagetable (procs s p) = r" using um_ok_proc [OF a(1)] by blast
  have "procs_free s" "c_noff (mycpu (sync s)) \<noteq> 0" using a(2,3) by (simp_all add: procs_free_def)
  moreover have "c_proc (mycpu y) = Some p" using p(1) a(2) by (simp add: myproc_def)
  moreover have "killed p s = Some (p_killed (procs s p), s)" using a(2,3) by (intro killed_eq) simp_all
  ultimately show thesis using that p by blast
qed

lemma of_int_Suc: "va + word_of_int i + of_nat (Suc 0) = va + (word_of_int (i + 1) :: addr)"
  by simp

text \<open>\<open>took\<close> describes what the copy loop has done when it stops after \<open>k\<close> bytes.\<close>

definition took :: "addr \<Rightarrow> addr \<Rightarrow> addr list \<Rightarrow> addr \<Rightarrow> nat \<Rightarrow> kstate \<Rightarrow> kstate \<Rightarrow> addr list \<Rightarrow> bool" where
  "took pi r fs va k s s' fs' \<longleftrightarrow> um_write r s fs va (\<lambda>j. pipe_bytes (pipes s pi) ! j) k (s'\<lparr>pipes := pipes s\<rparr>) fs' \<and>
     k \<le> length (pipe_bytes (pipes s pi)) \<and>
     (\<exists>q. pipes s' = (pipes s)(pi := q) \<and> pipe_ok q \<and> pipe_bytes q = drop k (pipe_bytes (pipes s pi)) \<and>
       pi_readopen q = pi_readopen (pipes s pi) \<and> pi_writeopen q = pi_writeopen (pipes s pi))"

lemma took_more:
  assumes ok: "pipe_in pi y r fs s" and ne: "pi_nread (pipes s pi) \<noteq> pi_nwrite (pipes s pi)"
    and w: "um_write r s fs va (\<lambda>_. pipe_front (pipes s pi)) 1 s1 fs1" and t: "took pi r fs1 (va + 1) k (upd_pipe pi pipe_pop s1) s' fs'"
  shows "took pi r fs va (Suc k) s s' fs'"
proof -
  let ?p = "pipes s pi" and ?s2 = "upd_pipe pi pipe_pop s1"
  have pk: "pipe_ok ?p" and um: "um_ok s r fs" using ok by (auto simp: pipe_in_def)
  have ps: "pipes s1 = pipes s" using w by (auto simp: um_write_def dest: mem_step_keeps(3))
  have s1: "s1\<lparr>pipes := pipes s\<rparr> = s1" unfolding ps [symmetric] by simp
  have b: "pipe_bytes ?p = pipe_front ?p # pipe_bytes (pipe_pop ?p)" by (rule pq.pop_front [OF pk ne])
  have l: "length (pipe_bytes ?p) \<le> 512" using pq.bounded [OF pk] by (simp add: PIPESIZE_def)
  have k: "k \<le> length (pipe_bytes (pipe_pop ?p))" using t by (simp add: took_def ps)
  have "um_write r ?s2 fs1 (va + 1) (\<lambda>j. pipe_bytes (pipe_pop ?p) ! j) k (s'\<lparr>pipes := pipes ?s2\<rparr>) fs'" using t by (simp add: took_def ps)
  from um_write_pipes [OF this, of "pipes s"]
  have 2: "um_write r s1 fs1 (va + of_nat 1) (\<lambda>j. pipe_bytes ?p ! (1 + j)) k (s'\<lparr>pipes := pipes s\<rparr>) fs'"
    using b s1 by simp
  have 1: "um_write r s fs va (\<lambda>j. pipe_bytes ?p ! j) 1 s1 fs1" using w by (subst um_write_cong [where src' = "\<lambda>_. pipe_front ?p"]) (simp_all add: b)
  have "um_write r s fs va (\<lambda>j. pipe_bytes ?p ! j) (1 + k) (s'\<lparr>pipes := pipes s\<rparr>) fs'" using k l b by (intro um_write_trans [OF 1 2 um]) simp
  moreover have "\<exists>q. pipes s' = (pipes s)(pi := q) \<and> pipe_ok q \<and> pipe_bytes q = drop (Suc k) (pipe_bytes ?p) \<and>
      pi_readopen q = pi_readopen ?p \<and> pi_writeopen q = pi_writeopen ?p"
    using t by (auto simp: took_def ps b pipe_pop_def)
  ultimately show ?thesis using k b by (simp add: took_def)
qed

lemma took_none:
  assumes "pipe_in pi y r fs s" "um_write r s fs va src 0 s' fs'"
  shows "took pi r fs va 0 s s' fs'"
proof -
  have ps: "pipes s' = pipes s" using assms(2) by (auto simp: um_write_def dest: mem_step_keeps(3))
  then have s': "s'\<lparr>pipes := pipes s\<rparr> = s'" by simp
  have "pipe_ok (pipes s pi)" using assms(1) by (simp add: pipe_in_def)
  moreover have "um_write r s fs va (\<lambda>j. pipe_bytes (pipes s pi) ! j) 0 s' fs'" using assms(2) by (subst um_write_cong [where src' = src]) simp_all
  ultimately show ?thesis unfolding took_def s' by (intro conjI exI [of _ "pipes s pi"]) (simp_all add: ps)
qed

lemma um_write_refl: "um_ok s r fs \<Longrightarrow> um_write r s fs va src 0 s fs"
  by (simp add: um_write_def)

lemma piperead_copy_takes:
  "pipe_in pi y r fs s \<Longrightarrow> 0 \<le> i \<Longrightarrow>
   \<exists>x k s' fs'. piperead_copy pi addr n i s = Some (x, s') \<and> took pi r fs (addr + word_of_int i) k s s' fs' \<and>
     (x = i + int k \<and> k = min (nat (n - i)) (length (pipe_bytes (pipes s pi))) \<or>
      k < nat (n - i) \<and> k < length (pipe_bytes (pipes s pi)) \<and> cant_write s r (addr + word_of_int (i + int k)) fs' \<and>
      x = (if i = 0 \<and> k = 0 then -1 else i + int k))"
proof (induction "nat (n - i)" arbitrary: i s fs)
  case 0
  obtain p where p: "myproc s = Some p" by (rule pipe_in_facts [OF 0(2)])
  have "piperead_copy pi addr n i s = Some (i, s)" using p 0(1) by (subst piperead_copy.simps) auto
  moreover have "took pi r fs (addr + word_of_int i) 0 s s fs"
    using 0 by (intro took_none um_write_refl) (auto simp: pipe_in_def)
  ultimately show ?case using 0 by (intro exI [of _ i] exI [of _ 0] exI [of _ s] exI [of _ fs]) simp
next
  case (Suc m)
  obtain p where p: "myproc s = Some p" "p_pagetable (procs s p) = r" "c_noff (mycpu (sync s)) \<noteq> 0" by (rule pipe_in_facts [OF Suc(3)])
  have um: "um_ok s r fs" "pipe_ok (pipes s pi)" using Suc(3) by (auto simp: pipe_in_def)
  have t0: "took pi r fs (addr + word_of_int i) 0 s s fs" using um by (intro took_none [OF Suc(3)] um_write_refl)
  show ?case
  proof (cases "pi_nread (pipes s pi) = pi_nwrite (pipes s pi)")
    case True
    then have "piperead_copy pi addr n i s = Some (i, s)" using p Suc(2) by (subst piperead_copy.simps) auto
    moreover have "pipe_bytes (pipes s pi) = []" using pq.empty_iff [OF um(2)] True by simp
    ultimately show ?thesis using t0 by (intro exI [of _ i] exI [of _ 0] exI [of _ s] exI [of _ fs]) simp
  next
    case False
    then have b: "pipe_bytes (pipes s pi) = pipe_front (pipes s pi) # pipe_bytes (pipe_pop (pipes s pi))" by (rule pq.pop_front [OF um(2)])
    obtain x k s1 fs1 where c: "copyout r (addr + word_of_int i) (\<lambda>_. pipe_front (pipes s pi)) 1 s = Some (x, s1)"
        "um_write r s fs (addr + word_of_int i) (\<lambda>_. pipe_front (pipes s pi)) k s1 fs1" "sync s1 = sync s"
        "copied (unat (1 :: addr)) k x (cant_write s r (addr + word_of_int i + of_nat k) fs1)"
      by (rule copyout_locked [OF um(1) p(3), of "addr + word_of_int i" "\<lambda>_. pipe_front (pipes s pi)" 1]) (rule that, assumption+)
    have st: "mem_step s s1" "um_ok s1 r fs1" using c(2) by (auto simp: um_write_def)
    have ps: "pipes s1 = pipes s" by (rule mem_step_keeps(3) [OF st(1)])
    show ?thesis
    proof (cases "x = -1")
      case True
      then have k: "k = 0" "cant_write s r (addr + word_of_int i) fs1" using c(4) by (auto simp: copied_def)
      have "piperead_copy pi addr n i s = Some (if i = 0 then -1 else i, s1)" using p c(1) False Suc(2) True by (subst piperead_copy.simps) (auto simp: pipe_front_def)
      moreover have "took pi r fs (addr + word_of_int i) 0 s s1 fs1"
        using c(2) k(1) by (intro took_none [OF Suc(3)]) simp
      moreover have "i < n" using Suc(2) by simp
      ultimately show ?thesis using k b by (intro exI [of _ "if i = 0 then -1 else i"] exI [of _ 0] exI [of _ s1] exI [of _ fs1]) simp
    next
      case xn: False
      then have k: "k = 1" using c(4) by (auto simp: copied_def)
      let ?s2 = "upd_pipe pi pipe_pop s1"
      have run: "piperead_copy pi addr n i s = piperead_copy pi addr n (i + 1) ?s2"
        using p c(1) False Suc(2) xn by (subst piperead_copy.simps) (auto simp: pipe_front_def pipe_pop_def)
      have in2: "pipe_in pi y r fs1 ?s2" using Suc(3) st(2) c(3) ps pq.pop_ok [OF um(2) False] by (simp add: pipe_in_def)
      obtain x' k' s' fs' where IH: "piperead_copy pi addr n (i + 1) ?s2 = Some (x', s')" "took pi r fs1 (addr + word_of_int (i + 1)) k' ?s2 s' fs'"
          "x' = i + 1 + int k' \<and> k' = min (nat (n - (i + 1))) (length (pipe_bytes (pipes ?s2 pi))) \<or>
           k' < nat (n - (i + 1)) \<and> k' < length (pipe_bytes (pipes ?s2 pi)) \<and> cant_write ?s2 r (addr + word_of_int (i + 1 + int k')) fs' \<and>
           x' = (if i + 1 = 0 \<and> k' = 0 then -1 else i + 1 + int k')"
        using Suc(1) [OF _ in2, of "i + 1"] Suc(2,4) by fastforce
      have tk: "took pi r fs (addr + word_of_int i) (Suc k') s s' fs'"
        using took_more [OF Suc(3) False _ _] c(2) IH(2) k by (simp add: algebra_simps)
      have cz: "csz s1 = csz s" by (rule um_keep(3) [OF um(1) st(1)])
      have "cant_write s r a fs'" if "cant_write ?s2 r a fs'" for a
        using cant_write_back [OF c(2) cz, of a fs'] that by (simp add: cant_write_def myproc_def)
      then show ?thesis using run IH(1,3) tk Suc(2,4) b ps by (intro exI [of _ x'] exI [of _ "Suc k'"] exI [of _ s'] exI [of _ fs']) (auto simp: algebra_simps)
    qed
  qed
qed

section \<open>Writing\<close>

definition gave :: "addr \<Rightarrow> addr \<Rightarrow> addr list \<Rightarrow> byte list \<Rightarrow> kstate \<Rightarrow> kstate \<Rightarrow> addr list \<Rightarrow> bool" where
  "gave pi r fs bs s s' fs' \<longleftrightarrow> um_step r s fs (s'\<lparr>pipes := pipes s\<rparr>) fs' \<and>
     (\<exists>q. pipes s' = (pipes s)(pi := q) \<and> pipe_ok q \<and> pipe_bytes q = pipe_bytes (pipes s pi) @ bs \<and>
       pi_readopen q = pi_readopen (pipes s pi) \<and> pi_writeopen q = pi_writeopen (pipes s pi))"

lemma gave_none:
  assumes "pipe_in pi y r fs s" "um_step r s fs s' fs'"
  shows "gave pi r fs [] s s' fs'"
proof -
  have ps: "pipes s' = pipes s" using assms(2) by (auto simp: um_step_def dest: mem_step_keeps(3))
  then have s': "s'\<lparr>pipes := pipes s\<rparr> = s'" by simp
  have "pipe_ok (pipes s pi)" using assms(1) by (simp add: pipe_in_def)
  then show ?thesis unfolding gave_def s' using assms(2) by (intro conjI exI [of _ "pipes s pi"]) (simp_all add: ps)
qed

lemma um_step_refl: "um_ok s r fs \<Longrightarrow> um_step r s fs s fs"
  by (simp add: um_step_def)

lemma gave_more:
  assumes ok: "pipe_in pi y r fs s" and nf: "pi_nwrite (pipes s pi) \<noteq> pi_nread (pipes s pi) + of_nat PIPESIZE"
    and w: "um_step r s fs s1 fs1" and t: "gave pi r fs1 bs (upd_pipe pi (pipe_push ch) s1) s' fs'"
  shows "gave pi r fs (ch # bs) s s' fs'"
proof -
  let ?p = "pipes s pi" and ?s2 = "upd_pipe pi (pipe_push ch) s1"
  have pk: "pipe_ok ?p" and um: "um_ok s r fs" using ok by (auto simp: pipe_in_def)
  have ps: "pipes s1 = pipes s" using w by (auto simp: um_step_def dest: mem_step_keeps(3))
  have s1: "s1\<lparr>pipes := pipes s\<rparr> = s1" unfolding ps [symmetric] by simp
  have b: "pipe_bytes (pipe_push ch ?p) = pipe_bytes ?p @ [ch]" using pq.push_ok [OF pk nf] by simp
  have "um_step r ?s2 fs1 (s'\<lparr>pipes := pipes ?s2\<rparr>) fs'" using t by (simp add: gave_def ps)
  from um_step_pipes [OF this, of "pipes s"] have "um_step r s1 fs1 (s'\<lparr>pipes := pipes s\<rparr>) fs'" using s1 by simp
  then have "um_step r s fs (s'\<lparr>pipes := pipes s\<rparr>) fs'" by (rule um_step_trans [OF w _ um])
  moreover have "\<exists>q. pipes s' = (pipes s)(pi := q) \<and> pipe_ok q \<and> pipe_bytes q = pipe_bytes ?p @ ch # bs \<and>
      pi_readopen q = pi_readopen ?p \<and> pi_writeopen q = pi_writeopen ?p"
    using t b by (auto simp: gave_def ps pipe_push_def)
  ultimately show ?thesis by (simp add: gave_def)
qed

lemma gave_keeps: "gave pi r fs bs s s' fs' \<Longrightarrow> procs s' = procs s \<and> um_ok s' r fs' \<and> (\<forall>va. uview (mem s') r (csz s) va = uview (mem s) r (csz s) va)"
  using mem_step_keeps(1) [of s "s'\<lparr>pipes := pipes s\<rparr>"] by (auto simp: gave_def um_step_def)

text \<open>The state when a process leaves the critical section: the other side is woken, and the process goes on or sleeps.\<close>

definition leave_awake :: "chan \<Rightarrow> sync \<Rightarrow> kstate \<Rightarrow> kstate" where
  "leave_awake ch y s = (woken (Some ch) s)\<lparr>sync := settle y\<rparr>"

definition leave_asleep :: "chan \<Rightarrow> sync \<Rightarrow> kstate \<Rightarrow> kstate" where
  "leave_asleep ch y s = (upd_proc (curproc s) (\<lambda>p. p\<lparr>p_chan := Some ch, p_state := SLEEPING\<rparr>) s)\<lparr>sync := parked y\<rparr>"

lemma pipe_leave:
  assumes "pipe_in pi y r fs s"
  shows "do { s \<leftarrow> wakeup ch s; s \<leftarrow> rel (Lpipe pi) s; Some (x, s) } = Some (x, leave_awake ch y s)"
    "rel (Lpipe pi) s = Some (s\<lparr>sync := settle y\<rparr>)"
    "sleep_out ch (Lpipe pi) s = Some (sie y, leave_asleep ch y s)"
    "sleep_out ch (Lpipe pi) (woken c s) = Some (sie y, leave_asleep ch y (woken c s))"
    "wakeup ch s = Some (woken (Some ch) s)"
proof -
  obtain p where p: "myproc s = Some p" "procs_free s" "c_noff (mycpu (sync s)) \<noteq> 0" "c_proc (mycpu y) = Some p" by (rule pipe_in_facts [OF assms])
  have y: "sync s = lockd (Lpipe pi) y" "idle y" using assms by (auto simp: pipe_in_def)
  show w: "wakeup ch s = Some (woken (Some ch) s)" by (rule wakeup_eq [OF p(2,3)])
  show "rel (Lpipe pi) s = Some (s\<lparr>sync := settle y\<rparr>)" using y by (simp add: rel_def)
  show "do { s \<leftarrow> wakeup ch s; s \<leftarrow> rel (Lpipe pi) s; Some (x, s) } = Some (x, leave_awake ch y s)"
    using w y by (simp add: rel_def leave_awake_def)
  have so: "sleep_out ch (Lpipe pi) s' = Some (sie y, leave_asleep ch y s')" if "sync s' = lockd (Lpipe pi) y" "myproc s' = Some p" for s'
  proof -
    have e: "s'\<lparr>sync := lockd (Lpipe pi) y\<rparr> = s'" unfolding that(1) [symmetric] by simp
    show ?thesis using sleep_out_eq [OF y(2) p(4), of "Lpipe pi" ch s'] that(2) unfolding e by (simp add: leave_asleep_def)
  qed
  show "sleep_out ch (Lpipe pi) s = Some (sie y, leave_asleep ch y s)"
    "sleep_out ch (Lpipe pi) (woken c s) = Some (sie y, leave_asleep ch y (woken c s))" using so y p by simp_all
qed

definition write_ends :: "addr \<Rightarrow> sync \<Rightarrow> addr \<Rightarrow> addr \<Rightarrow> int \<Rightarrow> int \<Rightarrow> kstate \<Rightarrow> byte list \<Rightarrow> kstate \<Rightarrow> addr list \<Rightarrow> (int, int) blk \<Rightarrow> kstate \<Rightarrow> bool" where
  "write_ends pi y r addr n i s bs s1 fs' res s' \<longleftrightarrow> length bs \<le> nat (n - i) \<and>
     (\<forall>k<length bs. uview (mem s) r (csz s) (addr + word_of_int (i + int k)) = Some (bs ! k)) \<and>
     (res = Done (i + int (length bs)) \<and> s' = leave_awake (Cpread pi) y s1 \<and>
        (length bs = nat (n - i) \<or> cant_read s r (addr + word_of_int (i + int (length bs))) fs') \<or>
      res = Asleep (i + int (length bs)) (sie y) \<and> s' = leave_asleep (Cpwrite pi) y (woken (Some (Cpread pi)) s1) \<and>
        length bs < nat (n - i) \<and> length (pipe_bytes (pipes s1 pi)) = PIPESIZE \<or>
      res = Done (-1) \<and> bs = [] \<and> s' = s1\<lparr>sync := settle y\<rparr> \<and> i < n \<and> (\<not> pi_readopen (pipes s pi) \<or> p_killed (procs s (curproc s)) \<noteq> 0))"

lemma write_ends_more:
  assumes e: "write_ends pi y r addr n (i + 1) s2 bs s3 fs' res s'" and n: "i < n"
    and ro: "pi_readopen (pipes s2 pi)" "p_killed (procs s2 (curproc s2)) = 0"
    and v: "\<And>va. uview (mem s2) r (csz s2) va = uview (mem s) r (csz s) va" "uview (mem s) r (csz s) (addr + word_of_int i) = Some ch"
    and c: "\<And>a. cant_read s2 r a fs' \<Longrightarrow> cant_read s r a fs'"
  shows "write_ends pi y r addr n i s (ch # bs) s3 fs' res s'"
proof -
  have "length bs \<le> nat (n - (i + 1))" using e by (simp add: write_ends_def)
  then have l: "length (ch # bs) \<le> nat (n - i)" using n by simp
  have "\<forall>k<length (ch # bs). uview (mem s) r (csz s) (addr + word_of_int (i + int k)) = Some ((ch # bs) ! k)"
    using e v by (auto simp: write_ends_def less_Suc_eq_0_disj algebra_simps)
  moreover have "res = Done (i + int (length (ch # bs))) \<and> s' = leave_awake (Cpread pi) y s3 \<and>
        (length (ch # bs) = nat (n - i) \<or> cant_read s r (addr + word_of_int (i + int (length (ch # bs)))) fs') \<or>
      res = Asleep (i + int (length (ch # bs))) (sie y) \<and> s' = leave_asleep (Cpwrite pi) y (woken (Some (Cpread pi)) s3) \<and>
        length (ch # bs) < nat (n - i) \<and> length (pipe_bytes (pipes s3 pi)) = PIPESIZE"
    using e ro n c [of "addr + word_of_int (i + 1 + int (length bs))"] by (auto simp: write_ends_def algebra_simps)
  ultimately show ?thesis using l unfolding write_ends_def by blast
qed

lemma pipewrite_loop_gives:
  "pipe_in pi y r fs s \<Longrightarrow>
   \<exists>res bs s1 s' fs'. pipewrite_loop pi addr n i s = Some (res, s') \<and> gave pi r fs bs s s1 fs' \<and> pipe_in pi y r fs' s1 \<and>
     write_ends pi y r addr n i s bs s1 fs' res s'"
proof (induction "nat (n - i)" arbitrary: i s fs)
  case 0
  obtain p where p: "myproc s = Some p" by (rule pipe_in_facts [OF 0(2)])
  have um: "um_ok s r fs" using 0(2) by (simp add: pipe_in_def)
  have "pipewrite_loop pi addr n i s = Some (Done i, leave_awake (Cpread pi) y s)"
    using p 0(1) pipe_leave(1) [OF 0(2), of "Cpread pi" "Done i :: (int, int) blk"] by (subst pipewrite_loop.simps) simp
  then show ?case using 0 gave_none [OF 0(2) um_step_refl [OF um]]
    by (intro exI [of _ "Done i"] exI [of _ "[]"] exI [of _ s] exI [of _ "leave_awake (Cpread pi) y s"] exI [of _ fs]) (simp add: write_ends_def)
next
  case (Suc m)
  note pin = Suc(3)
  obtain p where p: "myproc s = Some p" "p_pagetable (procs s p) = r" "c_noff (mycpu (sync s)) \<noteq> 0" "killed p s = Some (p_killed (procs s p), s)"
    by (rule pipe_in_facts [OF pin])
  have um: "um_ok s r fs" "pipe_ok (pipes s pi)" and n: "i < n" using pin Suc(2) by (auto simp: pipe_in_def)
  have g0: "gave pi r fs [] s s fs" by (rule gave_none [OF pin um_step_refl [OF um(1)]])
  consider (dead) "\<not> pi_readopen (pipes s pi) \<or> p_killed (procs s p) \<noteq> 0"
    | (full) "pi_readopen (pipes s pi)" "p_killed (procs s p) = 0" "pi_nwrite (pipes s pi) = pi_nread (pipes s pi) + of_nat PIPESIZE"
    | (room) "pi_readopen (pipes s pi)" "p_killed (procs s p) = 0" "pi_nwrite (pipes s pi) \<noteq> pi_nread (pipes s pi) + of_nat PIPESIZE" by blast
  then show ?case
  proof cases
    case dead
    then have "pipewrite_loop pi addr n i s = Some (Done (-1), s\<lparr>sync := settle y\<rparr>)"
      using p n pipe_leave(2) [OF pin] by (subst pipewrite_loop.simps) auto
    then show ?thesis using dead p(1) n g0 pin
      by (intro exI [of _ "Done (-1)"] exI [of _ "[]"] exI [of _ s] exI [of _ "s\<lparr>sync := settle y\<rparr>"] exI [of _ fs]) (simp add: write_ends_def)
  next
    case full
    then have "pipewrite_loop pi addr n i s = Some (Asleep i (sie y), leave_asleep (Cpwrite pi) y (woken (Some (Cpread pi)) s))"
      using p n pipe_leave(4,5) [OF pin] by (subst pipewrite_loop.simps) (simp add: asleep_def)
    moreover have "length (pipe_bytes (pipes s pi)) = PIPESIZE" using pq.full_iff [OF um(2)] full(3) by simp
    ultimately show ?thesis using n g0 pin
      by (intro exI [of _ "Asleep i (sie y)"] exI [of _ "[]"] exI [of _ s] exI [of _ "leave_asleep (Cpwrite pi) y (woken (Some (Cpread pi)) s)"] exI [of _ fs]) (simp add: write_ends_def)
  next
    case room
    obtain x bs s1 fs1 where c: "copyin r (addr + word_of_int i) 1 s = Some ((x, bs), s1)" "um_step r s fs s1 fs1" "sync s1 = sync s"
        "copied (unat (1 :: addr)) (length bs) x (cant_read s r (addr + word_of_int i + of_nat (length bs)) fs1)"
        "\<And>k. k < length bs \<Longrightarrow> uview (mem s) r (csz s) (addr + word_of_int i + of_nat k) = Some (bs ! k)"
      by (rule copyin_locked [OF um(1) p(3), of "addr + word_of_int i" 1]) (rule that, assumption+)
    have st: "mem_step s s1" "um_ok s1 r fs1" using c(2) by (auto simp: um_step_def)
    have ps: "pipes s1 = pipes s" "procs s1 = procs s" "myproc s1 = myproc s" using mem_step_keeps(3,1) [OF st(1)] um_keep(1) [OF um(1) st(1)] by auto
    have pin1: "pipe_in pi y r fs1 s1" using pin st(2) c(3) ps by (simp add: pipe_in_def)
    show ?thesis
    proof (cases "x = -1")
      case True
      then have k: "bs = []" "cant_read s r (addr + word_of_int i) fs1" using c(4) by (auto simp: copied_def)
      have "pipewrite_loop pi addr n i s = Some (Done i, leave_awake (Cpread pi) y s1)"
        using p n room c(1) True pipe_leave(1) [OF pin1, of "Cpread pi" "Done i :: (int, int) blk"] by (subst pipewrite_loop.simps) simp
      then show ?thesis using k n gave_none [OF pin c(2)] pin1
        by (intro exI [of _ "Done i"] exI [of _ "[]"] exI [of _ s1] exI [of _ "leave_awake (Cpread pi) y s1"] exI [of _ fs1]) (simp add: write_ends_def)
    next
      case xn: False
      then obtain ch where k: "bs = [ch]" using c(4) by (cases bs) (auto simp: copied_def)
      let ?s2 = "upd_pipe pi (pipe_push ch) s1"
      have run: "pipewrite_loop pi addr n i s = pipewrite_loop pi addr n (i + 1) ?s2"
        using p n room c(1) xn k by (subst pipewrite_loop.simps) (simp add: pipe_push_def)
      have in2: "pipe_in pi y r fs1 ?s2" using pin1 ps pq.push_ok [OF um(2) room(3), of ch] by (simp add: pipe_in_def)
      have m: "m = nat (n - (i + 1))" using Suc(2) by simp
      obtain res bs' s3 s' fs' where IH: "pipewrite_loop pi addr n (i + 1) ?s2 = Some (res, s')" "gave pi r fs1 bs' ?s2 s3 fs'"
          "pipe_in pi y r fs' s3" "write_ends pi y r addr n (i + 1) ?s2 bs' s3 fs' res s'"
        using Suc(1) [OF m in2] by blast
      have cz: "csz ?s2 = csz s" using ps by (simp add: myproc_def)
      have "write_ends pi y r addr n i s (ch # bs') s3 fs' res s'"
      proof (rule write_ends_more [OF IH(4) n])
        show "pi_readopen (pipes ?s2 pi)" "p_killed (procs ?s2 (curproc ?s2)) = 0" using room(1,2) ps p(1) by (simp_all add: pipe_push_def myproc_def)
        show "uview (mem ?s2) r (csz ?s2) va = uview (mem s) r (csz s) va" for va using c(2) unfolding cz by (simp add: um_step_def)
        show "uview (mem s) r (csz s) (addr + word_of_int i) = Some ch" using c(5) [of 0] k by simp
        show "cant_read s r a fs'" if "cant_read ?s2 r a fs'" for a
          using cant_read_back [OF c(2), of a fs'] that ps by (simp add: cant_read_def myproc_def)
      qed
      then show ?thesis using run IH(1,3) gave_more [OF pin room(3) c(2) IH(2)] by metis
    qed
  qed
qed

section \<open>The contracts\<close>

text \<open>A process that runs with its memory in order, outside every critical section, on a pipe in order.\<close>

definition pipe_ready :: "addr \<Rightarrow> addr \<Rightarrow> addr list \<Rightarrow> kstate \<Rightarrow> bool" where
  "pipe_ready pi r fs s \<longleftrightarrow> um_ok s r fs \<and> idle (sync s) \<and> pipe_ok (pipes s pi)"

text \<open>Nobody but the process itself sleeps on the channel.\<close>

definition awake :: "chan \<Rightarrow> nat \<Rightarrow> kstate \<Rightarrow> bool" where
  "awake ch p s \<longleftrightarrow> (\<forall>q<NPROC. q \<noteq> p \<longrightarrow> p_state (procs s q) = SLEEPING \<longrightarrow> p_chan (procs s q) \<noteq> Some ch)"

definition sleeps :: "chan \<Rightarrow> nat \<Rightarrow> kstate \<Rightarrow> bool" where
  "sleeps ch p s \<longleftrightarrow> p_state (procs s p) = SLEEPING \<and> p_chan (procs s p) = Some ch"

lemma pipe_enter:
  assumes "pipe_ready pi r fs s"
  shows "acq (Lpipe pi) s = Some (s\<lparr>sync := lockd (Lpipe pi) (sync s)\<rparr>)" "pipe_in pi (sync s) r fs (s\<lparr>sync := lockd (Lpipe pi) (sync s)\<rparr>)"
  using assms um_ok_lockd [of s r fs "Lpipe pi"] by (simp_all add: pipe_ready_def pipe_in_def)

lemma um_ok_woken: "um_ok (woken ch s) r fs = um_ok s r fs"
proof -
  have "p_pagetable (procs (woken ch s) p) = p_pagetable (procs s p)" "p_sz (procs (woken ch s) p) = p_sz (procs s p)"
    "freelist (woken ch s) = freelist s" "kend (woken ch s) = kend s" for p by (simp_all add: woken_def)
  then show ?thesis by (simp add: um_ok_def vm_ok_def ready_def free_pages_def is_page_def)
qed

lemma leave_simps [simp]: "pipes (leave_awake ch y s) = pipes s" "pipes (leave_asleep ch y s) = pipes s" "pipes (woken c s) = pipes s"
  "mem (leave_awake ch y s) = mem s" "mem (leave_asleep ch y s) = mem s"
  "sync (leave_asleep ch y s) = parked y"
  by (simp_all add: leave_awake_def leave_asleep_def woken_def upd_proc_def)

lemma leave_ready:
  assumes "pipe_in pi y r fs s"
  shows "pipe_ready pi r fs (leave_awake ch y s)" "pipe_ready pi r fs (s\<lparr>sync := settle y\<rparr>)"
proof -
  have a: "um_ok s r fs" "sync s = lockd (Lpipe pi) y" "idle y" "pipe_ok (pipes s pi)" using assms by (auto simp: pipe_in_def)
  have "um_ok (s'\<lparr>sync := settle y\<rparr>) r fs" if "um_ok s' r fs" "sync s' = sync s" for s'
    using that a by (intro um_ok_settle) simp_all
  then show "pipe_ready pi r fs (leave_awake ch y s)" "pipe_ready pi r fs (s\<lparr>sync := settle y\<rparr>)"
    using a um_ok_woken by (simp_all add: pipe_ready_def leave_awake_def)
qed

lemma awake_leave: "myproc s = Some p \<Longrightarrow> awake ch p (leave_awake ch y s)"
  "myproc s = Some p \<Longrightarrow> awake ch p (leave_asleep c y (woken (Some ch) s))" "myproc s = Some p \<Longrightarrow> sleeps ch p (leave_asleep ch y s)"
  by (auto simp: awake_def sleeps_def leave_awake_def leave_asleep_def woken_def upd_proc_def myproc_def)

text \<open>
  (C15) \<open>pipewrite\<close> appends to the queue.  On a pipe in order, which holds at most 512 bytes however its counters have wrapped around, a
  write returns or puts the writer to sleep.  Either way some bytes \<open>bs\<close>, the first ones of the writer's buffer, have been appended to what the
  pipe held, no other pipe has changed, and no reader is left asleep.  It returns their number, which is all of them unless the next one
  cannot be read, or -1 with nothing written if the read side is closed or the process was killed; it sleeps, on the
  write channel, only with the pipe full.
\<close>

theorem pipewrite_appends:
  assumes "pipe_ready pi r fs s" "myproc s = Some p"
  shows "\<exists>res s' bs. pipewrite pi addr n s = Some (res, s') \<and> pipe_bytes (pipes s' pi) = pipe_bytes (pipes s pi) @ bs \<and> pipe_ok (pipes s' pi) \<and>
    (\<forall>q. q \<noteq> pi \<longrightarrow> pipes s' q = pipes s q) \<and> length bs \<le> nat n \<and> (\<forall>k<length bs. uview (mem s) r (csz s) (addr + of_nat k) = Some (bs ! k)) \<and>
    (case res of
       Done x \<Rightarrow> \<exists>fs'. pipe_ready pi r fs' s' \<and>
         (x = int (length bs) \<and> awake (Cpread pi) p s' \<and> (length bs = nat n \<or> cant_read s r (addr + of_nat (length bs)) fs') \<or>
          x = -1 \<and> bs = [] \<and> 0 < n \<and> (\<not> pi_readopen (pipes s pi) \<or> p_killed (procs s p) \<noteq> 0))
     | Asleep i b \<Rightarrow> i = int (length bs) \<and> i < n \<and> length (pipe_bytes (pipes s' pi)) = PIPESIZE \<and> sleeps (Cpwrite pi) p s' \<and> awake (Cpread pi) p s' \<and> idle (sync s')
     | Gone \<Rightarrow> False)"
proof -
  let ?s = "s\<lparr>sync := lockd (Lpipe pi) (sync s)\<rparr>" and ?y = "sync s"
  note e = pipe_enter [OF assms(1)]
  obtain res bs s1 s' fs' where g: "pipewrite_loop pi addr n 0 ?s = Some (res, s')" "gave pi r fs bs ?s s1 fs'" "pipe_in pi ?y r fs' s1"
      "write_ends pi ?y r addr n 0 ?s bs s1 fs' res s'"
    using pipewrite_loop_gives [OF e(2), of addr n 0] by blast
  have run: "pipewrite pi addr n s = Some (res, s')" using e(1) g(1) by (simp add: pipewrite_def)
  have p: "myproc ?s = Some p" "curproc ?s = p" using assms(2) by (simp_all add: myproc_def)
  have p1: "myproc s1 = Some p"
    using g(3) assms(2) by (simp add: myproc_def pipe_in_def)
  obtain q where q: "pipes s1 = (pipes s)(pi := q)" "pipe_ok q" "pipe_bytes q = pipe_bytes (pipes s pi) @ bs" using g(2) by (auto simp: gave_def)
  have ps: "pipes s' = pipes s1" using g(4) by (auto simp: write_ends_def)
  have y: "idle (parked ?y)" using assms(1) by (simp add: pipe_ready_def)
  have "length bs \<le> nat n \<and> (\<forall>k<length bs. uview (mem s) r (csz s) (addr + of_nat k) = Some (bs ! k))"
    using g(4) p assms(2) by (auto simp: write_ends_def)
  moreover have "case res of
       Done x \<Rightarrow> \<exists>fs'. pipe_ready pi r fs' s' \<and>
         (x = int (length bs) \<and> awake (Cpread pi) p s' \<and> (length bs = nat n \<or> cant_read s r (addr + of_nat (length bs)) fs') \<or>
          x = -1 \<and> bs = [] \<and> 0 < n \<and> (\<not> pi_readopen (pipes s pi) \<or> p_killed (procs s p) \<noteq> 0))
     | Asleep i b \<Rightarrow> i = int (length bs) \<and> i < n \<and> length (pipe_bytes (pipes s' pi)) = PIPESIZE \<and> sleeps (Cpwrite pi) p s' \<and> awake (Cpread pi) p s' \<and> idle (sync s')
     | Gone \<Rightarrow> False"
  proof -
    have c: "cant_read ?s r a fs' = cant_read s r a fs'" for a using p assms(2) by (simp add: cant_read_def)
    from g(4) consider (done_) "res = Done (int (length bs))" "s' = leave_awake (Cpread pi) ?y s1" "length bs = nat n \<or> cant_read s r (addr + of_nat (length bs)) fs'"
      | (asleep) "res = Asleep (int (length bs)) (sie ?y)" "s' = leave_asleep (Cpwrite pi) ?y (woken (Some (Cpread pi)) s1)" "length bs < nat n" "length (pipe_bytes (pipes s1 pi)) = PIPESIZE"
      | (gone) "res = Done (-1)" "bs = []" "s' = s1\<lparr>sync := settle ?y\<rparr>" "0 < n" "\<not> pi_readopen (pipes s pi) \<or> p_killed (procs s p) \<noteq> 0"
      unfolding write_ends_def c p(2) by auto
    then show ?thesis
      by cases (use leave_ready [OF g(3)] awake_leave p1 ps y in auto)
  qed
  ultimately show ?thesis using run q ps by (intro exI [of _ res] exI [of _ s'] exI [of _ bs]) auto
qed

text \<open>
  (C16) \<open>piperead\<close> takes from the front of the queue.  A read returns or puts the reader to sleep; it sleeps, on the read channel,
  exactly if the pipe is empty and open for writing and the process was not killed, and nothing has changed then.  Otherwise the
  first \<open>k\<close> bytes of the pipe are taken out of it and are what the program sees at the buffer, the rest of its memory
  looking as before; \<open>k\<close> is the smaller of the size of the buffer and what the pipe held, unless the buffer cannot be
  written there; no writer is left asleep; a byte that could not be delivered stays in the pipe.
\<close>

theorem piperead_takes:
  assumes "pipe_ready pi r fs s" "myproc s = Some p"
  shows "\<exists>res s'. piperead pi addr n s = Some (res, s') \<and> pipe_ok (pipes s' pi) \<and> (\<forall>q. q \<noteq> pi \<longrightarrow> pipes s' q = pipes s q) \<and>
    (if pipe_bytes (pipes s pi) = [] \<and> pi_writeopen (pipes s pi)
     then pipes s' = pipes s \<and> mem s' = mem s \<and>
       (if p_killed (procs s p) \<noteq> 0 then res = Done (-1) else (\<exists>b. res = Asleep () b) \<and> sleeps (Cpread pi) p s' \<and> idle (sync s'))
     else \<exists>k fs'. pipe_ready pi r fs' s' \<and> awake (Cpwrite pi) p s' \<and> k \<le> length (pipe_bytes (pipes s pi)) \<and>
       pipe_bytes (pipes s' pi) = drop k (pipe_bytes (pipes s pi)) \<and>
       (\<forall>b. uview (mem s') r (csz s) b = (if unat (b - addr) < k then Some (pipe_bytes (pipes s pi) ! unat (b - addr)) else uview (mem s) r (csz s) b)) \<and>
       (res = Done (int k) \<and> k = min (nat n) (length (pipe_bytes (pipes s pi))) \<or>
        k < nat n \<and> k < length (pipe_bytes (pipes s pi)) \<and> cant_write s r (addr + of_nat k) fs' \<and> res = Done (if k = 0 then -1 else int k)))"
proof -
  let ?s = "s\<lparr>sync := lockd (Lpipe pi) (sync s)\<rparr>" and ?y = "sync s"
  note e = pipe_enter [OF assms(1)]
  have pk: "pipe_ok (pipes s pi)" and y: "idle (parked ?y)" using assms(1) by (simp_all add: pipe_ready_def)
  have p: "myproc ?s = Some p" using assms(2) by (simp add: myproc_def)
  have emp: "pi_nread (pipes s pi) = pi_nwrite (pipes s pi) \<longleftrightarrow> pipe_bytes (pipes s pi) = []" by (rule pq.empty_iff [OF pk])
  have k: "killed p ?s = Some (p_killed (procs s p), ?s)" using p by (auto intro: pipe_in_facts [OF e(2)])
  show ?thesis
  proof (cases "pipe_bytes (pipes s pi) = [] \<and> pi_writeopen (pipes s pi)")
    case True
    then have "piperead pi addr n s = (if p_killed (procs s p) \<noteq> 0 then Some (Done (-1), s\<lparr>sync := settle ?y\<rparr>)
        else Some (Asleep () (sie ?y), leave_asleep (Cpread pi) ?y ?s))"
      using e(1) k p emp pipe_leave(2,3) [OF e(2)] by (simp add: piperead_def piperead_loop_def asleep_def)
    then show ?thesis using True y pk awake_leave(3) [OF p] by auto
  next
    case False
    obtain x k s1 fs' where c: "piperead_copy pi addr n 0 ?s = Some (x, s1)" "took pi r fs (addr + word_of_int 0) k ?s s1 fs'"
        "x = 0 + int k \<and> k = min (nat (n - 0)) (length (pipe_bytes (pipes ?s pi))) \<or>
         k < nat (n - 0) \<and> k < length (pipe_bytes (pipes ?s pi)) \<and> cant_write ?s r (addr + word_of_int (0 + int k)) fs' \<and> x = (if (0 :: int) = 0 \<and> k = 0 then -1 else 0 + int k)"
      using piperead_copy_takes [OF e(2), of 0 addr n] by blast
    have w: "um_write r ?s fs addr (\<lambda>j. pipe_bytes (pipes s pi) ! j) k (s1\<lparr>pipes := pipes s\<rparr>) fs'" and kl: "k \<le> length (pipe_bytes (pipes s pi))"
      using c(2) by (simp_all add: took_def)
    obtain q where q: "pipes s1 = (pipes s)(pi := q)" "pipe_ok q" "pipe_bytes q = drop k (pipe_bytes (pipes s pi))" using c(2) by (auto simp: took_def)
    have ms: "mem_step ?s (s1\<lparr>pipes := pipes s\<rparr>)" and u: "um_ok s1 r fs'" using w by (simp_all add: um_write_def)
    have "sync (s1\<lparr>pipes := pipes s\<rparr>) = sync ?s"
      using e(2) by (intro mem_step_sync [OF ms]) (auto simp: pipe_in_def um_ok_def vm_ok_def)
    then have pin: "pipe_in pi ?y r fs' s1" using u q(1,2) e(2) by (simp add: pipe_in_def)
    have p1: "myproc s1 = Some p" using pin assms(2) by (simp add: myproc_def pipe_in_def)
    let ?t = "leave_awake (Cpwrite pi) ?y s1"
    have run: "piperead pi addr n s = Some (Done x, leave_awake (Cpwrite pi) ?y s1)"
      using e(1) p emp False c(1) pipe_leave(1) [OF pin, of "Cpwrite pi" "Done x :: (int, unit) blk"] by (auto simp: piperead_def piperead_loop_def)
    have v: "\<forall>b. uview (mem ?t) r (csz s) b = (if unat (b - addr) < k then Some (pipe_bytes (pipes s pi) ! unat (b - addr)) else uview (mem s) r (csz s) b)"
      using w p assms(2) by (simp add: um_write_def)
    have x: "(Done x :: (int, unit) blk) = Done (int k) \<and> k = min (nat n) (length (pipe_bytes (pipes s pi))) \<or>
        k < nat n \<and> k < length (pipe_bytes (pipes s pi)) \<and> cant_write s r (addr + of_nat k) fs' \<and> (Done x :: (int, unit) blk) = Done (if k = 0 then -1 else int k)"
    proof -
      have cw: "cant_write ?s r a fs' = cant_write s r a fs'" for a using p assms(2) by (simp add: cant_write_def)
      from c(3) show ?thesis
      proof
        assume "x = 0 + int k \<and> k = min (nat (n - 0)) (length (pipe_bytes (pipes ?s pi)))"
        then show ?thesis by (intro disjI1) simp
      qed (use cw in \<open>intro disjI2, simp\<close>)
    qed
    have "pipe_ready pi r fs' ?t" "awake (Cpwrite pi) p ?t" by (rule leave_ready(1) [OF pin], rule awake_leave(1) [OF p1])
    moreover have "pipe_bytes (pipes ?t pi) = drop k (pipe_bytes (pipes s pi))" "pipe_ok (pipes ?t pi)" "\<forall>q. q \<noteq> pi \<longrightarrow> pipes ?t q = pipes s q"
      using q by simp_all
    ultimately show ?thesis using run v x kl unfolding if_not_P [OF False] by (intro exI conjI) assumption+
  qed
qed

section \<open>A pipe at the end of its counters\<close>

text \<open>A pipe with one byte in it, the write counter about to wrap around.\<close>

definition pipestate0 :: kstate where
  "pipestate0 = upd_pipe 0x5000 (\<lambda>p. p\<lparr>pi_data := (pi_data p)(510 := 7), pi_nread := 0xFFFFFFFE, pi_nwrite := 0xFFFFFFFF, pi_readopen := True, pi_writeopen := True\<rparr>) vmstate0"

lemma pipestate0_facts: "pipe_ready 0x5000 0x87ff0000 frees0 pipestate0" "myproc pipestate0 = Some 0" "pipe_bytes (pipes pipestate0 0x5000) = [7]"
proof -
  have "\<forall>lk. is_free lk (sync vmstate0)" by (simp add: vmstate0_def sync0_def sync_defs)
  moreover have "sync_ok (sync vmstate0)" "c_noff (mycpu (sync vmstate0)) = 0" by (simp_all add: vmstate0_def sync0_def sync_defs)
  ultimately have "idle (sync vmstate0)" unfolding idle_def by blast
  then have i: "idle (sync pipestate0)" by (simp add: pipestate0_def)
  have u: "um_ok pipestate0 0x87ff0000 frees0" unfolding pipestate0_def um_ok_pipes by (rule um_ok_vmstate0)
  have p: "pi_nread (pipes pipestate0 0x5000) = 0xFFFFFFFE" "pi_nwrite (pipes pipestate0 0x5000) = 0xFFFFFFFF" "pi_data (pipes pipestate0 0x5000) 510 = 7"
    by (simp_all add: pipestate0_def)
  then have l: "pipe_len (pipes pipestate0 0x5000) = 1" by (simp add: pipe_len_def)
  show "pipe_ready 0x5000 0x87ff0000 frees0 pipestate0" using i u l by (simp add: pipe_ready_def pipe_ok_def PIPESIZE_def)
  show "myproc pipestate0 = Some 0" by (simp add: pipestate0_def vmstate0_def myproc_def sync_defs)
  show "pipe_bytes (pipes pipestate0 0x5000) = [7]" using p l by (simp add: pipe_bytes_def PIPESIZE_def)
qed

theorem pipewrite_appends_witness:
  "\<exists>res s' bs. pipewrite 0x5000 0x1000 3 pipestate0 = Some (res, s') \<and> pipe_bytes (pipes s' 0x5000) = 7 # bs \<and> length bs \<le> 3 \<and> pipe_ok (pipes s' 0x5000)"
  using pipewrite_appends [OF pipestate0_facts(1,2), of "0x1000" 3] pipestate0_facts(3) by fastforce

theorem piperead_takes_witness:
  "\<exists>res s'. piperead 0x5000 0x1000 3 pipestate0 = Some (res, s') \<and> pipe_ok (pipes s' 0x5000) \<and> awake (Cpwrite 0x5000) 0 s'"
  using piperead_takes [OF pipestate0_facts(1,2), of "0x1000" 3] pipestate0_facts(3) by auto

end
