(* ===== verification/BioSpec.thy ===== *)
theory BioSpec
  imports Bio Switch
begin

text \<open>
  The buffer cache as the file system sees it.  For every block of the disk there is its current content, cached or not, the number of
  references to its buffer, and whether the running process has it locked; \<open>bread\<close>, \<open>bwrite\<close>, \<open>brelse\<close>, \<open>bpin\<close> and \<open>bunpin\<close> are described
  in these terms.  Underneath is the doubly linked list of buffers in the order of their last use.
\<close>

section \<open>The doubly linked list\<close>

fun dll :: "(nat \<Rightarrow> buf) \<Rightarrow> nat \<Rightarrow> nat list \<Rightarrow> nat \<Rightarrow> bool" where
  "dll c p [] n \<longleftrightarrow> b_next (c p) = n \<and> b_prev (c n) = p"
| "dll c p (x # xs) n \<longleftrightarrow> b_next (c p) = x \<and> b_prev (c x) = p \<and> dll c x xs n"

definition ring :: "nat list \<Rightarrow> (nat \<Rightarrow> buf) \<Rightarrow> bool" where
  "ring L c \<longleftrightarrow> dll c NBUF L NBUF \<and> distinct L \<and> set L = {0..<NBUF}"

lemma dll_append: "dll c p (xs @ y # ys) n \<longleftrightarrow> dll c p xs y \<and> dll c y ys n"
  by (induction xs arbitrary: p) auto

lemma dll_cong:
  "dll c p xs n \<Longrightarrow> (\<And>x. x \<in> set (p # xs) \<Longrightarrow> b_next (c' x) = b_next (c x)) \<Longrightarrow> (\<And>x. x \<in> set (xs @ [n]) \<Longrightarrow> b_prev (c' x) = b_prev (c x)) \<Longrightarrow> dll c' p xs n"
  by (induction xs arbitrary: p) auto

lemma dll_ends: "dll c p xs n \<Longrightarrow> b_next (c p) \<in> set (xs @ [n]) \<and> b_prev (c n) \<in> set (p # xs)"
  by (induction xs arbitrary: p) auto

lemma dll_unlink:
  assumes "dll c p (xs @ b # ys) n" "distinct (p # xs @ b # ys)" "n \<notin> set (xs @ b # ys)"
    and nx: "\<And>x. b_next (c' x) = (if x = b_prev (c b) then b_next (c b) else b_next (c x))"
    and pv: "\<And>x. b_prev (c' x) = (if x = b_next (c b) then b_prev (c b) else b_prev (c x))"
  shows "dll c' p (xs @ ys) n"
  using assms(1-3)
proof (induction xs arbitrary: p)
  case Nil
  then have h: "b_prev (c b) = p" "dll c b ys n" by auto
  show ?case
  proof (cases ys)
    case Nil
    then show ?thesis using h nx pv by simp
  next
    case (Cons y ys')
    then have e: "b_next (c b) = y" "dll c y ys' n" using h by auto
    have "dll c' y ys' n"
    proof (rule dll_cong [OF e(2)])
      show "b_next (c' x) = b_next (c x)" if "x \<in> set (y # ys')" for x using that Nil.prems Cons nx [of x] h(1) by auto
      show "b_prev (c' x) = b_prev (c x)" if "x \<in> set (ys' @ [n])" for x using that Nil.prems Cons pv [of x] e(1) by auto
    qed
    then show ?thesis using h e Cons nx [of p] pv [of y] by simp
  qed
next
  case (Cons x xs)
  have l: "b_prev (c b) \<in> set (x # xs)" "b_next (c b) \<in> set (ys @ [n])"
    using Cons.prems(1) dll_append [of c x xs b ys n] dll_ends [of c x xs b] dll_ends [of c b ys n] by auto
  have "dll c' x (xs @ ys) n" using Cons.IH [of x] Cons.prems by simp
  then show ?case using Cons.prems l nx [of p] pv [of x] by auto
qed

lemma dll_push:
  assumes "dll c p xs n" "distinct (p # xs)" "b \<notin> set (p # xs @ [n])" "n \<notin> set xs"
    and nx: "\<And>x. b_next (c' x) = (if x = p then b else if x = b then b_next (c p) else b_next (c x))"
    and pv: "\<And>x. b_prev (c' x) = (if x = b_next (c p) then b else if x = b then p else b_prev (c x))"
  shows "dll c' p (b # xs) n"
proof (cases xs)
  case Nil
  then show ?thesis using assms(1,3) nx [of p] nx [of b] pv [of b] pv [of n] by auto
next
  case (Cons y ys)
  then have e: "b_next (c p) = y" "dll c y ys n" using assms(1) by auto
  have "dll c' y ys n"
  proof (rule dll_cong [OF e(2)])
    show "b_next (c' x) = b_next (c x)" if "x \<in> set (y # ys)" for x using that assms(2,3) Cons nx [of x] by auto
    show "b_prev (c' x) = b_prev (c x)" if "x \<in> set (ys @ [n])" for x using that assms(2-4) Cons pv [of x] e(1) by auto
  qed
  then show ?thesis using assms(3) e Cons nx [of p] nx [of b] pv [of b] pv [of y] by auto
qed

text \<open>Taking a buffer out and putting it in front.\<close>

lemma ring_front:
  fixes c c1 c2 :: "nat \<Rightarrow> buf"
  assumes r: "ring L c" and b: "b < NBUF"
    and nx: "\<And>x. b_next (c1 x) = (if x = b_prev (c b) then b_next (c b) else b_next (c x))"
    and pv: "\<And>x. b_prev (c1 x) = (if x = b_next (c b) then b_prev (c b) else b_prev (c x))"
    and nx2: "\<And>x. b_next (c2 x) = (if x = NBUF then b else if x = b then b_next (c1 NBUF) else b_next (c1 x))"
    and pv2: "\<And>x. b_prev (c2 x) = (if x = b_next (c1 NBUF) then b else if x = b then NBUF else b_prev (c1 x))"
  shows "\<exists>L'. ring L' c2"
proof -
  have "b \<in> set L" using r b by (simp add: ring_def)
  then obtain xs ys where L: "L = xs @ b # ys" by (auto simp: in_set_conv_decomp)
  have d: "distinct (NBUF # xs @ b # ys)" "NBUF \<notin> set (xs @ b # ys)" "dll c NBUF (xs @ b # ys) NBUF" using r unfolding ring_def L by auto
  have "dll c1 NBUF (xs @ ys) NBUF" by (rule dll_unlink [OF d(3,1,2) nx pv])
  then have "dll c2 NBUF (b # xs @ ys) NBUF" using d nx2 pv2 by (intro dll_push [where c = c1]) auto
  then have "ring (b # xs @ ys) c2" using r d unfolding ring_def L by auto
  then show ?thesis ..
qed

lemma ring_cong: "ring L c \<Longrightarrow> (\<And>x. b_next (c' x) = b_next (c x)) \<Longrightarrow> (\<And>x. b_prev (c' x) = b_prev (c x)) \<Longrightarrow> ring L c'"
  unfolding ring_def by (auto intro: dll_cong [of c])

text \<open>The two searches.\<close>

lemma bget_cached_eq:
  "dll (bcache s) p L NBUF \<Longrightarrow> NBUF \<notin> set L \<Longrightarrow>
   bget_cached (b_next (bcache s p)) dev x s = Some (find (\<lambda>b. b_dev (bcache s b) = dev \<and> b_blockno (bcache s b) = x) L)"
proof (induction L arbitrary: p)
  case Nil
  then show ?case by (subst bget_cached.simps) simp
next
  case (Cons b L)
  then show ?case by (subst bget_cached.simps) auto
qed

lemma bget_unused_eq:
  "dll (bcache s) NBUF L q \<Longrightarrow> NBUF \<notin> set L \<Longrightarrow> bget_unused (b_prev (bcache s q)) s = Some (find (\<lambda>b. b_refcnt (bcache s b) = 0) (rev L))"
proof (induction L arbitrary: q rule: rev_induct)
  case Nil
  then show ?case by (subst bget_unused.simps) simp
next
  case (snoc b L)
  have "dll (bcache s) NBUF L b" "b_prev (bcache s q) = b" using snoc.prems(1) dll_append [of "bcache s" NBUF L b "[]" q] by auto
  then show ?case using snoc by (subst bget_unused.simps) auto
qed

section \<open>The view\<close>

definition slot :: "nat \<Rightarrow> (nat \<Rightarrow> buf) \<Rightarrow> nat \<Rightarrow> nat option" where
  "slot d c x = find (\<lambda>b. b_dev (c b) = d \<and> b_blockno (c b) = x) [0..<NBUF]"

definition content :: "nat \<Rightarrow> kstate \<Rightarrow> nat \<Rightarrow> block" where
  "content d s x = (case slot d (bcache s) x of Some b \<Rightarrow> if b_valid (bcache s b) then b_data (bcache s b) else disk s x | None \<Rightarrow> disk s x)"

definition refs :: "nat \<Rightarrow> kstate \<Rightarrow> nat \<Rightarrow> int" where
  "refs d s x = (case slot d (bcache s) x of Some b \<Rightarrow> b_refcnt (bcache s b) | None \<Rightarrow> 0)"

definition held :: "nat \<Rightarrow> kstate \<Rightarrow> nat set" where
  "held d s = {x. case slot d (bcache s) x of Some b \<Rightarrow> sl_locked (b_lock (bcache s b)) | None \<Rightarrow> False}"

text \<open>One buffer of the cache: only with references it can be locked or differ from the disk.\<close>

definition buf_ok :: "nat \<Rightarrow> int \<Rightarrow> (nat \<Rightarrow> block) \<Rightarrow> buf \<Rightarrow> bool" where
  "buf_ok d pid dk b \<longleftrightarrow> 0 \<le> b_refcnt b \<and> (b_valid b \<longrightarrow> b_dev b = d) \<and> (b_refcnt b \<noteq> 0 \<longrightarrow> b_valid b) \<and>
     (b_refcnt b = 0 \<longrightarrow> \<not> sl_locked (b_lock b) \<and> (b_valid b \<longrightarrow> b_data b = dk (b_blockno b))) \<and>
     (sl_locked (b_lock b) \<longrightarrow> sl_pid (b_lock b) = pid)"

definition uniq :: "nat \<Rightarrow> (nat \<Rightarrow> buf) \<Rightarrow> bool" where
  "uniq d c \<longleftrightarrow> (\<forall>a<NBUF. \<forall>b<NBUF. b_dev (c a) = d \<and> b_dev (c b) = d \<and> b_blockno (c a) = b_blockno (c b) \<longrightarrow> a = b)"

abbreviation mypid :: "kstate \<Rightarrow> int" where
  "mypid s \<equiv> p_pid (procs s (curproc s))"

definition cache_ok :: "nat \<Rightarrow> kstate \<Rightarrow> bool" where
  "cache_ok d s \<longleftrightarrow> idle (sync s) \<and> myproc s \<noteq> None \<and> (\<exists>L. ring L (bcache s)) \<and> uniq d (bcache s) \<and>
     (\<forall>b<NBUF. buf_ok d (mypid s) (disk s) (bcache s b))"

text \<open>Buffer \<open>b\<close> is the one of block \<open>x\<close>.\<close>

definition buffers :: "nat \<Rightarrow> kstate \<Rightarrow> nat \<Rightarrow> nat \<Rightarrow> bool" where
  "buffers d s b x \<longleftrightarrow> b < NBUF \<and> b_dev (bcache s b) = d \<and> b_blockno (bcache s b) = x"

lemma slot_Some: "uniq d c \<Longrightarrow> slot d c x = Some b \<longleftrightarrow> b < NBUF \<and> b_dev (c b) = d \<and> b_blockno (c b) = x"
proof
  assume "slot d c x = Some b"
  then show "b < NBUF \<and> b_dev (c b) = d \<and> b_blockno (c b) = x" by (auto simp: slot_def find_Some_iff)
next
  assume u: "uniq d c" and b: "b < NBUF \<and> b_dev (c b) = d \<and> b_blockno (c b) = x"
  then have "slot d c x \<noteq> None" by (auto simp: slot_def find_None_iff)
  then obtain a where a: "slot d c x = Some a" by blast
  then have "a < NBUF \<and> b_dev (c a) = d \<and> b_blockno (c a) = x" by (auto simp: slot_def find_Some_iff)
  then have "a = b" using u b unfolding uniq_def by blast
  then show "slot d c x = Some b" using a by simp
qed

lemma slot_None: "slot d c x = None \<longleftrightarrow> (\<forall>b<NBUF. \<not> (b_dev (c b) = d \<and> b_blockno (c b) = x))"
  by (auto simp: slot_def find_None_iff)

lemma slot_cong: "(\<And>b. b < NBUF \<Longrightarrow> b_dev (c' b) = b_dev (c b) \<and> b_blockno (c' b) = b_blockno (c b)) \<Longrightarrow> slot d c' x = slot d c x"
  unfolding slot_def by (rule find_cong) auto

lemma uniq_cong: "(\<And>b. b < NBUF \<Longrightarrow> b_dev (c' b) = b_dev (c b) \<and> b_blockno (c' b) = b_blockno (c b)) \<Longrightarrow> uniq d c' = uniq d c"
  unfolding uniq_def by auto

text \<open>A change to one buffer that stays with its block.\<close>

lemma view_update:
  assumes ok: "uniq d (bcache s)" and b: "buffers d s b x"
    and same: "\<And>a. b_dev (bcache s' a) = b_dev (bcache s a) \<and> b_blockno (bcache s' a) = b_blockno (bcache s a)"
    and other: "\<And>a. a \<noteq> b \<Longrightarrow> b_valid (bcache s' a) = b_valid (bcache s a) \<and> b_data (bcache s' a) = b_data (bcache s a) \<and>
      b_refcnt (bcache s' a) = b_refcnt (bcache s a) \<and> b_lock (bcache s' a) = b_lock (bcache s a)"
    and dk: "\<And>y. y \<noteq> x \<Longrightarrow> disk s' y = disk s y"
  shows "content d s' = (content d s)(x := if b_valid (bcache s' b) then b_data (bcache s' b) else disk s' x)"
    "refs d s' = (refs d s)(x := b_refcnt (bcache s' b))"
    "held d s' = (if sl_locked (b_lock (bcache s' b)) then insert x (held d s) else held d s - {x})"
proof -
  have s: "slot d (bcache s') y = slot d (bcache s) y" for y by (rule slot_cong) (simp add: same)
  have x: "slot d (bcache s) x = Some b" using slot_Some [OF ok, of x b] b by (simp add: buffers_def)
  have n: "a \<noteq> b" if "slot d (bcache s) y = Some a" "y \<noteq> x" for a y using slot_Some [OF ok, of y a] that b by (auto simp: buffers_def)
  have o: "b_valid (bcache s' a) = b_valid (bcache s a)" "b_data (bcache s' a) = b_data (bcache s a)"
    "b_refcnt (bcache s' a) = b_refcnt (bcache s a)" "b_lock (bcache s' a) = b_lock (bcache s a)" if "slot d (bcache s) y = Some a" "y \<noteq> x" for a y
    using other [OF n [OF that]] by auto
  have "content d s' y = ((content d s)(x := if b_valid (bcache s' b) then b_data (bcache s' b) else disk s' x)) y"
    "refs d s' y = ((refs d s)(x := b_refcnt (bcache s' b))) y"
    "y \<in> held d s' \<longleftrightarrow> y \<in> (if sl_locked (b_lock (bcache s' b)) then insert x (held d s) else held d s - {x})" for y
    by (cases "y = x"; cases "slot d (bcache s) y"; simp add: content_def refs_def held_def s x dk o)+
  then show "content d s' = (content d s)(x := if b_valid (bcache s' b) then b_data (bcache s' b) else disk s' x)"
    "refs d s' = (refs d s)(x := b_refcnt (bcache s' b))"
    "held d s' = (if sl_locked (b_lock (bcache s' b)) then insert x (held d s) else held d s - {x})" by (blast intro: ext set_eqI)+
qed

lemma view_at:
  assumes "uniq d (bcache s)" "buffers d s b x"
  shows "content d s x = (if b_valid (bcache s b) then b_data (bcache s b) else disk s x)" "refs d s x = b_refcnt (bcache s b)"
    "x \<in> held d s \<longleftrightarrow> sl_locked (b_lock (bcache s b))"
  using slot_Some [OF assms(1), of x b] assms(2) by (simp_all add: buffers_def content_def refs_def held_def)

lemma cache_okD:
  assumes "cache_ok d s"
  shows "uniq d (bcache s)" "b < NBUF \<Longrightarrow> buf_ok d (mypid s) (disk s) (bcache s b)" "idle (sync s)" "\<exists>p. myproc s = Some p" "\<exists>L. ring L (bcache s)"
  using assms unfolding cache_ok_def by blast+

lemma slot_buffers: "cache_ok d s \<Longrightarrow> slot d (bcache s) x = Some b \<longleftrightarrow> buffers d s b x"
  using slot_Some [OF cache_okD(1)] by (simp add: buffers_def)

lemma view_clean: "cache_ok d s \<Longrightarrow> refs d s x = 0 \<Longrightarrow> content d s x = disk s x"
proof (cases "slot d (bcache s) x")
  case (Some b)
  assume a: "cache_ok d s" "refs d s x = 0"
  then have "buffers d s b x" using Some by (simp add: slot_buffers)
  then show ?thesis using a Some cache_okD(2) [OF a(1), of b] by (simp add: content_def refs_def buf_ok_def buffers_def)
qed (simp add: content_def)

lemma refs_nonneg: "cache_ok d s \<Longrightarrow> 0 \<le> refs d s x"
proof (cases "slot d (bcache s) x")
  case (Some b)
  assume a: "cache_ok d s"
  then have "buffers d s b x" using Some by (simp add: slot_buffers)
  then show ?thesis using Some cache_okD(2) [OF a, of b] by (simp add: refs_def buf_ok_def buffers_def)
qed (simp add: refs_def)

text \<open>With fewer than \<open>NBUF\<close> blocks in use, a buffer is free.\<close>

lemma free_buffer:
  assumes ok: "cache_ok d s" and f: "finite X" "card X < NBUF" "\<And>x. 0 < refs d s x \<Longrightarrow> x \<in> X"
  shows "\<exists>b<NBUF. b_refcnt (bcache s b) = 0"
proof (rule ccontr)
  assume "\<not> ?thesis"
  then have u: "b_refcnt (bcache s b) \<noteq> 0" if "b < NBUF" for b using that by blast
  have bo: "buf_ok d (mypid s) (disk s) (bcache s b)" if "b < NBUF" for b using ok that by (simp add: cache_ok_def)
  have un: "uniq d (bcache s)" using ok by (simp add: cache_ok_def)
  have dv: "b_dev (bcache s b) = d" if "b < NBUF" for b using bo [OF that] u [OF that] by (simp add: buf_ok_def)
  have "inj_on (\<lambda>b. b_blockno (bcache s b)) {0..<NBUF}" using un dv by (auto simp: inj_on_def uniq_def)
  moreover have "(\<lambda>b. b_blockno (bcache s b)) ` {0..<NBUF} \<subseteq> X"
  proof
    fix x assume "x \<in> (\<lambda>b. b_blockno (bcache s b)) ` {0..<NBUF}"
    then obtain b where b: "b < NBUF" "x = b_blockno (bcache s b)" by auto
    then have "refs d s x = b_refcnt (bcache s b)" using view_at(2) [OF un, of b x] dv by (simp add: buffers_def)
    then show "x \<in> X" using bo [OF b(1)] u [OF b(1)] f(3) by (simp add: buf_ok_def)
  qed
  ultimately have "NBUF \<le> card X" using f(1) card_inj_on_le by fastforce
  then show False using f(2) by simp
qed

section \<open>Sleep locks of buffers\<close>

abbreviation mylock :: "kstate \<Rightarrow> sleeplock" where
  "mylock s \<equiv> \<lparr>sl_locked = True, sl_pid = mypid s\<rparr>"

lemma acquiresleep_eq:
  assumes "idle (sync s)" "myproc s = Some p" "\<not> sl_locked (b_lock (bcache s b))"
  shows "acquiresleep (Lbuf b) s = Some (upd_buf b (\<lambda>e. e\<lparr>b_lock := mylock s\<rparr>) (s\<lparr>sync := settle (sync s)\<rparr>))"
  using assms by (simp add: acquiresleep_def rel_def myproc_def)

lemma holdingsleep_eq:
  assumes "idle (sync s)" "myproc s = Some p"
  shows "holdingsleep (Lbuf b) s = Some (sl_locked (b_lock (bcache s b)) \<and> sl_pid (b_lock (bcache s b)) = mypid s, s\<lparr>sync := settle (sync s)\<rparr>)"
  using assms by (simp add: holdingsleep_def rel_def myproc_def)

lemma releasesleep_eq:
  assumes "idle (sync s)"
  shows "releasesleep (Lbuf b) s = Some ((woken (Some (Cbuf b)) (upd_buf b (\<lambda>e. e\<lparr>b_lock := \<lparr>sl_locked = False, sl_pid = 0\<rparr>\<rparr>) s))\<lparr>sync := settle (sync s)\<rparr>)"
proof -
  let ?s = "set_sl (Lbuf b) \<lparr>sl_locked = False, sl_pid = 0\<rparr> (s\<lparr>sync := lockd (Lbuf b) (sync s)\<rparr>)"
  have "procs_free ?s" "c_noff (mycpu (sync ?s)) \<noteq> 0" using assms by (simp_all add: procs_free_def)
  from wakeup_eq [OF this] have w: "wakeup (Cbuf b) ?s = Some (woken (Some (Cbuf b)) ?s)" .
  have "releasesleep (Lbuf b) s = rel (Lbuf b) (woken (Some (Cbuf b)) ?s)" using assms w by (simp add: releasesleep_def)
  also have "\<dots> = Some ((woken (Some (Cbuf b)) ?s)\<lparr>sync := settle (sync s)\<rparr>)" using assms by (simp add: rel_def)
  finally show ?thesis by (simp add: woken_def myproc_def cong: if_cong)
qed

text \<open>What the cache operations leave alone.\<close>

definition cache_step :: "kstate \<Rightarrow> kstate \<Rightarrow> bool" where
  "cache_step s s' \<longleftrightarrow> idle (sync s') \<and> myproc s' = myproc s \<and> log s' = log s \<and> (\<forall>q. p_pid (procs s' q) = p_pid (procs s q))"

lemma cache_step_trans: "cache_step s s' \<Longrightarrow> cache_step s' s'' \<Longrightarrow> cache_step s s''"
  by (simp add: cache_step_def)

lemma cache_step_simps: "cache_step s s' \<Longrightarrow> log s' = log s" "cache_step s s' \<Longrightarrow> myproc s' = myproc s"
  by (simp_all add: cache_step_def)

section \<open>\<open>bread\<close>\<close>

lemma bget_hit:
  assumes ok: "cache_ok d s" and b: "buffers d s b x" and x: "x \<notin> held d s"
  shows "bget d x s = Some (b, upd_buf b (\<lambda>e. e\<lparr>b_refcnt := b_refcnt e + 1, b_lock := mylock s\<rparr>) (s\<lparr>sync := settle (sync s)\<rparr>))"
proof -
  note y = cache_okD(3) [OF ok]
  obtain p where p: "myproc s = Some p" using cache_okD(4) [OF ok] by blast
  obtain L where L: "dll (bcache s) NBUF L NBUF" "NBUF \<notin> set L" "set L = {0..<NBUF}" using cache_okD(5) [OF ok] by (auto simp: ring_def)
  let ?P = "\<lambda>b. b_dev (bcache s b) = d \<and> b_blockno (bcache s b) = x"
  have "find ?P L \<noteq> None" using b L(3) by (auto simp: find_None_iff buffers_def)
  then obtain a where a: "find ?P L = Some a" by blast
  then have "buffers d s a x" using L(3) by (auto simp: buffers_def find_Some_iff)
  then have "a = b" using b cache_okD(1) [OF ok] unfolding buffers_def uniq_def by blast
  then have f: "find ?P L = Some b" using a by simp
  let ?s1 = "s\<lparr>sync := lockd Lbcache (sync s)\<rparr>"
  have c: "bget_cached (b_next (bcache ?s1 NBUF)) d x ?s1 = Some (Some b)" using bget_cached_eq [of ?s1 NBUF L d x] L f by simp
  let ?s2 = "(upd_buf b (\<lambda>e. e\<lparr>b_refcnt := b_refcnt e + 1\<rparr>) s)\<lparr>sync := settle (sync s)\<rparr>"
  have "\<not> sl_locked (b_lock (bcache ?s2 b))" using x view_at(3) [OF cache_okD(1) [OF ok] b] by simp
  then have "acquiresleep (Lbuf b) ?s2 = Some (upd_buf b (\<lambda>e. e\<lparr>b_lock := mylock s\<rparr>) ?s2)"
    using acquiresleep_eq [of ?s2 p b] y p by (simp add: myproc_def)
  then show ?thesis using c y p by (simp add: bget_def rel_def)
qed

lemma bget_miss:
  assumes ok: "cache_ok d s" and x: "slot d (bcache s) x = None" and f: "\<exists>b<NBUF. b_refcnt (bcache s b) = 0"
  obtains b where "b < NBUF" "b_refcnt (bcache s b) = 0"
    "bget d x s = Some (b, upd_buf b (\<lambda>e. e\<lparr>b_dev := d, b_blockno := x, b_valid := False, b_refcnt := 1, b_lock := mylock s\<rparr>) (s\<lparr>sync := settle (sync s)\<rparr>))"
proof -
  note y = cache_okD(3) [OF ok]
  obtain p where p: "myproc s = Some p" using cache_okD(4) [OF ok] by blast
  obtain L where L: "dll (bcache s) NBUF L NBUF" "NBUF \<notin> set L" "set L = {0..<NBUF}" using cache_okD(5) [OF ok] by (auto simp: ring_def)
  let ?s1 = "s\<lparr>sync := lockd Lbcache (sync s)\<rparr>"
  have "find (\<lambda>b. b_dev (bcache s b) = d \<and> b_blockno (bcache s b) = x) L = None" using x L(3) by (auto simp: slot_None find_None_iff)
  then have c: "bget_cached (b_next (bcache ?s1 NBUF)) d x ?s1 = Some None" using bget_cached_eq [of ?s1 NBUF L d x] L by simp
  have "find (\<lambda>b. b_refcnt (bcache s b) = 0) (rev L) \<noteq> None" using f L(3) by (auto simp: find_None_iff)
  then obtain b where b: "find (\<lambda>b. b_refcnt (bcache s b) = 0) (rev L) = Some b" by blast
  then have b': "b < NBUF" "b_refcnt (bcache s b) = 0" using L(3) by (auto simp: find_Some_iff) (metis atLeastLessThan_iff nth_mem set_rev length_rev)
  have u: "bget_unused (b_prev (bcache ?s1 NBUF)) ?s1 = Some (Some b)" using bget_unused_eq [of ?s1 L NBUF] L b by simp
  let ?s2 = "(upd_buf b (\<lambda>e. e\<lparr>b_dev := d, b_blockno := x, b_valid := False, b_refcnt := 1\<rparr>) s)\<lparr>sync := settle (sync s)\<rparr>"
  have "\<not> sl_locked (b_lock (bcache ?s2 b))" using b' cache_okD(2) [OF ok b'(1)] by (simp add: buf_ok_def)
  then have "acquiresleep (Lbuf b) ?s2 = Some (upd_buf b (\<lambda>e. e\<lparr>b_lock := mylock s\<rparr>) ?s2)"
    using acquiresleep_eq [of ?s2 p b] y p by (simp add: myproc_def)
  then have "bget d x s = Some (b, upd_buf b (\<lambda>e. e\<lparr>b_dev := d, b_blockno := x, b_valid := False, b_refcnt := 1, b_lock := mylock s\<rparr>) (s\<lparr>sync := settle (sync s)\<rparr>))"
    using c u y p by (simp add: bget_def rel_def)
  then show thesis using that b' by blast
qed

lemma cache_ok_upd:
  assumes ok: "cache_ok d s" and st: "cache_step s s'" and dk: "disk s' = disk s"
    and c: "bcache s' = (bcache s)(b := e)" "b_next e = b_next (bcache s b)" "b_prev e = b_prev (bcache s b)"
    and u: "uniq d (bcache s')" and e: "buf_ok d (mypid s) (disk s) e"
  shows "cache_ok d s'"
proof -
  obtain p where p: "myproc s = Some p" using cache_okD(4) [OF ok] by blast
  obtain L where L: "ring L (bcache s)" using cache_okD(5) [OF ok] by blast
  have "ring L (bcache s')" by (rule ring_cong [OF L]) (simp_all add: c)
  moreover have "mypid s' = mypid s" using st by (simp add: cache_step_def)
  ultimately show ?thesis using st p u dk e cache_okD(2) [OF ok] by (auto simp: cache_ok_def cache_step_def c(1))
qed

lemma bread_hit:
  assumes ok: "cache_ok d s" and b: "buffers d s b x" and x: "x \<notin> held d s"
  shows "\<exists>s'. bread d x s = Some (b, s') \<and> cache_ok d s' \<and> cache_step s s' \<and> disk s' = disk s \<and> dhist s' = dhist s \<and> buffers d s' b x \<and>
    b_data (bcache s' b) = content d s x \<and> content d s' = content d s \<and> refs d s' = (refs d s)(x := refs d s x + 1) \<and>
    held d s' = insert x (held d s) \<and> (\<forall>a y. y \<in> held d s \<longrightarrow> buffers d s a y \<longrightarrow> buffers d s' a y)"
proof -
  note u = cache_okD(1) [OF ok] and v = view_at [OF cache_okD(1) [OF ok] b]
  have bo: "buf_ok d (mypid s) (disk s) (bcache s b)" using cache_okD(2) [OF ok] b by (simp add: buffers_def)
  define e where "e = (let e = (bcache s b)\<lparr>b_refcnt := b_refcnt (bcache s b) + 1, b_lock := mylock s\<rparr> in
      if b_valid (bcache s b) then e else e\<lparr>b_data := disk s x, b_valid := True\<rparr>)"
  have ef: "b_refcnt e = b_refcnt (bcache s b) + 1" "b_lock e = mylock s" "b_valid e" "b_data e = content d s x" "b_dev e = b_dev (bcache s b)"
    "b_blockno e = b_blockno (bcache s b)" "b_next e = b_next (bcache s b)" "b_prev e = b_prev (bcache s b)"
    using v(1) by (auto simp: e_def Let_def)
  let ?s' = "(s\<lparr>sync := settle (sync s)\<rparr>)\<lparr>bcache := (bcache s)(b := e)\<rparr>"
  have run: "bread d x s = Some (b, ?s')"
    using bget_hit [OF ok b x] v(1) b by (simp add: bread_def virtio_disk_rw_def e_def buffers_def)
  have st: "cache_step s ?s'" using cache_okD(3) [OF ok] by (simp add: cache_step_def myproc_def)
  have same: "b_dev (bcache ?s' a) = b_dev (bcache s a) \<and> b_blockno (bcache ?s' a) = b_blockno (bcache s a)" for a by (simp add: ef)
  have u': "uniq d (bcache ?s')" using uniq_cong [of "bcache ?s'" "bcache s" d] same u by simp
  have "buf_ok d (mypid s) (disk s) e" using bo b by (simp add: buf_ok_def ef buffers_def)
  then have "cache_ok d ?s'" by (intro cache_ok_upd [OF ok st _ _ _ _ u', of b e]) (simp_all add: ef)
  moreover have "content d ?s' = (content d s)(x := content d s x)" "refs d ?s' = (refs d s)(x := refs d s x + 1)" "held d ?s' = insert x (held d s)"
    using view_update [OF u b, of ?s'] same v by (simp_all add: ef)
  ultimately show ?thesis using run st b by (intro exI [of _ ?s']) (auto simp: buffers_def ef)
qed

text \<open>A free buffer is taken for another block.\<close>

lemma view_replace:
  assumes ok: "cache_ok d s" and x: "slot d (bcache s) x = None" and b: "b < NBUF" "b_refcnt (bcache s b) = 0"
    and c: "bcache s' = (bcache s)(b := e)" "b_dev e = d" "b_blockno e = x" "disk s' = disk s"
  shows "uniq d (bcache s')" "content d s' = (content d s)(x := if b_valid e then b_data e else disk s x)"
    "refs d s' = (refs d s)(x := b_refcnt e)" "held d s' = (if sl_locked (b_lock e) then insert x (held d s) else held d s)"
proof -
  note u = cache_okD(1) [OF ok]
  have bo: "buf_ok d (mypid s) (disk s) (bcache s b)" using cache_okD(2) [OF ok b(1)] .
  show u': "uniq d (bcache s')" using u x b by (auto simp: uniq_def slot_None c)
  have sx: "slot d (bcache s') x = Some b" using b slot_Some [OF u', of x b] c by simp
  have sy: "slot d (bcache s') y = (if slot d (bcache s) y = Some b then None else slot d (bcache s) y)" if "y \<noteq> x" for y
  proof (cases "slot d (bcache s) y")
    case None
    then have "slot d (bcache s') y = None" using that c unfolding slot_None by auto
    then show ?thesis using None by simp
  next
    case (Some a)
    then have a: "a < NBUF" "b_dev (bcache s a) = d" "b_blockno (bcache s a) = y" by (auto simp: slot_Some [OF u])
    show ?thesis
    proof (cases "a = b")
      case True
      then have "slot d (bcache s') y = None" using that a u b(1) by (auto simp: slot_None c uniq_def)
      then show ?thesis using Some True by simp
    next
      case False
      then show ?thesis using Some a slot_Some [OF u', of y a] c by simp
    qed
  qed
  have gone: "content d s y = disk s y" "refs d s y = 0" "y \<notin> held d s" if "slot d (bcache s) y = Some b" for y
  proof -
    have "b_blockno (bcache s b) = y" using that slot_Some [OF u, of y b] by simp
    then show "content d s y = disk s y" "refs d s y = 0" "y \<notin> held d s" using that bo b(2) by (simp_all add: content_def refs_def held_def buf_ok_def)
  qed
  have nx: "content d s' y = ((content d s)(x := if b_valid e then b_data e else disk s x)) y" "refs d s' y = ((refs d s)(x := b_refcnt e)) y"
    "y \<in> held d s' \<longleftrightarrow> y \<in> (if sl_locked (b_lock e) then insert x (held d s) else held d s)" for y
  proof -
    have "x \<notin> held d s" using x by (simp add: held_def)
    then show "content d s' y = ((content d s)(x := if b_valid e then b_data e else disk s x)) y" "refs d s' y = ((refs d s)(x := b_refcnt e)) y"
      "y \<in> held d s' \<longleftrightarrow> y \<in> (if sl_locked (b_lock e) then insert x (held d s) else held d s)"
      using gone [of y] sx sy [of y] c by (cases "y = x"; cases "slot d (bcache s) y = Some b"; auto simp: content_def refs_def held_def split: option.splits)+
  qed
  then show "content d s' = (content d s)(x := if b_valid e then b_data e else disk s x)"
    "refs d s' = (refs d s)(x := b_refcnt e)" "held d s' = (if sl_locked (b_lock e) then insert x (held d s) else held d s)" by (blast intro: ext set_eqI)+
qed

text \<open>Block \<open>x\<close> was read into buffer \<open>b\<close>, which is now locked.\<close>

definition got :: "nat \<Rightarrow> kstate \<Rightarrow> nat \<Rightarrow> nat \<Rightarrow> kstate \<Rightarrow> bool" where
  "got d s b x s' \<longleftrightarrow> cache_ok d s' \<and> cache_step s s' \<and> disk s' = disk s \<and> dhist s' = dhist s \<and> buffers d s' b x \<and>
    b_data (bcache s' b) = content d s x \<and> content d s' = content d s \<and> refs d s' = (refs d s)(x := refs d s x + 1) \<and>
    held d s' = insert x (held d s) \<and> (\<forall>a y. y \<in> held d s \<longrightarrow> buffers d s a y \<longrightarrow> buffers d s' a y)"

lemma bread_spec:
  assumes ok: "cache_ok d s" and x: "x \<notin> held d s" and f: "finite X" "card X < NBUF" "\<And>x. 0 < refs d s x \<Longrightarrow> x \<in> X"
  obtains b s' where "bread d x s = Some (b, s')" "got d s b x s'"
proof (cases "slot d (bcache s) x")
  case (Some b)
  then have "buffers d s b x" using slot_buffers [OF ok] by simp
  then show thesis using that bread_hit [OF ok _ x] unfolding got_def by blast
next
  case None
  obtain b where b: "b < NBUF" "b_refcnt (bcache s b) = 0" and run:
    "bget d x s = Some (b, upd_buf b (\<lambda>e. e\<lparr>b_dev := d, b_blockno := x, b_valid := False, b_refcnt := 1, b_lock := mylock s\<rparr>) (s\<lparr>sync := settle (sync s)\<rparr>))"
    using bget_miss [OF ok None free_buffer [OF ok f]] by blast
  define e where "e = (bcache s b)\<lparr>b_dev := d, b_blockno := x, b_valid := False, b_refcnt := 1, b_lock := mylock s, b_data := disk s x, b_valid := True\<rparr>"
  let ?s' = "(s\<lparr>sync := settle (sync s)\<rparr>)\<lparr>bcache := (bcache s)(b := e)\<rparr>"
  have r: "bread d x s = Some (b, ?s')" using run by (simp add: bread_def virtio_disk_rw_def e_def)
  have st: "cache_step s ?s'" using cache_okD(3) [OF ok] by (simp add: cache_step_def myproc_def)
  note v = view_replace [OF ok None b, of ?s' e]
  have "buf_ok d (mypid s) (disk s) e" by (simp add: buf_ok_def e_def)
  then have c: "cache_ok d ?s'" using v(1) by (intro cache_ok_upd [OF ok st, of b e]) (simp_all add: e_def)
  have "refs d s x = 0" "content d s x = disk s x" using None by (simp_all add: refs_def content_def)
  moreover have "content d ?s' = (content d s)(x := disk s x)" "refs d ?s' = (refs d s)(x := 1)" "held d ?s' = insert x (held d s)"
    using v by (simp_all add: e_def)
  moreover have "buffers d ?s' a y" if "y \<in> held d s" "buffers d s a y" for a y
  proof -
    have "sl_locked (b_lock (bcache s a))" using that view_at(3) [OF cache_okD(1) [OF ok]] by blast
    then have "a \<noteq> b" using b cache_okD(2) [OF ok b(1)] by (auto simp: buf_ok_def)
    then show ?thesis using that by (simp add: buffers_def)
  qed
  ultimately have "got d s b x ?s'" using c st b by (auto simp: got_def buffers_def e_def)
  then show thesis using that r by blast
qed

section \<open>Storing and releasing\<close>

lemma store_spec:
  assumes ok: "cache_ok d s" and b: "buffers d s b x" "x \<in> held d s"
    and s'_def: "s' = upd_buf b (\<lambda>e. e\<lparr>b_data := v\<rparr>) s"
  shows "cache_ok d s'" "cache_step s s'" "content d s' = (content d s)(x := v)" "refs d s' = refs d s" "held d s' = held d s"
    "buffers d s' a y = buffers d s a y" "disk s' = disk s" "dhist s' = dhist s"
proof -
  note u = cache_okD(1) [OF ok] and w = view_at [OF cache_okD(1) [OF ok] b(1)]
  have bo: "buf_ok d (mypid s) (disk s) (bcache s b)" "b < NBUF" using cache_okD(2) [OF ok] b by (simp_all add: buffers_def)
  show st: "cache_step s s'" using cache_okD(3) [OF ok] by (simp add: cache_step_def myproc_def s'_def)
  have same: "b_dev (bcache s' a) = b_dev (bcache s a) \<and> b_blockno (bcache s' a) = b_blockno (bcache s a)" for a by (simp add: s'_def)
  have u': "uniq d (bcache s')" using uniq_cong [of "bcache s'" "bcache s" d] same u by simp
  show "cache_ok d s'" using w(3) b(2) bo by (intro cache_ok_upd [OF ok st _ _ _ _ u', of b "(bcache s b)\<lparr>b_data := v\<rparr>"]) (auto simp: s'_def buf_ok_def)
  have "b_valid (bcache s b)" using w(3) b(2) bo by (auto simp: buf_ok_def)
  then show "content d s' = (content d s)(x := v)" "refs d s' = refs d s" "held d s' = held d s"
    using view_update [OF u b(1), of s'] same w b(2) by (auto simp: s'_def)
  show "buffers d s' a y = buffers d s a y" "disk s' = disk s" "dhist s' = dhist s" by (simp_all add: buffers_def s'_def)
qed

lemma bwrite_spec:
  assumes ok: "cache_ok d s" and b: "buffers d s b x" "x \<in> held d s"
  shows "\<exists>s'. bwrite b s = Some s' \<and> cache_ok d s' \<and> cache_step s s' \<and> content d s' = content d s \<and> refs d s' = refs d s \<and> held d s' = held d s \<and>
    (\<forall>a y. buffers d s' a y = buffers d s a y) \<and> disk s' = (disk s)(x := content d s x) \<and> dhist s' = dhist s @ [(x, content d s x)]"
proof -
  note u = cache_okD(1) [OF ok] and w = view_at [OF cache_okD(1) [OF ok] b(1)]
  obtain p where p: "myproc s = Some p" using cache_okD(4) [OF ok] by blast
  have bo: "buf_ok d (mypid s) (disk s) (bcache s b)" "b < NBUF" using cache_okD(2) [OF ok] b by (simp_all add: buffers_def)
  have l: "sl_locked (b_lock (bcache s b))" "b_valid (bcache s b)" "b_data (bcache s b) = content d s x" using w b(2) bo by (auto simp: buf_ok_def)
  let ?s' = "s\<lparr>sync := settle (sync s), disk := (disk s)(x := content d s x), dhist := dhist s @ [(x, content d s x)]\<rparr>"
  have run: "bwrite b s = Some ?s'"
    using holdingsleep_eq [OF cache_okD(3) [OF ok] p, of b] l bo b by (simp add: bwrite_def buf_ok_def virtio_disk_rw_def buffers_def Let_def)
  have st: "cache_step s ?s'" using cache_okD(3) [OF ok] by (simp add: cache_step_def myproc_def)
  have "buf_ok d (mypid s) (disk ?s') (bcache s a)" if "a < NBUF" for a
  proof (cases "b_valid (bcache s a) \<and> b_blockno (bcache s a) = x")
    case True
    then have "b_dev (bcache s a) = d" using cache_okD(2) [OF ok that] by (simp add: buf_ok_def)
    then have "a = b" using True u b that unfolding uniq_def buffers_def by blast
    then show ?thesis using bo(1) l b by (auto simp: buf_ok_def)
  next
    case False
    then show ?thesis using cache_okD(2) [OF ok that] by (auto simp: buf_ok_def)
  qed
  then have "cache_ok d ?s'" using ok st by (simp add: cache_ok_def cache_step_def)
  moreover have "content d ?s' = content d s" "refs d ?s' = refs d s" "held d ?s' = held d s"
    using view_update [OF u b(1), of ?s'] l b(2) by (simp_all add: insert_absorb flip: w(2))
  ultimately show ?thesis using run st by (intro exI [of _ ?s']) (simp add: buffers_def)
qed

text \<open>Moving a buffer to the front changes the links only.\<close>

abbreviation to_front :: "nat \<Rightarrow> kstate \<Rightarrow> kstate" where
  "to_front b s \<equiv> (let s = upd_buf (b_next (bcache s b)) (\<lambda>n. n\<lparr>b_prev := b_prev (bcache s b)\<rparr>) s;
      s = upd_buf (b_prev (bcache s b)) (\<lambda>n. n\<lparr>b_next := b_next (bcache s b)\<rparr>) s in buf_push b s)"

definition links :: "kstate \<Rightarrow> kstate \<Rightarrow> bool" where
  "links s s' \<longleftrightarrow> s' = s\<lparr>bcache := bcache s'\<rparr> \<and> (\<forall>a. \<exists>p n. bcache s' a = (bcache s a)\<lparr>b_prev := p, b_next := n\<rparr>)"

lemma links_refl: "links s s"
proof -
  have "bcache s a = (bcache s a)\<lparr>b_prev := b_prev (bcache s a), b_next := b_next (bcache s a)\<rparr>" for a by simp
  then have "\<forall>a. \<exists>p n. bcache s a = (bcache s a)\<lparr>b_prev := p, b_next := n\<rparr>" by blast
  then show ?thesis by (simp add: links_def)
qed

lemma links_upd:
  assumes "links s s'"
  shows "links s (upd_buf i (\<lambda>e. e\<lparr>b_prev := v\<rparr>) s')" "links s (upd_buf i (\<lambda>e. e\<lparr>b_next := v\<rparr>) s')"
proof -
  obtain c where s': "s' = s\<lparr>bcache := c\<rparr>" using assms unfolding links_def by blast
  obtain p n where c: "c a = (bcache s a)\<lparr>b_prev := p a, b_next := n a\<rparr>" for a using assms unfolding links_def s' by (simp, metis)
  have "(c(i := (c i)\<lparr>b_prev := v\<rparr>)) a = (bcache s a)\<lparr>b_prev := (p(i := v)) a, b_next := n a\<rparr>"
    "(c(i := (c i)\<lparr>b_next := v\<rparr>)) a = (bcache s a)\<lparr>b_prev := p a, b_next := (n(i := v)) a\<rparr>" for a by (simp_all add: c)
  then show "links s (upd_buf i (\<lambda>e. e\<lparr>b_prev := v\<rparr>) s')" "links s (upd_buf i (\<lambda>e. e\<lparr>b_next := v\<rparr>) s')"
    unfolding links_def s' by (simp, blast)+
qed

lemma to_front_links: "links s (to_front b s)"
  unfolding Let_def buf_push_def by (intro links_upd links_refl)

lemma links_fields:
  assumes "links s s'"
  shows "s' = s\<lparr>bcache := bcache s'\<rparr>" "b_dev (bcache s' a) = b_dev (bcache s a)" "b_blockno (bcache s' a) = b_blockno (bcache s a)"
    "b_valid (bcache s' a) = b_valid (bcache s a)" "b_data (bcache s' a) = b_data (bcache s a)"
    "b_refcnt (bcache s' a) = b_refcnt (bcache s a)" "b_lock (bcache s' a) = b_lock (bcache s a)"
proof -
  show "s' = s\<lparr>bcache := bcache s'\<rparr>" using assms by (simp add: links_def)
  obtain p n where "bcache s' a = (bcache s a)\<lparr>b_prev := p, b_next := n\<rparr>" using assms unfolding links_def by blast
  then show "b_dev (bcache s' a) = b_dev (bcache s a)" "b_blockno (bcache s' a) = b_blockno (bcache s a)"
    "b_valid (bcache s' a) = b_valid (bcache s a)" "b_data (bcache s' a) = b_data (bcache s a)"
    "b_refcnt (bcache s' a) = b_refcnt (bcache s a)" "b_lock (bcache s' a) = b_lock (bcache s a)" by simp_all
qed

lemma buf_push_links:
  assumes "b \<noteq> NBUF"
  shows "b_next (bcache (buf_push b s) x) = (if x = NBUF then b else if x = b then b_next (bcache s NBUF) else b_next (bcache s x))"
    "b_prev (bcache (buf_push b s) x) = (if x = b_next (bcache s NBUF) then b else if x = b then NBUF else b_prev (bcache s x))"
  using assms by (simp_all add: buf_push_def Let_def)

lemma to_front_ring:
  assumes r: "ring L (bcache s)" and b: "b < NBUF"
  shows "\<exists>L'. ring L' (bcache (to_front b s))"
proof -
  let ?c = "bcache s" and ?n = "b_next (bcache s b)" and ?p = "b_prev (bcache s b)"
  let ?s1 = "upd_buf ?n (\<lambda>n. n\<lparr>b_prev := ?p\<rparr>) s"
  let ?s2 = "upd_buf ?p (\<lambda>n. n\<lparr>b_next := ?n\<rparr>) ?s1"
  have "b \<in> set L" using r b by (simp add: ring_def)
  then obtain xs ys where L: "L = xs @ b # ys" by (auto simp: in_set_conv_decomp)
  then have "dll ?c NBUF xs b" "dll ?c b ys NBUF" using r dll_append [of ?c NBUF xs b ys NBUF] by (auto simp: ring_def)
  then have n: "?n \<noteq> b" "?p \<noteq> b" "b \<noteq> NBUF" using dll_ends [of ?c NBUF xs b] dll_ends [of ?c b ys NBUF] r b L by (auto simp: ring_def)
  have e: "to_front b s = buf_push b ?s2" using n by (simp add: Let_def)
  show ?thesis
  proof (rule ring_front [OF r b, where ?c1.0 = "bcache ?s2"])
    show "b_next (bcache ?s2 x) = (if x = ?p then ?n else b_next (?c x))" "b_prev (bcache ?s2 x) = (if x = ?n then ?p else b_prev (?c x))" for x by simp_all
    show "b_next (bcache (to_front b s) x) = (if x = NBUF then b else if x = b then b_next (bcache ?s2 NBUF) else b_next (bcache ?s2 x))"
      "b_prev (bcache (to_front b s) x) = (if x = b_next (bcache ?s2 NBUF) then b else if x = b then NBUF else b_prev (bcache ?s2 x))" for x
      unfolding e by (rule buf_push_links [OF n(3)])+
  qed
qed

text \<open>Fewer references to a block: its buffer must still be in use, or be clean.\<close>

lemma drop_ref:
  assumes ok: "cache_ok d s" and b: "buffers d s b x" and c: "refs d s x = 1 \<longrightarrow> content d s x = disk s x" and l: "refs d s x = 1 \<longrightarrow> \<not> sl_locked l" "sl_locked l \<longrightarrow> sl_pid l = mypid s"
    and r: "0 < refs d s x" and st: "cache_step s s'" and dk: "disk s' = disk s"
    and same: "\<And>a. b_dev (bcache s' a) = b_dev (bcache s a) \<and> b_blockno (bcache s' a) = b_blockno (bcache s a) \<and>
      b_valid (bcache s' a) = b_valid (bcache s a) \<and> b_data (bcache s' a) = b_data (bcache s a)"
    and other: "\<And>a. a \<noteq> b \<Longrightarrow> b_refcnt (bcache s' a) = b_refcnt (bcache s a) \<and> b_lock (bcache s' a) = b_lock (bcache s a)"
    and here: "b_refcnt (bcache s' b) = b_refcnt (bcache s b) - 1" "b_lock (bcache s' b) = l" and rg: "\<exists>L. ring L (bcache s')"
  shows "cache_ok d s' \<and> content d s' = content d s \<and> refs d s' = (refs d s)(x := refs d s x - 1) \<and>
    held d s' = (if sl_locked l then insert x (held d s) else held d s - {x}) \<and> (\<forall>a y. buffers d s' a y = buffers d s a y)"
proof -
  note u = cache_okD(1) [OF ok] and w = view_at [OF cache_okD(1) [OF ok] b]
  have bo: "buf_ok d (mypid s) (disk s) (bcache s b)" "b < NBUF" using cache_okD(2) [OF ok] b by (simp_all add: buffers_def)
  have v: "b_valid (bcache s b)" "b_data (bcache s b) = content d s x" using bo r w(1,2) by (simp_all add: buf_ok_def)
  have "uniq d (bcache s')" using uniq_cong [of "bcache s'" "bcache s" d] same u by simp
  moreover have "buf_ok d (mypid s) (disk s) (bcache s' a)" if "a < NBUF" for a
  proof (cases "a = b")
    case True
    then show ?thesis using bo(1) v same [of b] here c l r w(2) b by (auto simp: buf_ok_def buffers_def)
  next
    case False
    then show ?thesis using cache_okD(2) [OF ok that] same [of a] other [OF False] by (simp add: buf_ok_def)
  qed
  moreover have "mypid s' = mypid s" using st by (simp add: cache_step_def)
  ultimately have "cache_ok d s'" using st cache_okD(4) [OF ok] rg dk by (auto simp: cache_ok_def cache_step_def)
  moreover have "content d s' = content d s" "refs d s' = (refs d s)(x := refs d s x - 1)" "held d s' = (if sl_locked l then insert x (held d s) else held d s - {x})"
    using view_update [OF u b, of s'] same other dk here w(2) v by simp_all
  ultimately show ?thesis using same by (simp add: buffers_def)
qed

lemma brelse_spec:
  assumes ok: "cache_ok d s" and b: "buffers d s b x" "x \<in> held d s" and c: "refs d s x = 1 \<longrightarrow> content d s x = disk s x"
  shows "\<exists>s'. brelse b s = Some s' \<and> cache_ok d s' \<and> cache_step s s' \<and> disk s' = disk s \<and> dhist s' = dhist s \<and> content d s' = content d s \<and>
    refs d s' = (refs d s)(x := refs d s x - 1) \<and> held d s' = held d s - {x} \<and> (\<forall>a y. buffers d s' a y = buffers d s a y)"
proof -
  note w = view_at [OF cache_okD(1) [OF ok] b(1)] and y = cache_okD(3) [OF ok]
  obtain p where p: "myproc s = Some p" using cache_okD(4) [OF ok] by blast
  obtain L where L: "ring L (bcache s)" using cache_okD(5) [OF ok] by blast
  have bo: "buf_ok d (mypid s) (disk s) (bcache s b)" "b < NBUF" using cache_okD(2) [OF ok] b by (simp_all add: buffers_def)
  have l: "sl_locked (b_lock (bcache s b))" "sl_pid (b_lock (bcache s b)) = mypid s" "0 < refs d s x" using w(2,3) b(2) bo by (auto simp: buf_ok_def)
  define s2 where "s2 = (woken (Some (Cbuf b)) (upd_buf b (\<lambda>e. e\<lparr>b_lock := \<lparr>sl_locked = False, sl_pid = 0\<rparr>\<rparr>) (settled s)))\<lparr>sync := settle (sync (settled s))\<rparr>"
  define s4 where "s4 = upd_buf b (\<lambda>e. e\<lparr>b_refcnt := b_refcnt e - 1\<rparr>) (s2\<lparr>sync := lockd Lbcache (sync s2)\<rparr>)"
  define s5 where "s5 = (if b_refcnt (bcache s4 b) = 0 then to_front b s4 else s4)"
  have c4: "bcache s4 = (bcache s)(b := (bcache s b)\<lparr>b_lock := \<lparr>sl_locked = False, sl_pid = 0\<rparr>, b_refcnt := b_refcnt (bcache s b) - 1\<rparr>)"
    by (simp add: s4_def s2_def woken_def)
  have lk: "links s4 s5" using to_front_links links_refl by (simp add: s5_def)
  note f = links_fields [OF lk]
  have sy: "sync s5 = lockd Lbcache (settle (sync s))" by (subst f(1)) (simp add: s4_def s2_def)
  have h: "holdingsleep (Lbuf b) s = Some (True, settled s)" using holdingsleep_eq [OF y p, of b] l by simp
  have rl: "releasesleep (Lbuf b) (settled s) = Some s2" using releasesleep_eq [of "settled s" b] y by (simp add: s2_def)
  have aq: "acq Lbcache s2 = Some (s2\<lparr>sync := lockd Lbcache (sync s2)\<rparr>)" using y by (simp add: s2_def)
  have "brelse b s = rel Lbcache s5" unfolding s5_def s4_def
    by (simp only: brelse_def h rl aq Option.bind.simps prod.case not_True_eq_False if_False Let_def)
  then have run: "brelse b s = Some (s5\<lparr>sync := settle (sync s)\<rparr>)" using sy y by (simp add: rel_def)
  let ?s' = "s5\<lparr>sync := settle (sync s)\<rparr>"
  have fr: "disk s5 = disk s" "dhist s5 = dhist s" "log s5 = log s" "p_pid (procs s5 q) = p_pid (procs s q)" for q
    by (subst f(1), simp add: s4_def s2_def woken_def)+
  have st: "cache_step s ?s'" using y fr by (simp add: cache_step_def myproc_def)
  have "ring L (bcache s4)" by (rule ring_cong [OF L]) (simp_all add: c4)
  then have rg: "\<exists>L. ring L (bcache ?s')" using to_front_ring [OF _ bo(2), of L s4] by (auto simp: s5_def)
  have "cache_ok d ?s' \<and> content d ?s' = content d s \<and> refs d ?s' = (refs d s)(x := refs d s x - 1) \<and>
      held d ?s' = (if False then insert x (held d s) else held d s - {x}) \<and> (\<forall>a y. buffers d ?s' a y = buffers d s a y)"
    using drop_ref [OF ok b(1) c _ _ l(3) st, of "\<lparr>sl_locked = False, sl_pid = 0\<rparr>"] rg fr f c4 by simp
  then show ?thesis using run st fr by (intro exI [of _ ?s']) simp
qed

lemma bunpin_spec:
  assumes ok: "cache_ok d s" and b: "buffers d s b x" "x \<in> held d s" and r: "1 < refs d s x"
  shows "\<exists>s'. bunpin b s = Some s' \<and> cache_ok d s' \<and> cache_step s s' \<and> disk s' = disk s \<and> dhist s' = dhist s \<and> content d s' = content d s \<and>
    refs d s' = (refs d s)(x := refs d s x - 1) \<and> held d s' = held d s \<and> (\<forall>a y. buffers d s' a y = buffers d s a y)"
proof -
  note w = view_at [OF cache_okD(1) [OF ok] b(1)] and y = cache_okD(3) [OF ok]
  obtain L where L: "ring L (bcache s)" using cache_okD(5) [OF ok] by blast
  have bo: "buf_ok d (mypid s) (disk s) (bcache s b)" "b < NBUF" using cache_okD(2) [OF ok] b by (simp_all add: buffers_def)
  have l: "sl_locked (b_lock (bcache s b))" "sl_pid (b_lock (bcache s b)) = mypid s" using w(2,3) b(2) bo by (auto simp: buf_ok_def)
  let ?s' = "(upd_buf b (\<lambda>e. e\<lparr>b_refcnt := b_refcnt e - 1\<rparr>) s)\<lparr>sync := settle (sync s)\<rparr>"
  have run: "bunpin b s = Some ?s'" using y by (simp add: bunpin_def rel_def)
  have st: "cache_step s ?s'" using y by (simp add: cache_step_def myproc_def)
  have "ring L (bcache ?s')" by (rule ring_cong [OF L]) simp_all
  then have rg: "\<exists>L. ring L (bcache ?s')" by blast
  have "cache_ok d ?s' \<and> content d ?s' = content d s \<and> refs d ?s' = (refs d s)(x := refs d s x - 1) \<and>
      held d ?s' = (if sl_locked (b_lock (bcache s b)) then insert x (held d s) else held d s - {x}) \<and> (\<forall>a y. buffers d ?s' a y = buffers d s a y)"
    using drop_ref [OF ok b(1) _ _ _ _ st, of "b_lock (bcache s b)"] rg r l by simp
  then show ?thesis using run st l b(2) by (intro exI [of _ ?s']) (simp add: insert_absorb)
qed

end
