(* ===== verification/LogSpec.thy ===== *)
theory LogSpec
  imports Log BioSpec
begin

text \<open>
  Crash safety of the write-ahead log.  A commit is the sequence of block writes it sends to the disk; the machine may stop after any of
  them.  Whatever the moment, recovery at the next start finds either none or all of the blocks of the transaction.
\<close>

section \<open>Words in blocks\<close>

lemma get32_put32 [simp]: "get32 (put32 k v d) j = (if j = k then v else get32 d j)"
proof (cases "j = k")
  case True
  have "(4 * k + 3) div 4 = k" "(4 * k + 3) mod 4 = 3" "(4 * k + 2) div 4 = k" "(4 * k + 2) mod 4 = 2" "(4 * k + 1) div 4 = k" "(4 * k + 1) mod 4 = 1"
    by presburger+
  then have g: "get32 (put32 k v d) k = ucast (ucast v :: byte) OR push_bit 8 (ucast (ucast (drop_bit 8 v) :: byte)) OR
      push_bit 16 (ucast (ucast (drop_bit 16 v) :: byte)) OR push_bit 24 (ucast (ucast (drop_bit 24 v) :: byte))"
    by (simp add: get32_def put32_def)
  have "bit (get32 (put32 k v d) k) n \<longleftrightarrow> bit v n" if "n < 32" for n
    unfolding g using that by (cases "n < 8"; cases "n < 16"; cases "n < 24"; auto simp: bit_simps not_less)
  then show ?thesis using True by (auto intro: bit_word_eqI)
next
  case False
  have "(4 * j + 3) div 4 = j" "(4 * j + 2) div 4 = j" "(4 * j + 1) div 4 = j" by presburger+
  then show ?thesis using False by (simp add: get32_def put32_def)
qed

lemma get32_put_blocks: "distinct is \<Longrightarrow> get32 (put_blocks is bs d) j = (if j \<noteq> 0 \<and> j - 1 \<in> set is then of_nat (bs (j - 1)) else get32 d j)"
proof (induction "is" arbitrary: d)
  case (Cons i "is")
  then show ?case by (cases j) auto
qed simp

section \<open>Runs of block writes\<close>

definition replay :: "(nat \<times> block) list \<Rightarrow> (nat \<Rightarrow> block) \<Rightarrow> nat \<Rightarrow> block" where
  "replay ws f = fold (\<lambda>(x, v) f. f(x := v)) ws f"

lemma replay_simps [simp]: "replay [] f = f" "replay ((x, v) # ws) f = replay ws (f(x := v))" "replay (ws @ ws') f = replay ws' (replay ws f)"
  by (simp_all add: replay_def)

lemma replay_other: "x \<notin> fst ` set ws \<Longrightarrow> replay ws f x = f x"
  by (induction ws arbitrary: f) auto

lemma replay_same: "(\<And>x v. (x, v) \<in> set ws \<Longrightarrow> v = g x) \<Longrightarrow> replay ws f x = (if x \<in> fst ` set ws then g x else f x)"
proof (induction ws arbitrary: f)
  case (Cons w ws)
  obtain a v where w: "w = (a, v)" by fastforce
  have "replay ws (f(a := v)) x = (if x \<in> fst ` set ws then g x else (f(a := v)) x)" by (rule Cons.IH) (use Cons.prems in auto)
  then show ?case using Cons.prems [of a v] w by auto
qed simp

text \<open>The process wrote \<open>ws\<close> and left the cache with the references \<open>r\<close>.\<close>

definition wrote :: "nat \<Rightarrow> (nat \<Rightarrow> int) \<Rightarrow> (nat \<times> block) list \<Rightarrow> kstate \<Rightarrow> kstate \<Rightarrow> bool" where
  "wrote d r ws s s' \<longleftrightarrow> cache_ok d s' \<and> cache_step s s' \<and> held d s' = held d s \<and> refs d s' = r \<and> dhist s' = dhist s @ ws \<and>
     disk s' = replay ws (disk s) \<and> content d s' = replay ws (content d s)"

lemma wrote_trans: "wrote d r ws s s' \<Longrightarrow> wrote d r' ws' s' s'' \<Longrightarrow> wrote d r' (ws @ ws') s s''"
  by (auto simp: wrote_def intro: cache_step_trans)

text \<open>Room for \<open>k\<close> more blocks in the cache.\<close>

definition room :: "nat \<Rightarrow> kstate \<Rightarrow> nat \<Rightarrow> bool" where
  "room d s k \<longleftrightarrow> (\<exists>X. finite X \<and> card X + k \<le> NBUF \<and> (\<forall>x. 0 < refs d s x \<longrightarrow> x \<in> X))"

lemma room_mono: "room d s k \<Longrightarrow> (\<And>x. refs d s' x \<le> refs d s x) \<Longrightarrow> room d s' k"
  unfolding room_def by (meson less_le_trans)

lemma room_less: "room d s k \<Longrightarrow> j \<le> k \<Longrightarrow> room d s j"
proof -
  assume "room d s k" "j \<le> k"
  then obtain X where "finite X" "card X + k \<le> NBUF" "\<forall>x. 0 < refs d s x \<longrightarrow> x \<in> X" by (auto simp: room_def)
  then show ?thesis using \<open>j \<le> k\<close> unfolding room_def by (intro exI [of _ X]) simp
qed

lemma room_none: "refs d s = (\<lambda>_. 0) \<Longrightarrow> k \<le> NBUF \<Longrightarrow> room d s k"
  unfolding room_def by (rule exI [of _ "{}"]) simp

lemma bread_room:
  assumes "cache_ok d s" "x \<notin> held d s" "room d s (Suc k)"
  obtains b s' where "bread d x s = Some (b, s')" "got d s b x s'" "room d s' k"
proof -
  obtain X where X: "finite X" "card X + Suc k \<le> NBUF" "\<And>x. 0 < refs d s x \<Longrightarrow> x \<in> X" using assms(3) by (auto simp: room_def)
  have l: "card X < NBUF" using X(2) by simp
  obtain b s' where g: "bread d x s = Some (b, s')" "got d s b x s'" by (rule bread_spec [OF assms(1,2) X(1) l X(3)])
  have "card (insert x X) \<le> Suc (card X)" by (rule card_insert_le_m1) simp_all
  then have "room d s' k" using X g(2) unfolding room_def by (intro exI [of _ "insert x X"]) (auto simp: got_def)
  then show thesis using that g by blast
qed

lemma store_write:
  assumes "cache_ok d s" "buffers d s b x" "x \<in> held d s"
  obtains s' where "bwrite b (upd_buf b (\<lambda>e. e\<lparr>b_data := v\<rparr>) s) = Some s'" "cache_ok d s'" "cache_step s s'" "content d s' = (content d s)(x := v)"
    "refs d s' = refs d s" "held d s' = held d s" "\<And>a y. buffers d s' a y = buffers d s a y" "disk s' = (disk s)(x := v)" "dhist s' = dhist s @ [(x, v)]"
proof -
  let ?s = "upd_buf b (\<lambda>e. e\<lparr>b_data := v\<rparr>) s"
  note st = store_spec [OF assms refl, of v]
  have "buffers d ?s b x" "x \<in> held d ?s" using st(5,6) assms(2,3) by auto
  from bwrite_spec [OF st(1) this] obtain s' where "bwrite b ?s = Some s'" "cache_ok d s'" "cache_step ?s s'" "content d s' = content d ?s"
      "refs d s' = refs d ?s" "held d s' = held d ?s" "\<And>a y. buffers d s' a y = buffers d ?s a y" "disk s' = (disk ?s)(x := content d ?s x)"
      "dhist s' = dhist ?s @ [(x, content d ?s x)]" by blast
  then show thesis using that st cache_step_trans [OF st(2)] by simp
qed

lemma gotD:
  assumes "got d s b x s'"
  shows "cache_ok d s'" "cache_step s s'" "disk s' = disk s" "dhist s' = dhist s" "buffers d s' b x" "b_data (bcache s' b) = content d s x"
    "content d s' = content d s" "refs d s' = (refs d s)(x := refs d s x + 1)" "held d s' = insert x (held d s)"
    "y \<in> held d s \<Longrightarrow> buffers d s a y \<Longrightarrow> buffers d s' a y"
  using assms unfolding got_def by blast+

section \<open>The header\<close>

definition header :: "klog \<Rightarrow> block \<Rightarrow> block" where
  "header l old = put_blocks [0..<nat (l_n l)] (l_block l) (put32 0 (word_of_int (l_n l)) old)"

lemma write_head_spec:
  assumes ok: "cache_ok d s" "l_dev (log s) = d" "l_start (log s) = ls" "ls \<notin> held d s" "room d s 1"
  obtains s' where "write_head s = Some s'" "wrote d (refs d s) [(ls, header (log s) (content d s ls))] s s'"
proof -
  obtain b s1 where g: "bread d ls s = Some (b, s1)" "got d s b ls s1" using bread_room [OF ok(1,4)] ok(5) by (metis One_nat_def)
  note g' = gotD [OF g(2)]
  have h: "ls \<in> held d s1" by (simp add: g')
  let ?v = "header (log s) (content d s ls)"
  obtain s2 where w: "bwrite b (upd_buf b (\<lambda>e. e\<lparr>b_data := ?v\<rparr>) s1) = Some s2" "cache_ok d s2" "cache_step s1 s2" "content d s2 = (content d s1)(ls := ?v)"
    "refs d s2 = refs d s1" "held d s2 = held d s1" "\<And>a y. buffers d s2 a y = buffers d s1 a y" "disk s2 = (disk s1)(ls := ?v)" "dhist s2 = dhist s1 @ [(ls, ?v)]"
    by (rule store_write [OF g'(1,5) h, of ?v]) (rule that, assumption+)
  have "buffers d s2 b ls" "ls \<in> held d s2" "refs d s2 ls = 1 \<longrightarrow> content d s2 ls = disk s2 ls" using w g' by simp_all
  from brelse_spec [OF w(2) this] obtain s3 where r: "brelse b s2 = Some s3" "cache_ok d s3" "cache_step s2 s3" "disk s3 = disk s2" "dhist s3 = dhist s2"
    "content d s3 = content d s2" "refs d s3 = (refs d s2)(ls := refs d s2 ls - 1)" "held d s3 = held d s2 - {ls}" by blast
  have "write_head s = Some s3"
    using g(1) ok(2,3) w(1) r(1) g'(6) cache_step_simps(1) [OF g'(2)] by (simp add: write_head_def header_def Let_def)
  moreover have "wrote d (refs d s) [(ls, ?v)] s s3"
    using r w g' ok(4) by (auto simp: wrote_def intro: cache_step_trans)
  ultimately show thesis using that by blast
qed

section \<open>Copying blocks\<close>

text \<open>A step of \<open>write_log\<close>: the cached block goes to its place in the log.\<close>

lemma write_log_step:
  assumes ok: "cache_ok d s" "x \<notin> held d s" "y \<notin> held d s" "x \<noteq> y" "room d s 2"
  obtains s' where "do { (to, s) \<leftarrow> bread d x s; (from', s) \<leftarrow> bread d y s; s \<leftarrow> bwrite to (upd_buf to (\<lambda>b. b\<lparr>b_data := b_data (bcache s from')\<rparr>) s);
      s \<leftarrow> brelse from' s; brelse to s } = Some s'" "wrote d (refs d s) [(x, content d s y)] s s'"
proof -
  obtain a s1 where g: "bread d x s = Some (a, s1)" "got d s a x s1" "room d s1 1" using bread_room [OF ok(1,2), of 1] ok(5) by (metis Suc_1)
  note g' = gotD [OF g(2)]
  have y: "y \<notin> held d s1" using g' ok by simp
  obtain b s2 where h: "bread d y s1 = Some (b, s2)" "got d s1 b y s2" using bread_room [OF g'(1) y, of 0] g(3) by (metis One_nat_def)
  note h' = gotD [OF h(2)]
  let ?v = "content d s y"
  have a2: "buffers d s2 a x" "x \<in> held d s2" using h'(10) [of x a] h' g' by auto
  obtain s3 where w: "bwrite a (upd_buf a (\<lambda>e. e\<lparr>b_data := ?v\<rparr>) s2) = Some s3" "cache_ok d s3" "cache_step s2 s3" "content d s3 = (content d s2)(x := ?v)"
    "refs d s3 = refs d s2" "held d s3 = held d s2" "\<And>a y. buffers d s3 a y = buffers d s2 a y" "disk s3 = (disk s2)(x := ?v)" "dhist s3 = dhist s2 @ [(x, ?v)]"
    by (rule store_write [OF h'(1) a2, of ?v]) (rule that, assumption+)
  have "refs d s3 y = 1 \<longrightarrow> content d s3 y = disk s3 y" using view_clean [OF ok(1), of y] w h' g' ok(4) by simp
  moreover have "buffers d s3 b y" "y \<in> held d s3" using w h' by simp_all
  ultimately obtain s4 where r: "brelse b s3 = Some s4" "cache_ok d s4" "cache_step s3 s4" "disk s4 = disk s3" "dhist s4 = dhist s3"
    "content d s4 = content d s3" "refs d s4 = (refs d s3)(y := refs d s3 y - 1)" "held d s4 = held d s3 - {y}" "\<And>a y. buffers d s4 a y = buffers d s3 a y"
    using brelse_spec [OF w(2)] by metis
  have "buffers d s4 a x" "x \<in> held d s4" "refs d s4 x = 1 \<longrightarrow> content d s4 x = disk s4 x" using r w a2 ok(4) by simp_all
  from brelse_spec [OF r(2) this] obtain s5 where q: "brelse a s4 = Some s5" "cache_ok d s5" "cache_step s4 s5" "disk s5 = disk s4" "dhist s5 = dhist s4"
    "content d s5 = content d s4" "refs d s5 = (refs d s4)(x := refs d s4 x - 1)" "held d s5 = held d s4 - {x}" by blast
  have "b_data (bcache s2 b) = ?v" using h'(6) g'(7) by simp
  then have "do { (to, s) \<leftarrow> bread d x s; (from', s) \<leftarrow> bread d y s; s \<leftarrow> bwrite to (upd_buf to (\<lambda>b. b\<lparr>b_data := b_data (bcache s from')\<rparr>) s);
      s \<leftarrow> brelse from' s; brelse to s } = Some s5" using g(1) h(1) w(1) r(1) q(1) by simp
  moreover have "cache_step s s5" using g'(2) h'(2) w(3) r(3) q(3) by (meson cache_step_trans)
  then have "wrote d (refs d s) [(x, ?v)] s s5"
    using q r w h' g' ok by (auto simp: wrote_def fun_eq_iff)
  ultimately show thesis using that by blast
qed

text \<open>A step of \<open>install_trans\<close>: the logged block goes to its home.\<close>

lemma install_step:
  assumes ok: "cache_ok d s" "x \<notin> held d s" "y \<notin> held d s" "x \<noteq> y" "room d s 2" and rc: "recovering \<or> 0 < refs d s y"
  obtains s' where "do { (lbuf, s) \<leftarrow> bread d x s; (dbuf, s) \<leftarrow> bread d y s; s \<leftarrow> bwrite dbuf (upd_buf dbuf (\<lambda>b. b\<lparr>b_data := b_data (bcache s lbuf)\<rparr>) s);
      s \<leftarrow> (if \<not> recovering then bunpin dbuf s else Some s); s \<leftarrow> brelse lbuf s; brelse dbuf s } = Some s'"
    "wrote d (if recovering then refs d s else (refs d s)(y := refs d s y - 1)) [(y, content d s x)] s s'"
proof -
  obtain a s1 where g: "bread d x s = Some (a, s1)" "got d s a x s1" "room d s1 1" using bread_room [OF ok(1,2), of 1] ok(5) by (metis Suc_1)
  note g' = gotD [OF g(2)]
  have y: "y \<notin> held d s1" using g' ok by simp
  obtain b s2 where h: "bread d y s1 = Some (b, s2)" "got d s1 b y s2" using bread_room [OF g'(1) y, of 0] g(3) by (metis One_nat_def)
  note h' = gotD [OF h(2)]
  let ?v = "content d s x" and ?r = "if recovering then refs d s else (refs d s)(y := refs d s y - 1)"
  have a2: "buffers d s2 a x" "x \<in> held d s2" and y2: "y \<in> held d s2" using h'(10) [of x a] h' g' by auto
  have v: "b_data (bcache s2 a) = ?v"
  proof -
    have "refs d s2 x \<noteq> 0" using h' g' ok(4) refs_nonneg [OF ok(1), of x] by simp
    then have "b_valid (bcache s2 a)" using cache_okD(2) [OF h'(1), of a] a2(1) view_at(2) [OF cache_okD(1) [OF h'(1)] a2(1)] by (simp add: buf_ok_def buffers_def)
    then show ?thesis using view_at(1) [OF cache_okD(1) [OF h'(1)] a2(1)] h' g' by simp
  qed
  obtain s3 where w: "bwrite b (upd_buf b (\<lambda>e. e\<lparr>b_data := ?v\<rparr>) s2) = Some s3" "cache_ok d s3" "cache_step s2 s3" "content d s3 = (content d s2)(y := ?v)"
    "refs d s3 = refs d s2" "held d s3 = held d s2" "\<And>a z. buffers d s3 a z = buffers d s2 a z" "disk s3 = (disk s2)(y := ?v)" "dhist s3 = dhist s2 @ [(y, ?v)]"
    by (rule store_write [OF h'(1,5) y2, of ?v]) (rule that, assumption+)
  obtain s4 where u: "(if \<not> recovering then bunpin b s3 else Some s3) = Some s4" "cache_ok d s4" "cache_step s s4" "disk s4 = disk s3" "dhist s4 = dhist s3"
    "content d s4 = content d s3" "refs d s4 = ?r(x := ?r x + 1, y := ?r y + 1)" "held d s4 = held d s3" "\<And>a z. buffers d s4 a z = buffers d s3 a z"
  proof -
    have st: "cache_step s s3" using g'(2) h'(2) w(3) by (meson cache_step_trans)
    have rf: "refs d s3 = (refs d s)(x := refs d s x + 1, y := refs d s y + 1)" using w(5) h'(8) g'(8) ok(4) by simp
    show thesis
    proof (cases recovering)
      case True
      then show ?thesis using that [of s3] w(2) st rf ok(4) by simp
    next
      case False
      then have "buffers d s3 b y" "y \<in> held d s3" "1 < refs d s3 y" using w(6,7) h'(5) y2 rf rc by simp_all
      from bunpin_spec [OF w(2) this] obtain s4 where "bunpin b s3 = Some s4" "cache_ok d s4" "cache_step s3 s4" "disk s4 = disk s3" "dhist s4 = dhist s3"
        "content d s4 = content d s3" "refs d s4 = (refs d s3)(y := refs d s3 y - 1)" "held d s4 = held d s3" "\<And>a z. buffers d s4 a z = buffers d s3 a z" by blast
      then show ?thesis using that [of s4] st cache_step_trans [OF st] rf False ok(4) by (simp add: fun_upd_twist)
    qed
  qed
  have "buffers d s4 a x" "x \<in> held d s4" "refs d s4 x = 1 \<longrightarrow> content d s4 x = disk s4 x"
    using u w a2 ok(4) h' g' view_clean [OF ok(1), of x] by (auto split: if_splits)
  from brelse_spec [OF u(2) this] obtain s5 where r: "brelse a s4 = Some s5" "cache_ok d s5" "cache_step s4 s5" "disk s5 = disk s4" "dhist s5 = dhist s4"
    "content d s5 = content d s4" "refs d s5 = (refs d s4)(x := refs d s4 x - 1)" "held d s5 = held d s4 - {x}" "\<And>a z. buffers d s5 a z = buffers d s4 a z" by blast
  have "buffers d s5 b y" "y \<in> held d s5" "refs d s5 y = 1 \<longrightarrow> content d s5 y = disk s5 y" using r u w h' y2 ok(4) by simp_all
  from brelse_spec [OF r(2) this] obtain s6 where q: "brelse b s5 = Some s6" "cache_ok d s6" "cache_step s5 s6" "disk s6 = disk s5" "dhist s6 = dhist s5"
    "content d s6 = content d s5" "refs d s6 = (refs d s5)(y := refs d s5 y - 1)" "held d s6 = held d s5 - {y}" by blast
  have "do { (lbuf, s) \<leftarrow> bread d x s; (dbuf, s) \<leftarrow> bread d y s; s \<leftarrow> bwrite dbuf (upd_buf dbuf (\<lambda>b. b\<lparr>b_data := b_data (bcache s lbuf)\<rparr>) s);
      s \<leftarrow> (if \<not> recovering then bunpin dbuf s else Some s); s \<leftarrow> brelse lbuf s; brelse dbuf s } = Some s6"
    using g(1) h(1) w(1) u(1) r(1) q(1) v by simp
  moreover have "cache_step s s6" using u(3) r(3) q(3) by (meson cache_step_trans)
  then have "wrote d ?r [(y, ?v)] s s6" using q r u w h' g' ok(2-4) by (auto simp: wrote_def fun_eq_iff)
  ultimately show thesis using that by blast
qed

section \<open>The loops\<close>

lemma printk_simps [simp]: "bcache (printk m s) = bcache s" "disk (printk m s) = disk s" "dhist (printk m s) = dhist s" "log (printk m s) = log s"
  "sync (printk m s) = sync s" "procs (printk m s) = procs s" "myproc (printk m s) = myproc s"
  by (simp_all add: printk_def myproc_def)

lemma view_cong:
  assumes "bcache s' = bcache s" "disk s' = disk s"
  shows "content d s' = content d s" "refs d s' = refs d s" "held d s' = held d s"
  unfolding fun_eq_iff content_def refs_def held_def assms by simp_all

lemma printk_view [simp]: "content d (printk m s) = content d s" "refs d (printk m s) = refs d s" "held d (printk m s) = held d s"
  "cache_ok d (printk m s) = cache_ok d s" "room d (printk m s) k = room d s k"
  by (simp_all add: view_cong [of "printk m s" s] cache_ok_def room_def)

text \<open>Where the blocks of the log are on disk, and which they are.\<close>

definition logged_at :: "nat \<Rightarrow> nat \<Rightarrow> kstate \<Rightarrow> bool" where
  "logged_at d ls s \<longleftrightarrow> cache_ok d s \<and> held d s = {} \<and> l_dev (log s) = d \<and> l_start (log s) = ls"

lemma wrote_logged_at: "wrote d r ws s s' \<Longrightarrow> logged_at d ls s \<Longrightarrow> logged_at d ls s' \<and> log s' = log s"
  by (auto simp: wrote_def logged_at_def dest: cache_step_simps(1))

lemma write_log_loop_spec:
  "logged_at d ls s \<Longrightarrow> room d s 2 \<Longrightarrow> (\<And>i j. i \<in> set ts \<Longrightarrow> j \<in> set ts \<Longrightarrow> l_block (log s) i \<noteq> ls + j + 1) \<Longrightarrow>
   \<exists>s'. write_log_loop ts s = Some s' \<and> wrote d (refs d s) (map (\<lambda>i. (ls + i + 1, content d s (l_block (log s) i))) ts) s s'"
proof (induction ts arbitrary: s)
  case Nil
  then show ?case by (auto simp: wrote_def logged_at_def cache_step_def cache_ok_def)
next
  case (Cons i ts)
  have l: "cache_ok d s" "held d s = {}" "l_dev (log s) = d" "l_start (log s) = ls" using Cons.prems(1) by (auto simp: logged_at_def)
  let ?x = "ls + i + 1" and ?y = "l_block (log s) i"
  have ne: "?x \<noteq> ?y" using Cons.prems(3) [of i i] by auto
  obtain s1 where w: "do { (to, s) \<leftarrow> bread d ?x s; (from', s) \<leftarrow> bread d ?y s; s \<leftarrow> bwrite to (upd_buf to (\<lambda>b. b\<lparr>b_data := b_data (bcache s from')\<rparr>) s);
      s \<leftarrow> brelse from' s; brelse to s } = Some s1" "wrote d (refs d s) [(?x, content d s ?y)] s s1"
    using write_log_step [OF l(1) _ _ ne Cons.prems(2)] l(2) by auto
  note k = wrote_logged_at [OF w(2) Cons.prems(1)]
  have "log t = log s" if "bread d ?x s = Some (b, t)" for b t
  proof -
    obtain b' t' where "bread d ?x s = Some (b', t')" "got d s b' ?x t'" using bread_room [OF l(1), of ?x 1] l(2) Cons.prems(2) by (metis Suc_1 empty_iff)
    then show ?thesis using that cache_step_simps(1) by (auto simp: got_def)
  qed
  then have run: "write_log_loop (i # ts) s = write_log_loop ts s1" using w(1) l by (auto simp: bind_eq_Some_conv Let_def)
  have c1: "content d s1 = (content d s)(?x := content d s ?y)" "refs d s1 = refs d s" using w(2) by (auto simp: wrote_def)
  have "\<exists>s'. write_log_loop ts s1 = Some s' \<and> wrote d (refs d s1) (map (\<lambda>i. (ls + i + 1, content d s1 (l_block (log s1) i))) ts) s1 s'"
  proof (rule Cons.IH)
    show "logged_at d ls s1" "room d s1 2" using k c1 Cons.prems(2) by (auto simp: room_def)
    show "l_block (log s1) i \<noteq> ls + j + 1" if "i \<in> set ts" "j \<in> set ts" for i j using Cons.prems(3) [of i j] that k by auto
  qed
  then obtain s' where s': "write_log_loop ts s1 = Some s'" "wrote d (refs d s1) (map (\<lambda>i. (ls + i + 1, content d s1 (l_block (log s1) i))) ts) s1 s'" by blast
  have m: "map (\<lambda>i. (ls + i + 1, content d s1 (l_block (log s1) i))) ts = map (\<lambda>i. (ls + i + 1, content d s (l_block (log s) i))) ts"
    using k c1 Cons.prems(3) by (auto simp del: add_Suc_right)
  have "wrote d (refs d s) (map (\<lambda>i. (ls + i + 1, content d s (l_block (log s) i))) (i # ts)) s s'"
    using wrote_trans [OF w(2) s'(2)] unfolding m c1(2) by simp
  then show ?case unfolding run using s'(1) by blast
qed

lemma install_loop_spec:
  "logged_at d ls s \<Longrightarrow> room d s 2 \<Longrightarrow> (\<And>i j. i \<in> set ts \<Longrightarrow> j \<in> set ts \<Longrightarrow> l_block (log s) i \<noteq> ls + j + 1) \<Longrightarrow>
   distinct (map (l_block (log s)) ts) \<Longrightarrow> (\<And>i. i \<in> set ts \<Longrightarrow> recovering \<or> 0 < refs d s (l_block (log s) i)) \<Longrightarrow>
   \<exists>s'. install_loop recovering ts s = Some s' \<and>
     wrote d (\<lambda>x. refs d s x - (if \<not> recovering \<and> x \<in> l_block (log s) ` set ts then 1 else 0)) (map (\<lambda>i. (l_block (log s) i, content d s (ls + i + 1))) ts) s s'"
proof (induction ts arbitrary: s)
  case Nil
  then show ?case by (auto simp: wrote_def logged_at_def cache_step_def cache_ok_def)
next
  case (Cons i ts)
  have l: "cache_ok d s" "held d s = {}" "l_dev (log s) = d" "l_start (log s) = ls" using Cons.prems(1) by (auto simp: logged_at_def)
  let ?x = "ls + i + 1" and ?y = "l_block (log s) i"
  define s0 where "s0 = (if recovering then printk (''recovering tail '' @ dec i @ '' dst '' @ fmt_lld (sint (of_nat ?y :: 32 word)) @ [CHR 0x0A]) s else s)"
  have e: "content d s0 = content d s" "refs d s0 = refs d s" "held d s0 = held d s" "cache_ok d s0" "room d s0 2" "log s0 = log s" "disk s0 = disk s" "dhist s0 = dhist s"
      "cache_step s s0"
    using l(1) Cons.prems(2) by (simp_all add: s0_def cache_step_def cache_ok_def)
  have ne: "?x \<noteq> ?y" using Cons.prems(3) [of i i] by auto
  have rc: "recovering \<or> 0 < refs d s0 ?y" using Cons.prems(5) [of i] e by simp
  obtain s1 where w: "do { (lbuf, s) \<leftarrow> bread d ?x s0; (dbuf, s) \<leftarrow> bread d ?y s; s \<leftarrow> bwrite dbuf (upd_buf dbuf (\<lambda>b. b\<lparr>b_data := b_data (bcache s lbuf)\<rparr>) s);
      s \<leftarrow> (if \<not> recovering then bunpin dbuf s else Some s); s \<leftarrow> brelse lbuf s; brelse dbuf s } = Some s1"
      "wrote d (if recovering then refs d s0 else (refs d s0)(?y := refs d s0 ?y - 1)) [(?y, content d s0 ?x)] s0 s1"
    using install_step [OF e(4) _ _ ne e(5) rc] e(3) l(2) by auto
  have w': "wrote d (if recovering then refs d s else (refs d s)(?y := refs d s ?y - 1)) [(?y, content d s ?x)] s s1"
    using w(2) e cache_step_trans [OF e(9)] by (simp add: wrote_def)
  note k = wrote_logged_at [OF w' Cons.prems(1)]
  have "log t = log s" if "bread d ?x s0 = Some (b, t)" for b t
  proof -
    obtain b' t' where "bread d ?x s0 = Some (b', t')" "got d s0 b' ?x t'" using bread_room [OF e(4), of ?x 1] e(3,5) l(2) by (metis Suc_1 empty_iff)
    then show ?thesis using that cache_step_simps(1) e(6) by (auto simp: got_def)
  qed
  then have run: "install_loop recovering (i # ts) s = install_loop recovering ts s1"
    using w(1) l e(6) by (auto simp: bind_eq_Some_conv Let_def simp flip: s0_def)
  have c1: "content d s1 = (content d s)(?y := content d s ?x)" "refs d s1 = (if recovering then refs d s else (refs d s)(?y := refs d s ?y - 1))"
    using w' by (auto simp: wrote_def)
  have "\<exists>s'. install_loop recovering ts s1 = Some s' \<and>
     wrote d (\<lambda>x. refs d s1 x - (if \<not> recovering \<and> x \<in> l_block (log s1) ` set ts then 1 else 0)) (map (\<lambda>i. (l_block (log s1) i, content d s1 (ls + i + 1))) ts) s1 s'"
  proof (rule Cons.IH)
    show "logged_at d ls s1" "distinct (map (l_block (log s1)) ts)" using k Cons.prems(4) by auto
    show "room d s1 2" by (rule room_mono [OF Cons.prems(2)]) (simp add: c1)
    show "l_block (log s1) i \<noteq> ls + j + 1" if "i \<in> set ts" "j \<in> set ts" for i j using Cons.prems(3) [of i j] that k by auto
    show "recovering \<or> 0 < refs d s1 (l_block (log s1) j)" if "j \<in> set ts" for j
    proof -
      have "l_block (log s) j \<noteq> ?y" using that Cons.prems(4) by (metis distinct.simps(2) image_eqI list.set_map list.simps(9))
      then show ?thesis using that Cons.prems(5) [of j] k c1 by auto
    qed
  qed
  then obtain s' where s': "install_loop recovering ts s1 = Some s'"
     "wrote d (\<lambda>x. refs d s1 x - (if \<not> recovering \<and> x \<in> l_block (log s1) ` set ts then 1 else 0)) (map (\<lambda>i. (l_block (log s1) i, content d s1 (ls + i + 1))) ts) s1 s'" by blast
  have m: "map (\<lambda>i. (l_block (log s1) i, content d s1 (ls + i + 1))) ts = map (\<lambda>i. (l_block (log s) i, content d s (ls + i + 1))) ts"
  proof (rule map_cong [OF refl])
    fix j assume "j \<in> set ts"
    then have "ls + j + 1 \<noteq> ?y" using Cons.prems(3) [of i j] by auto
    then show "(l_block (log s1) j, content d s1 (ls + j + 1)) = (l_block (log s) j, content d s (ls + j + 1))" using k c1 by simp
  qed
  have r: "(\<lambda>x. refs d s1 x - (if \<not> recovering \<and> x \<in> l_block (log s1) ` set ts then 1 else 0)) =
      (\<lambda>x. refs d s x - (if \<not> recovering \<and> x \<in> l_block (log s) ` set (i # ts) then 1 else 0))"
    using Cons.prems(4) k c1 by (auto simp: fun_eq_iff)
  have "wrote d (\<lambda>x. refs d s x - (if \<not> recovering \<and> x \<in> l_block (log s) ` set (i # ts) then 1 else 0))
      (map (\<lambda>i. (l_block (log s) i, content d s (ls + i + 1))) (i # ts)) s s'"
    using wrote_trans [OF w' s'(2)] unfolding m r by simp
  then show ?case unfolding run using s'(1) by blast
qed

section \<open>The invariant of the log\<close>

definition area :: "nat \<Rightarrow> nat set" where
  "area ls = {ls..ls + LOGBLOCKS}"

definition logblocks :: "klog \<Rightarrow> nat set" where
  "logblocks l = l_block l ` {0..<nat (l_n l)}"

text \<open>
  The blocks of the running transaction are distinct home blocks, each of them pinned once in the cache; nothing else has references but the
  buffers the process holds; the header on disk says that there is nothing to recover.
\<close>

definition tx_ok :: "nat \<Rightarrow> nat \<Rightarrow> kstate \<Rightarrow> bool" where
  "tx_ok d ls s \<longleftrightarrow> cache_ok d s \<and> l_dev (log s) = d \<and> l_start (log s) = ls \<and> 0 \<le> l_n (log s) \<and> l_n (log s) \<le> int LOGBLOCKS \<and>
     inj_on (l_block (log s)) {0..<nat (l_n (log s))} \<and> (\<forall>x\<in>logblocks (log s). x < 2 ^ 32 \<and> x \<notin> area ls) \<and>
     (\<forall>x. refs d s x = of_bool (x \<in> logblocks (log s)) + of_bool (x \<in> held d s)) \<and> get32 (disk s ls) 0 = 0"

lemma upd_log_view [simp]: "content d (s\<lparr>log := l\<rparr>) = content d s" "refs d (s\<lparr>log := l\<rparr>) = refs d s" "held d (s\<lparr>log := l\<rparr>) = held d s"
  "cache_ok d (s\<lparr>log := l\<rparr>) = cache_ok d s" "room d (s\<lparr>log := l\<rparr>) k = room d s k"
  by (simp_all add: view_cong [of "s\<lparr>log := l\<rparr>" s] cache_ok_def room_def myproc_def)

lemma tx_clean: "tx_ok d ls s \<Longrightarrow> held d s = {} \<Longrightarrow> x \<notin> logblocks (log s) \<Longrightarrow> content d s x = disk s x"
  by (rule view_clean) (simp_all add: tx_ok_def)

lemma tx_room: "tx_ok d ls s \<Longrightarrow> held d s = {} \<Longrightarrow> nat (l_n (log s)) + k \<le> NBUF \<Longrightarrow> room d s k"
proof -
  assume a: "tx_ok d ls s" "held d s = {}" "nat (l_n (log s)) + k \<le> NBUF"
  have "card (logblocks (log s)) \<le> nat (l_n (log s))" unfolding logblocks_def using card_image_le [of "{0..<nat (l_n (log s))}"] by fastforce
  moreover have "finite (logblocks (log s))" by (simp add: logblocks_def)
  moreover have "x \<in> logblocks (log s)" if "0 < refs d s x" for x using that a(1,2) by (auto simp: tx_ok_def split: if_splits)
  ultimately show ?thesis using a(3) unfolding room_def by (intro exI [of _ "logblocks (log s)"]) auto
qed

section \<open>Committing\<close>

definition commit_writes :: "nat \<Rightarrow> nat \<Rightarrow> kstate \<Rightarrow> (nat \<times> block) list" where
  "commit_writes d ls s = (let ts = [0..<nat (l_n (log s))]; bl = l_block (log s); h = header (log s) (content d s ls) in
     map (\<lambda>i. (ls + i + 1, content d s (bl i))) ts @ [(ls, h)] @ map (\<lambda>i. (bl i, content d s (bl i))) ts @ [(ls, put32 0 0 h)])"

lemma replay_map: "inj_on f (set ts) \<Longrightarrow> replay (map (\<lambda>i. (f i, g i)) ts) c x = (if \<exists>i\<in>set ts. f i = x then g (inv_into (set ts) f x) else c x)"
proof -
  assume "inj_on f (set ts)"
  then have "replay (map (\<lambda>i. (f i, g i)) ts) c x = (if x \<in> fst ` set (map (\<lambda>i. (f i, g i)) ts) then g (inv_into (set ts) f x) else c x)"
    by (intro replay_same) auto
  then show ?thesis by (auto simp: image_iff)
qed

lemma replay_map_at: "inj_on f (set ts) \<Longrightarrow> i \<in> set ts \<Longrightarrow> replay (map (\<lambda>i. (f i, g i)) ts) c (f i) = g i"
  by (auto simp: replay_map)

lemma replay_map_other: "x \<notin> f ` set ts \<Longrightarrow> replay (map (\<lambda>i. (f i, g i)) ts) c x = c x"
  by (rule replay_other) (auto simp: image_iff)

lemma header_0: "l_n l = 0 \<Longrightarrow> header l h = put32 0 0 h"
  by (simp add: header_def)

lemma commit_spec:
  assumes tx: "tx_ok d ls s" "held d s = {}" and n: "0 < l_n (log s)" "nat (l_n (log s)) + 2 \<le> NBUF"
  obtains s' where "commit s = Some s'" "wrote d (\<lambda>_. 0) (commit_writes d ls s) (upd_log (\<lambda>l. l\<lparr>l_n := 0\<rparr>) s) s'"
proof -
  let ?l = "log s" and ?n = "nat (l_n (log s))" and ?c = "content d s"
  let ?ts = "[0..<?n]" and ?bl = "l_block ?l" and ?h = "header ?l (?c ls)"
  let ?W = "map (\<lambda>i. (ls + i + 1, ?c (?bl i))) ?ts" and ?V = "map (\<lambda>i. (?bl i, ?c (?bl i))) ?ts"
  have la: "logged_at d ls s" and nl: "?n \<le> LOGBLOCKS" and inj: "inj_on ?bl (set ?ts)" using tx by (auto simp: tx_ok_def logged_at_def)
  have home: "?bl i \<notin> area ls" if "i \<in> set ?ts" for i using tx(1) that by (auto simp: tx_ok_def logblocks_def)
  have ap: "?bl i \<noteq> ls + j + 1" "?bl i \<noteq> ls" if "i \<in> set ?ts" "j \<in> set ?ts" for i j using home [OF that(1)] that(2) nl by (auto simp: area_def)
  have rm: "room d s 2" by (rule tx_room [OF tx n(2)])
  obtain s1 where w1: "write_log_loop ?ts s = Some s1" "wrote d (refs d s) ?W s s1" using write_log_loop_spec [OF la rm, of ?ts] ap by blast
  have la1: "logged_at d ls s1" "log s1 = ?l" using wrote_logged_at [OF w1(2) la] by auto
  have c1: "content d s1 = replay ?W ?c" "refs d s1 = refs d s" using w1(2) by (auto simp: wrote_def)
  have "room d s1 2" using rm c1(2) by (simp add: room_def)
  then have rm1: "room d s1 1" by (rule room_less) simp
  have cls: "content d s1 ls = ?c ls" unfolding c1 by (rule replay_other) auto
  obtain s2 where w2: "write_head s1 = Some s2" "wrote d (refs d s) [(ls, ?h)] s1 s2"
    using write_head_spec [of d s1 ls] la1 rm1 c1 cls by (auto simp: logged_at_def)
  have la2: "logged_at d ls s2" "log s2 = ?l" using wrote_logged_at [OF w2(2) la1(1)] la1 by auto
  have c2: "content d s2 = (replay ?W ?c)(ls := ?h)" "refs d s2 = refs d s" using w2(2) c1 by (auto simp: wrote_def)
  have rm2: "room d s2 2" using rm c2(2) by (simp add: room_def)
  have pinned: "0 < refs d s2 (?bl i)" if "i \<in> set ?ts" for i using tx that c2(2) by (auto simp: tx_ok_def logblocks_def)
  have "distinct (map ?bl ?ts)" using inj by (simp add: distinct_map)
  then obtain s3 where w3: "install_loop False ?ts s2 = Some s3"
      "wrote d (\<lambda>x. refs d s2 x - (if \<not> False \<and> x \<in> l_block (log s2) ` set ?ts then 1 else 0)) (map (\<lambda>i. (?bl i, content d s2 (ls + i + 1))) ?ts) s2 s3"
    using install_loop_spec [OF la2(1) rm2, of ?ts False] la2(2) ap pinned by auto
  have W: "replay ?W ?c (ls + i + 1) = ?c (?bl i)" if "i \<in> set ?ts" for i
    using replay_map_at [of "\<lambda>i. ls + i + 1" ?ts i "\<lambda>i. ?c (?bl i)" ?c] that by (simp add: inj_on_def)
  have V: "map (\<lambda>i. (?bl i, content d s2 (ls + i + 1))) ?ts = ?V"
    by (rule map_cong [OF refl]) (use W c2 in auto)
  have r3: "(\<lambda>x. refs d s2 x - (if \<not> False \<and> x \<in> l_block (log s2) ` set ?ts then 1 else 0)) = (\<lambda>_. 0)"
    using tx la2(2) by (auto simp: fun_eq_iff c2(2) tx_ok_def logblocks_def)
  have w3': "wrote d (\<lambda>_. 0) ?V s2 s3" using w3(2) unfolding V r3 .
  have la3: "logged_at d ls s3" "log s3 = ?l" using wrote_logged_at [OF w3' la2(1)] la2 by auto
  have c3: "content d s3 ls = ?h" "refs d s3 = (\<lambda>_. 0)"
  proof -
    have "ls \<notin> fst ` set ?V" using ap(2) by (auto simp: image_iff) metis
    then show "content d s3 ls = ?h" using w3' c2 replay_other [of ls ?V] by (simp add: wrote_def)
  qed (use w3' in \<open>simp add: wrote_def\<close>)
  let ?s4 = "upd_log (\<lambda>l. l\<lparr>l_n := 0\<rparr>) s3"
  have "room d ?s4 1" using c3(2) by (intro room_none) (simp_all add: NBUF_def)
  then obtain s5 where w5: "write_head ?s4 = Some s5" "wrote d (\<lambda>_. 0) [(ls, put32 0 0 ?h)] ?s4 s5"
    using write_head_spec [of d ?s4 ls] la3 c3 by (auto simp: logged_at_def header_0)
  have "commit s = Some s5" using n(1) w1(1) w2(1) w3(1) w5(1) la2(2) by (simp add: commit_def write_log_def install_trans_def)
  moreover have "wrote d (\<lambda>_. 0) (?W @ [(ls, ?h)] @ ?V) s s3" using wrote_trans [OF w1(2) wrote_trans [OF w2(2) w3']] .
  then have "wrote d (\<lambda>_. 0) (?W @ [(ls, ?h)] @ ?V) (upd_log (\<lambda>l. l\<lparr>l_n := 0\<rparr>) s) ?s4"
    by (auto simp: wrote_def cache_step_def myproc_def)
  then have "wrote d (\<lambda>_. 0) ((?W @ [(ls, ?h)] @ ?V) @ [(ls, put32 0 0 ?h)]) (upd_log (\<lambda>l. l\<lparr>l_n := 0\<rparr>) s) s5" by (rule wrote_trans [OF _ w5(2)])
  then have "wrote d (\<lambda>_. 0) (commit_writes d ls s) (upd_log (\<lambda>l. l\<lparr>l_n := 0\<rparr>) s) s5" by (simp add: commit_writes_def Let_def)
  ultimately show thesis using that by blast
qed

section \<open>Recovering\<close>

definition hblock :: "nat \<Rightarrow> (nat \<Rightarrow> block) \<Rightarrow> nat \<Rightarrow> nat" where
  "hblock ls e i = unat (get32 (e ls) (i + 1))"

text \<open>The image \<open>e\<close> of a disk has a header in order, and installing what it says gives the home blocks \<open>g\<close>.\<close>

definition img_ok :: "nat \<Rightarrow> (nat \<Rightarrow> block) \<Rightarrow> nat \<Rightarrow> (nat \<Rightarrow> block) \<Rightarrow> bool" where
  "img_ok ls e n g \<longleftrightarrow> sint (get32 (e ls) 0) = int n \<and> n \<le> LOGBLOCKS \<and> inj_on (hblock ls e) {0..<n} \<and>
     (\<forall>i<n. hblock ls e i \<notin> area ls \<and> g (hblock ls e i) = e (ls + i + 1)) \<and> (\<forall>x. x \<notin> area ls \<and> x \<notin> hblock ls e ` {0..<n} \<longrightarrow> g x = e x)"

definition boot_ok :: "nat \<Rightarrow> kstate \<Rightarrow> bool" where
  "boot_ok d s \<longleftrightarrow> cache_ok d s \<and> held d s = {} \<and> refs d s = (\<lambda>_. 0)"

definition recover_writes :: "nat \<Rightarrow> nat \<Rightarrow> (nat \<Rightarrow> block) \<Rightarrow> (nat \<times> block) list" where
  "recover_writes ls n e = map (\<lambda>i. (hblock ls e i, e (ls + i + 1))) [0..<n] @ [(ls, put32 0 0 (e ls))]"

lemma read_head_spec:
  assumes la: "logged_at d ls s" and rf: "refs d s = (\<lambda>_. 0)"
  obtains s' where "read_head s = Some s'" "logged_at d ls s'" "refs d s' = (\<lambda>_. 0)" "disk s' = disk s" "dhist s' = dhist s" "content d s' = disk s"
    "l_n (log s') = sint (get32 (disk s ls) 0)" "\<And>i. int i < l_n (log s') \<Longrightarrow> l_block (log s') i = hblock ls (disk s) i"
    "cache_step s (s'\<lparr>log := log s\<rparr>)" "l_outstanding (log s') = l_outstanding (log s)" "l_committing (log s') = l_committing (log s)"
proof -
  have l: "cache_ok d s" "held d s = {}" "l_dev (log s) = d" "l_start (log s) = ls" using la by (auto simp: logged_at_def)
  have ct: "content d s = disk s" using view_clean [OF l(1)] rf by auto
  have rm: "room d s (Suc 0)" using rf by (intro room_none) (simp_all add: NBUF_def)
  obtain b s1 where g: "bread d ls s = Some (b, s1)" "got d s b ls s1" using bread_room [OF l(1) _ rm, of ls] l(2) by blast
  note g' = gotD [OF g(2)]
  define n where "n = sint (get32 (disk s ls) 0)"
  define f :: "klog \<Rightarrow> klog" where "f = (\<lambda>l. l\<lparr>l_n := n, l_block := \<lambda>i. if int i < n then unat (get32 (disk s ls) (i + 1)) else l_block l i\<rparr>)"
  let ?s2 = "upd_log f s1"
  have lg: "log s1 = log s" by (rule cache_step_simps(1) [OF g'(2)])
  have "cache_ok d ?s2" "buffers d ?s2 b ls" "ls \<in> held d ?s2" "refs d ?s2 ls = 1 \<longrightarrow> content d ?s2 ls = disk ?s2 ls" using g' ct by (simp_all add: buffers_def)
  from brelse_spec [OF this] obtain s3 where r: "brelse b ?s2 = Some s3" "cache_ok d s3" "cache_step ?s2 s3" "disk s3 = disk ?s2" "dhist s3 = dhist ?s2"
    "content d s3 = content d ?s2" "refs d s3 = (refs d ?s2)(ls := refs d ?s2 ls - 1)" "held d s3 = held d ?s2 - {ls}" by blast
  have l3: "log s3 = f (log s)" using cache_step_simps(1) [OF r(3)] lg by simp
  have "read_head s = Some s3" using g(1) l(3,4) g'(6) r(1) ct by (simp add: read_head_def Let_def f_def n_def cong: if_cong)
  moreover have "logged_at d ls s3" using r(2,8) g' l l3 by (simp add: logged_at_def f_def)
  moreover have "cache_step s (s3\<lparr>log := log s\<rparr>)" using g'(2) r(3) by (simp add: cache_step_def myproc_def)
  ultimately show thesis using that [of s3] r g' ct l3 rf by (simp add: f_def n_def hblock_def fun_eq_iff)
qed

lemma recover_spec:
  assumes la: "logged_at d ls s" and rf: "refs d s = (\<lambda>_. 0)" and im: "img_ok ls (disk s) n g"
  obtains s' where "recover_from_log s = Some s'" "tx_ok d ls s'" "held d s' = {}" "l_n (log s') = 0" "disk s' = replay (recover_writes ls n (disk s)) (disk s)"
    "dhist s' = dhist s @ recover_writes ls n (disk s)"
proof -
  obtain s1 where h: "read_head s = Some s1" "logged_at d ls s1" "refs d s1 = (\<lambda>_. 0)" "disk s1 = disk s" "dhist s1 = dhist s" "content d s1 = disk s"
    "l_n (log s1) = sint (get32 (disk s ls) 0)" and hb: "\<And>i. int i < l_n (log s1) \<Longrightarrow> l_block (log s1) i = hblock ls (disk s) i"
    by (rule read_head_spec [OF la rf]) (rule that, assumption+)
  let ?e = "disk s" and ?ts = "[0..<n]"
  have n: "l_n (log s1) = int n" "n \<le> LOGBLOCKS" "inj_on (hblock ls ?e) {0..<n}" using im h(7) by (auto simp: img_ok_def)
  have bl: "l_block (log s1) i = hblock ls ?e i" "hblock ls ?e i \<notin> area ls" if "i < n" for i using hb [of i] that n(1) im by (simp_all add: img_ok_def)
  have ap: "l_block (log s1) i \<noteq> ls + j + 1" "hblock ls ?e i \<noteq> ls" if "i \<in> set ?ts" "j \<in> set ?ts" for i j using bl [of i] that n(2) by (auto simp: area_def)
  have rm: "room d s1 2" using h(3) by (intro room_none) (simp_all add: NBUF_def)
  have "map (l_block (log s1)) ?ts = map (hblock ls ?e) ?ts" using bl by simp
  then have "distinct (map (l_block (log s1)) ?ts)" using n(3) by (simp only: distinct_map) simp
  then obtain s2 where w: "install_loop True ?ts s1 = Some s2"
      "wrote d (\<lambda>x. refs d s1 x - (if \<not> True \<and> x \<in> l_block (log s1) ` set ?ts then 1 else 0)) (map (\<lambda>i. (l_block (log s1) i, content d s1 (ls + i + 1))) ?ts) s1 s2"
    using install_loop_spec [OF h(2) rm, of ?ts True] ap by blast
  have V: "map (\<lambda>i. (l_block (log s1) i, content d s1 (ls + i + 1))) ?ts = map (\<lambda>i. (hblock ls ?e i, ?e (ls + i + 1))) ?ts" using bl h(6) by simp
  have w': "wrote d (\<lambda>_. 0) (map (\<lambda>i. (hblock ls ?e i, ?e (ls + i + 1))) ?ts) s1 s2" using w(2) h(3) unfolding V by simp
  have la2: "logged_at d ls s2" using wrote_logged_at [OF w' h(2)] by simp
  have c2: "content d s2 ls = ?e ls" "refs d s2 = (\<lambda>_. 0)"
  proof -
    have "ls \<notin> hblock ls ?e ` set ?ts" using ap(2) by (auto simp: image_iff) metis
    then show "content d s2 ls = ?e ls" using w' h(6) replay_map_other [of ls "hblock ls ?e" ?ts] by (simp add: wrote_def)
  qed (use w' in \<open>simp add: wrote_def\<close>)
  let ?s3 = "upd_log (\<lambda>l. l\<lparr>l_n := 0\<rparr>) s2"
  have "room d ?s3 1" using c2(2) by (intro room_none) (simp_all add: NBUF_def)
  then obtain s4 where w4: "write_head ?s3 = Some s4" "wrote d (\<lambda>_. 0) [(ls, put32 0 0 (?e ls))] ?s3 s4"
    using write_head_spec [of d ?s3 ls] la2 c2 by (auto simp: logged_at_def header_0)
  have run: "recover_from_log s = Some s4" using h(1) w(1) w4(1) n(1) by (simp add: recover_from_log_def install_trans_def)
  have lg: "log s4 = (log s2)\<lparr>l_n := 0\<rparr>" using w4(2) cache_step_simps(1) by (fastforce simp: wrote_def)
  have dk: "disk s4 = replay (recover_writes ls n ?e) ?e" "dhist s4 = dhist s @ recover_writes ls n ?e"
    using w4(2) w' h(4,5) by (simp_all add: wrote_def recover_writes_def)
  have "tx_ok d ls s4" "held d s4 = {}"
    using w4(2) la2 lg dk(1) by (auto simp: tx_ok_def logged_at_def wrote_def logblocks_def recover_writes_def)
  then show thesis using that run dk lg by simp
qed

section \<open>Crash images\<close>

lemma area_log: "i < n \<Longrightarrow> n \<le> LOGBLOCKS \<Longrightarrow> ls + i + 1 \<in> area ls" "ls \<in> area ls"
  by (auto simp: area_def)

lemma img_installed:
  assumes "img_ok ls e n g" "x \<notin> area ls"
  shows "replay (recover_writes ls n e) e x = g x"
proof -
  have "replay (map (\<lambda>i. (hblock ls e i, e (ls + i + 1))) [0..<n]) e x = g x"
  proof (cases "x \<in> hblock ls e ` {0..<n}")
    case True
    then obtain i where i: "i < n" "x = hblock ls e i" by auto
    have "inj_on (hblock ls e) (set [0..<n])" using assms(1) by (simp add: img_ok_def)
    then show ?thesis using replay_map_at [of "hblock ls e" "[0..<n]" i "\<lambda>i. e (ls + i + 1)" e] i assms(1) by (simp add: img_ok_def)
  next
    case False
    then show ?thesis using replay_map_other [of x "hblock ls e" "[0..<n]"] assms by (simp add: img_ok_def)
  qed
  moreover have "x \<noteq> ls" using assms(2) area_log(2) by auto
  ultimately show ?thesis by (simp add: recover_writes_def)
qed

text \<open>An image whose header is empty.\<close>

lemma img_empty: "get32 (e ls) 0 = 0 \<Longrightarrow> (\<And>x. x \<notin> area ls \<Longrightarrow> g x = e x) \<Longrightarrow> img_ok ls e 0 g"
  by (simp add: img_ok_def)

text \<open>A change to the home blocks named in the header, towards their final content.\<close>

lemma hblock_cong: "e' ls = e ls \<Longrightarrow> hblock ls e' = hblock ls e"
  unfolding hblock_def [abs_def] by simp

lemma img_installing:
  assumes im: "img_ok ls e n g" and ts: "set ts \<subseteq> {0..<n}"
  shows "img_ok ls (replay (map (\<lambda>i. (hblock ls e i, g (hblock ls e i))) ts) e) n g"
proof -
  let ?e = "replay (map (\<lambda>i. (hblock ls e i, g (hblock ls e i))) ts) e"
  have nl: "n \<le> LOGBLOCKS" using im by (simp add: img_ok_def)
  have o: "?e x = e x" if "x \<in> area ls \<or> x \<notin> hblock ls e ` {0..<n}" for x
  proof (rule replay_map_other)
    show "x \<notin> hblock ls e ` set ts" using that im ts by (auto simp: img_ok_def)
  qed
  have hb: "hblock ls ?e = hblock ls e" using o [of ls] area_log(2) by (intro hblock_cong) simp
  have "?e (ls + i + 1) = e (ls + i + 1)" if "i < n" for i using o area_log(1) [OF that nl] by blast
  then show ?thesis using im o [of ls] o area_log(2) [of ls] by (simp add: img_ok_def hb)
qed

lemma img_prefix:
  assumes im: "img_ok ls e n g"
  shows "\<exists>m. img_ok ls (replay (take j (recover_writes ls n e)) e) m g"
proof (cases "j \<le> n")
  case True
  have "\<forall>i\<in>set [0..<j]. e (ls + i + 1) = g (hblock ls e i)" using im True by (simp add: img_ok_def)
  then have m: "map (\<lambda>i. (hblock ls e i, e (ls + i + 1))) [0..<j] = map (\<lambda>i. (hblock ls e i, g (hblock ls e i))) [0..<j]" by simp
  have "take j (recover_writes ls n e) = map (\<lambda>i. (hblock ls e i, e (ls + i + 1))) [0..<j]" using True by (simp add: recover_writes_def take_map)
  then show ?thesis using img_installing [OF im, of "[0..<j]"] True unfolding m by (intro exI [of _ n]) auto
next
  case False
  then have t: "take j (recover_writes ls n e) = recover_writes ls n e" by (simp add: recover_writes_def)
  show ?thesis unfolding t
    by (rule exI, rule img_empty) (simp add: recover_writes_def, rule img_installed [OF im, symmetric])
qed

text \<open>The images a commit goes through.\<close>

lemma commit_images:
  assumes tx: "tx_ok d ls s" "held d s = {}"
  shows "\<exists>m. img_ok ls (replay (take k (commit_writes d ls s)) (disk s)) m (if k \<le> nat (l_n (log s)) then disk s else content d s)"
proof -
  let ?n = "nat (l_n (log s))" and ?bl = "l_block (log s)" and ?c = "content d s" and ?d = "disk s"
  let ?h = "header (log s) (?c ls)"
  let ?W = "\<lambda>k. map (\<lambda>i. (ls + i + 1, ?c (?bl i))) [0..<k]" and ?V = "\<lambda>k. map (\<lambda>i. (?bl i, ?c (?bl i))) [0..<k]"
  have nl: "?n \<le> LOGBLOCKS" "int ?n = l_n (log s)" and h0: "get32 (?d ls) 0 = 0" and inj: "inj_on ?bl {0..<?n}" using tx(1) by (auto simp: tx_ok_def)
  have bl: "?bl i < 2 ^ 32" "?bl i \<notin> area ls" if "i < ?n" for i using tx(1) that by (auto simp: tx_ok_def logblocks_def)
  have cl: "?c x = ?d x" if "x \<notin> ?bl ` {0..<?n}" for x using tx_clean [OF tx] that by (simp add: logblocks_def)
  have W: "replay (?W k) ?d x = ?d x" if "x \<notin> area ls \<or> x = ls" "k \<le> ?n" for x k
    using that area_log(1) [of _ ?n ls] nl by (intro replay_map_other) auto
  define e where "e = (replay (?W ?n) ?d)(ls := ?h)"
  have hb: "hblock ls e i = ?bl i" if "i < ?n" for i
    using that bl [OF that] by (simp add: hblock_def e_def header_def get32_put_blocks unat_of_nat)
  have si: "sint (word_of_int m :: 32 word) = m" if "0 \<le> m" "m \<le> 30" for m :: int
    using that by (simp add: signed_of_int signed_take_bit_int_eq_self)
  have "sint (word_of_int (int ?n) :: 32 word) = int ?n" using nl(1) unfolding LOGBLOCKS_def by (intro si) linarith+
  then have "sint (word_of_int (l_n (log s)) :: 32 word) = l_n (log s)" unfolding nl(2) .
  then have cnt: "sint (get32 (e ls) 0) = int ?n" unfolding nl(2) by (simp add: e_def header_def get32_put_blocks)
  have data: "e (ls + i + 1) = ?c (?bl i)" if "i < ?n" for i
    using replay_map_at [of "\<lambda>i. ls + i + 1" "[0..<?n]" i "\<lambda>i. ?c (?bl i)" ?d] that by (simp add: e_def inj_on_def)
  have "hblock ls e ` {0..<?n} = ?bl ` {0..<?n}" using hb by (intro image_cong) auto
  moreover have "inj_on (hblock ls e) {0..<?n}" using inj hb by (simp add: inj_on_def)
  moreover have eo: "?c x = e x" if "x \<notin> area ls" "x \<notin> ?bl ` {0..<?n}" for x using that W [of x ?n] cl area_log(2) [of ls] by (auto simp: e_def)
  ultimately have im: "img_ok ls e ?n ?c" using cnt nl(1) hb bl data by (simp add: img_ok_def)
  have "k \<le> n \<or> (\<exists>j. k = n + 1 + j \<and> j \<le> n) \<or> 2 * n + 1 < k" for n :: nat by presburger
  then consider (old) "k \<le> ?n" | (new) j where "k = ?n + 1 + j" "j \<le> ?n" | (all) "2 * ?n + 1 < k" by blast
  then show ?thesis
  proof cases
    case old
    then have t: "take k (commit_writes d ls s) = ?W k" by (simp add: commit_writes_def Let_def take_map)
    have "img_ok ls (replay (?W k) ?d) 0 ?d" by (rule img_empty) (use W [of _ k] old h0 in auto)
    then show ?thesis using old t by auto
  next
    case new
    then have t: "take k (commit_writes d ls s) = ?W ?n @ [(ls, ?h)] @ ?V j" by (simp add: commit_writes_def Let_def take_map)
    have V: "?V j = map (\<lambda>i. (hblock ls e i, ?c (hblock ls e i))) [0..<j]" using hb new(2) by simp
    have "img_ok ls (replay (?V j) e) ?n ?c" unfolding V by (rule img_installing [OF im]) (use new(2) in auto)
    then show ?thesis using new t by (auto simp: e_def)
  next
    case all
    then have t: "take k (commit_writes d ls s) = ?W ?n @ [(ls, ?h)] @ ?V ?n @ [(ls, put32 0 0 ?h)]" by (simp add: commit_writes_def Let_def)
    have "?c x = ((replay (?V ?n) e)(ls := put32 0 0 ?h)) x" if "x \<notin> area ls" for x
    proof -
      have "x \<noteq> ls" using that area_log(2) by auto
      moreover have "replay (?V ?n) e x = (if x \<in> fst ` set (?V ?n) then ?c x else e x)" by (rule replay_same) auto
      moreover have "fst ` set (?V ?n) = ?bl ` {0..<?n}" by (simp add: image_image)
      moreover note eo [OF that]
      ultimately show ?thesis by simp
    qed
    then have "img_ok ls ((replay (?V ?n) e)(ls := put32 0 0 ?h)) 0 ?c" by (intro img_empty) auto
    then show ?thesis using all t by (auto simp: e_def)
  qed
qed

section \<open>Starting the system\<close>

lemma cache_ok_frame:
  assumes "cache_ok d s" "bcache s' = bcache s" "disk s' = disk s" "idle (sync s')" "myproc s' = myproc s" "\<And>q. p_pid (procs s' q) = p_pid (procs s q)"
  shows "cache_ok d s'"
  using assms by (simp add: cache_ok_def)

lemma idle_initlock: "idle y \<Longrightarrow> idle (initlock lk y)"
  by (auto simp: idle_def initlock_def sync_defs)

lemma mycpu_initlock: "mycpu (initlock lk y) = mycpu y"
  by (simp add: initlock_def mycpu_def cpuid_def)

lemma initlog_spec:
  assumes b: "boot_ok d s" and im: "img_ok (sb_logstart sbl) (disk s) n g"
  obtains s' where "initlog d sbl s = Some s'" "tx_ok d (sb_logstart sbl) s'" "held d s' = {}" "l_n (log s') = 0"
    "disk s' = replay (recover_writes (sb_logstart sbl) n (disk s)) (disk s)" "dhist s' = dhist s @ recover_writes (sb_logstart sbl) n (disk s)"
proof -
  let ?s = "upd_log (\<lambda>l. l\<lparr>l_start := sb_logstart sbl, l_dev := d\<rparr>) (s\<lparr>sync := initlock Llog (sync s)\<rparr>)"
  have bo: "cache_ok d s" "held d s = {}" "refs d s = (\<lambda>_. 0)" using b by (auto simp: boot_ok_def)
  have "cache_ok d ?s" by (rule cache_ok_frame [OF bo(1)]) (simp_all add: idle_initlock cache_okD(3) [OF bo(1)] myproc_def mycpu_initlock)
  then have "logged_at d (sb_logstart sbl) ?s" "refs d ?s = (\<lambda>_. 0)" "img_ok (sb_logstart sbl) (disk ?s) n g"
    using bo im view_cong [of ?s s d] by (simp_all add: logged_at_def)
  from recover_spec [OF this] obtain s' where "recover_from_log ?s = Some s'" "tx_ok d (sb_logstart sbl) s'" "held d s' = {}" "l_n (log s') = 0"
    "disk s' = replay (recover_writes (sb_logstart sbl) n (disk ?s)) (disk ?s)" "dhist s' = dhist ?s @ recover_writes (sb_logstart sbl) n (disk ?s)" by blast
  then show thesis using that by (simp add: initlog_def)
qed

text \<open>The machine may stop in the middle of a recovery, any number of times.\<close>

inductive crashes :: "nat \<Rightarrow> superblock \<Rightarrow> (nat \<Rightarrow> block) \<Rightarrow> (nat \<Rightarrow> block) \<Rightarrow> bool" for d sbl e0 where
  first: "crashes d sbl e0 e0"
| again: "crashes d sbl e0 (disk s) \<Longrightarrow> boot_ok d s \<Longrightarrow> initlog d sbl s = Some s' \<Longrightarrow> dhist s' = dhist s @ ws \<Longrightarrow> crashes d sbl e0 (replay (take j ws) (disk s))"

lemma crashes_img: "crashes d sbl e0 e \<Longrightarrow> \<exists>n. img_ok (sb_logstart sbl) e0 n g \<Longrightarrow> \<exists>n. img_ok (sb_logstart sbl) e n g"
proof (induction rule: crashes.induct)
  case (again s s' ws j)
  then obtain n where n: "img_ok (sb_logstart sbl) (disk s) n g" by blast
  obtain t where "initlog d sbl s = Some t" "dhist t = dhist s @ recover_writes (sb_logstart sbl) n (disk s)" by (rule initlog_spec [OF again(2) n])
  then have "ws = recover_writes (sb_logstart sbl) n (disk s)" using again(3,4) by simp
  then show ?case using img_prefix [OF n] by simp
qed simp

section \<open>The end of a transaction\<close>

lemma tx_frame:
  assumes "tx_ok d ls s" "bcache s' = bcache s" "disk s' = disk s" "idle (sync s')" "myproc s' = myproc s" "\<And>q. p_pid (procs s' q) = p_pid (procs s q)"
    and "l_dev (log s') = l_dev (log s)" "l_start (log s') = l_start (log s)" "l_n (log s') = l_n (log s)" "l_block (log s') = l_block (log s)"
  shows "tx_ok d ls s'"
proof -
  have "cache_ok d s'" by (rule cache_ok_frame [OF _ assms(2-6)]) (use assms(1) in \<open>simp add: tx_ok_def\<close>)
  then show ?thesis using assms(1,3,7-10) view_cong [OF assms(2,3)] by (simp add: tx_ok_def logblocks_def)
qed

definition end_writes :: "nat \<Rightarrow> nat \<Rightarrow> kstate \<Rightarrow> (nat \<times> block) list" where
  "end_writes d ls s = (if 0 < l_n (log s) then commit_writes d ls s else [])"

lemma commit_run:
  assumes tx: "tx_ok d ls s" "held d s = {}" and n: "nat (l_n (log s)) + 2 \<le> NBUF"
  obtains s' where "commit s = Some s'" "tx_ok d ls s'" "held d s' = {}" "log s' = (log s)\<lparr>l_n := 0\<rparr>" "disk s' = replay (end_writes d ls s) (disk s)"
    "dhist s' = dhist s @ end_writes d ls s" "cache_step s (s'\<lparr>log := log s\<rparr>)"
proof (cases "0 < l_n (log s)")
  case True
  obtain s' where c: "commit s = Some s'" "wrote d (\<lambda>_. 0) (commit_writes d ls s) (upd_log (\<lambda>l. l\<lparr>l_n := 0\<rparr>) s) s'" by (rule commit_spec [OF tx True n])
  have lg: "log s' = (log s)\<lparr>l_n := 0\<rparr>" using c(2) cache_step_simps(1) by (fastforce simp: wrote_def)
  have "disk s' ls = put32 0 0 (header (log s) (content d s ls))" using c(2) by (simp add: wrote_def commit_writes_def Let_def)
  then have "tx_ok d ls s'" "held d s' = {}" using c(2) tx lg by (auto simp: tx_ok_def wrote_def logblocks_def)
  then show thesis using that [of s'] c lg True by (simp add: wrote_def end_writes_def cache_step_def myproc_def)
next
  case False
  then have "l_n (log s) = 0" using tx(1) by (simp add: tx_ok_def)
  moreover have "cache_step s s" using cache_okD(3) tx(1) by (auto simp: cache_step_def tx_ok_def)
  ultimately show thesis using that [of s] tx by (simp add: commit_def end_writes_def)
qed

lemma end_op_run:
  assumes tx: "tx_ok d ls s" "held d s = {}" and n: "nat (l_n (log s)) + 2 \<le> NBUF" and o: "l_outstanding (log s) = 1" "\<not> l_committing (log s)"
  obtains s' where "end_op s = Some s'" "tx_ok d ls s'" "held d s' = {}" "l_n (log s') = 0" "disk s' = replay (end_writes d ls s) (disk s)"
    "dhist s' = dhist s @ end_writes d ls s"
proof -
  have y: "idle (sync s)" and p: "\<exists>p. myproc s = Some p" using cache_okD(3,4) tx(1) unfolding tx_ok_def by blast+
  let ?s1 = "s\<lparr>log := (log s)\<lparr>l_outstanding := 0, l_committing := True\<rparr>, sync := settle (sync s)\<rparr>"
  have v: "content d ?s1 = content d s" "held d ?s1 = held d s" by (simp_all add: view_cong [of ?s1 s])
  have t1: "tx_ok d ls ?s1" by (rule tx_frame [OF tx(1)]) (simp_all add: y myproc_def)
  have w1: "end_writes d ls ?s1 = end_writes d ls s" by (simp add: end_writes_def commit_writes_def header_def v)
  obtain s2 where c: "commit ?s1 = Some s2" "tx_ok d ls s2" "held d s2 = {}" "log s2 = (log ?s1)\<lparr>l_n := 0\<rparr>" "disk s2 = replay (end_writes d ls ?s1) (disk ?s1)"
    "dhist s2 = dhist ?s1 @ end_writes d ls ?s1"
    by (rule commit_run [OF t1]) (use tx(2) v n that in simp_all)
  have y2: "idle (sync s2)" using cache_okD(3) c(2) unfolding tx_ok_def by blast
  let ?s3 = "s2\<lparr>sync := lockd Llog (sync s2), log := (log s2)\<lparr>l_committing := False\<rparr>\<rparr>"
  have "procs_free ?s3" "c_noff (mycpu (sync ?s3)) \<noteq> 0" using y2 by (simp_all add: procs_free_def)
  from wakeup_eq [OF this] have wk: "wakeup Clog ?s3 = Some (woken (Some Clog) ?s3)" .
  let ?s4 = "(woken (Some Clog) ?s3)\<lparr>sync := settle (sync s2)\<rparr>"
  have run: "end_op s = Some ?s4" using y o c(1) y2 wk by (simp add: end_op_def rel_def)
  have e: "bcache ?s4 = bcache s2" "disk ?s4 = disk s2" "dhist ?s4 = dhist s2" "log ?s4 = (log s2)\<lparr>l_committing := False\<rparr>" by (simp_all add: woken_def)
  have "tx_ok d ls ?s4" by (rule tx_frame [OF c(2)]) (simp_all add: e y2 myproc_def)
  moreover have "held d ?s4 = {}" using view_cong(3) [OF e(1,2)] c(3) by simp
  ultimately show thesis using that [of ?s4] run c e w1 by simp
qed

section \<open>Updates inside a transaction\<close>

lemma bpin_spec:
  assumes ok: "cache_ok d s" and b: "buffers d s b x" "x \<in> held d s"
  shows "\<exists>s'. bpin b s = Some s' \<and> cache_ok d s' \<and> disk s' = disk s \<and> dhist s' = dhist s \<and> content d s' = content d s \<and>
    refs d s' = (refs d s)(x := refs d s x + 1) \<and> held d s' = held d s \<and> (\<forall>a y. buffers d s' a y = buffers d s a y) \<and> log s' = log s"
proof -
  note u = cache_okD(1) [OF ok] and w = view_at [OF cache_okD(1) [OF ok] b(1)] and y = cache_okD(3) [OF ok]
  have bo: "buf_ok d (mypid s) (disk s) (bcache s b)" "b < NBUF" using cache_okD(2) [OF ok] b by (simp_all add: buffers_def)
  have l: "sl_locked (b_lock (bcache s b))" "b_valid (bcache s b)" using w(2,3) b(2) bo by (auto simp: buf_ok_def)
  let ?e = "(bcache s b)\<lparr>b_refcnt := b_refcnt (bcache s b) + 1\<rparr>"
  let ?s' = "(upd_buf b (\<lambda>e. e\<lparr>b_refcnt := b_refcnt e + 1\<rparr>) s)\<lparr>sync := settle (sync s)\<rparr>"
  have run: "bpin b s = Some ?s'" using y by (simp add: bpin_def rel_def)
  have st: "cache_step s ?s'" using y by (simp add: cache_step_def myproc_def)
  have same: "b_dev (bcache ?s' a) = b_dev (bcache s a) \<and> b_blockno (bcache ?s' a) = b_blockno (bcache s a)" for a by simp
  have u': "uniq d (bcache ?s')" using uniq_cong [of "bcache ?s'" "bcache s" d] same u by simp
  have "cache_ok d ?s'" using bo l by (intro cache_ok_upd [OF ok st _ _ _ _ u', of b ?e]) (auto simp: buf_ok_def)
  moreover have "content d ?s' = (content d s)(x := content d s x)" "refs d ?s' = (refs d s)(x := refs d s x + 1)" "held d ?s' = insert x (held d s)"
    using view_update [OF u b(1), of ?s'] same w l by simp_all
  ultimately show ?thesis using run b(2) by (intro exI [of _ ?s']) (auto simp: buffers_def)
qed

lemma log_index_eq: "log_index x l = nat (l_n l) \<longleftrightarrow> x \<notin> logblocks l" "x \<in> logblocks l \<Longrightarrow> log_index x l < nat (l_n l) \<and> l_block l (log_index x l) = x"
proof -
  show 2: "log_index x l < nat (l_n l) \<and> l_block l (log_index x l) = x" if "x \<in> logblocks l"
  proof -
    have "find (\<lambda>i. l_block l i = x) [0..<nat (l_n l)] \<noteq> None" using that by (auto simp: logblocks_def find_None_iff)
    then obtain i where f: "find (\<lambda>i. l_block l i = x) [0..<nat (l_n l)] = Some i" by blast
    then have "i < nat (l_n l)" "l_block l i = x" by (auto simp: find_Some_iff)
    then show ?thesis by (simp add: log_index_def f)
  qed
  have "log_index x l = nat (l_n l)" if "x \<notin> logblocks l"
  proof -
    have "find (\<lambda>i. l_block l i = x) [0..<nat (l_n l)] = None" using that by (auto simp: logblocks_def find_None_iff)
    then show ?thesis by (simp add: log_index_def)
  qed
  then show "log_index x l = nat (l_n l) \<longleftrightarrow> x \<notin> logblocks l" using 2 by auto
qed

lemma log_write_spec:
  assumes tx: "tx_ok d ls s" and b: "buffers d s b x" "x \<in> held d s" and x: "x < 2 ^ 32" "x \<notin> area ls"
    and n: "l_n (log s) < int LOGBLOCKS" "1 \<le> l_outstanding (log s)"
  obtains s' where "log_write b s = Some s'" "tx_ok d ls s'" "content d s' = content d s" "held d s' = held d s" "disk s' = disk s" "dhist s' = dhist s"
    "\<And>a y. buffers d s' a y = buffers d s a y" "logblocks (log s') = insert x (logblocks (log s))" "l_n (log s') \<le> l_n (log s) + 1"
    "l_outstanding (log s') = l_outstanding (log s)" "l_committing (log s') = l_committing (log s)"
proof -
  have ok: "cache_ok d s" and n0: "0 \<le> l_n (log s)" using tx by (auto simp: tx_ok_def)
  note y = cache_okD(3) [OF ok]
  have bx: "b_blockno (bcache s b) = x" using b(1) by (simp add: buffers_def)
  let ?i = "log_index x (log s)" and ?s1 = "s\<lparr>sync := lockd Llog (sync s)\<rparr>"
  let ?l = "(log s)\<lparr>l_block := (l_block (log s))(?i := x)\<rparr>"
  show thesis
  proof (cases "x \<in> logblocks (log s)")
    case True
    then have i: "?i < nat (l_n (log s))" "l_block (log s) ?i = x" using log_index_eq(2) by auto
    then have l: "(l_block (log s))(?i := x) = l_block (log s)" by auto
    have ni: "int ?i \<noteq> l_n (log s)" using i(1) by linarith
    have run: "log_write b s = Some (s\<lparr>sync := settle (sync s)\<rparr>)" using y n ni bx by (simp add: log_write_def rel_def l)
    have v: "content d (s\<lparr>sync := settle (sync s)\<rparr>) = content d s" "held d (s\<lparr>sync := settle (sync s)\<rparr>) = held d s" by (simp_all add: view_cong [of "settled s" s])
    have "tx_ok d ls (s\<lparr>sync := settle (sync s)\<rparr>)" by (rule tx_frame [OF tx]) (simp_all add: y myproc_def)
    then show thesis using that [OF run] v True by (simp add: buffers_def insert_absorb)
  next
    case False
    then have i: "?i = nat (l_n (log s))" using log_index_eq(1) by simp
    let ?s2 = "?s1\<lparr>log := ?l\<rparr>"
    \<comment> \<open>the pin happens with the lock of the log held\<close>
    let ?e = "(upd_buf b (\<lambda>e. e\<lparr>b_refcnt := b_refcnt e + 1\<rparr>) s)\<lparr>log := ?l\<lparr>l_n := l_n (log s) + 1\<rparr>, sync := settle (sync s)\<rparr>"
    have "bpin b ?s2 = Some (upd_buf b (\<lambda>e. e\<lparr>b_refcnt := b_refcnt e + 1\<rparr>) ?s2)" using y by (simp add: bpin_def rel_def)
    then have run: "log_write b s = Some ?e" using y n n0 i bx by (simp add: log_write_def rel_def)
    have "bpin b s = Some ((upd_buf b (\<lambda>e. e\<lparr>b_refcnt := b_refcnt e + 1\<rparr>) s)\<lparr>sync := settle (sync s)\<rparr>)" using y by (simp add: bpin_def rel_def)
    then obtain s3 where p: "s3 = (upd_buf b (\<lambda>e. e\<lparr>b_refcnt := b_refcnt e + 1\<rparr>) s)\<lparr>sync := settle (sync s)\<rparr>" "cache_ok d s3" "disk s3 = disk s"
      "content d s3 = content d s" "refs d s3 = (refs d s)(x := refs d s x + 1)" "held d s3 = held d s" "\<And>a y. buffers d s3 a y = buffers d s a y"
      using bpin_spec [OF ok b] by auto
    have e: "?e = s3\<lparr>log := ?l\<lparr>l_n := l_n (log s) + 1\<rparr>\<rparr>" unfolding p(1) by simp
    have nn: "nat (l_n (log s) + 1) = Suc (nat (l_n (log s)))" using n0 by simp
    have lb: "logblocks (log ?e) = insert x (logblocks (log s))" unfolding logblocks_def nn i by (auto simp: atLeast0_lessThan_Suc nn)
    have inj: "inj_on (l_block (log ?e)) {0..<nat (l_n (log ?e))}" using tx False i nn by (auto simp: tx_ok_def inj_on_def logblocks_def less_Suc_eq)
    have "tx_ok d ls ?e" unfolding e using p tx x n n0 False lb inj unfolding e by (auto simp: tx_ok_def)
    then show thesis using that [OF run] p lb unfolding e by (simp add: buffers_def)
  qed
qed

lemma logged_update:
  assumes "tx_ok d ls s" "held d s = {}" "x < 2 ^ 32" "x \<notin> area ls" "nat (l_n (log s)) + 1 \<le> NBUF" "l_n (log s) < int LOGBLOCKS" "1 \<le> l_outstanding (log s)"
  shows "\<exists>s'. do { (b, s) \<leftarrow> bread d x s; s \<leftarrow> log_write b (upd_buf b (\<lambda>e. e\<lparr>b_data := f (b_data e)\<rparr>) s); brelse b s } = Some s' \<and>
    tx_ok d ls s' \<and> held d s' = {} \<and> content d s' = (content d s)(x := f (content d s x)) \<and> disk s' = disk s \<and> dhist s' = dhist s \<and>
    logblocks (log s') = insert x (logblocks (log s)) \<and> l_n (log s') \<le> l_n (log s) + 1 \<and> l_outstanding (log s') = l_outstanding (log s) \<and>
    l_committing (log s') = l_committing (log s)"
proof -
  have ok: "cache_ok d s" using assms(1) by (simp add: tx_ok_def)
  have rm: "room d s (Suc 0)" using tx_room [OF assms(1,2)] assms(5) by simp
  obtain b s1 where g: "bread d x s = Some (b, s1)" "got d s b x s1" using bread_room [OF ok _ rm, of x] assms(2) by blast
  note g' = gotD [OF g(2)]
  have h: "x \<in> held d s1" by (simp add: g')
  let ?v = "f (content d s x)"
  let ?s2 = "upd_buf b (\<lambda>e. e\<lparr>b_data := ?v\<rparr>) s1"
  note st = store_spec [OF g'(1,5) h refl, of ?v]
  have lg: "log ?s2 = log s" using cache_step_simps(1) [OF g'(2)] by simp
  have tx2: "tx_ok d ls ?s2" using assms(1,2) g' st(1-5,7) lg by (auto simp: tx_ok_def)
  have b2: "buffers d ?s2 b x" "x \<in> held d ?s2" using st(5,6) g' h by auto
  obtain s3 where w: "log_write b ?s2 = Some s3" "tx_ok d ls s3" "content d s3 = content d ?s2" "held d s3 = held d ?s2" "disk s3 = disk ?s2" "dhist s3 = dhist ?s2"
    "\<And>a y. buffers d s3 a y = buffers d ?s2 a y" "logblocks (log s3) = insert x (logblocks (log ?s2))" "l_n (log s3) \<le> l_n (log ?s2) + 1"
    "l_outstanding (log s3) = l_outstanding (log ?s2)" "l_committing (log s3) = l_committing (log ?s2)"
    using log_write_spec [OF tx2 b2 assms(3,4)] assms(6,7) unfolding lg by blast
  have c3: "cache_ok d s3" "buffers d s3 b x" "x \<in> held d s3" "refs d s3 x = 1 \<longrightarrow> content d s3 x = disk s3 x"
    using w(2,4,7,8) b2 by (auto simp: tx_ok_def)
  from brelse_spec [OF c3] obtain s4 where q: "brelse b s3 = Some s4" "cache_ok d s4" "cache_step s3 s4" "disk s4 = disk s3" "dhist s4 = dhist s3"
    "content d s4 = content d s3" "refs d s4 = (refs d s3)(x := refs d s3 x - 1)" "held d s4 = held d s3 - {x}" by blast
  have l4: "log s4 = log s3" by (rule cache_step_simps(1) [OF q(3)])
  have "tx_ok d ls s4" using w(2) q l4 w(8) c3(3) by (auto simp: tx_ok_def)
  moreover have "do { (b, s) \<leftarrow> bread d x s; s \<leftarrow> log_write b (upd_buf b (\<lambda>e. e\<lparr>b_data := f (b_data e)\<rparr>) s); brelse b s } = Some s4"
    using g(1) w(1) q(1) g'(6) by simp
  moreover have "held d s4 = {}" using q(8) w(4) st(5) g'(9) assms(2) by simp
  ultimately show ?thesis using q w st(3,7,8) g' l4 lg by (intro exI [of _ s4]) simp
qed

section \<open>The contracts\<close>

text \<open>
  (C4) A transaction is atomic with respect to crashes.  When the last system call of a transaction ends, with at most 28 blocks logged,
  \<open>end_op\<close> returns, the home blocks on disk are what the cache holds, and the log is empty again.  The machine may stop after any prefix of the
  block writes, and again in the middle of any number of recoveries: there is one write such that, before it, the next complete
  recovery leaves every home block as it was before the transaction, and from it on every home block as the
  transaction made it.
\<close>

theorem log_commit_atomic:
  assumes "tx_ok d ls s" "held d s = {}" "nat (l_n (log s)) + 2 \<le> NBUF" "l_outstanding (log s) = 1" "\<not> l_committing (log s)" "sb_logstart sbl = ls"
  shows "\<exists>s' ws m. end_op s = Some s' \<and> tx_ok d ls s' \<and> held d s' = {} \<and> l_n (log s') = 0 \<and> dhist s' = dhist s @ ws \<and> disk s' = replay ws (disk s) \<and>
    (\<forall>x. x \<notin> area ls \<longrightarrow> disk s' x = content d s x) \<and>
    (\<forall>k t. crashes d sbl (replay (take k ws) (disk s)) (disk t) \<longrightarrow> boot_ok d t \<longrightarrow>
       (\<exists>t'. initlog d sbl t = Some t' \<and> tx_ok d ls t' \<and> held d t' = {} \<and> l_n (log t') = 0 \<and>
          (\<forall>x. x \<notin> area ls \<longrightarrow> disk t' x = (if k < m then disk s x else content d s x))))"
proof -
  let ?ws = "end_writes d ls s" and ?n = "nat (l_n (log s))"
  obtain s' where r: "end_op s = Some s'" "tx_ok d ls s'" "held d s' = {}" "l_n (log s') = 0" "disk s' = replay ?ws (disk s)" "dhist s' = dhist s @ ?ws"
    by (rule end_op_run [OF assms(1-5)])
  have img: "\<exists>n. img_ok ls (replay (take k ?ws) (disk s)) n (if k < Suc ?n then disk s else content d s)" for k
  proof (cases "0 < l_n (log s)")
    case True
    then show ?thesis using commit_images [OF assms(1,2), of k] by (simp add: end_writes_def less_Suc_eq_le)
  next
    case False
    then have "disk s = content d s" using tx_clean [OF assms(1,2)] assms(1) by (auto simp: tx_ok_def logblocks_def)
    moreover have "img_ok ls (disk s) 0 (disk s)" using assms(1) by (intro img_empty) (simp_all add: tx_ok_def)
    ultimately show ?thesis using False by (intro exI [of _ 0]) (simp add: end_writes_def)
  qed
  obtain n where n: "img_ok ls (disk s') n (content d s)"
    using img [of "length ?ws + Suc ?n"] r(5) by auto
  moreover have "get32 (disk s' ls) 0 = 0" using r(2) by (simp add: tx_ok_def)
  ultimately have home: "\<forall>x. x \<notin> area ls \<longrightarrow> disk s' x = content d s x" by (simp add: img_ok_def)
  have "\<exists>t'. initlog d sbl t = Some t' \<and> tx_ok d ls t' \<and> held d t' = {} \<and> l_n (log t') = 0 \<and>
      (\<forall>x. x \<notin> area ls \<longrightarrow> disk t' x = (if k < Suc ?n then disk s x else content d s x))"
    if c: "crashes d sbl (replay (take k ?ws) (disk s)) (disk t)" "boot_ok d t" for k t
  proof -
    obtain m where m: "img_ok (sb_logstart sbl) (disk t) m (if k < Suc ?n then disk s else content d s)"
      using crashes_img [OF c(1), of "if k < Suc ?n then disk s else content d s"] img [of k] assms(6) by auto
    obtain t' where "initlog d sbl t = Some t'" "tx_ok d (sb_logstart sbl) t'" "held d t' = {}" "l_n (log t') = 0"
      "disk t' = replay (recover_writes (sb_logstart sbl) m (disk t)) (disk t)" by (rule initlog_spec [OF c(2) m])
    then show ?thesis using img_installed [OF m] assms(6) by auto
  qed
  then show ?thesis using r home by (intro exI [of _ s'] exI [of _ ?ws] exI [of _ "Suc ?n"]) blast
qed

text \<open>
  (C17) Inside a transaction nothing reaches the disk.  Reading a home block, changing it, \<open>log_write\<close> and \<open>brelse\<close> returns while the log has
  room; afterwards the block has the new content for every later \<open>bread\<close>, all others the old one, no block was written to
  disk, the block belongs to the transaction, once however often it is changed, and the invariant of the log holds again.
\<close>

theorem log_write_defers:
  assumes "tx_ok d ls s" "held d s = {}" "x < 2 ^ 32" "x \<notin> area ls" "nat (l_n (log s)) + 1 \<le> NBUF" "l_n (log s) < int LOGBLOCKS" "1 \<le> l_outstanding (log s)"
  shows "\<exists>s'. do { (b, s) \<leftarrow> bread d x s; s \<leftarrow> log_write b (upd_buf b (\<lambda>e. e\<lparr>b_data := f (b_data e)\<rparr>) s); brelse b s } = Some s' \<and>
    tx_ok d ls s' \<and> held d s' = {} \<and> content d s' = (content d s)(x := f (content d s x)) \<and> disk s' = disk s \<and> dhist s' = dhist s \<and>
    logblocks (log s') = insert x (logblocks (log s)) \<and> l_n (log s') \<le> l_n (log s) + 1 \<and> l_outstanding (log s') = l_outstanding (log s) \<and>
    l_committing (log s') = l_committing (log s)"
  by (rule logged_update [OF assms])

section \<open>A fresh cache\<close>

lemma binit_loop_dll:
  "dll (bcache s) NBUF L NBUF \<Longrightarrow> distinct (is @ L) \<Longrightarrow> NBUF \<notin> set (is @ L) \<Longrightarrow> dll (bcache (binit_loop is s)) NBUF (rev is @ L) NBUF"
proof (induction "is" arbitrary: s L)
  case (Cons i "is")
  let ?s = "initsleeplock (Lbuf i) s"
  have "dll (bcache ?s) NBUF L NBUF" using Cons.prems(1) by (rule dll_cong) (simp_all add: initsleeplock_def)
  then have "dll (bcache (buf_push i ?s)) NBUF (i # L) NBUF"
    by (rule dll_push) (use Cons.prems(2,3) buf_push_links [of i ?s] in auto)
  then show ?case using Cons.IH [of "buf_push i ?s" "i # L"] Cons.prems by auto
qed simp

lemma binit_loop_fields:
  "b_dev (bcache (binit_loop is s) a) = b_dev (bcache s a) \<and> b_valid (bcache (binit_loop is s) a) = b_valid (bcache s a) \<and>
   b_refcnt (bcache (binit_loop is s) a) = b_refcnt (bcache s a) \<and> (sl_locked (b_lock (bcache (binit_loop is s) a)) \<longrightarrow> sl_locked (b_lock (bcache s a))) \<and>
   procs (binit_loop is s) = procs s \<and> disk (binit_loop is s) = disk s \<and> mycpu (sync (binit_loop is s)) = mycpu (sync s) \<and>
   (idle (sync s) \<longrightarrow> idle (sync (binit_loop is s)))"
proof (induction "is" arbitrary: s)
  case (Cons i "is")
  let ?s = "initsleeplock (Lbuf i) s"
  have l: "links ?s (buf_push i ?s)" unfolding buf_push_def Let_def by (intro links_upd links_refl)
  obtain c where e: "buf_push i ?s = ?s\<lparr>bcache := c\<rparr>" using links_fields(1) [OF l] by blast
  have "procs (buf_push i ?s) = procs s" "disk (buf_push i ?s) = disk s" "sync (buf_push i ?s) = initlock (Lbuf i) (sync s)"
    by (simp_all add: e) (simp_all add: initsleeplock_def)
  then show ?case using Cons.IH [of "buf_push i ?s"] links_fields(2-7) [OF l, of a] by (auto simp: initsleeplock_def idle_initlock mycpu_initlock)
qed simp

text \<open>After \<open>binit\<close> the cache is empty and in order.\<close>

lemma binit_boot_ok:
  assumes "idle (sync s)" "myproc s \<noteq> None" "\<And>b. b < NBUF \<Longrightarrow> b_dev (bcache s b) \<noteq> d \<and> \<not> b_valid (bcache s b) \<and> b_refcnt (bcache s b) = 0 \<and> \<not> sl_locked (b_lock (bcache s b))"
  shows "boot_ok d (binit s)"
proof -
  define s1 where "s1 = upd_buf NBUF (\<lambda>b. b\<lparr>b_prev := NBUF, b_next := NBUF\<rparr>) (s\<lparr>sync := initlock Lbcache (sync s)\<rparr>)"
  have e: "binit s = binit_loop [0..<NBUF] s1" by (simp add: binit_def s1_def)
  have "dll (bcache (binit s)) NBUF (rev [0..<NBUF] @ []) NBUF" unfolding e by (rule binit_loop_dll) (simp_all add: s1_def)
  then have r: "ring (rev [0..<NBUF]) (bcache (binit s))" by (auto simp: ring_def)
  have f: "b_dev (bcache (binit s) b) \<noteq> d" "\<not> b_valid (bcache (binit s) b)" "b_refcnt (bcache (binit s) b) = 0" "\<not> sl_locked (b_lock (bcache (binit s) b))" if "b < NBUF" for b
    using binit_loop_fields [of "[0..<NBUF]" s1 b] assms(3) [OF that] that unfolding e by (auto simp: s1_def)
  have i: "idle (sync (binit s))" "myproc (binit s) \<noteq> None"
    using binit_loop_fields [of "[0..<NBUF]" s1 0] assms(1,2) unfolding e by (auto simp: s1_def idle_initlock mycpu_initlock myproc_def)
  have sl: "slot d (bcache (binit s)) x = None" for x using f(1) by (simp add: slot_None)
  have "uniq d (bcache (binit s))" using f(1) by (simp add: uniq_def)
  then have "cache_ok d (binit s)" using i r f by (auto simp: cache_ok_def buf_ok_def)
  then show ?thesis by (simp add: boot_ok_def held_def refs_def [abs_def] sl)
qed

definition bootstate0 :: kstate where
  "bootstate0 = binit (kstate0\<lparr>sync := set_mycpu ((mycpu sync0)\<lparr>c_proc := Some 0\<rparr>) sync0, disk := \<lambda>_ _. 0\<rparr>)"

definition sbl0 :: superblock where
  "sbl0 = \<lparr>sb_magic = 0x10203040, sb_size = 2000, sb_nblocks = 1954, sb_ninodes = 200, sb_nlog = 31, sb_logstart = 2, sb_inodestart = 33, sb_bmapstart = 45\<rparr>"

text \<open>A system that has started, with a transaction that changed block 46.\<close>

lemma started:
  obtains s where "tx_ok 1 2 s" "held 1 s = {}" "l_n (log s) = 0" "l_outstanding (log s) = 1" "\<not> l_committing (log s)" "disk s 46 0 = 0"
proof -
  have b: "boot_ok 1 bootstate0" unfolding bootstate0_def
    by (rule binit_boot_ok) (simp_all add: kstate0_def sync0_def sync_defs idle_def myproc_def)
  have dk: "disk bootstate0 = (\<lambda>_ _. 0)" using binit_loop_fields by (simp add: bootstate0_def binit_def Let_def)
  have "img_ok (sb_logstart sbl0) (disk bootstate0) 0 (disk bootstate0)" by (rule img_empty) (simp_all add: dk get32_def)
  then obtain s where s: "tx_ok 1 2 s" "held 1 s = {}" "l_n (log s) = 0" "disk s = replay (recover_writes 2 0 (disk bootstate0)) (disk bootstate0)"
    by (rule initlog_spec [OF b]) (simp add: sbl0_def)
  let ?s = "upd_log (\<lambda>l. l\<lparr>l_outstanding := 1, l_committing := False\<rparr>) s"
  have "idle (sync s)" using s(1) cache_okD(3) unfolding tx_ok_def by blast
  then have "tx_ok 1 2 ?s" by (intro tx_frame [OF s(1)]) (simp_all add: myproc_def)
  then show thesis using that [of ?s] s by (simp add: recover_writes_def dk)
qed

theorem log_write_defers_witness:
  "\<exists>s s'. tx_ok 1 2 s \<and> do { (b, s) \<leftarrow> bread 1 46 s; s \<leftarrow> log_write b (upd_buf b (\<lambda>e. e\<lparr>b_data := (b_data e)(0 := 7)\<rparr>) s); brelse b s } = Some s' \<and>
     content 1 s' 46 0 = 7 \<and> dhist s' = dhist s"
proof -
  obtain s where s: "tx_ok 1 2 s" "held 1 s = {}" "l_n (log s) = 0" "l_outstanding (log s) = 1" "\<not> l_committing (log s)" by (rule started)
  show ?thesis using log_write_defers [OF s(1,2), of 46 "\<lambda>v. v(0 := 7)"] s by (auto simp: area_def LOGBLOCKS_def NBUF_def)
qed

theorem log_commit_atomic_witness:
  "\<exists>s s' ws. end_op s = Some s' \<and> l_n (log s) \<noteq> 0 \<and> dhist s' = dhist s @ ws \<and> disk s 46 0 = 0 \<and> disk s' 46 0 = 7"
proof -
  obtain s where s: "tx_ok 1 2 s" "held 1 s = {}" "l_n (log s) = 0" "l_outstanding (log s) = 1" "\<not> l_committing (log s)" "disk s 46 0 = 0" by (rule started)
  obtain t where t: "tx_ok 1 2 t" "held 1 t = {}" "content 1 t = (content 1 s)(46 := (content 1 s 46)(0 := 7))" "disk t = disk s"
      "logblocks (log t) = insert 46 (logblocks (log s))" "l_n (log t) \<le> 1" "l_outstanding (log t) = 1" "\<not> l_committing (log t)"
    using logged_update [OF s(1,2), of 46 "\<lambda>v. v(0 := 7)"] s by (auto simp: area_def LOGBLOCKS_def NBUF_def)
  have n: "l_n (log t) \<noteq> 0" using t(5) by (auto simp: logblocks_def)
  have "nat (l_n (log t)) + 2 \<le> NBUF" using t(6) by (simp add: NBUF_def)
  from log_commit_atomic [OF t(1,2) this t(7,8), of sbl0] obtain s' ws where "end_op t = Some s'" "dhist s' = dhist t @ ws"
      "\<forall>x. x \<notin> area 2 \<longrightarrow> disk s' x = content 1 t x" by (auto simp: sbl0_def)
  then show ?thesis using n s(6) t(3,4) by (intro exI [of _ t] exI [of _ s'] exI [of _ ws]) (simp add: area_def LOGBLOCKS_def)
qed

end
