(* ===== verification/Grep.thy ===== *)
theory Grep
  imports Main
begin

text \<open>
  The user program \<open>grep\<close> (\<open>user/grep.c\<close>): the pattern matcher of Kernighan and Pike and the loop that splits the
  input into lines with a buffer of 1024 bytes.  Strings are their bytes before the final 0.

  The matcher, which backtracks over the text, is shown equivalent to the language of the pattern; the loop
  prints exactly the matching lines, however the reads cut the input.
\<close>

section \<open>The matcher\<close>

function (sequential) matchhere :: "string \<Rightarrow> string \<Rightarrow> bool"
  and matchstar :: "char \<Rightarrow> string \<Rightarrow> string \<Rightarrow> bool" where
  "matchhere [] text = True"
| "matchhere (c # re) text =
     (if re \<noteq> [] \<and> hd re = CHR ''*'' then matchstar c (tl re) text
      else if c = CHR ''$'' \<and> re = [] then text = []
      else if text \<noteq> [] \<and> (c = CHR ''.'' \<or> c = hd text) then matchhere re (tl text)
      else False)"
| "matchstar c re text =
     (if matchhere re text then True
      else if text \<noteq> [] \<and> (hd text = c \<or> c = CHR ''.'') then matchstar c re (tl text)
      else False)"
  by pat_completeness auto
termination
  by (relation "measures [\<lambda>x. case x of Inl (re, text) \<Rightarrow> length re | Inr (c, re, text) \<Rightarrow> length re,
      \<lambda>x. case x of Inl (re, text) \<Rightarrow> length text | Inr (c, re, text) \<Rightarrow> length text,
      \<lambda>x. case x of Inl _ \<Rightarrow> 0 | Inr _ \<Rightarrow> 1]") (auto simp: neq_Nil_conv)

declare matchhere.simps [simp del] matchstar.simps [simp del]

text \<open>The loop of \<open>match\<close>, which also looks at the empty rest of the text.\<close>

fun match_from :: "string \<Rightarrow> string \<Rightarrow> bool" where
  "match_from re [] = matchhere re []"
| "match_from re (t # text) = (if matchhere re (t # text) then True else match_from re text)"

definition match :: "string \<Rightarrow> string \<Rightarrow> bool" where
  "match re text = (if re \<noteq> [] \<and> hd re = CHR ''^'' then matchhere (tl re) text else match_from re text)"

section \<open>The language of a pattern\<close>

text \<open>A pattern is a list of characters, each starred or not, and whether it must reach the end of the text.\<close>

fun items :: "string \<Rightarrow> (char \<times> bool) list \<times> bool" where
  "items [] = ([], False)"
| "items [c] = (if c = CHR ''$'' then ([], True) else ([(c, False)], False))"
| "items (c # d # re) =
     (if d = CHR ''*'' then (case items re of (ps, e) \<Rightarrow> ((c, True) # ps, e))
      else (case items (d # re) of (ps, e) \<Rightarrow> ((c, False) # ps, e)))"

definition fits :: "char \<Rightarrow> char \<Rightarrow> bool" where
  "fits c t \<longleftrightarrow> c = CHR ''.'' \<or> c = t"

fun lang :: "(char \<times> bool) list \<Rightarrow> string set" where
  "lang [] = {[]}"
| "lang ((c, False) # ps) = {t # w |t w. fits c t \<and> w \<in> lang ps}"
| "lang ((c, True) # ps) = {u @ w |u w. (\<forall>t\<in>set u. fits c t) \<and> w \<in> lang ps}"

definition starts :: "(char \<times> bool) list \<times> bool \<Rightarrow> string \<Rightarrow> bool" where
  "starts pe text \<longleftrightarrow> (\<exists>u v. text = u @ v \<and> u \<in> lang (fst pe) \<and> (snd pe \<longrightarrow> v = []))"

lemma starts_Nil: "starts ([], e) text \<longleftrightarrow> (e \<longrightarrow> text = [])"
  by (auto simp: starts_def)

lemma starts_char: "starts ((c, False) # ps, e) text \<longleftrightarrow> (\<exists>t r. text = t # r \<and> fits c t \<and> starts (ps, e) r)"
proof
  assume "starts ((c, False) # ps, e) text"
  then obtain u v where u: "text = u @ v" "u \<in> lang ((c, False) # ps)" "e \<longrightarrow> v = []" unfolding starts_def fst_conv snd_conv by blast
  then obtain t w where "text = t # w @ v" "fits c t" "w \<in> lang ps" by auto
  moreover from this u(3) have "starts (ps, e) (w @ v)" unfolding starts_def by (intro exI [of _ w] exI [of _ v]) simp
  ultimately show "\<exists>t r. text = t # r \<and> fits c t \<and> starts (ps, e) r" by blast
next
  assume "\<exists>t r. text = t # r \<and> fits c t \<and> starts (ps, e) r"
  then obtain t u v where "text = (t # u) @ v" "fits c t" "u \<in> lang ps" "e \<longrightarrow> v = []" unfolding starts_def by auto
  then show "starts ((c, False) # ps, e) text" unfolding starts_def by (intro exI [of _ "t # u"] exI [of _ v]) auto
qed

lemma startsI: "text = u @ v \<Longrightarrow> u \<in> lang ps \<Longrightarrow> (e \<longrightarrow> v = []) \<Longrightarrow> starts (ps, e) text"
  by (auto simp: starts_def)

lemma lang_starI: "\<forall>t\<in>set u. fits c t \<Longrightarrow> w \<in> lang ps \<Longrightarrow> u @ w \<in> lang ((c, True) # ps)"
  by auto

lemma starts_star:
  "starts ((c, True) # ps, e) text \<longleftrightarrow> starts (ps, e) text \<or> (\<exists>t r. text = t # r \<and> fits c t \<and> starts ((c, True) # ps, e) r)"
proof
  assume "starts ((c, True) # ps, e) text"
  then obtain x v where x: "text = x @ v" "x \<in> lang ((c, True) # ps)" "e \<longrightarrow> v = []" unfolding starts_def fst_conv snd_conv by blast
  then obtain u w where a: "text = (u @ w) @ v" "\<forall>t\<in>set u. fits c t" "w \<in> lang ps" "e \<longrightarrow> v = []" by auto
  show "starts (ps, e) text \<or> (\<exists>t r. text = t # r \<and> fits c t \<and> starts ((c, True) # ps, e) r)"
  proof (cases u)
    case Nil
    then have "starts (ps, e) text" using a unfolding starts_def by (intro exI [of _ w] exI [of _ v]) simp
    then show ?thesis ..
  next
    case (Cons t u')
    then have "starts ((c, True) # ps, e) (u' @ w @ v)" using a lang_starI [of u' c w ps] by (intro startsI [of _ "u' @ w" v]) auto
    then show ?thesis using Cons a by auto
  qed
next
  assume "starts (ps, e) text \<or> (\<exists>t r. text = t # r \<and> fits c t \<and> starts ((c, True) # ps, e) r)"
  then show "starts ((c, True) # ps, e) text"
  proof
    assume "starts (ps, e) text"
    then obtain w v where "text = w @ v" "w \<in> lang ps" "e \<longrightarrow> v = []" unfolding starts_def fst_conv snd_conv by blast
    then show ?thesis using lang_starI [of "[]" c w ps] by (intro startsI [of _ w v]) simp_all
  next
    assume "\<exists>t r. text = t # r \<and> fits c t \<and> starts ((c, True) # ps, e) r"
    then obtain t x v where "text = t # x @ v" "fits c t" "x \<in> lang ((c, True) # ps)" and e: "e \<longrightarrow> v = []"
      unfolding starts_def fst_conv snd_conv by blast
    then obtain u w where "text = t # (u @ w) @ v" "fits c t" "\<forall>t\<in>set u. fits c t" "w \<in> lang ps" by auto
    then show ?thesis using e lang_starI [of "t # u" c w ps] by (intro startsI [of _ "(t # u) @ w" v]) auto
  qed
qed

lemma matchhere_starts: "matchhere re text \<longleftrightarrow> starts (items re) text"
  and matchstar_starts: "matchstar c re text \<longleftrightarrow> starts ((c, True) # fst (items re), snd (items re)) text"
proof (induction re "text" and c re "text" rule: matchhere_matchstar.induct)
  case (2 c re s)
  then show ?case
    by (cases re) (auto simp: matchhere.simps starts_Nil starts_char fits_def neq_Nil_conv split: prod.splits)
next
  case (3 c re s)
  show ?case
    by (subst matchstar.simps, subst starts_star) (use 3 in \<open>auto simp: fits_def neq_Nil_conv\<close>)
qed (simp add: matchhere.simps starts_Nil)

lemma match_from_iff: "match_from re text \<longleftrightarrow> (\<exists>p r. text = p @ r \<and> matchhere re r)"
proof (induction "text")
  case (Cons t s)
  then show ?case by (auto simp: Cons_eq_append_conv)
qed simp

text \<open>
  (C34) The backtracking matcher decides the language of the pattern: a pattern that begins with \<open>^\<close> matches a text exactly if
  the text has a beginning in the language of the rest of the pattern, any other pattern exactly if some part
  of the text is in its language, and in both cases a final \<open>$\<close> ties the match to the end of the text.  In
  particular the matcher terminates for every pattern and every text.
\<close>

theorem match_decides_language:
  "match re text \<longleftrightarrow>
     (\<exists>p u v. text = p @ u @ v \<and> (re \<noteq> [] \<and> hd re = CHR ''^'' \<longrightarrow> p = []) \<and>
        u \<in> lang (fst (items (if re \<noteq> [] \<and> hd re = CHR ''^'' then tl re else re))) \<and>
        (snd (items (if re \<noteq> [] \<and> hd re = CHR ''^'' then tl re else re)) \<longrightarrow> v = []))"
proof (cases "re \<noteq> [] \<and> hd re = CHR ''^''")
  case True
  then show ?thesis unfolding match_def matchhere_starts starts_def by auto
next
  case False
  have "match re text \<longleftrightarrow> (\<exists>p r. text = p @ r \<and> starts (items re) r)"
    using False by (auto simp: match_def match_from_iff matchhere_starts)
  then show ?thesis using False unfolding starts_def by auto
qed

theorem match_decides_language_witness:
  "match ''a*b$'' ''xaab'' \<and> (\<exists>p u v. ''xaab'' = p @ u @ v \<and> u \<in> lang (fst (items ''a*b$'')) \<and> v = [])"
proof -
  have "match ''a*b$'' ''xaab''" by (simp add: match_def matchhere.simps matchstar.simps)
  then show ?thesis using match_decides_language [of "''a*b$''" "''xaab''"] by auto
qed

section \<open>Lines\<close>

definition NL :: char where
  "NL = CHR 0x0A"

text \<open>\<open>strchr\<close> on the bytes of a buffer that a 0 follows: the index of the first \<open>c\<close>.\<close>

fun strchr :: "string \<Rightarrow> char \<Rightarrow> nat option" where
  "strchr [] c = None"
| "strchr (x # xs) c = (if x = CHR 0x00 then None else if x = c then Some 0 else map_option Suc (strchr xs c))"

lemma strchr_less: "strchr s c = Some q \<Longrightarrow> q < length s"
  by (induction s arbitrary: q) (auto split: if_splits)

text \<open>The inner loop of \<open>grep\<close>: what it writes, and the bytes behind the last line end.\<close>

function grep_lines :: "string \<Rightarrow> string \<Rightarrow> string \<times> string" where
  "grep_lines re p =
     (case strchr p NL of
        None \<Rightarrow> ([], p)
      | Some q \<Rightarrow>
          (case grep_lines re (drop (Suc q) p) of
             (out, rest) \<Rightarrow> ((if match re (take q p) then take (Suc q) p else []) @ out, rest)))"
  by auto
termination
  by (relation "measure (\<lambda>(re, p). length p)") (auto dest: strchr_less)

text \<open>
  The outer loop with \<open>buf\<close> holding the bytes \<open>b\<close>.  \<open>rd k\<close> bounds how many bytes the \<open>k\<close>-th \<open>read\<close> delivers of the input that is
  left; nothing (end of input, an error, or no room in the buffer) ends the loop.
\<close>

function grep :: "string \<Rightarrow> (nat \<Rightarrow> nat) \<Rightarrow> nat \<Rightarrow> string \<Rightarrow> string \<Rightarrow> string" where
  "grep re rd k inp b =
     (let chunk = take (min (1024 - length b - 1) (rd k)) inp in
      if chunk = [] then []
      else
        case grep_lines re (b @ chunk) of
          (out, rest) \<Rightarrow> out @ grep re rd (Suc k) (drop (length chunk) inp) rest)"
  by auto
termination
  by (relation "measure (\<lambda>(re, rd, k, inp, b). length inp)") auto

declare grep_lines.simps [simp del] grep.simps [simp del]

text \<open>
  \<open>main\<close> with its arguments: what it writes on the standard output and on the error output, and the exit status.  \<open>op f\<close> is what
  opening the file \<open>f\<close> for reading gives, its contents or a failure; \<open>rd i\<close> are the reads of the \<open>i\<close>-th argument.
\<close>

fun grep_files :: "string \<Rightarrow> (nat \<Rightarrow> nat \<Rightarrow> nat) \<Rightarrow> (string \<Rightarrow> string option) \<Rightarrow> nat \<Rightarrow> string list \<Rightarrow> string \<times> nat" where
  "grep_files re rd op i [] = ([], 0)"
| "grep_files re rd op i (f # fs) =
     (case op f of
        None \<Rightarrow> (''grep: cannot open '' @ f @ [NL], 1)
      | Some inp \<Rightarrow>
          (case grep_files re rd op (Suc i) fs of (out, st) \<Rightarrow> (grep re (rd i) 0 inp [] @ out, st)))"

definition grep_main :: "string list \<Rightarrow> (nat \<Rightarrow> nat \<Rightarrow> nat) \<Rightarrow> (string \<Rightarrow> string option) \<Rightarrow> string \<Rightarrow> string \<times> string \<times> nat" where
  "grep_main argv rd op stdin =
     (if length argv \<le> 1 then ([], ''usage: grep pattern [file ...]'' @ [NL], 1)
      else if length argv \<le> 2 then (grep (argv ! 1) (rd 0) 0 stdin [], [], 0)
      else case grep_files (argv ! 1) rd op 2 (drop 2 argv) of (out, st) \<Rightarrow> (out, [], st))"

text \<open>The lines of a text, each without its line end; what follows the last line end is not a line.\<close>

function lines_of :: "string \<Rightarrow> string list" where
  "lines_of s = (if NL \<in> set s then takeWhile (\<lambda>c. c \<noteq> NL) s # lines_of (tl (dropWhile (\<lambda>c. c \<noteq> NL) s)) else [])"
  by auto
termination
proof (relation "measure length")
  fix s assume "NL \<in> set s"
  then have "dropWhile (\<lambda>c. c \<noteq> NL) s \<noteq> []" by (auto simp: dropWhile_eq_Nil_conv)
  then have "length (tl (dropWhile (\<lambda>c. c \<noteq> NL) s)) < length (dropWhile (\<lambda>c. c \<noteq> NL) s)" by simp
  then show "(tl (dropWhile (\<lambda>c. c \<noteq> NL) s), s) \<in> measure length" using length_dropWhile_le [of "\<lambda>c. c \<noteq> NL" s] by simp
qed simp

declare lines_of.simps [simp del]

definition grep_spec :: "string \<Rightarrow> string \<Rightarrow> string" where
  "grep_spec re inp = concat (map (\<lambda>l. l @ [NL]) (filter (match re) (lines_of inp)))"

lemma lines_of_line: "NL \<notin> set l \<Longrightarrow> lines_of (l @ NL # s) = l # lines_of s"
  by (subst lines_of.simps) (simp add: takeWhile_append dropWhile_append)

lemma lines_of_none: "NL \<notin> set s \<Longrightarrow> lines_of s = []"
  by (subst lines_of.simps) simp

lemma grep_spec_line: "NL \<notin> set l \<Longrightarrow> grep_spec re (l @ NL # s) = (if match re l then l @ [NL] else []) @ grep_spec re s"
  by (simp add: grep_spec_def lines_of_line)

lemma strchr_NL: "CHR 0x00 \<notin> set l \<Longrightarrow> NL \<notin> set l \<Longrightarrow> strchr (l @ NL # s) NL = Some (length l)"
  by (induction l) (auto simp: NL_def)

lemma strchr_none: "NL \<notin> set s \<Longrightarrow> strchr s NL = None"
  by (induction s) auto

lemma grep_lines_line:
  "CHR 0x00 \<notin> set l \<Longrightarrow> NL \<notin> set l \<Longrightarrow>
   grep_lines re (l @ NL # s) = ((if match re l then l @ [NL] else []) @ fst (grep_lines re s), snd (grep_lines re s))"
  by (subst grep_lines.simps) (simp add: strchr_NL split: prod.split)

lemma grep_lines_none: "NL \<notin> set s \<Longrightarrow> grep_lines re s = ([], s)"
  by (subst grep_lines.simps) (simp add: strchr_none)

text \<open>One buffer: the whole lines are dealt with, the unfinished one stays.\<close>

lemma grep_lines_spec:
  "CHR 0x00 \<notin> set b \<Longrightarrow> grep_lines re b = (out, rest) \<Longrightarrow>
   (\<exists>pre. b = pre @ rest) \<and> NL \<notin> set rest \<and> (\<forall>s. grep_spec re (b @ s) = out @ grep_spec re (rest @ s))"
proof (induction b arbitrary: out rest rule: length_induct)
  case (1 b)
  show ?case
  proof (cases "NL \<in> set b")
    case False
    then show ?thesis using 1 by (simp add: grep_lines_none)
  next
    case True
    then obtain l s where b: "b = l @ NL # s" "NL \<notin> set l" by (meson split_list_first)
    obtain o' r' where g: "grep_lines re s = (o', r')" by fastforce
    have "(\<exists>pre. s = pre @ r') \<and> NL \<notin> set r' \<and> (\<forall>t. grep_spec re (s @ t) = o' @ grep_spec re (r' @ t))"
      using 1(1) [rule_format, of s o' r'] 1(2) b g by simp
    moreover have "out = (if match re l then l @ [NL] else []) @ o'" "rest = r'" using 1(2,3) b g by (auto simp: grep_lines_line)
    moreover have "\<exists>pre. b = pre @ r'" if "\<exists>pre. s = pre @ r'" using that b by (metis append_Cons append_assoc)
    ultimately show ?thesis using b grep_spec_line [OF b(2)] by simp
  qed
qed

definition short_lines :: "string \<Rightarrow> bool" where
  "short_lines inp \<longleftrightarrow> (\<forall>u v w. inp = u @ v @ w \<and> NL \<notin> set v \<longrightarrow> length v \<le> 1022)"

lemma grep_loop_spec:
  "(\<And>k. 0 < rd k) \<Longrightarrow> CHR 0x00 \<notin> set (b @ inp) \<Longrightarrow> NL \<notin> set b \<Longrightarrow> short_lines (b @ inp) \<Longrightarrow> grep re rd k inp b = grep_spec re (b @ inp)"
proof (induction re rd k inp b rule: grep.induct)
  case (1 re rd k inp b)
  define chunk where "chunk = take (min (1024 - length b - 1) (rd k)) inp"
  have b: "length b \<le> 1022" using 1(5) 1(4) unfolding short_lines_def by (metis append_Nil)
  show ?case
  proof (cases "inp = []")
    case True
    then show ?thesis using 1(4) by (subst grep.simps) (simp add: grep_spec_def lines_of_none)
  next
    case False
    then have c: "chunk \<noteq> []" using b 1(2) [of k] by (auto simp: chunk_def)
    have inp: "inp = chunk @ drop (length chunk) inp" by (simp add: chunk_def min_def)
    obtain out rest where g: "grep_lines re (b @ chunk) = (out, rest)" by fastforce
    have nn: "CHR 0x00 \<notin> set (b @ chunk)" using 1(3) inp by (metis Un_iff set_append)
    obtain pre where r: "b @ chunk = pre @ rest" "NL \<notin> set rest" "\<And>s. grep_spec re ((b @ chunk) @ s) = out @ grep_spec re (rest @ s)"
      using grep_lines_spec [OF nn g] by blast
    let ?inp = "drop (length chunk) inp"
    have all: "b @ inp = pre @ rest @ ?inp" using r(1) inp by (metis append_assoc)
    have "short_lines (rest @ ?inp)" unfolding short_lines_def
      using 1(5) [unfolded short_lines_def] all by (metis append_assoc)
    moreover have "CHR 0x00 \<notin> set (rest @ ?inp)" using 1(3) all by auto
    ultimately have "grep re rd (Suc k) ?inp rest = grep_spec re (rest @ ?inp)"
      using 1(1) [OF chunk_def c g [symmetric]] 1(2) r(2) by simp
    moreover have "grep re rd k inp b = out @ grep re rd (Suc k) ?inp rest"
      unfolding grep.simps [of re rd k inp b] chunk_def [symmetric] Let_def using c g by simp
    ultimately show ?thesis using r(3) [of ?inp] inp by simp
  qed
qed

lemma grep_files_spec:
  "(\<And>i k. 0 < rd i k) \<Longrightarrow> list_all2 (\<lambda>f inp. op f = Some inp \<and> CHR 0x00 \<notin> set inp \<and> short_lines inp) fs inps \<Longrightarrow>
   grep_files re rd op i fs = (concat (map (grep_spec re) inps), 0)"
proof (induction fs arbitrary: inps i)
  case (Cons f fs)
  then obtain inp inps' where i: "inps = inp # inps'" "op f = Some inp" "CHR 0x00 \<notin> set inp" "short_lines inp"
    and r: "list_all2 (\<lambda>f inp. op f = Some inp \<and> CHR 0x00 \<notin> set inp \<and> short_lines inp) fs inps'"
    by (auto simp: list_all2_Cons1)
  show ?case using i Cons.IH [OF Cons.prems(1) r] grep_loop_spec [of "rd i" "[]" inp re 0] Cons.prems(1) by simp
qed simp

text \<open>
  (C35) \<open>grep\<close> prints exactly the matching lines, in order, file after file, however the reads cut the files into pieces: for
  files that can be opened, have no zero bytes and no line longer than 1022 bytes, what it writes is the concatenation
  of the lines that match the pattern, each with its line end, and the exit status is 0.
\<close>

theorem grep_prints_matching_lines:
  assumes "\<forall>i k. 0 < rd i k" "fs \<noteq> []"
    and "list_all2 (\<lambda>f inp. op f = Some inp \<and> CHR 0x00 \<notin> set inp \<and> short_lines inp) fs inps"
  shows "grep_main (prog # re # fs) rd op stdin =
    (concat (map (\<lambda>inp. concat (map (\<lambda>l. l @ [NL]) (filter (match re) (lines_of inp)))) inps), [], 0)"
  using grep_files_spec [of rd op fs inps re 2] assms by (simp add: grep_main_def grep_spec_def [abs_def])

theorem grep_prints_matching_lines_witness:
  "grep_main [''grep'', ''b'', ''f''] (\<lambda>_ _. 2) (\<lambda>_. Some (''ab'' @ [NL] @ ''c'' @ [NL])) [] = (''ab'' @ [NL], [], 0)"
proof -
  have "short_lines (''ab'' @ [NL] @ ''c'' @ [NL])" by (auto simp: short_lines_def dest!: arg_cong [where f = length])
  moreover have "lines_of (''ab'' @ [NL] @ ''c'' @ [NL]) = [''ab'', ''c'']"
    using lines_of_line [of "''ab''"] lines_of_line [of "''c''" "[]"] by (simp add: NL_def lines_of_none)
  ultimately show ?thesis
    using grep_prints_matching_lines [of "\<lambda>_ _. 2" "[''f'']" "\<lambda>_. Some (''ab'' @ [NL] @ ''c'' @ [NL])" "[''ab'' @ [NL] @ ''c'' @ [NL]]" "''grep''" "''b''" "[]"]
    by (simp add: NL_def match_def matchhere.simps)
qed

text \<open>A line that fills the buffer ends the program: the \<open>read\<close> for 0 bytes looks like the end of the input.\<close>

lemma grep_stops_at_long_line: "grep re (\<lambda>_. 1023) 0 (replicate 1023 CHR ''a'' @ s) [] = []"
proof -
  let ?b = "replicate 1023 CHR ''a''"
  have "grep_lines re ?b = ([], ?b)" by (rule grep_lines_none) (simp add: NL_def)
  moreover have "take (min (1024 - length [] - 1) 1023) (?b @ s) = ?b" by simp
  ultimately have "grep re (\<lambda>_. 1023) 0 (?b @ s) [] = grep re (\<lambda>_. 1023) 1 s ?b"
    unfolding grep.simps [of re _ 0] Let_def by simp
  also have "\<dots> = []" by (subst grep.simps) simp
  finally show ?thesis .
qed

end
