(* ===== verification/Shell.thy ===== *)
theory Shell
  imports Grep
begin

text \<open>
  The shell (\<open>user/sh.c\<close>): lexer, recursive-descent parser, and what a parsed command makes the process do.  Pointers into the
  line are positions; the end of the line \<open>es\<close> is always its length, where the final 0 is.  The command tree is parameterised by its
  words: after parsing they are pairs of positions, and \<open>nulterminate\<close> makes them strings.  Nodes come from \<open>malloc\<close>, which is taken to
  succeed.
\<close>

section \<open>Commands\<close>

datatype (words: 'w) cmd =
    EXEC "'w list"
  | REDIR "'w cmd" 'w int int
  | PIPE "'w cmd" "'w cmd"
  | LIST "'w cmd" "'w cmd"
  | BACK "'w cmd"

type_synonym extent = "nat \<times> nat"

definition MAXARGS :: nat where "MAXARGS = 10"

text \<open>What a parse can come to: a result, \<open>panic\<close> with what it prints on descriptor 2 before \<open>exit (1)\<close>, or no stack left.\<close>

datatype 'a parse = Ok 'a | Panic string | NoStack

definition panic :: "string \<Rightarrow> 'a parse" where
  "panic s = Panic (s @ [NL])"

fun and_then :: "'a parse \<Rightarrow> ('a \<Rightarrow> 'b parse) \<Rightarrow> 'b parse" where
  "and_then (Ok x) f = f x"
| "and_then (Panic m) f = Panic m"
| "and_then NoStack f = NoStack"

section \<open>Tokens\<close>

definition whitespace :: string where
  "whitespace = [CHR '' '', CHR 0x09, CHR 0x0D, CHR 0x0A, CHR 0x0B]"

definition symbols :: string where
  "symbols = ''<|>&;()''"

definition ch_at :: "string \<Rightarrow> nat \<Rightarrow> char" where
  "ch_at b i = (if i < length b then b ! i else CHR 0x00)"

abbreviation isin :: "char \<Rightarrow> string \<Rightarrow> bool" where
  "isin c ts \<equiv> strchr ts c \<noteq> None"

function skip_space :: "string \<Rightarrow> nat \<Rightarrow> nat" where
  "skip_space b s = (if s < length b \<and> isin (ch_at b s) whitespace then skip_space b (s + 1) else s)"
  by auto
termination
  by (relation "measure (\<lambda>(b, s). length b - s)") auto

function skip_word :: "string \<Rightarrow> nat \<Rightarrow> nat" where
  "skip_word b s = (if s < length b \<and> \<not> isin (ch_at b s) whitespace \<and> \<not> isin (ch_at b s) symbols then skip_word b (s + 1) else s)"
  by auto
termination
  by (relation "measure (\<lambda>(b, s). length b - s)") auto

declare skip_space.simps [simp del] skip_word.simps [simp del]

text \<open>The kind of token, where it begins and ends, and where the next one begins.\<close>

definition gettoken :: "string \<Rightarrow> nat \<Rightarrow> char \<times> nat \<times> nat \<times> nat" where
  "gettoken b ps =
     (let q = skip_space b ps; c = ch_at b q;
          (ret, eq) = (if c = CHR 0x00 then (c, q)
            else if c \<in> set ''|();&<'' then (c, q + 1)
            else if c = CHR ''>'' then (if ch_at b (q + 1) = CHR ''>'' then (CHR ''+'', q + 2) else (c, q + 1))
            else (CHR ''a'', skip_word b q)) in
      (ret, q, eq, skip_space b eq))"

definition peek :: "string \<Rightarrow> nat \<Rightarrow> string \<Rightarrow> bool \<times> nat" where
  "peek b ps toks = (let s = skip_space b ps in (ch_at b s \<noteq> CHR 0x00 \<and> isin (ch_at b s) toks, s))"

lemma skip_space_le: "s \<le> skip_space b s"
  by (induction b s rule: skip_space.induct) (subst skip_space.simps, auto)

lemma skip_word_le: "s \<le> skip_word b s"
  by (induction b s rule: skip_word.induct) (subst skip_word.simps, auto)

lemma gettoken_le: "gettoken b s = (tok, q, eq, s') \<Longrightarrow> s \<le> s'"
  using skip_space_le [of s b] skip_space_le [of eq b] skip_word_le [of "skip_space b s" b]
  by (auto simp: gettoken_def Let_def split: if_splits)

lemma ch_at_end: "ch_at b s \<noteq> CHR 0x00 \<Longrightarrow> s < length b"
  by (auto simp: ch_at_def split: if_splits)

lemma skip_space_again: "skip_space b (skip_space b s) = skip_space b s"
proof (induction b s rule: skip_space.induct)
  case (1 b s)
  then show ?case by (subst (2 3) skip_space.simps) (auto simp: skip_space.simps [of b s])
qed

text \<open>A token that \<open>peek\<close> has seen takes at least one character.\<close>

lemma peek_gettoken:
  assumes "peek b ps toks = (True, s)" "set toks \<subseteq> set symbols" "gettoken b s = (tok, q, eq, s')"
  shows "ps \<le> s \<and> s < s' \<and> s < length b"
proof -
  have s: "s = skip_space b ps" and c: "ch_at b s \<noteq> CHR 0x00" "isin (ch_at b s) toks" using assms(1) by (auto simp: peek_def Let_def)
  have "ch_at b s \<in> set toks" using c(2) by (induction toks) (auto split: if_splits)
  then have m: "ch_at b s \<in> set ''<|>&;()''" using assms(2) unfolding symbols_def by blast
  have sp: "skip_space b s = s" using skip_space_again s by simp
  have "q = s" "s + 1 \<le> eq" using assms(3) c(1) m sp by (auto simp: gettoken_def Let_def split: if_splits)
  moreover have "eq \<le> s'" using assms(3) skip_space_le [of eq b] by (auto simp: gettoken_def Let_def split: if_splits)
  ultimately show ?thesis using ch_at_end [OF c(1)] skip_space_le [of ps b] s by simp
qed

section \<open>The parser\<close>

definition O_RDONLY :: int where "O_RDONLY = 0"
definition O_WRONLY :: int where "O_WRONLY = 1"
definition O_CREATE :: int where "O_CREATE = 0x200"
definition O_TRUNC :: int where "O_TRUNC = 0x400"

function parseredirs :: "extent cmd \<Rightarrow> string \<Rightarrow> nat \<Rightarrow> (extent cmd \<times> nat) parse" where
  "parseredirs c b ps =
     (case peek b ps ''<>'' of (True, s) \<Rightarrow>
        (case gettoken b s of (tok, _, _, s) \<Rightarrow>
           (case gettoken b s of (t, q, eq, s) \<Rightarrow>
              if t \<noteq> CHR ''a'' then panic ''missing file for redirection''
              else parseredirs
                (if tok = CHR ''<'' then REDIR c (q, eq) O_RDONLY 0
                 else if tok = CHR ''>'' then REDIR c (q, eq) (O_WRONLY + O_CREATE + O_TRUNC) 1
                 else if tok = CHR ''+'' then REDIR c (q, eq) (O_WRONLY + O_CREATE) 1
                 else c) b s))
      | (False, s) \<Rightarrow> Ok (c, s))"
  by pat_completeness auto
termination
proof (relation "measure (\<lambda>(c, b, ps). length b - ps)", goal_cases)
  case (2 c b ps r s tok y1 q0 y2 e0 s1 t y3 q y4 e s2)
  then have "ps \<le> s \<and> s < s1 \<and> s < length b" by (intro peek_gettoken [of b ps "''<>''" s tok q0 e0 s1]) (auto simp: symbols_def)
  moreover have "s1 \<le> s2" using 2 by (intro gettoken_le [of b s1 t q e s2]) auto
  ultimately show ?case by auto
qed auto

declare parseredirs.simps [simp del]

text \<open>
  \<open>parseexec\<close> keeps a pointer to the \<open>EXEC\<close> node, which \<open>parseredirs\<close> may have wrapped, and adds the arguments there.
\<close>

fun add_arg :: "'w \<Rightarrow> 'w cmd \<Rightarrow> 'w cmd" where
  "add_arg w (EXEC ws) = EXEC (ws @ [w])"
| "add_arg w (REDIR c f m fd) = REDIR (add_arg w c) f m fd"
| "add_arg w c = c"

function parseargs :: "nat \<Rightarrow> extent cmd \<Rightarrow> string \<Rightarrow> nat \<Rightarrow> (extent cmd \<times> nat) parse" where
  "parseargs argc ret b ps =
     (case peek b ps ''|)&;'' of (True, s) \<Rightarrow> Ok (ret, s)
      | (False, s) \<Rightarrow>
        (case gettoken b s of (tok, q, eq, s) \<Rightarrow>
           if tok = CHR 0x00 then Ok (ret, s)
           else if tok \<noteq> CHR ''a'' then panic ''syntax''
           else if argc + 1 \<ge> MAXARGS then panic ''too many args''
           else and_then (parseredirs (add_arg (q, eq) ret) b s) (\<lambda>(ret, s). parseargs (argc + 1) ret b s)))"
  by pat_completeness auto
termination
  by (relation "measure (\<lambda>(argc, ret, b, ps). MAXARGS - argc)") auto

declare parseargs.simps [simp del]

text \<open>The loop of \<open>parseline\<close> over the ampersands.\<close>

function parsebacks :: "extent cmd \<Rightarrow> string \<Rightarrow> nat \<Rightarrow> extent cmd \<times> nat" where
  "parsebacks c b ps =
     (case peek b ps ''&'' of (True, s) \<Rightarrow> (case gettoken b s of (_, _, _, s) \<Rightarrow> parsebacks (BACK c) b s)
      | (False, s) \<Rightarrow> (c, s))"
  by pat_completeness auto
termination
proof (relation "measure (\<lambda>(c, b, ps). length b - ps)", goal_cases)
  case (2 c b ps r s tok y1 q0 y2 e0 s1)
  then have "ps \<le> s \<and> s < s1 \<and> s < length b" by (intro peek_gettoken [of b ps "''&''" s tok q0 e0 s1]) (auto simp: symbols_def)
  then show ?case by auto
qed auto

declare parsebacks.simps [simp del]

text \<open>The recursive functions; the number is the depth of the stack that is left.\<close>

fun parseline :: "nat \<Rightarrow> string \<Rightarrow> nat \<Rightarrow> (extent cmd \<times> nat) parse"
  and parsepipe :: "nat \<Rightarrow> string \<Rightarrow> nat \<Rightarrow> (extent cmd \<times> nat) parse"
  and parseexec :: "nat \<Rightarrow> string \<Rightarrow> nat \<Rightarrow> (extent cmd \<times> nat) parse"
  and parseblock :: "nat \<Rightarrow> string \<Rightarrow> nat \<Rightarrow> (extent cmd \<times> nat) parse" where
  "parseline 0 b ps = NoStack"
| "parseline (Suc n) b ps =
     and_then (parsepipe n b ps) (\<lambda>(c, s). case parsebacks c b s of (c, s) \<Rightarrow>
       (case peek b s '';'' of (True, s) \<Rightarrow>
          (case gettoken b s of (_, _, _, s) \<Rightarrow> and_then (parseline n b s) (\<lambda>(c', s). Ok (LIST c c', s)))
        | (False, s) \<Rightarrow> Ok (c, s)))"
| "parsepipe 0 b ps = NoStack"
| "parsepipe (Suc n) b ps =
     and_then (parseexec n b ps) (\<lambda>(c, s).
       (case peek b s ''|'' of (True, s) \<Rightarrow>
          (case gettoken b s of (_, _, _, s) \<Rightarrow> and_then (parsepipe n b s) (\<lambda>(c', s). Ok (PIPE c c', s)))
        | (False, s) \<Rightarrow> Ok (c, s)))"
| "parseexec 0 b ps = NoStack"
| "parseexec (Suc n) b ps =
     (case peek b ps ''('' of (True, s) \<Rightarrow> parseblock n b s
      | (False, s) \<Rightarrow> and_then (parseredirs (EXEC []) b s) (\<lambda>(ret, s). parseargs 0 ret b s))"
| "parseblock 0 b ps = NoStack"
| "parseblock (Suc n) b ps =
     (case peek b ps ''('' of (False, s) \<Rightarrow> panic ''parseblock''
      | (True, s) \<Rightarrow>
        (case gettoken b s of (_, _, _, s) \<Rightarrow>
           and_then (parseline n b s) (\<lambda>(c, s).
             (case peek b s '')'' of (False, s) \<Rightarrow> panic ''syntax - missing )''
              | (True, s) \<Rightarrow> (case gettoken b s of (_, _, _, s) \<Rightarrow> parseredirs c b s)))))"

text \<open>Storing a 0 at the end of the line, where one is, changes nothing.\<close>

fun nulterminate :: "extent cmd \<Rightarrow> string \<Rightarrow> string" where
  "nulterminate (EXEC ws) b = fold (\<lambda>(q, eq) b. b[eq := CHR 0x00]) ws b"
| "nulterminate (REDIR c (q, eq) m fd) b = (nulterminate c b)[eq := CHR 0x00]"
| "nulterminate (PIPE l r) b = nulterminate r (nulterminate l b)"
| "nulterminate (LIST l r) b = nulterminate r (nulterminate l b)"
| "nulterminate (BACK c) b = nulterminate c b"

text \<open>The tree and the line with its words cut.\<close>

definition parsecmd :: "string \<Rightarrow> (extent cmd \<times> string) parse" where
  "parsecmd b = and_then (parseline (4 * length b + 4) b 0) (\<lambda>(c, s).
     case peek b s [] of (_, s) \<Rightarrow>
       if s \<noteq> length b then Panic (''leftovers: '' @ drop s b @ [NL] @ ''syntax'' @ [NL])
       else Ok (c, nulterminate c b))"

definition cstr_at :: "string \<Rightarrow> nat \<Rightarrow> string" where
  "cstr_at b q = takeWhile (\<lambda>c. c \<noteq> CHR 0x00) (drop q b)"

text \<open>The tree with its words as the strings they point to.\<close>

definition cmd_strings :: "string \<Rightarrow> extent cmd \<Rightarrow> string cmd" where
  "cmd_strings b c = map_cmd (\<lambda>(q, eq). cstr_at b q) c"

section \<open>Running commands\<close>

text \<open>
  What a process does: its system calls in order, each with what follows for every answer.  After \<open>fork\<close> the process goes on with the
  child's pid, and a copy of it with 0; a successful \<open>exec\<close> does not come back.  What \<open>fprintf\<close> prints byte by byte is one \<open>Write\<close>.
\<close>

datatype act =
    Exit int
  | Exec string "string list" act
  | Close int act
  | Dup int act
  | Open string int "int \<Rightarrow> act"
  | MkPipe "int \<Rightarrow> int \<Rightarrow> int \<Rightarrow> act"
  | Fork "int \<Rightarrow> act"
  | Wait act
  | Chdir string "int \<Rightarrow> act"
  | Write int string act

definition sh_panic :: "string \<Rightarrow> act" where
  "sh_panic s = Write 2 (s @ [NL]) (Exit 1)"

definition fork1 :: "(int \<Rightarrow> act) \<Rightarrow> act" where
  "fork1 k = Fork (\<lambda>pid. if pid = -1 then sh_panic ''fork'' else k pid)"

primrec runcmd :: "string cmd \<Rightarrow> act" where
  "runcmd (EXEC ws) =
     (case ws of [] \<Rightarrow> Exit 1
      | w # _ \<Rightarrow> Exec w ws (Write 2 (''exec '' @ w @ '' failed'' @ [NL]) (Exit 0)))"
| "runcmd (REDIR c f mode fd) =
     Close fd (Open f mode (\<lambda>r. if r < 0 then Write 2 (''open '' @ f @ '' failed'' @ [NL]) (Exit 1) else runcmd c))"
| "runcmd (LIST l r) = fork1 (\<lambda>pid. if pid = 0 then runcmd l else Wait (runcmd r))"
| "runcmd (PIPE l r) =
     MkPipe (\<lambda>ret p0 p1. if ret < 0 then sh_panic ''pipe''
       else fork1 (\<lambda>pid. if pid = 0 then Close 1 (Dup p1 (Close p0 (Close p1 (runcmd l))))
         else fork1 (\<lambda>pid. if pid = 0 then Close 0 (Dup p0 (Close p0 (Close p1 (runcmd r))))
           else Close p0 (Close p1 (Wait (Wait (Exit 0)))))))"
| "runcmd (BACK c) = fork1 (\<lambda>pid. if pid = 0 then runcmd c else Exit 0)"

text \<open>
  A round of the loop of \<open>main\<close> on the line that \<open>getcmd\<close> has read: \<open>next\<close> is what follows in the shell itself.  The stack of the
  parser is deep enough for every line (theory \<open>ShellSpec\<close>).
\<close>

definition sh_child :: "string \<Rightarrow> act" where
  "sh_child s = (case parsecmd s of Ok (c, b) \<Rightarrow> runcmd (cmd_strings b c) | Panic m \<Rightarrow> Write 2 m (Exit 1) | NoStack \<Rightarrow> Exit (-1))"

definition sh_line :: "string \<Rightarrow> act \<Rightarrow> act" where
  "sh_line buf next =
     (let s = dropWhile (\<lambda>c. c = CHR '' '' \<or> c = CHR 0x09) buf in
      if ch_at s 0 = NL then next
      else if ch_at s 0 = CHR ''c'' \<and> ch_at s 1 = CHR ''d'' \<and> ch_at s 2 = CHR '' '' then
        (let dir = drop 3 (butlast s) in
         Chdir dir (\<lambda>r. if r < 0 then Write 2 (''cannot cd '' @ dir @ [NL]) next else next))
      else fork1 (\<lambda>pid. if pid = 0 then sh_child s else Wait next))"

end
