(* ===== verification/ShellSpec.thy ===== *)
theory ShellSpec
  imports Shell
begin

text \<open>
  The parser of the shell is total, and parsing undoes printing: the text of a command tree, with parentheses where they are needed,
  is parsed to that tree, and after \<open>nulterminate\<close> its words are C strings in the line.
\<close>

section \<open>The parser ends\<close>

lemma and_then_Ok: "and_then m f = Ok y \<longleftrightarrow> (\<exists>x. m = Ok x \<and> f x = Ok y)"
  by (cases m) auto

lemma and_then_NoStack: "and_then m f = NoStack \<longleftrightarrow> m = NoStack \<or> (\<exists>x. m = Ok x \<and> f x = NoStack)"
  by (cases m) auto

lemma panic_simps [simp]: "panic m \<noteq> Ok x" "panic m \<noteq> NoStack"
  by (simp_all add: panic_def)

lemma peek_le: "peek b ps toks = (r, s) \<Longrightarrow> ps \<le> s"
  using skip_space_le [of ps b] by (auto simp: peek_def Let_def)

text \<open>The loops, one round at a time.\<close>

definition redir :: "char \<Rightarrow> 'w cmd \<Rightarrow> 'w \<Rightarrow> 'w cmd" where
  "redir tok c f = (if tok = CHR ''<'' then REDIR c f O_RDONLY 0
     else if tok = CHR ''>'' then REDIR c f (O_WRONLY + O_CREATE + O_TRUNC) 1
     else if tok = CHR ''+'' then REDIR c f (O_WRONLY + O_CREATE) 1 else c)"

lemma parseredirs_stop: "peek b ps ''<>'' = (False, s) \<Longrightarrow> parseredirs c b ps = Ok (c, s)"
  by (subst parseredirs.simps) simp

lemma parseredirs_go:
  "peek b ps ''<>'' = (True, s) \<Longrightarrow> gettoken b s = (tok, q, eq, s1) \<Longrightarrow> gettoken b s1 = (t, q', eq', s2) \<Longrightarrow>
   parseredirs c b ps = (if t \<noteq> CHR ''a'' then panic ''missing file for redirection'' else parseredirs (redir tok c (q', eq')) b s2)"
  by (subst parseredirs.simps) (simp add: redir_def)

lemma parsebacks_stop: "peek b ps ''&'' = (False, s) \<Longrightarrow> parsebacks c b ps = (c, s)"
  by (subst parsebacks.simps) simp

lemma parsebacks_go: "peek b ps ''&'' = (True, s) \<Longrightarrow> gettoken b s = (tok, q, eq, s1) \<Longrightarrow> parsebacks c b ps = parsebacks (BACK c) b s1"
  by (subst parsebacks.simps) simp

lemma parseredirs_ends: "parseredirs c b ps \<noteq> NoStack \<and> (\<forall>c' s. parseredirs c b ps = Ok (c', s) \<longrightarrow> ps \<le> s)"
proof (induction "length b - ps" arbitrary: c ps rule: less_induct)
  case less
  obtain r s where p: "peek b ps ''<>'' = (r, s)" by fastforce
  obtain tok q eq s1 where g: "gettoken b s = (tok, q, eq, s1)" by (cases "gettoken b s")
  obtain t q' eq' s2 where g2: "gettoken b s1 = (t, q', eq', s2)" by (cases "gettoken b s1")
  have le: "ps \<le> s" "s \<le> s1" "s1 \<le> s2" using peek_le [OF p] gettoken_le [OF g] gettoken_le [OF g2] .
  show ?case
  proof (cases r)
    case True
    then have "s < s1 \<and> s < length b" using peek_gettoken [of b ps "''<>''", OF _ _ g] p by (simp add: symbols_def)
    then have "length b - s2 < length b - ps" using le by linarith
    from less [OF this] show ?thesis using True parseredirs_go [OF _ g g2, of ps] p order_trans [OF order_trans [OF le(1,2)] le(3)]
      by (auto intro: order_trans [of ps s2])
  qed (use p le in \<open>simp add: parseredirs_stop\<close>)
qed

lemma parsebacks_ends: "parsebacks c b ps = (c', s') \<Longrightarrow> ps \<le> s'"
proof (induction "length b - ps" arbitrary: c ps rule: less_induct)
  case less
  obtain r s where p: "peek b ps ''&'' = (r, s)" by fastforce
  obtain tok q eq s1 where g: "gettoken b s = (tok, q, eq, s1)" by (cases "gettoken b s")
  show ?case
  proof (cases r)
    case True
    then have "s < s1 \<and> s < length b" using peek_gettoken [of b ps "''&''", OF _ _ g] p by (simp add: symbols_def)
    then have d: "length b - s1 < length b - ps" "ps \<le> s1" using peek_le [OF p] by linarith+
    from less(1) [OF d(1), of "BACK c"] show ?thesis using True parsebacks_go [OF _ g, of ps] p less(2) d(2) by auto
  qed (use p less(2) peek_le [OF p] in \<open>simp add: parsebacks_stop\<close>)
qed

lemma parseargs_ends: "parseargs argc ret b ps \<noteq> NoStack \<and> (\<forall>c' s. parseargs argc ret b ps = Ok (c', s) \<longrightarrow> ps \<le> s)"
proof (induction "MAXARGS - argc" arbitrary: argc ret ps rule: less_induct)
  case less
  obtain r s where p: "peek b ps ''|)&;'' = (r, s)" by fastforce
  obtain tok q eq s1 where g: "gettoken b s = (tok, q, eq, s1)" by (cases "gettoken b s")
  have le: "ps \<le> s1" "ps \<le> s" using peek_le [OF p] gettoken_le [OF g] by simp_all
  show ?case
  proof (cases "\<not> r \<and> tok = CHR ''a'' \<and> argc + 1 < MAXARGS")
    case True
    then have e: "parseargs argc ret b ps = and_then (parseredirs (add_arg (q, eq) ret) b s1) (\<lambda>(ret, s). parseargs (argc + 1) ret b s)"
      using p g by (subst parseargs.simps) simp
    show ?thesis
    proof (cases "parseredirs (add_arg (q, eq) ret) b s1")
      case (Ok x)
      obtain c' s2 where x: "x = (c', s2)" by fastforce
      then have "s1 \<le> s2" using Ok parseredirs_ends by blast
      moreover have "MAXARGS - (argc + 1) < MAXARGS - argc" using True by linarith
      moreover note less [OF this, of c' s2]
      ultimately show ?thesis using True Ok x le(1) unfolding e by (auto intro: order_trans [of ps s2])
    qed (use e parseredirs_ends [of "add_arg (q, eq) ret" b s1] in auto)
  next
    case False
    then have "parseargs argc ret b ps = (if r then Ok (ret, s) else if tok = CHR 0x00 then Ok (ret, s1)
        else if tok \<noteq> CHR ''a'' then panic ''syntax'' else panic ''too many args'')"
      using p g by (subst parseargs.simps) (auto split: bool.split)
    then show ?thesis using le by auto
  qed
qed

lemma parsers_le:
  "(\<forall>c s. parseline n b ps = Ok (c, s) \<longrightarrow> ps \<le> s) \<and> (\<forall>c s. parsepipe n b ps = Ok (c, s) \<longrightarrow> ps \<le> s) \<and>
   (\<forall>c s. parseexec n b ps = Ok (c, s) \<longrightarrow> ps \<le> s) \<and> (\<forall>c s. parseblock n b ps = Ok (c, s) \<longrightarrow> ps \<le> s)"
proof (induction n arbitrary: ps)
  case (Suc n)
  have pl: "ps \<le> s" if "parseline n b ps = Ok (c, s)" for ps c s using Suc that by blast
  have pp: "ps \<le> s" if "parsepipe n b ps = Ok (c, s)" for ps c s using Suc that by blast
  have pe: "ps \<le> s" if "parseexec n b ps = Ok (c, s)" for ps c s using Suc that by blast
  have pb: "ps \<le> s" if "parseblock n b ps = Ok (c, s)" for ps c s using Suc that by blast
  have pr: "ps \<le> s" if "parseredirs c b ps = Ok (c', s)" for ps c c' s using parseredirs_ends that by blast
  have pa: "ps \<le> s" if "parseargs k c b ps = Ok (c', s)" for k ps c c' s using parseargs_ends that by blast
  have "ps \<le> s" if h: "parseline (Suc n) b ps = Ok (c, s)" for c s
  proof -
    from h obtain c1 s1 where 1: "parsepipe n b ps = Ok (c1, s1)" by (auto simp: and_then_Ok)
    obtain c2 s2 where 2: "parsebacks c1 b s1 = (c2, s2)" by fastforce
    obtain r s3 where 3: "peek b s2 '';'' = (r, s3)" by fastforce
    obtain k q e s4 where 4: "gettoken b s3 = (k, q, e, s4)" by (cases "gettoken b s3")
    have "(\<exists>c3. parseline n b s4 = Ok (c3, s)) \<or> s = s3" using h 1 2 3 4 by (cases r) (auto simp: and_then_Ok)
    then have "s4 \<le> s \<or> s = s3" using pl by blast
    then show ?thesis using pp [OF 1] parsebacks_ends [OF 2] peek_le [OF 3] gettoken_le [OF 4] by linarith
  qed
  moreover have "ps \<le> s" if h: "parsepipe (Suc n) b ps = Ok (c, s)" for c s
  proof -
    from h obtain c1 s1 where 1: "parseexec n b ps = Ok (c1, s1)" by (auto simp: and_then_Ok)
    obtain r s3 where 3: "peek b s1 ''|'' = (r, s3)" by fastforce
    obtain k q e s4 where 4: "gettoken b s3 = (k, q, e, s4)" by (cases "gettoken b s3")
    have "(\<exists>c3. parsepipe n b s4 = Ok (c3, s)) \<or> s = s3" using h 1 3 4 by (cases r) (auto simp: and_then_Ok)
    then have "s4 \<le> s \<or> s = s3" using pp by blast
    then show ?thesis using pe [OF 1] peek_le [OF 3] gettoken_le [OF 4] by linarith
  qed
  moreover have "ps \<le> s" if h: "parseexec (Suc n) b ps = Ok (c, s)" for c s
  proof -
    obtain r s1 where 1: "peek b ps ''('' = (r, s1)" by fastforce
    have "(\<exists>c2 s2. parseredirs (EXEC []) b s1 = Ok (c2, s2) \<and> parseargs 0 c2 b s2 = Ok (c, s)) \<or> parseblock n b s1 = Ok (c, s)"
      using h 1 by (cases r) (auto simp: and_then_Ok)
    then have "s1 \<le> s" using pb pr pa by (meson order_trans)
    then show ?thesis using peek_le [OF 1] by simp
  qed
  moreover have "ps \<le> s" if h: "parseblock (Suc n) b ps = Ok (c, s)" for c s
  proof -
    obtain r s1 where 1: "peek b ps ''('' = (r, s1)" by fastforce
    obtain k q e s2 where 2: "gettoken b s1 = (k, q, e, s2)" by (cases "gettoken b s1")
    obtain c3 s3 where 3: "parseline n b s2 = Ok (c3, s3)" using h 1 2 by (cases r) (auto simp: and_then_Ok)
    obtain r' s4 where 4: "peek b s3 '')'' = (r', s4)" by fastforce
    obtain k' q' e' s5 where 5: "gettoken b s4 = (k', q', e', s5)" by (cases "gettoken b s4")
    have "parseredirs c3 b s5 = Ok (c, s)" using h 1 2 3 4 5 by (cases r; cases r') (auto simp: and_then_Ok)
    then show ?thesis using peek_le [OF 1] gettoken_le [OF 2] pl [OF 3] peek_le [OF 4] gettoken_le [OF 5] pr by force
  qed
  ultimately show ?case by blast
qed simp

text \<open>A stack of four calls for every character is enough.\<close>

lemma parsers_end:
  "(4 * (length b - ps) + 4 \<le> n \<longrightarrow> parseline n b ps \<noteq> NoStack) \<and> (4 * (length b - ps) + 3 \<le> n \<longrightarrow> parsepipe n b ps \<noteq> NoStack) \<and>
   (4 * (length b - ps) + 2 \<le> n \<longrightarrow> parseexec n b ps \<noteq> NoStack) \<and> (4 * (length b - ps) + 1 \<le> n \<longrightarrow> parseblock n b ps \<noteq> NoStack)"
proof (induction n arbitrary: ps)
  case (Suc n)
  let ?m = "\<lambda>s. 4 * (length b - s)"
  have pl: "parseline n b s \<noteq> NoStack" if "?m s + 4 \<le> n" for s using Suc that by blast
  have pp: "parsepipe n b s \<noteq> NoStack" if "?m s + 3 \<le> n" for s using Suc that by blast
  have pe: "parseexec n b s \<noteq> NoStack" if "?m s + 2 \<le> n" for s using Suc that by blast
  have pb: "parseblock n b s \<noteq> NoStack" if "?m s + 1 \<le> n" for s using Suc that by blast
  have "parseline (Suc n) b ps \<noteq> NoStack" if h: "?m ps + 4 \<le> Suc n"
  proof (cases "parsepipe n b ps")
    case (Ok x)
    obtain c1 s1 where x: "x = (c1, s1)" by fastforce
    obtain c2 s2 where 2: "parsebacks c1 b s1 = (c2, s2)" by fastforce
    obtain r s3 where 3: "peek b s2 '';'' = (r, s3)" by fastforce
    obtain k q e s4 where 4: "gettoken b s3 = (k, q, e, s4)" by (cases "gettoken b s3")
    have "ps \<le> s1" "s1 \<le> s2" using Ok x parsers_le [of n b ps] parsebacks_ends [OF 2] by auto
    moreover have "s2 \<le> s3 \<and> s3 < s4 \<and> s3 < length b" if r using peek_gettoken [of b s2 "'';''", OF _ _ 4] 3 that by (simp add: symbols_def)
    ultimately have "parseline n b s4 \<noteq> NoStack" if r using that h by (intro pl) (simp, linarith)
    then show ?thesis using Ok x 2 3 4 by (cases r) (auto simp: and_then_NoStack)
  qed (use pp [of ps] h in auto)
  moreover have "parsepipe (Suc n) b ps \<noteq> NoStack" if h: "?m ps + 3 \<le> Suc n"
  proof (cases "parseexec n b ps")
    case (Ok x)
    obtain c1 s1 where x: "x = (c1, s1)" by fastforce
    obtain r s3 where 3: "peek b s1 ''|'' = (r, s3)" by fastforce
    obtain k q e s4 where 4: "gettoken b s3 = (k, q, e, s4)" by (cases "gettoken b s3")
    have "ps \<le> s1" using Ok x parsers_le [of n b ps] by auto
    moreover have "s1 \<le> s3 \<and> s3 < s4 \<and> s3 < length b" if r using peek_gettoken [of b s1 "''|''", OF _ _ 4] 3 that by (simp add: symbols_def)
    ultimately have "parsepipe n b s4 \<noteq> NoStack" if r using that h by (intro pp) (simp, linarith)
    then show ?thesis using Ok x 3 4 by (cases r) (auto simp: and_then_NoStack)
  qed (use pe [of ps] h in auto)
  moreover have "parseexec (Suc n) b ps \<noteq> NoStack" if h: "?m ps + 2 \<le> Suc n"
  proof -
    obtain r s1 where 1: "peek b ps ''('' = (r, s1)" by fastforce
    have "parseblock n b s1 \<noteq> NoStack" using h peek_le [OF 1] by (intro pb) linarith
    then show ?thesis using 1 parseredirs_ends parseargs_ends by (cases r) (auto simp: and_then_NoStack)
  qed
  moreover have "parseblock (Suc n) b ps \<noteq> NoStack" if h: "?m ps + 1 \<le> Suc n"
  proof -
    obtain r s1 where 1: "peek b ps ''('' = (r, s1)" by fastforce
    obtain k q e s2 where 2: "gettoken b s1 = (k, q, e, s2)" by (cases "gettoken b s1")
    have "ps \<le> s1 \<and> s1 < s2 \<and> s1 < length b" if r using peek_gettoken [of b ps "''(''", OF _ _ 2] 1 that by (simp add: symbols_def)
    then have "parseline n b s2 \<noteq> NoStack" if r using that h by (intro pl) (simp, linarith)
    then show ?thesis using 1 2 parseredirs_ends by (cases r) (auto simp: and_then_NoStack split: prod.splits bool.splits)
  qed
  ultimately show ?case by blast
qed simp

lemma parsecmd_ends: "parsecmd b \<noteq> NoStack"
  using parsers_end [of b 0 "4 * length b + 4"] by (auto simp: parsecmd_def and_then_NoStack split: prod.splits if_splits)

lemma and_then_mono:
  assumes "and_then m f \<noteq> NoStack" "m \<noteq> NoStack \<Longrightarrow> m' = m" "\<And>x. m = Ok x \<Longrightarrow> f x \<noteq> NoStack \<Longrightarrow> f' x = f x"
  shows "and_then m' f' = and_then m f"
  using assms by (cases m) auto

text \<open>More stack does not change the result.\<close>

lemma parsers_mono:
  "(parseline n b ps \<noteq> NoStack \<longrightarrow> parseline (Suc n) b ps = parseline n b ps) \<and> (parsepipe n b ps \<noteq> NoStack \<longrightarrow> parsepipe (Suc n) b ps = parsepipe n b ps) \<and>
   (parseexec n b ps \<noteq> NoStack \<longrightarrow> parseexec (Suc n) b ps = parseexec n b ps) \<and> (parseblock n b ps \<noteq> NoStack \<longrightarrow> parseblock (Suc n) b ps = parseblock n b ps)"
proof (induction n arbitrary: ps)
  case (Suc n)
  have pl: "parseline (Suc n) b s = parseline n b s" if "parseline n b s \<noteq> NoStack" for s using Suc that by blast
  have pp: "parsepipe (Suc n) b s = parsepipe n b s" if "parsepipe n b s \<noteq> NoStack" for s using Suc that by blast
  have pe: "parseexec (Suc n) b s = parseexec n b s" if "parseexec n b s \<noteq> NoStack" for s using Suc that by blast
  have pb: "parseblock (Suc n) b s = parseblock n b s" if "parseblock n b s \<noteq> NoStack" for s using Suc that by blast
  have "parseline (Suc (Suc n)) b ps = parseline (Suc n) b ps" if h: "parseline (Suc n) b ps \<noteq> NoStack"
    unfolding parseline.simps(2) [of "Suc n" b ps] parseline.simps(2) [of n b ps]
    by (rule and_then_mono [OF h [unfolded parseline.simps(2) [of n b ps]] pp])
      (auto split: prod.splits bool.splits simp del: parseline.simps dest!: pl simp: and_then_NoStack)
  moreover have "parsepipe (Suc (Suc n)) b ps = parsepipe (Suc n) b ps" if h: "parsepipe (Suc n) b ps \<noteq> NoStack"
    unfolding parsepipe.simps(2) [of "Suc n" b ps] parsepipe.simps(2) [of n b ps]
    by (rule and_then_mono [OF h [unfolded parsepipe.simps(2) [of n b ps]] pe])
      (auto split: prod.splits bool.splits simp del: parsepipe.simps dest!: pp simp: and_then_NoStack)
  moreover have "parseexec (Suc (Suc n)) b ps = parseexec (Suc n) b ps" if h: "parseexec (Suc n) b ps \<noteq> NoStack"
    using h pb unfolding parseexec.simps(2) [of "Suc n" b ps] parseexec.simps(2) [of n b ps] by (auto split: prod.splits bool.splits simp del: parseblock.simps)
  moreover have "parseblock (Suc (Suc n)) b ps = parseblock (Suc n) b ps" if h: "parseblock (Suc n) b ps \<noteq> NoStack"
    using h pl unfolding parseblock.simps(2) [of "Suc n" b ps] parseblock.simps(2) [of n b ps]
    by (auto split: prod.splits bool.splits simp del: parseline.simps simp: and_then_NoStack)
  ultimately show ?case by blast
qed simp

lemma parseline_more: "n \<le> m \<Longrightarrow> parseline n b s \<noteq> NoStack \<Longrightarrow> parseline m b s = parseline n b s"
  by (induction m rule: dec_induct) (use parsers_mono in auto)

section \<open>Text at a position\<close>

definition here :: "string \<Rightarrow> nat \<Rightarrow> string \<Rightarrow> bool" where
  "here b s xs \<longleftrightarrow> s \<le> length b \<and> drop s b = xs"

lemma here_append: "here b s (xs @ ys) \<Longrightarrow> here b (s + length xs) ys"
  unfolding here_def by (metis add.commute append_eq_conv_conj drop_drop length_append length_drop nat_add_left_cancel_le le_add1 le_add_diff_inverse)

lemma here_Cons: "here b s (x # xs) \<Longrightarrow> ch_at b s = x \<and> s < length b \<and> here b (Suc s) xs"
  unfolding here_def ch_at_def by (auto simp: Cons_nth_drop_Suc [symmetric] dest: sym) (metis drop_eq_Nil list.distinct(1) not_le nth_via_drop Cons_nth_drop_Suc list.inject Suc_leI)+

lemma here_Nil: "here b s [] \<Longrightarrow> ch_at b s = CHR 0x00 \<and> s = length b"
  by (auto simp: here_def ch_at_def)

definition starts_ok :: "string \<Rightarrow> bool" where
  "starts_ok xs \<longleftrightarrow> xs = [] \<or> \<not> isin (hd xs) whitespace"

lemma skip_space_here: "here b s xs \<Longrightarrow> starts_ok xs \<Longrightarrow> skip_space b s = s"
  by (cases xs) (auto simp: starts_ok_def skip_space.simps [of b s] dest!: here_Cons here_Nil)

lemma skip_one_space: "here b s (CHR '' '' # xs) \<Longrightarrow> starts_ok xs \<Longrightarrow> skip_space b s = Suc s"
proof -
  assume a: "here b s (CHR '' '' # xs)" "starts_ok xs"
  note h = here_Cons [OF a(1)]
  have "skip_space b s = skip_space b (Suc s)" using h by (subst skip_space.simps) (simp add: whitespace_def)
  then show ?thesis using skip_space_here [of b "Suc s" xs] h a(2) by simp
qed

lemma peek_here: "here b s xs \<Longrightarrow> starts_ok xs \<Longrightarrow> peek b s toks = (xs \<noteq> [] \<and> hd xs \<noteq> CHR 0x00 \<and> isin (hd xs) toks, s)"
  by (cases xs) (auto simp: peek_def skip_space_here dest!: here_Cons here_Nil)

definition wchar :: "char \<Rightarrow> bool" where
  "wchar c \<longleftrightarrow> c \<noteq> CHR 0x00 \<and> \<not> isin c whitespace \<and> \<not> isin c symbols"

definition word_ok :: "string \<Rightarrow> bool" where
  "word_ok w \<longleftrightarrow> w \<noteq> [] \<and> (\<forall>c\<in>set w. wchar c)"

lemma skip_word_here: "here b s (w @ CHR '' '' # xs) \<Longrightarrow> \<forall>c\<in>set w. wchar c \<Longrightarrow> skip_word b s = s + length w"
proof (induction w arbitrary: s)
  case Nil
  then have "ch_at b s = CHR '' ''" using here_Cons by fastforce
  then show ?case by (subst skip_word.simps) (simp add: whitespace_def)
next
  case (Cons c w)
  then have h: "ch_at b s = c \<and> s < length b \<and> here b (Suc s) (w @ CHR '' '' # xs)" using here_Cons by fastforce
  then have "skip_word b s = skip_word b (Suc s)" using Cons.prems(2) by (subst skip_word.simps) (simp add: wchar_def)
  then show ?case using Cons.IH [of "Suc s"] h Cons.prems(2) by simp
qed

lemma gettoken_word:
  assumes h: "here b s (w @ CHR '' '' # xs)" and w: "word_ok w" and st: "starts_ok xs"
  shows "gettoken b s = (CHR ''a'', s, s + length w, s + length w + 1)"
proof -
  obtain c w' where c: "w = c # w'" "wchar c" using w by (cases w) (auto simp: word_ok_def)
  have at: "ch_at b s = c" "skip_space b s = s" using here_Cons [of b s c] h c skip_space_here [OF h] by (auto simp: starts_ok_def wchar_def)
  have "c \<noteq> CHR 0x00" "c \<notin> set ''|();&<''" "c \<noteq> CHR ''>''" using c(2) by (auto simp: wchar_def symbols_def)
  moreover have "skip_word b s = s + length w" using skip_word_here [OF h] w by (simp add: word_ok_def)
  moreover have "skip_space b (s + length w) = s + length w + 1" using skip_one_space [of b "s + length w" xs] here_append [OF h] st by simp
  ultimately show ?thesis using at by (simp add: gettoken_def Let_def)
qed

lemma gettoken_symbol:
  assumes h: "here b s (c # CHR '' '' # xs)" and c: "c \<in> set ''|();&<>''" and st: "starts_ok xs"
  shows "gettoken b s = (c, s, s + 1, s + 2)"
proof -
  have at: "ch_at b s = c" "ch_at b (Suc s) = CHR '' ''" "here b (Suc s) (CHR '' '' # xs)" using here_Cons [OF h] here_Cons by blast+
  have "skip_space b s = s" using skip_space_here [OF h] c by (auto simp: starts_ok_def whitespace_def)
  then show ?thesis using at c skip_one_space [OF at(3) st] by (auto simp: gettoken_def Let_def)
qed

lemma gettoken_append:
  assumes h: "here b s (CHR ''>'' # CHR ''>'' # CHR '' '' # xs)" and st: "starts_ok xs"
  shows "gettoken b s = (CHR ''+'', s, s + 2, s + 3)"
proof -
  have at: "ch_at b s = CHR ''>''" "ch_at b (Suc s) = CHR ''>''" "here b (Suc (Suc s)) (CHR '' '' # xs)" using here_Cons [OF h] here_Cons by blast+
  have "skip_space b s = s" using skip_space_here [OF h] by (auto simp: starts_ok_def whitespace_def)
  then show ?thesis using at skip_one_space [OF at(3) st] by (simp add: gettoken_def Let_def numeral_2_eq_2)
qed

section \<open>Printing\<close>

definition redir_sign :: "int \<Rightarrow> string" where
  "redir_sign m = (if m = O_RDONLY then ''<'' else if m = O_WRONLY + O_CREATE + O_TRUNC then ''>'' else ''>>'')"

definition paren :: "bool \<Rightarrow> string \<Rightarrow> string" where
  "paren p s = (if p then ''( '' @ s @ '') '' else s)"

text \<open>The text of a tree: level 0 is what \<open>parseexec\<close> reads, 1 is \<open>parsepipe\<close>, 2 a command before its ampersands, 3 is \<open>parseline\<close>.\<close>

primrec show_cmd :: "string cmd \<Rightarrow> nat \<Rightarrow> string" where
  "show_cmd (EXEC ws) l = concat (map (\<lambda>w. w @ '' '') ws)"
| "show_cmd (REDIR c f m fd) l = show_cmd c 0 @ redir_sign m @ '' '' @ f @ '' ''"
| "show_cmd (PIPE a b) l = paren (l < 1) (show_cmd a 0 @ ''| '' @ show_cmd b 1)"
| "show_cmd (BACK a) l = paren (l < 2) (show_cmd a 2 @ ''& '')"
| "show_cmd (LIST a b) l = paren (l < 3) (show_cmd a 2 @ ''; '' @ show_cmd b 3)"

primrec cmd_ok :: "string cmd \<Rightarrow> bool" where
  "cmd_ok (EXEC ws) \<longleftrightarrow> length ws < MAXARGS \<and> (\<forall>w\<in>set ws. word_ok w)"
| "cmd_ok (REDIR c f m fd) \<longleftrightarrow> cmd_ok c \<and> word_ok f \<and>
     (m, fd) \<in> {(O_RDONLY, 0), (O_WRONLY + O_CREATE + O_TRUNC, 1), (O_WRONLY + O_CREATE, 1)}"
| "cmd_ok (PIPE a b) \<longleftrightarrow> cmd_ok a \<and> cmd_ok b"
| "cmd_ok (BACK a) \<longleftrightarrow> cmd_ok a"
| "cmd_ok (LIST a b) \<longleftrightarrow> cmd_ok a \<and> cmd_ok b"

section \<open>What a parsed tree stands for\<close>

definition sub :: "string \<Rightarrow> extent \<Rightarrow> string" where
  "sub b w = take (snd w - fst w) (drop (fst w) b)"

definition cut_ok :: "string \<Rightarrow> extent \<Rightarrow> bool" where
  "cut_ok b w \<longleftrightarrow> fst w \<le> snd w \<and> ch_at b (snd w) = CHR '' ''"

definition denotes :: "string \<Rightarrow> extent cmd \<Rightarrow> string cmd \<Rightarrow> bool" where
  "denotes b c t \<longleftrightarrow> map_cmd (sub b) c = t \<and> (\<forall>w\<in>words c. cut_ok b w)"

lemma denotes_simps [simp]:
  "denotes b c t \<Longrightarrow> denotes b c' t' \<Longrightarrow> denotes b (PIPE c c') (PIPE t t')" "denotes b c t \<Longrightarrow> denotes b c' t' \<Longrightarrow> denotes b (LIST c c') (LIST t t')"
  "denotes b c t \<Longrightarrow> denotes b (BACK c) (BACK t)" "denotes b c t \<Longrightarrow> cut_ok b w \<Longrightarrow> denotes b (REDIR c w m fd) (REDIR t (sub b w) m fd)"
  by (auto simp: denotes_def)

lemma word_here: "here b s (w @ CHR '' '' # xs) \<Longrightarrow> sub b (s, s + length w) = w \<and> cut_ok b (s, s + length w)"
  using here_Cons [OF here_append [of b s w]] by (auto simp: sub_def cut_ok_def here_def)

text \<open>What may follow.\<close>

definition follows :: "string \<Rightarrow> string \<Rightarrow> bool" where
  "follows ts xs \<longleftrightarrow> xs = [] \<or> hd xs \<in> set ts"

lemma follows_starts: "follows ts xs \<Longrightarrow> set ts \<subseteq> set symbols \<Longrightarrow> starts_ok xs"
  by (auto simp: follows_def starts_ok_def whitespace_def symbols_def)

lemma starts_append: "starts_ok xs \<Longrightarrow> starts_ok ys \<Longrightarrow> starts_ok (xs @ ys)"
  by (cases xs) (auto simp: starts_ok_def)

lemma isin_set: "strchr ts c = Some i \<Longrightarrow> c \<in> set ts"
  by (induction ts arbitrary: i) (auto split: if_splits)

lemma isin_symbols: "isin c symbols \<longleftrightarrow> c \<in> set symbols"
  by (auto simp: symbols_def split: if_splits)

lemma peek_stop:
  assumes "here b s xs" "follows ts xs" "set ts \<subseteq> set symbols" "set ts \<inter> set toks = {}"
  shows "peek b s toks = (False, s)"
  using peek_here [OF assms(1) follows_starts [OF assms(2,3)], of toks] assms(2,4) by (auto simp: follows_def dest: isin_set)

lemma symbol_here:
  assumes h: "here b s (c # CHR '' '' # xs)" and c: "c \<in> set ''|();&<>''" and st: "starts_ok xs"
  shows "peek b s toks = (isin c toks, s)" "gettoken b s = (c, s, s + 1, s + 2)" "here b (s + 2) xs"
proof -
  have "starts_ok (c # CHR '' '' # xs)" "c \<noteq> CHR 0x00" using c by (auto simp: starts_ok_def whitespace_def)
  then show "peek b s toks = (isin c toks, s)" using peek_here [OF h] by simp
  show "gettoken b s = (c, s, s + 1, s + 2)" by (rule gettoken_symbol [OF h c st])
  show "here b (s + 2) xs" using here_append [of b s "[c, CHR '' '']" xs] h by simp
qed

lemma word_starts: "word_ok w \<Longrightarrow> starts_ok (w @ xs)"
  by (cases w) (auto simp: word_ok_def wchar_def starts_ok_def)

lemma peek_word:
  assumes "here b s (w @ xs)" "word_ok w" "set toks \<subseteq> set symbols"
  shows "peek b s toks = (False, s)"
proof -
  obtain c w' where w: "w = c # w'" "\<not> isin c symbols" using assms(2) by (cases w) (auto simp: word_ok_def wchar_def)
  then have "\<not> isin c toks" using assms(3) isin_set isin_symbols by blast
  then show ?thesis using peek_here [OF assms(1) word_starts [OF assms(2)], of toks] w(1) by simp
qed

text \<open>A text that the parsers read as \<open>t\<close>, one notion for each level.\<close>

definition reads_exec :: "string \<Rightarrow> string cmd \<Rightarrow> bool" where
  "reads_exec str t \<longleftrightarrow> (\<forall>b s rest. here b s (str @ rest) \<longrightarrow> follows ''<>|&;)'' rest \<longrightarrow>
     (\<exists>N c K. denotes b c t \<and> (\<forall>n\<ge>N. parseexec n b s = and_then (parseredirs c b (s + length str)) K) \<and>
       (\<forall>c s xs. here b s xs \<longrightarrow> follows ''|&;)'' xs \<longrightarrow> K (c, s) = Ok (c, s))))"

definition reads_pipe :: "string \<Rightarrow> string cmd \<Rightarrow> bool" where
  "reads_pipe str t \<longleftrightarrow> (\<forall>b s rest. here b s (str @ rest) \<longrightarrow> follows ''&;)'' rest \<longrightarrow>
     (\<exists>N c. denotes b c t \<and> (\<forall>n\<ge>N. parsepipe n b s = Ok (c, s + length str))))"

definition reads_back :: "string \<Rightarrow> string cmd \<Rightarrow> bool" where
  "reads_back str t \<longleftrightarrow> (\<forall>b s rest. here b s (str @ rest) \<longrightarrow> follows ''&;)'' rest \<longrightarrow>
     (\<exists>N c c0 s0. denotes b c t \<and> (\<forall>n\<ge>N. parsepipe n b s = Ok (c0, s0)) \<and> parsebacks c0 b s0 = parsebacks c b (s + length str)))"

definition reads_line :: "string \<Rightarrow> string cmd \<Rightarrow> bool" where
  "reads_line str t \<longleftrightarrow> (\<forall>b s rest. here b s (str @ rest) \<longrightarrow> follows '')'' rest \<longrightarrow>
     (\<exists>N c. denotes b c t \<and> (\<forall>n\<ge>N. parseline n b s = Ok (c, s + length str))))"

lemma reads_pipeI: "reads_exec str t \<Longrightarrow> reads_pipe str t"
  unfolding reads_pipe_def
proof (intro allI impI)
  fix b s rest
  assume r: "reads_exec str t" and h: "here b s (str @ rest)" "follows ''&;)'' rest"
  note h2 = here_append [OF h(1)]
  have "follows ''<>|&;)'' rest" "follows ''|&;)'' rest" using h(2) by (auto simp: follows_def)
  then obtain N c K where c: "denotes b c t" "\<forall>n\<ge>N. parseexec n b s = and_then (parseredirs c b (s + length str)) K"
      "K (c, s + length str) = Ok (c, s + length str)"
    using r h h2 unfolding reads_exec_def by blast
  have pk: "peek b (s + length str) ''<>'' = (False, s + length str)" "peek b (s + length str) ''|'' = (False, s + length str)"
    by (rule peek_stop [OF h2 h(2)]; simp add: symbols_def)+
  then have "parsepipe n b s = Ok (c, s + length str)" if "Suc N \<le> n" for n
    using that c by (cases n) (auto simp: parseredirs_stop)
  then show "\<exists>N c. denotes b c t \<and> (\<forall>n\<ge>N. parsepipe n b s = Ok (c, s + length str))" using c(1) by blast
qed

lemma reads_backI: "reads_pipe str t \<Longrightarrow> reads_back str t"
  unfolding reads_pipe_def reads_back_def by blast

lemma reads_lineI: "reads_back str t \<Longrightarrow> reads_line str t"
  unfolding reads_line_def
proof (intro allI impI)
  fix b s rest
  assume r: "reads_back str t" and h: "here b s (str @ rest)" "follows '')'' rest"
  have "follows ''&;)'' rest" using h(2) by (auto simp: follows_def)
  then obtain N c c0 s0 where c: "denotes b c t" "\<forall>n\<ge>N. parsepipe n b s = Ok (c0, s0)" "parsebacks c0 b s0 = parsebacks c b (s + length str)"
    using r h unfolding reads_back_def by blast
  have pk: "peek b (s + length str) ''&'' = (False, s + length str)" "peek b (s + length str) '';'' = (False, s + length str)"
    by (rule peek_stop [OF here_append [OF h(1)] h(2)]; simp add: symbols_def)+
  then have "parseline n b s = Ok (c, s + length str)" if "Suc N \<le> n" for n
    using that c by (cases n) (auto simp: parsebacks_stop)
  then show "\<exists>N c. denotes b c t \<and> (\<forall>n\<ge>N. parseline n b s = Ok (c, s + length str))" using c(1) by blast
qed

lemma reads_back_amp: "reads_back str t \<Longrightarrow> reads_back (str @ ''& '') (BACK t)"
  unfolding reads_back_def [of "str @ _"]
proof (intro allI impI)
  fix b s rest
  assume r: "reads_back str t" and h: "here b s ((str @ ''& '') @ rest)" "follows ''&;)'' rest"
  then have h1: "here b s (str @ CHR ''&'' # CHR '' '' # rest)" "follows ''&;)'' (CHR ''&'' # CHR '' '' # rest)" by (auto simp: follows_def)
  then obtain N c c0 s0 where c: "denotes b c t" "\<forall>n\<ge>N. parsepipe n b s = Ok (c0, s0)" "parsebacks c0 b s0 = parsebacks c b (s + length str)"
    using r unfolding reads_back_def by blast
  have "starts_ok rest" using follows_starts [OF h(2)] by (simp add: symbols_def)
  note sy = symbol_here [OF here_append [OF h1(1)] _ this]
  have "parsebacks c b (s + length str) = parsebacks (BACK c) b (s + length str + 2)" using sy by (intro parsebacks_go) auto
  then show "\<exists>N c c0 s0. denotes b c (BACK t) \<and> (\<forall>n\<ge>N. parsepipe n b s = Ok (c0, s0)) \<and> parsebacks c0 b s0 = parsebacks c b (s + length (str @ ''& ''))"
    using c by (intro exI [of _ N] exI [of _ "BACK c"] exI [of _ c0] exI [of _ s0]) simp
qed

lemma reads_pipe_bar: "reads_exec sa ta \<Longrightarrow> reads_pipe sb tb \<Longrightarrow> starts_ok sb \<Longrightarrow> reads_pipe (sa @ ''| '' @ sb) (PIPE ta tb)"
  unfolding reads_pipe_def [of "sa @ _"]
proof (intro allI impI)
  fix b s rest
  assume r: "reads_exec sa ta" "reads_pipe sb tb" "starts_ok sb" and h: "here b s ((sa @ ''| '' @ sb) @ rest)" "follows ''&;)'' rest"
  have h1: "here b s (sa @ CHR ''|'' # CHR '' '' # sb @ rest)" "follows ''<>|&;)'' (CHR ''|'' # CHR '' '' # sb @ rest)"
    "follows ''|&;)'' (CHR ''|'' # CHR '' '' # sb @ rest)" using h by (auto simp: follows_def)
  note h2 = here_append [OF h1(1)]
  obtain N c K where c: "denotes b c ta" "\<forall>n\<ge>N. parseexec n b s = and_then (parseredirs c b (s + length sa)) K"
      "K (c, s + length sa) = Ok (c, s + length sa)"
    using r(1) h1 h2 unfolding reads_exec_def by blast
  have "starts_ok (sb @ rest)" using r(3) follows_starts [OF h(2)] by (intro starts_append) (auto simp: symbols_def)
  note sy = symbol_here [OF h2 _ this]
  obtain N' c' where c': "denotes b c' tb" "\<forall>n\<ge>N'. parsepipe n b (s + length sa + 2) = Ok (c', s + length sa + 2 + length sb)"
    using r(2) sy(3) h(2) unfolding reads_pipe_def by force
  have "parsepipe n b s = Ok (PIPE c c', s + length (sa @ ''| '' @ sb))" if "Suc (max N N') \<le> n" for n
    using that c c' sy by (cases n) (auto simp: parseredirs_stop)
  then show "\<exists>N c. denotes b c (PIPE ta tb) \<and> (\<forall>n\<ge>N. parsepipe n b s = Ok (c, s + length (sa @ ''| '' @ sb)))"
    using c(1) c'(1) by (meson denotes_simps(1))
qed

lemma reads_line_list: "reads_back sa ta \<Longrightarrow> reads_line sb tb \<Longrightarrow> starts_ok sb \<Longrightarrow> reads_line (sa @ ''; '' @ sb) (LIST ta tb)"
  unfolding reads_line_def [of "sa @ _"]
proof (intro allI impI)
  fix b s rest
  assume r: "reads_back sa ta" "reads_line sb tb" "starts_ok sb" and h: "here b s ((sa @ ''; '' @ sb) @ rest)" "follows '')'' rest"
  have h1: "here b s (sa @ CHR '';'' # CHR '' '' # sb @ rest)" "follows ''&;)'' (CHR '';'' # CHR '' '' # sb @ rest)" using h by (auto simp: follows_def)
  note h2 = here_append [OF h1(1)]
  obtain N c c0 s0 where c: "denotes b c ta" "\<forall>n\<ge>N. parsepipe n b s = Ok (c0, s0)" "parsebacks c0 b s0 = parsebacks c b (s + length sa)"
    using r(1) h1 unfolding reads_back_def by blast
  have "starts_ok (sb @ rest)" using r(3) follows_starts [OF h(2)] by (intro starts_append) (auto simp: symbols_def)
  note sy = symbol_here [OF h2 _ this]
  obtain N' c' where c': "denotes b c' tb" "\<forall>n\<ge>N'. parseline n b (s + length sa + 2) = Ok (c', s + length sa + 2 + length sb)"
    using r(2) sy(3) h(2) unfolding reads_line_def by force
  have "parseline n b s = Ok (LIST c c', s + length (sa @ ''; '' @ sb))" if "Suc (max N N') \<le> n" for n
    using that c c' sy by (cases n) (auto simp: parsebacks_stop)
  then show "\<exists>N c. denotes b c (LIST ta tb) \<and> (\<forall>n\<ge>N. parseline n b s = Ok (c, s + length (sa @ ''; '' @ sb)))"
    using c(1) c'(1) by (meson denotes_simps(2))
qed

lemma and_then_id: "and_then m Ok = m" "and_then m (\<lambda>(c, s). Ok (c, s)) = m"
  by (cases m; auto)+

lemma reads_exec_paren: "reads_line str t \<Longrightarrow> starts_ok str \<Longrightarrow> reads_exec (''( '' @ str @ '') '') t"
  unfolding reads_exec_def
proof (intro allI impI)
  fix b s rest
  assume r: "reads_line str t" "starts_ok str" and h: "here b s ((''( '' @ str @ '') '') @ rest)" "follows ''<>|&;)'' rest"
  have "here b s (CHR ''('' # CHR '' '' # str @ CHR '')'' # CHR '' '' # rest)" using h(1) by simp
  moreover have "starts_ok (str @ CHR '')'' # CHR '' '' # rest)" by (rule starts_append [OF r(2)]) (simp add: starts_ok_def whitespace_def)
  ultimately have o: "peek b s toks = (isin CHR ''('' toks, s)" "gettoken b s = (CHR ''('', s, s + 1, s + 2)"
      "here b (s + 2) (str @ CHR '')'' # CHR '' '' # rest)" for toks
    using symbol_here by auto
  obtain N c where c: "denotes b c t" "\<forall>n\<ge>N. parseline n b (s + 2) = Ok (c, s + 2 + length str)"
    using r(1) o(3) unfolding reads_line_def follows_def by fastforce
  have "starts_ok rest" using follows_starts [OF h(2)] by (simp add: symbols_def)
  note cl = symbol_here [OF here_append [OF o(3)] _ this]
  have "parseexec n b s = and_then (parseredirs c b (s + length (''( '' @ str @ '') ''))) Ok" if "Suc (Suc N) \<le> n" for n
  proof -
    have m: "n = Suc (Suc (n - 2))" "N \<le> n - 2" using \<open>Suc (Suc N) \<le> n\<close> by linarith+
    have p: "peek b s ''('' = (True, s)" "peek b (s + 2 + length str) '')'' = (True, s + 2 + length str)"
      using o(1) [of "''(''"] cl(1) [of "'')''"] by simp_all
    have g: "gettoken b (s + 2 + length str) = (CHR '')'', s + 2 + length str, s + 2 + length str + 1, s + 2 + length str + 2)" by (rule cl(2)) simp
    have "parseexec n b s = parseredirs c b (s + 2 + length str + 2)"
      by (subst m(1)) (use c(2) m(2) p g o(2) in \<open>simp\<close>)
    then show ?thesis by (simp add: and_then_id)
  qed
  then show "\<exists>N c K. denotes b c t \<and> (\<forall>n\<ge>N. parseexec n b s = and_then (parseredirs c b (s + length (''( '' @ str @ '') ''))) K) \<and>
      (\<forall>c s xs. here b s xs \<longrightarrow> follows ''|&;)'' xs \<longrightarrow> K (c, s) = Ok (c, s))"
    using c(1) by (intro exI [of _ "Suc (Suc N)"] exI [of _ c] exI [of _ Ok]) simp
qed

lemma word_token:
  assumes h: "here b s (w @ CHR '' '' # rest)" and w: "word_ok w" and st: "starts_ok rest"
  obtains e where "gettoken b s = (CHR ''a'', fst e, snd e, s + length w + 1)" "sub b e = w" "cut_ok b e" "here b (s + length w + 1) rest"
proof -
  have "here b (s + length w + 1) rest" using here_append [of b s "w @ '' ''" rest] h by simp
  then show thesis using that [of "(s, s + length w)"] gettoken_word [OF h w st] word_here [OF h] by simp
qed

lemma redir_round:
  assumes h: "here b s (redir_sign m @ CHR '' '' # f @ CHR '' '' # rest)" and f: "word_ok f" and st: "starts_ok rest"
    and m: "(m, fd) \<in> {(O_RDONLY, 0), (O_WRONLY + O_CREATE + O_TRUNC, 1), (O_WRONLY + O_CREATE, 1)}"
  obtains e where "sub b e = f" "cut_ok b e" "parseredirs c b s = parseredirs (REDIR c e m fd) b (s + length (redir_sign m @ '' '' @ f @ '' ''))"
proof -
  note ws = word_starts [OF f, of "CHR '' '' # rest"]
  have h2: "here b (s + length (redir_sign m) + 1) (f @ CHR '' '' # rest)"
    using here_append [of b s "redir_sign m @ '' ''" "f @ CHR '' '' # rest"] h by simp
  obtain e where e: "gettoken b (s + length (redir_sign m) + 1) = (CHR ''a'', fst e, snd e, s + length (redir_sign m) + 1 + length f + 1)"
      "sub b e = f" "cut_ok b e" using word_token [OF h2 f st] by metis
  have pk: "peek b s ''<>'' = (True, s)" using m peek_here [OF h, of "''<>''"]
    by (auto simp: redir_sign_def starts_ok_def whitespace_def O_RDONLY_def O_WRONLY_def O_CREATE_def O_TRUNC_def)
  obtain tok q eq where g: "gettoken b s = (tok, q, eq, s + length (redir_sign m) + 1)" "redir tok c e = REDIR c e m fd"
    using m h gettoken_symbol [of b s _ "f @ CHR '' '' # rest", OF _ _ ws] gettoken_append [of b s "f @ CHR '' '' # rest", OF _ ws]
    by (auto simp: redir_sign_def redir_def O_RDONLY_def O_WRONLY_def O_CREATE_def O_TRUNC_def)
  then show thesis using that [OF e(2,3)] parseredirs_go [OF pk g(1) e(1)] by (simp add: add.assoc)
qed

lemma reads_exec_redir:
  assumes r: "reads_exec str t" and f: "word_ok f"
    and m: "(m, fd) \<in> {(O_RDONLY, 0), (O_WRONLY + O_CREATE + O_TRUNC, 1), (O_WRONLY + O_CREATE, 1)}"
  shows "reads_exec (str @ redir_sign m @ '' '' @ f @ '' '') (REDIR t f m fd)"
  unfolding reads_exec_def
proof (intro allI impI)
  fix b s rest
  let ?str = "str @ redir_sign m @ '' '' @ f @ '' ''"
  assume h: "here b s (?str @ rest)" "follows ''<>|&;)'' rest"
  have h1: "here b s (str @ redir_sign m @ CHR '' '' # f @ CHR '' '' # rest)" using h(1) by simp
  have "follows ''<>|&;)'' (redir_sign m @ CHR '' '' # f @ CHR '' '' # rest)" by (simp add: follows_def redir_sign_def)
  then obtain N c K where c: "denotes b c t" "\<forall>n\<ge>N. parseexec n b s = and_then (parseredirs c b (s + length str)) K"
      "\<forall>c s xs. here b s xs \<longrightarrow> follows ''|&;)'' xs \<longrightarrow> K (c, s) = Ok (c, s)"
    using r h1 unfolding reads_exec_def by blast
  have "starts_ok rest" using follows_starts [OF h(2)] by (simp add: symbols_def)
  then obtain e where e: "sub b e = f" "cut_ok b e" "parseredirs c b (s + length str) = parseredirs (REDIR c e m fd) b (s + length ?str)"
    using redir_round [OF here_append [OF h1] f _ m, of c] by (metis add.assoc length_append)
  then have "denotes b (REDIR c e m fd) (REDIR t f m fd)" using c(1) denotes_simps(4) by blast
  then show "\<exists>N c K. denotes b c (REDIR t f m fd) \<and> (\<forall>n\<ge>N. parseexec n b s = and_then (parseredirs c b (s + length ?str)) K) \<and>
      (\<forall>c s xs. here b s xs \<longrightarrow> follows ''|&;)'' xs \<longrightarrow> K (c, s) = Ok (c, s))"
    using c e(3) by metis
qed

text \<open>The words of a command, one after the other.\<close>

abbreviation spaced :: "string list \<Rightarrow> string" where
  "spaced ws \<equiv> concat (map (\<lambda>w. w @ '' '') ws)"

lemma spaced_starts: "\<forall>w\<in>set ws. word_ok w \<Longrightarrow> starts_ok rest \<Longrightarrow> starts_ok (spaced ws @ rest)"
  by (cases ws) (simp_all add: word_starts)

lemma exec_words:
  assumes "here b s (spaced ws @ rest)" "\<forall>w\<in>set ws. word_ok w" "starts_ok rest" "k + length ws < MAXARGS"
  shows "\<exists>es'. map (sub b) es' = ws \<and> (\<forall>e\<in>set es'. cut_ok b e) \<and>
    and_then (parseredirs (EXEC es) b s) (\<lambda>(r, s). parseargs k r b s) =
    and_then (parseredirs (EXEC (es @ es')) b (s + length (spaced ws))) (\<lambda>(r, s). parseargs (k + length ws) r b s)"
  using assms
proof (induction ws arbitrary: s k es)
  case (Cons w ws)
  have w: "word_ok w" "starts_ok (spaced ws @ rest)" using Cons.prems by (auto intro!: spaced_starts)
  have h: "here b s (w @ CHR '' '' # spaced ws @ rest)" using Cons.prems(1) by simp
  have pk: "peek b s ''<>'' = (False, s)" "peek b s ''|)&;'' = (False, s)" using peek_word [OF h w(1)] by (simp_all add: symbols_def)
  obtain e where e: "gettoken b s = (CHR ''a'', fst e, snd e, s + length w + 1)" "sub b e = w" "cut_ok b e"
      "here b (s + length w + 1) (spaced ws @ rest)"
    using word_token [OF h w] .
  obtain es' where es: "map (sub b) es' = ws" "\<forall>e\<in>set es'. cut_ok b e"
      "and_then (parseredirs (EXEC (es @ [e])) b (s + length w + 1)) (\<lambda>(r, s). parseargs (k + 1) r b s) =
       and_then (parseredirs (EXEC ((es @ [e]) @ es')) b (s + length w + 1 + length (spaced ws))) (\<lambda>(r, s). parseargs (k + 1 + length ws) r b s)"
    using Cons.IH [OF e(4), of "k + 1" "es @ [e]"] Cons.prems by auto
  have "parseargs k (EXEC es) b s = and_then (parseredirs (EXEC (es @ [e])) b (s + length w + 1)) (\<lambda>(r, s). parseargs (k + 1) r b s)"
    using pk(2) e(1) Cons.prems(4) by (subst parseargs.simps) simp
  then show ?case using es e(2,3) by (intro exI [of _ "e # es'"]) (simp add: parseredirs_stop [OF pk(1)] add.assoc)
qed simp

lemma parseargs_stop: "here b s xs \<Longrightarrow> follows ''|&;)'' xs \<Longrightarrow> parseargs k c b s = Ok (c, s)"
proof -
  assume a: "here b s xs" "follows ''|&;)'' xs"
  have st: "starts_ok xs" using follows_starts [OF a(2)] by (simp add: symbols_def)
  show ?thesis
  proof (cases xs)
    case Nil
    then have "ch_at b s = CHR 0x00" using here_Nil a(1) by blast
    then have "gettoken b s = (CHR 0x00, s, s, s)" using skip_space_here [OF a(1) st] by (simp add: gettoken_def)
    then show ?thesis using Nil peek_here [OF a(1) st, of "''|)&;''"] by (subst parseargs.simps) simp
  next
    case (Cons x ys)
    then have "peek b s ''|)&;'' = (True, s)" using peek_here [OF a(1) st, of "''|)&;''"] a(2) by (auto simp: follows_def)
    then show ?thesis by (subst parseargs.simps) simp
  qed
qed

lemma reads_exec_words:
  assumes ws: "\<forall>w\<in>set ws. word_ok w" "length ws < MAXARGS"
  shows "reads_exec (spaced ws) (EXEC ws)"
  unfolding reads_exec_def
proof (intro allI impI)
  fix b s rest
  assume h: "here b s (spaced ws @ rest)" "follows ''<>|&;)'' rest"
  have st: "starts_ok rest" using follows_starts [OF h(2)] by (simp add: symbols_def)
  have pk: "peek b s ''('' = (False, s)"
  proof (cases ws)
    case Nil
    then show ?thesis using peek_stop [of b s rest, OF _ h(2)] h(1) by (simp add: symbols_def)
  next
    case (Cons w us)
    then show ?thesis using peek_word [of b s w] ws(1) h(1) by (simp add: symbols_def)
  qed
  obtain es where es: "map (sub b) es = ws" "\<forall>e\<in>set es. cut_ok b e"
      "and_then (parseredirs (EXEC []) b s) (\<lambda>(r, s). parseargs 0 r b s) =
       and_then (parseredirs (EXEC es) b (s + length (spaced ws))) (\<lambda>(r, s). parseargs (length ws) r b s)"
    using exec_words [OF h(1) ws(1) st, of 0 "[]"] ws(2) by auto
  have "parseexec n b s = and_then (parseredirs (EXEC es) b (s + length (spaced ws))) (\<lambda>(r, s). parseargs (length ws) r b s)" if "1 \<le> n" for n
    using that pk es(3) by (cases n) auto
  moreover have "denotes b (EXEC es) (EXEC ws)" using es(1,2) by (simp add: denotes_def)
  ultimately show "\<exists>N c K. denotes b c (EXEC ws) \<and> (\<forall>n\<ge>N. parseexec n b s = and_then (parseredirs c b (s + length (spaced ws))) K) \<and>
      (\<forall>c s xs. here b s xs \<longrightarrow> follows ''|&;)'' xs \<longrightarrow> K (c, s) = Ok (c, s))"
    by (intro exI [of _ 1] exI [of _ "EXEC es"] exI [of _ "\<lambda>(r, s). parseargs (length ws) r b s"]) (auto simp: parseargs_stop)
qed

section \<open>Every printed tree is read back\<close>

lemma show_starts: "cmd_ok t \<Longrightarrow> starts_ok (show_cmd t l)"
proof (induction t arbitrary: l)
  case (EXEC ws)
  then show ?case using spaced_starts [of ws "[]"] by (simp add: starts_ok_def)
next
  case (REDIR c f m fd)
  have "starts_ok (redir_sign m @ '' '' @ f @ '' '')" by (simp add: redir_sign_def starts_ok_def whitespace_def)
  then show ?case using REDIR by (simp add: starts_append)
qed (auto simp: paren_def intro!: starts_append, auto simp: starts_ok_def whitespace_def)

lemma paren_no [simp]: "paren False s = s"
  by (simp add: paren_def)

lemma paren_reads: "reads_line str t \<Longrightarrow> starts_ok str \<Longrightarrow> reads_exec (paren True str) t"
  using reads_exec_paren by (simp add: paren_def)

lemma show_reads:
  assumes "cmd_ok t"
  shows "reads_exec (show_cmd t 0) t" "reads_pipe (show_cmd t 1) t" "reads_back (show_cmd t 2) t" "reads_line (show_cmd t 3) t"
proof -
  have "reads_exec (show_cmd t 0) t \<and> reads_pipe (show_cmd t 1) t \<and> reads_back (show_cmd t 2) t \<and> reads_line (show_cmd t 3) t"
    using assms
  proof (induction t)
    case (EXEC ws)
    then have "reads_exec (spaced ws) (EXEC ws)" by (intro reads_exec_words) auto
    then show ?case by (simp add: reads_pipeI reads_backI reads_lineI)
  next
    case (REDIR c f m fd)
    then have "reads_exec (show_cmd (REDIR c f m fd) 0) (REDIR c f m fd)" unfolding show_cmd.simps by (intro reads_exec_redir) auto
    then show ?case by (simp add: reads_pipeI reads_backI reads_lineI)
  next
    case (PIPE l r)
    then have "reads_pipe (show_cmd l 0 @ ''| '' @ show_cmd r 1) (PIPE l r)" by (intro reads_pipe_bar show_starts) auto
    moreover have "starts_ok (show_cmd (PIPE l r) 3)" using PIPE.prems by (rule show_starts)
    ultimately show ?case by (simp add: reads_backI reads_lineI paren_reads)
  next
    case (LIST l r)
    then have "reads_line (show_cmd l 2 @ ''; '' @ show_cmd r 3) (LIST l r)" by (intro reads_line_list show_starts) auto
    moreover have "starts_ok (show_cmd (LIST l r) 3)" using LIST.prems by (rule show_starts)
    ultimately show ?case by (simp add: reads_pipeI reads_backI paren_reads)
  next
    case (BACK l)
    then have "reads_back (show_cmd l 2 @ ''& '') (BACK l)" by (intro reads_back_amp) auto
    moreover have "starts_ok (show_cmd (BACK l) 3)" using BACK.prems by (rule show_starts)
    ultimately show ?case by (simp add: reads_pipeI reads_lineI paren_reads)
  qed
  then show "reads_exec (show_cmd t 0) t" "reads_pipe (show_cmd t 1) t" "reads_back (show_cmd t 2) t" "reads_line (show_cmd t 3) t" by auto
qed

section \<open>Cutting the words\<close>

lemma nul_fold: "length (fold (\<lambda>(q, eq) b. b[eq := CHR 0x00]) ws b) = length b \<and>
   (i < length b \<longrightarrow> fold (\<lambda>(q, eq) b. b[eq := CHR 0x00]) ws b ! i = (if i \<in> snd ` set ws then CHR 0x00 else b ! i))"
proof (induction ws arbitrary: b)
  case (Cons w ws)
  then show ?case using Cons.IH [of "b[snd w := CHR 0x00]"] by (simp add: case_prod_beta nth_list_update)
qed simp

lemma nul_nth: "length (nulterminate c b) = length b \<and> (i < length b \<longrightarrow> nulterminate c b ! i = (if i \<in> snd ` words c then CHR 0x00 else b ! i))"
proof (induction c b rule: nulterminate.induct)
  case (1 ws b)
  then show ?case using nul_fold [of ws b i] by simp
next
  case (2 c q eq m fd b)
  then show ?case by (cases "i = eq") simp_all
next
  case (3 l r b)
  then show ?case by (simp add: image_Un)
next
  case (4 l r b)
  then show ?case by (simp add: image_Un)
qed simp

lemma cut_word:
  assumes e: "e \<in> words c" "cut_ok b e" "word_ok (sub b e)" and c: "\<forall>e\<in>words c. cut_ok b e"
  shows "cstr_at (nulterminate c b) (fst e) = sub b e"
proof -
  let ?b = "nulterminate c b"
  have n: "snd e < length b" "fst e \<le> snd e" using e(2) by (auto simp: cut_ok_def ch_at_def split: if_splits)
  have len: "length (sub b e) = snd e - fst e" using n by (simp add: sub_def)
  have "drop (fst e) ?b = sub b e @ CHR 0x00 # drop (Suc (snd e)) ?b"
  proof (rule nth_equalityI)
    show "length (drop (fst e) ?b) = length (sub b e @ CHR 0x00 # drop (Suc (snd e)) ?b)" using n len nul_nth [of c b] by simp
  next
    fix i
    assume i: "i < length (drop (fst e) ?b)"
    then have l: "fst e + i < length b" using nul_nth [of c b] by simp
    consider "fst e + i < snd e" | "fst e + i = snd e" | "fst e + i > snd e" by linarith
    then show "drop (fst e) ?b ! i = (sub b e @ CHR 0x00 # drop (Suc (snd e)) ?b) ! i"
    proof cases
      case 1
      then have s: "sub b e ! i = b ! (fst e + i)" "i < length (sub b e)" using n len by (auto simp: sub_def)
      then have "wchar (b ! (fst e + i))" using e(3) nth_mem [OF s(2)] by (simp add: word_ok_def)
      then have "ch_at b (fst e + i) \<noteq> CHR '' ''" using l by (auto simp: ch_at_def wchar_def whitespace_def)
      then have "fst e + i \<notin> snd ` words c" using c by (auto simp: cut_ok_def)
      then show ?thesis using s l nul_nth [of c b "fst e + i"] by (simp add: nth_append)
    next
      case 2
      then have "fst e + i \<in> snd ` words c" "i = snd e - fst e" using e(1) by force+
      then show ?thesis using 2 l len n nul_nth [of c b "fst e + i"] by (simp add: nth_append)
    next
      case 3
      then have "i - (snd e - fst e) = Suc (fst e + i - Suc (snd e))" "\<not> i < snd e - fst e" using n by auto
      then show ?thesis using 3 l len n nul_nth [of c b] by (simp add: nth_append)
    qed
  qed
  moreover have "\<forall>x\<in>set (sub b e). x \<noteq> CHR 0x00" using e(3) by (auto simp: word_ok_def wchar_def)
  ultimately show ?thesis by (simp add: cstr_at_def takeWhile_append2)
qed

lemma cmd_ok_words: "cmd_ok t \<Longrightarrow> w \<in> words t \<Longrightarrow> word_ok w"
  by (induction t) auto

lemma denotes_resolve:
  assumes d: "denotes b c t" and t: "cmd_ok t"
  shows "cmd_strings (nulterminate c b) c = t"
proof -
  have "cstr_at (nulterminate c b) (fst e) = sub b e" if e: "e \<in> words c" for e
  proof (rule cut_word [OF e])
    have "sub b e \<in> words t" using d e by (auto simp: denotes_def cmd.set_map)
    then show "word_ok (sub b e)" using cmd_ok_words [OF t] by blast
  qed (use d e in \<open>auto simp: denotes_def\<close>)
  then have "cmd_strings (nulterminate c b) c = map_cmd (sub b) c" unfolding cmd_strings_def by (intro cmd.map_cong) auto
  then show ?thesis using d by (simp add: denotes_def)
qed

lemma parsecmd_show:
  assumes t: "cmd_ok t"
  shows "\<exists>c b. parsecmd (show_cmd t 3) = Ok (c, b) \<and> cmd_strings b c = t"
proof -
  let ?b = "show_cmd t 3"
  have "here ?b 0 (?b @ [])" "follows '')'' []" by (simp_all add: here_def follows_def)
  then obtain N c where c: "denotes ?b c t" "\<forall>n\<ge>N. parseline n ?b 0 = Ok (c, 0 + length ?b)"
    using show_reads(4) [OF t] unfolding reads_line_def by blast
  define m where "m = max N (4 * length ?b + 4)"
  have "parseline (4 * length ?b + 4) ?b 0 \<noteq> NoStack" using parsers_end [of ?b 0] by simp
  then have "parseline m ?b 0 = parseline (4 * length ?b + 4) ?b 0" by (intro parseline_more) (auto simp: m_def)
  then have p: "parseline (4 * length ?b + 4) ?b 0 = Ok (c, length ?b)" using c(2) by (simp add: m_def)
  have "skip_space ?b (length ?b) = length ?b" by (subst skip_space.simps) simp
  then have "parsecmd ?b = Ok (c, nulterminate c ?b)" using p by (simp add: parsecmd_def peek_def)
  then show ?thesis using denotes_resolve [OF c(1) t] by blast
qed

text \<open>
  (C33) The shell's parser ends on every line, with a tree or with one of its error messages: four frames of the recursion for each
  character are enough.  And it reads every command tree back from its text: words, the three redirections, pipes, background commands,
  lists and the parentheses that the levels of the grammar ask for.  The tree it builds points into the line, and after
  \<open>nulterminate\<close> has cut the line every pointer is at the string that was printed; so the child process that the shell starts
  for this text runs this tree.
\<close>

theorem sh_parse_print:
  "parsecmd b \<noteq> NoStack \<and>
   (cmd_ok t \<longrightarrow> (\<exists>c b. parsecmd (show_cmd t 3) = Ok (c, b) \<and> cmd_strings b c = t) \<and> sh_child (show_cmd t 3) = runcmd t)"
  using parsecmd_ends parsecmd_show [of t] by (auto simp: sh_child_def)

text \<open>The hypothesis of the round trip holds for a list of a pipe with redirections in the background and a command.\<close>

definition sample_cmd :: "string cmd" where
  "sample_cmd = LIST (BACK (PIPE (REDIR (EXEC [''cat'', ''-n'']) ''in'' O_RDONLY 0) (REDIR (BACK (EXEC [''wc''])) ''out'' (O_WRONLY + O_CREATE) 1))) (EXEC [''ls''])"

theorem sh_parse_print_witness:
  "cmd_ok sample_cmd \<and> show_cmd sample_cmd 3 = ''cat -n < in | ( wc & ) >> out & ; ls '' \<and>
   (\<exists>c b. parsecmd ''cat -n < in | ( wc & ) >> out & ; ls '' = Ok (c, b) \<and> cmd_strings b c = sample_cmd) \<and>
   sh_child ''cat -n < in | ( wc & ) >> out & ; ls '' = runcmd sample_cmd"
proof -
  have "cmd_ok sample_cmd"
    by (simp add: sample_cmd_def word_ok_def wchar_def whitespace_def symbols_def MAXARGS_def)
  moreover have "show_cmd sample_cmd 3 = ''cat -n < in | ( wc & ) >> out & ; ls ''"
    by (simp add: sample_cmd_def paren_def redir_sign_def O_RDONLY_def O_WRONLY_def O_CREATE_def O_TRUNC_def)
  ultimately show ?thesis using sh_parse_print [of "[]" sample_cmd] by simp
qed

end
