(* ===== verification/Spec2Isabelle.thy ===== *)
theory Spec2Isabelle
  imports Rle FileSpec Syscall MutexMachine UserCopy MsgSpec PipeSpec LogSpec ShellSpec
begin

text \<open>
  Verification library for the NCSC210-G16 repository.  It models, function by function, three programs of the repository:

  \<^item> the multithreaded file server (\<open>src/G16_Project_3/src\<close>): clients send commands in the RESP format over TCP; the server reads, writes,
    deletes, renames, copies, compresses and decompresses files below a data directory, under locks per path, and keeps an audit log;
  \<^item> the xv6 kernel (\<open>src/G16_Project1_xv6CustomizeSystemCalls/xv6-riscv/kernel\<close>) with the system calls the project added: kernel mutexes,
    message queues, shared memory, freezing and signals, \<open>waitpid\<close>, \<open>forkn\<close> and threads;
  \<^item> two user programs of xv6 (\<open>xv6-riscv/user\<close>): \<open>grep\<close> and the shell \<open>sh\<close>.

  Every definition that models code has the name of its C function, or the name of the function it is a part of (a loop, or the code
  behind a sleep).  The theorems with a number in their text are the properties of the development; the other lemmas serve them.

  \<^bold>\<open>Reading the model.\<close>  C functions are functions from a state to an optional result with the new state, in the option monad.

  \<^item> \<open>None\<close> is a call that does not come back: \<open>panic\<close>, a loop without end, or a lock that stays taken.  Theorems that say that a function
    returns are of the form \<open>\<exists>s'. f s = Some s' \<and> \<dots>\<close>; where one assumes the result of a call, another says when the call returns.
  \<^item> C error returns are values, -1 or a null pointer, as in the source; a null pointer into a table is \<open>None\<close> inside the result.
  \<^item> Machine integers keep their width where it matters: addresses, page-table entries and the counters of pipes are words and wrap;
    \<open>int\<close> system call arguments are the low 32 bits of a register read as a signed number.
  \<^item> Memory that code shares or reinterprets (page tables, trapframes, free pages, user memory, disk blocks) is bytes, with the offsets
    of the C declarations.  Buffers that only one function sees are values.
  \<^item> A kernel function that sleeps is split at the context switch: the first part ends with \<open>Asleep\<close> and what the process remembers, a
    function \<open>\<dots>_resume\<close> is the rest.  Everything else of the kernel can run in between.

  \<^bold>\<open>Foundations.\<close>  \<open>Prelude\<close>: bytes, table scans, list facts.  \<open>CLib\<close>: C string and number functions.  \<open>Posix\<close>: the operating system
  below the file server, with a schedule of short transfers, interrupts and failures, so that a theorem about all worlds is about all such
  patterns.  \<open>IoLoops\<close>: the transfer loops, once and for all, in two locales for sources and sinks of bytes, interpreted for the socket
  and for files.

  \<^bold>\<open>The file server.\<close>

  \<^item> \<open>Rle\<close> (\<open>file_ops.c\<close>, the codec): decompression undoes compression; buffer bounds.
  \<^item> \<open>Resp\<close> (\<open>resp.c\<close>): requests are read back from their encoding however the stream is cut; limits of what is accepted; replies.
  \<^item> \<open>PathUtils\<close> (\<open>path_utils.c\<close>): paths that pass the filter stay below the data directory; suffixes.
  \<^item> \<open>Locks\<close> (\<open>locks.c\<close>): the registry keeps one lock per path; taking and releasing restores the table; the two-lock function is a plan
    in the order of \<open>strcmp\<close>.  \<open>LockThreads\<close>: threads that take locks by such plans, as a step relation: exclusion and no deadlock.
  \<^item> \<open>Logger\<close> (\<open>logger.c\<close>): one entry for each call, nothing else touched.
  \<^item> \<open>FileOps\<close> (\<open>file_ops.c\<close>, the handlers); \<open>FileFrames\<close>: what each system call keeps and achieves; \<open>FileSafe\<close>: every handler, on every
    error path, leaves locks, mutexes, descriptors and foreign files as they were; \<open>FileSpec\<close>: what the commands do to the files.
  \<^item> \<open>Server\<close> (\<open>server.c\<close>): dispatch, sessions, start-up: no request reaches a file outside the data directory, and sessions end.

  \<^bold>\<open>The kernel.\<close>  \<open>KState\<close> is the record of its global variables.

  \<^item> \<open>KString\<close> (\<open>string.c\<close>), \<open>Spinlock\<close> (\<open>spinlock.c\<close>), \<open>Kalloc\<close> (\<open>kalloc.c\<close>): exact effect of the memory functions; nesting of locks and
    the interrupt flag; the free list threaded through the free pages is a stack of pages.
  \<^item> \<open>Vm\<close> (\<open>vm.c\<close>): page tables in memory.  \<open>VmFrame\<close>: what its functions never change; \<open>VmTab\<close>: a table as a tree of pages; \<open>VmSpec\<close>:
    \<open>mappages\<close> as an update of the translation; \<open>UserMem\<close> and \<open>UserCopy\<close>: user memory as a partial map, with pages that are allocated
    on demand, and \<open>copyin\<close> and \<open>copyout\<close> as reads and writes of it that leave other processes alone.
  \<^item> \<open>Sched\<close>, \<open>Proc\<close> (\<open>proc.c\<close>), \<open>Switch\<close>: the process table, scheduling, sleeping and waking; what a context switch does to the locks.
  \<^item> \<open>Bio\<close> (\<open>sleeplock.c\<close>, \<open>bio.c\<close>), \<open>Log\<close> (\<open>log.c\<close>), \<open>Fs\<close> (\<open>fs.c\<close>): the layers of the file system.  \<open>BioSpec\<close>: the linked list of buffers
    as a cache, in terms of the current content of blocks; \<open>LogSpec\<close>: commits are atomic under crashes, also under crashes during recovery.
  \<^item> \<open>Pipe\<close> (\<open>pipe.c\<close>): \<open>PipeSpec\<close> has a locale for bounded queues, interpreted on the ring buffer, and shows that writing appends
    and reading takes from the front.  \<open>File\<close> (\<open>file.c\<close>): open files.
  \<^item> \<open>Args\<close>, \<open>KMutex\<close>, \<open>Msg\<close>, \<open>Shm\<close>, \<open>SysProc\<close> (\<open>sysproc.c\<close>, \<open>msg.c\<close>, \<open>shm.c\<close>), \<open>SysFile\<close> (\<open>sysfile.c\<close>), \<open>Exec\<close> (\<open>exec.c\<close>), \<open>Syscall\<close>
    (\<open>syscall.c\<close>, \<open>trap.c\<close>): all system calls, from the registers of the caller to the result.  \<open>MutexMachine\<close>: processes that use mutexes
    under the scheduler, as a step relation: exclusion and no lost wakeup.  \<open>MsgSpec\<close>: messages arrive as they were sent, and every call
    keeps the queues well formed.

  \<^bold>\<open>User programs.\<close>  \<open>Grep\<close> (\<open>grep.c\<close>): the matcher decides the language of the pattern, and the program prints the matching lines.
  \<open>Shell\<close> and \<open>ShellSpec\<close> (\<open>sh.c\<close>): the parser ends on every line and reads back every command tree from its text.

  \<^bold>\<open>Bounds and fuel.\<close>  Recursions have a termination proof where the code has a measure.  Elsewhere there is fuel: the parser of the
  shell has four stack frames for each character, and \<open>parsecmd\<close> is proved never to need more.  Loops over the transfer schedule and
  over linked lists and disk blocks are \<open>partial_function\<close>s; those of the server and of the buffer cache are proved to return.  The
  file system above the log (\<open>Fs\<close>, \<open>File\<close>, \<open>SysFile\<close>, \<open>Exec\<close>) is modelled in full, without theorems of its own so far.
  Table sizes (\<open>NPROC\<close>, \<open>NBUF\<close>, \<open>LOGBLOCKS\<close>, \<open>MAX_Q\<close>, \<dots>) are those of the source; commits
  ask for two buffers that are not pinned, which the source does not guarantee, since \<open>NBUF = LOGBLOCKS\<close>.

  \<^bold>\<open>Not modelled.\<close>

  \<^item> Device drivers and hardware: \<open>console.c\<close>, \<open>uart.c\<close>, \<open>plic.c\<close>, \<open>virtio_disk.c\<close>, the assembly files, the register access in \<open>riscv.h\<close>,
    \<open>start.c\<close> and \<open>main.c\<close>.  The disk is its effect on blocks; consoles are arguments; weak memory and fences are left out.
  \<^item> Parallel harts inside one kernel function: locks make the modelled functions atomic between their context switches, and waiting for
    a spin lock is \<open>None\<close>.
  \<^item> In \<open>server.c\<close> the sockets, the accept loop and the creation of threads (\<open>start_server\<close>) and the signal handler: calls into the
    operating system only.  In \<open>sh.c\<close> the prompt and the reading of lines; \<open>malloc\<close> does not fail there.
  \<^item> In \<open>vm.c\<close> and \<open>proc.c\<close> the kernel's own page table, \<open>forkret\<close> and \<open>procdump\<close>; in \<open>trap.c\<close> \<open>kerneltrap\<close> and the control registers.
  \<^item> The kernel's \<open>printf\<close>, the user library, the remaining user programs, the demonstrations, the tests and \<open>mkfs\<close>: output,
    allocation and scripts around the modelled calls.
  \<^item> Symbolic links, \<open>..\<close> and permissions in the file tree below the server.
\<close>

end
